(* ===== verification/Prelude.thy ===== *)
theory Prelude
  imports Main "HOL-Library.Word"
begin

text \<open>
  What every component of the model shares: the ways a C computation can stop without
  returning, the sequencing operator of the fallible operations, C byte blocks with their
  bounds checks (\<open>memcpy\<close>, \<open>strlen\<close>, \<open>strncpy\<close>, \<open>memset\<close>), the
  little-endian layout of integers, \<open>roundup\<close> of \<open>sys/param.h\<close>, and the
  parameters that stand for code outside the repository (\<open>calloc\<close>, \<open>ibv_reg_mr\<close>).
\<close>

section \<open>How a computation stops\<close>

text \<open>
  \<open>Exit n\<close> is a call of \<open>exit(n)\<close>; \<open>UB\<close> is a step whose behaviour C leaves
  undefined, or a loop that never ends (\<open>Endless\<close>). Every operation of the model
  returns \<open>Inl\<close> of such a stop or \<open>Inr\<close> of its results with the new state.
\<close>

datatype ub =
    Null_deref \<comment> \<open>a NULL pointer is dereferenced\<close>
  | Dangling \<comment> \<open>a pointer to a freed object is dereferenced\<close>
  | Out_of_bounds \<comment> \<open>an access leaves its object\<close>
  | Unterminated \<comment> \<open>a string function runs off a block with no NUL\<close>
  | Assert_failed \<comment> \<open>an \<open>assert\<close> of the code fails\<close>
  | Bad_unlock \<comment> \<open>a lock that is not held is released\<close>
  | Endless \<comment> \<open>a loop that never ends\<close>

datatype stop = Exit int | UB ub

definition bnd :: "'e + 'a \<Rightarrow> ('a \<Rightarrow> 'e + 'b) \<Rightarrow> 'e + 'b" where
  "bnd r f = (case r of Inl e \<Rightarrow> Inl e | Inr a \<Rightarrow> f a)"

lemma bnd_simps [simp]:
  "bnd (Inl e) f = Inl e"
  "bnd (Inr a) f = f a"
  by (simp_all add: bnd_def)

lemma bnd_cong [fundef_cong]:
  "r = r' \<Longrightarrow> (\<And>a. r' = Inr a \<Longrightarrow> f a = g a) \<Longrightarrow> bnd r f = bnd r' g"
  by (simp add: bnd_def split: sum.split)

lemma bnd_bnd: "bnd (bnd r f) g = bnd r (\<lambda>a. bnd (f a) g)"
  by (cases r) simp_all

lemma bnd_eq_Inr [simp]: "bnd r f = Inr b \<longleftrightarrow> (\<exists>a. r = Inr a \<and> f a = Inr b)"
  by (simp add: bnd_def split: sum.split)

lemma bnd_eq_Inl: "bnd r f = Inl e \<longleftrightarrow> r = Inl e \<or> (\<exists>a. r = Inr a \<and> f a = Inl e)"
  by (auto simp add: bnd_def split: sum.split)

text \<open>
  \<open>total_on\<close>-style statements use these two readings of a result: it never is undefined
  behaviour, and its returned part satisfies a predicate.
\<close>

definition safe :: "stop + 'a \<Rightarrow> bool" where
  "safe r \<longleftrightarrow> (\<forall>u. r \<noteq> Inl (UB u))"

lemma safe_simps [simp]:
  "safe (Inr a)" "safe (Inl (Exit n))" "\<not> safe (Inl (UB u))"
  by (simp_all add: safe_def)

lemma safe_bndI: "safe r \<Longrightarrow> (\<And>a. r = Inr a \<Longrightarrow> safe (f a)) \<Longrightarrow> safe (bnd r f)"
  by (cases r) (auto simp: safe_def)

text \<open>The dereference of a pointer that may be NULL.\<close>

definition not_null :: "'a option \<Rightarrow> stop + 'a" where
  "not_null r = (case r of None \<Rightarrow> Inl (UB Null_deref) | Some a \<Rightarrow> Inr a)"

section \<open>Bytes and C strings\<close>

type_synonym byte = char

type_synonym ptr = nat \<comment> \<open>the number of the allocation that returned it; NULL is \<open>None\<close>\<close>

abbreviation NUL :: byte where
  "NUL \<equiv> CHR 0x00"

definition zeros :: "nat \<Rightarrow> byte list" where
  "zeros n = replicate n NUL"

lemma length_zeros [simp]: "length (zeros n) = n"
  by (simp add: zeros_def)

lemma zeros_0 [simp]: "zeros 0 = []"
  by (simp add: zeros_def)

lemma nth_zeros [simp]: "i < n \<Longrightarrow> zeros n ! i = NUL"
  by (simp add: zeros_def)

lemma take_zeros [simp]: "take m (zeros n) = zeros (min m n)"
  by (simp add: zeros_def)

lemma drop_zeros [simp]: "drop m (zeros n) = zeros (n - m)"
  by (simp add: zeros_def)

lemma set_zeros: "0 < n \<Longrightarrow> NUL \<in> set (zeros n)"
  by (simp add: zeros_def)

text \<open>
  A pointer to bytes is the list of the bytes from it to the end of its object, so that
  \<open>p + n\<close> is \<open>drop n p\<close>. \<open>cstr\<close> is the string at a pointer: the bytes before the
  first NUL.
\<close>

definition cstr :: "byte list \<Rightarrow> byte list" where
  "cstr m = takeWhile (\<lambda>c. c \<noteq> NUL) m"

definition c_strlen :: "byte list \<Rightarrow> stop + nat" where
  "c_strlen m = (if NUL \<in> set m then Inr (length (cstr m)) else Inl (UB Unterminated))"

lemma cstr_Nil [simp]: "cstr [] = []"
  by (simp add: cstr_def)

lemma cstr_Cons: "cstr (c # cs) = (if c = NUL then [] else c # cstr cs)"
  by (simp add: cstr_def)

lemma cstr_no_NUL [simp]: "NUL \<notin> set (cstr m)"
  by (induction m) (auto simp: cstr_def)

lemma cstr_terminated [simp]: "NUL \<notin> set k \<Longrightarrow> cstr (k @ NUL # r) = k"
  by (induction k) (auto simp: cstr_def)

lemma cstr_id: "NUL \<notin> set k \<Longrightarrow> cstr k = k"
  by (induction k) (auto simp: cstr_def)

lemma cstr_cstr [simp]: "cstr (cstr m) = cstr m"
  by (rule cstr_id) simp

lemma c_strlen_terminated [simp]: "NUL \<notin> set k \<Longrightarrow> c_strlen (k @ NUL # r) = Inr (length k)"
  by (simp add: c_strlen_def)

lemma c_strlen_eq_Inr: "c_strlen m = Inr n \<longleftrightarrow> NUL \<in> set m \<and> n = length (cstr m)"
  by (auto simp: c_strlen_def)

lemma take_length_cstr [simp]: "take (length (cstr m)) m = cstr m"
  by (simp add: cstr_def takeWhile_eq_take [symmetric])

lemma length_cstr_le: "length (cstr m) \<le> length m"
  by (simp add: cstr_def length_takeWhile_le)

lemma cstr_split: "NUL \<in> set m \<Longrightarrow> \<exists>r. m = cstr m @ NUL # r"
proof (induction m)
  case (Cons c m)
  show ?case
  proof (cases "c = NUL")
    case True
    then show ?thesis by (simp add: cstr_Cons)
  next
    case False
    with Cons obtain r where "m = cstr m @ NUL # r" by auto
    then have "c # m = cstr (c # m) @ NUL # r" using False by (simp add: cstr_Cons)
    then show ?thesis by blast
  qed
qed simp

lemma length_cstr_less: "NUL \<in> set m \<Longrightarrow> length (cstr m) < length m"
  by (metis cstr_split length_append less_add_same_cancel1 list.size(4) zero_less_Suc add_Suc_right)

lemma cstr_append: "cstr (a @ b) = (if NUL \<in> set a then cstr a else a @ cstr b)"
  by (induction a) (auto simp: cstr_def)

lemma cstr_zeros [simp]: "cstr (zeros n) = []"
  by (cases n) (simp_all add: zeros_def cstr_def)

section \<open>Blocks of memory\<close>

definition splice :: "byte list \<Rightarrow> nat \<Rightarrow> byte list \<Rightarrow> byte list" where
  "splice m off bs = take off m @ bs @ drop (off + length bs) m"

text \<open>
  \<open>mem_read m off n\<close> are \<open>n\<close> bytes at offset \<open>off\<close> of block \<open>m\<close>, and
  \<open>mem_write m off bs\<close> stores \<open>bs\<close> there (\<open>memcpy\<close>, \<open>memset\<close>); both are
  undefined when the range leaves the block.
\<close>

definition mem_read :: "byte list \<Rightarrow> nat \<Rightarrow> nat \<Rightarrow> stop + byte list" where
  "mem_read m off n =
     (if off + n \<le> length m then Inr (take n (drop off m)) else Inl (UB Out_of_bounds))"

definition mem_write :: "byte list \<Rightarrow> nat \<Rightarrow> byte list \<Rightarrow> stop + byte list" where
  "mem_write m off bs =
     (if off + length bs \<le> length m then Inr (splice m off bs) else Inl (UB Out_of_bounds))"

text \<open>
  \<open>strncpy(dst, src, n)\<close> writes exactly \<open>n\<close> bytes: the string at \<open>src\<close>, cut at
  \<open>n\<close>, then NUL bytes. It is undefined when \<open>dst\<close> is shorter than \<open>n\<close> or when
  \<open>src\<close> ends before a NUL and before \<open>n\<close> bytes.
\<close>

definition c_strncpy :: "byte list \<Rightarrow> byte list \<Rightarrow> nat \<Rightarrow> stop + byte list" where
  "c_strncpy dst src n =
     (if n \<le> length dst \<and> (n \<le> length src \<or> NUL \<in> set src)
      then (let k = cstr (take n src) in Inr (splice dst 0 (k @ zeros (n - length k))))
      else Inl (UB Out_of_bounds))"

lemma length_splice [simp]: "off + length bs \<le> length m \<Longrightarrow> length (splice m off bs) = length m"
  by (simp add: splice_def)

lemma nth_splice:
  "off + length bs \<le> length m \<Longrightarrow> i < length m \<Longrightarrow>
   splice m off bs ! i = (if off \<le> i \<and> i < off + length bs then bs ! (i - off) else m ! i)"
  by (auto simp: splice_def nth_append min_def)

lemma take_splice_same [simp]:
  "off + length bs \<le> length m \<Longrightarrow> take (length bs) (drop off (splice m off bs)) = bs"
  by (simp add: splice_def)

lemma drop_splice_prefix:
  "off + length bs \<le> length m \<Longrightarrow> drop off (splice m off bs) = bs @ drop (off + length bs) m"
  by (simp add: splice_def)

lemma splice_outside:
  assumes "off + length bs \<le> length m" and "o' + n \<le> off \<or> off + length bs \<le> o'"
  shows "take n (drop o' (splice m off bs)) = take n (drop o' m)"
proof (rule nth_equalityI)
  show "length (take n (drop o' (splice m off bs))) = length (take n (drop o' m))"
    using assms(1) by simp
next
  fix i
  assume "i < length (take n (drop o' (splice m off bs)))"
  then have i: "i < n" "o' + i < length m" using assms(1) by auto
  then have "splice m off bs ! (o' + i) = m ! (o' + i)"
    using assms by (auto simp: nth_splice)
  then show "take n (drop o' (splice m off bs)) ! i = take n (drop o' m) ! i"
    using i assms(1) by simp
qed

lemma splice_append:
  "off + length a + length b \<le> length m \<Longrightarrow>
   splice (splice m off a) (off + length a) b = splice m off (a @ b)"
  by (cases a) (auto simp: splice_def min_def ac_simps)

lemma mem_read_write_same:
  "mem_write m off bs = Inr m' \<Longrightarrow> mem_read m' off (length bs) = Inr bs"
  by (auto simp: mem_write_def mem_read_def split: if_splits)

lemma mem_write_length: "mem_write m off bs = Inr m' \<Longrightarrow> length m' = length m"
  by (auto simp: mem_write_def split: if_splits)

lemma mem_read_write_outside:
  "mem_write m off bs = Inr m' \<Longrightarrow> o' + n \<le> off \<or> off + length bs \<le> o' \<Longrightarrow>
   mem_read m' o' n = mem_read m o' n"
  by (auto simp: mem_write_def mem_read_def splice_outside split: if_splits)

lemma c_strncpy_string:
  "NUL \<notin> set k \<Longrightarrow> length k \<le> n \<Longrightarrow> n \<le> length dst \<Longrightarrow>
   c_strncpy dst (k @ NUL # r) n = Inr (k @ zeros (n - length k) @ drop n dst)"
  by (auto simp: c_strncpy_def splice_def cstr_append take_Cons' cstr_Cons Let_def)

section \<open>Little-endian integers and roundup\<close>

fun le_bytes :: "nat \<Rightarrow> nat \<Rightarrow> byte list" where
  "le_bytes 0 x = []"
| "le_bytes (Suc n) x = char_of (x mod 256) # le_bytes n (x div 256)"

fun le_nat :: "byte list \<Rightarrow> nat" where
  "le_nat [] = 0"
| "le_nat (b # bs) = of_char b + 256 * le_nat bs"

lemma length_le_bytes [simp]: "length (le_bytes n x) = n"
  by (induction n arbitrary: x) auto

lemma le_nat_le_bytes: "le_nat (le_bytes n x) = x mod 256 ^ n"
  by (induction n arbitrary: x) (simp_all add: mod_mult2_eq)

lemma le_nat_le_bytes_word:
  "LENGTH('a) = 8 * n \<Longrightarrow> le_nat (le_bytes n (unat (w :: 'a::len word))) = unat w"
proof -
  assume "LENGTH('a) = 8 * n"
  then have "(2::nat) ^ LENGTH('a) = 256 ^ n" by (simp add: power_mult)
  moreover have "unat w < 2 ^ LENGTH('a)" by (rule unsigned_less)
  ultimately show ?thesis by (simp add: le_nat_le_bytes)
qed

lemma unat_of_nat32: "n < 2 ^ 32 \<Longrightarrow> unat (of_nat n :: 32 word) = n"
  by (simp add: unat_of_nat)

lemma unat_of_nat64: "n < 2 ^ 64 \<Longrightarrow> unat (of_nat n :: 64 word) = n"
  by (simp add: unat_of_nat)

lemma sint_small:
  "m < 2 ^ 31 \<Longrightarrow> sint (of_nat m :: 32 word) = int m"
  using signed_take_bit_int_eq_self [of 31 "int m"] by (simp add: sint_sbintrunc' signed_of_nat)

lemma uint_not_minus1 [simp]: "uint w \<noteq> - 1" "- 1 \<noteq> uint w"
  using uint_ge_0 [of w] by linarith+

text \<open>\<open>roundup(x, y)\<close> of \<open>sys/param.h\<close>: the least multiple of \<open>y\<close> that is at least \<open>x\<close>.\<close>

definition roundup :: "nat \<Rightarrow> nat \<Rightarrow> nat" where
  "roundup x y = (x + (y - 1)) div y * y"

lemma roundup_ge: "0 < y \<Longrightarrow> x \<le> roundup x y"
proof -
  assume y: "0 < y"
  have "(x + (y - 1)) mod y \<le> y - 1"
    using y mod_less_divisor [of y "x + (y - 1)"] by linarith
  moreover have "(x + (y - 1)) div y * y + (x + (y - 1)) mod y = x + (y - 1)"
    by (rule div_mult_mod_eq)
  ultimately show ?thesis unfolding roundup_def by linarith
qed

lemma roundup_dvd: "y dvd roundup x y"
  by (simp add: roundup_def)

section \<open>The environment\<close>

text \<open>
  Code outside the repository is a parameter. \<open>calloc_ok n\<close> tells whether the allocation
  number \<open>n\<close> of the table of entries succeeds, \<open>q_calloc_ok n\<close> the same for the pending
  requests, \<open>value_calloc_ok n\<close> whether the first value of a key that is asked for can be allocated
  when there are \<open>n\<close> entries, \<open>reg_mr_ok n\<close> whether the registration number \<open>n\<close> does, \<open>rkey_of n\<close> is the remote key of registration \<open>n\<close>, and
  \<open>page_size\<close> is \<open>sysconf(_SC_PAGESIZE)\<close>.
\<close>

record world =
  page_size :: nat
  calloc_ok :: "nat \<Rightarrow> bool"
  q_calloc_ok :: "nat \<Rightarrow> bool"
  value_calloc_ok :: "nat \<Rightarrow> bool"
  reg_mr_ok :: "nat \<Rightarrow> bool"
  rkey_of :: "nat \<Rightarrow> 32 word"

definition plentiful :: "world \<Rightarrow> bool" where
  "plentiful W \<longleftrightarrow>
     0 < page_size W \<and> (\<forall>n. calloc_ok W n) \<and> (\<forall>n. q_calloc_ok W n) \<and> (\<forall>n. value_calloc_ok W n) \<and> (\<forall>n. reg_mr_ok W n)"

definition linux_world :: world where
  "linux_world =
     \<lparr>page_size = 4096, calloc_ok = (\<lambda>_. True), q_calloc_ok = (\<lambda>_. True), value_calloc_ok = (\<lambda>_. True),
      reg_mr_ok = (\<lambda>_. True), rkey_of = of_nat\<rparr>"

lemma plentiful_linux [simp]: "plentiful linux_world"
  by (simp add: plentiful_def linux_world_def)

end
