(* ===== verification/Constants.thy ===== *)
theory Constants
  imports Prelude
begin

unbundle bit_operations_syntax

text \<open>
  \<open>common/constants.h\<close>: the sizes, the opcodes and response codes, the message headers of
  both directions with their layout in a buffer (LP64, little-endian, padding bytes written as
  zero and ignored on reading), and the work-request id union \<open>wr_id_info\<close>.
\<close>

section \<open>Sizes\<close>

definition MAX_CLIENTS_SUPPORTED :: nat where [simp]: "MAX_CLIENTS_SUPPORTED = 4"
definition WC_BATCH :: nat where [simp]: "WC_BATCH = 50"
definition SERVER_WC_BATCH :: nat where [simp]: "SERVER_WC_BATCH = 200"
definition SERVER_NUM_RECV_BUFFS :: nat where [simp]: "SERVER_NUM_RECV_BUFFS = 4000"
definition SERVER_NUM_SEND_BUFFS :: nat where [simp]: "SERVER_NUM_SEND_BUFFS = 1000"
definition CLIENT_HEADER_LEN :: nat where [simp]: "CLIENT_HEADER_LEN = 24"
definition SERVER_HEADER_LEN :: nat where [simp]: "SERVER_HEADER_LEN = 40"
definition BUFFER_SIZE :: nat where [simp]: "BUFFER_SIZE = 4096"

text \<open>The two quotas are \<open>double\<close> expressions in the code, with an integral value.\<close>

definition MAX_RECV_BUFFS :: int where
  [simp]: "MAX_RECV_BUFFS = int (SERVER_NUM_RECV_BUFFS div MAX_CLIENTS_SUPPORTED)"

definition MAX_SEND_BUFFS :: int where
  [simp]: "MAX_SEND_BUFFS = int (SERVER_NUM_SEND_BUFFS div MAX_CLIENTS_SUPPORTED)"

definition CLIENT_REQUEST_PAYLOAD_LEN :: nat where
  [simp]: "CLIENT_REQUEST_PAYLOAD_LEN = BUFFER_SIZE - CLIENT_HEADER_LEN"

definition SERVER_RESPONSE_PAYLOAD_LEN :: nat where
  [simp]: "SERVER_RESPONSE_PAYLOAD_LEN = BUFFER_SIZE - SERVER_HEADER_LEN"

section \<open>Codes\<close>

text \<open>
  An enum object of the code can hold any 32-bit value, so the header fields are words;
  \<open>opcode_of\<close> and \<open>response_of\<close> are the case labels a \<open>switch\<close> finds, \<open>None\<close>
  its default.
\<close>

datatype opcode_t =
    SET_REQUEST_OPCODE
  | GET_REQUEST_OPCODE
  | RDMA_SET_REQUEST_OPCODE
  | RDMA_GET_REQUEST_OPCODE
  | RDMA_FIN_CLIENT
  | CLIENT_SHUTDOWN_OPCODE

fun opcode_val :: "opcode_t \<Rightarrow> 32 word" where
  "opcode_val SET_REQUEST_OPCODE = 1"
| "opcode_val GET_REQUEST_OPCODE = 2"
| "opcode_val RDMA_SET_REQUEST_OPCODE = 3"
| "opcode_val RDMA_GET_REQUEST_OPCODE = 4"
| "opcode_val RDMA_FIN_CLIENT = 5"
| "opcode_val CLIENT_SHUTDOWN_OPCODE = 6"

definition opcode_of :: "32 word \<Rightarrow> opcode_t option" where
  "opcode_of w =
     (if w = 1 then Some SET_REQUEST_OPCODE
      else if w = 2 then Some GET_REQUEST_OPCODE
      else if w = 3 then Some RDMA_SET_REQUEST_OPCODE
      else if w = 4 then Some RDMA_GET_REQUEST_OPCODE
      else if w = 5 then Some RDMA_FIN_CLIENT
      else if w = 6 then Some CLIENT_SHUTDOWN_OPCODE
      else None)"

datatype response_t =
    GET_RESPONSE
  | SET_RESPONSE
  | RDMA_RKEY_SET
  | RDMA_RKEY_GET
  | RDMA_FIN_SERVER
  | SERVER_SHUTDOWN

fun response_val :: "response_t \<Rightarrow> 32 word" where
  "response_val GET_RESPONSE = 1"
| "response_val SET_RESPONSE = 2"
| "response_val RDMA_RKEY_SET = 3"
| "response_val RDMA_RKEY_GET = 4"
| "response_val RDMA_FIN_SERVER = 5"
| "response_val SERVER_SHUTDOWN = 6"

definition response_of :: "32 word \<Rightarrow> response_t option" where
  "response_of w =
     (if w = 1 then Some GET_RESPONSE
      else if w = 2 then Some SET_RESPONSE
      else if w = 3 then Some RDMA_RKEY_SET
      else if w = 4 then Some RDMA_RKEY_GET
      else if w = 5 then Some RDMA_FIN_SERVER
      else if w = 6 then Some SERVER_SHUTDOWN
      else None)"

lemma opcode_of_val [simp]: "opcode_of (opcode_val c) = Some c"
  by (cases c) (simp_all add: opcode_of_def)

lemma response_of_val [simp]: "response_of (response_val c) = Some c"
  by (cases c) (simp_all add: response_of_def)

section \<open>Headers\<close>

record client_request_headers_t =
  opcode :: "32 word"
  tid :: "16 word"
  keylen :: "32 word"
  buflen :: "64 word"

record rkey_info_t =
  rkey :: "32 word"
  raddr :: "64 word"

record server_response_headers_t =
  response :: "32 word"
  rtid :: "16 word"
  rkeylen :: "32 word"
  rbuflen :: "64 word"
  rkey_info :: rkey_info_t

text \<open>The object representation of the two headers, and the fields read back from it.\<close>

definition enc_client_headers :: "client_request_headers_t \<Rightarrow> byte list" where
  "enc_client_headers h =
     le_bytes 4 (unat (opcode h)) @ le_bytes 2 (unat (tid h)) @ zeros 2 @
     le_bytes 4 (unat (keylen h)) @ zeros 4 @ le_bytes 8 (unat (buflen h))"

definition dec_client_headers :: "byte list \<Rightarrow> client_request_headers_t" where
  "dec_client_headers m =
     \<lparr>opcode = of_nat (le_nat (take 4 m)),
      tid = of_nat (le_nat (take 2 (drop 4 m))),
      keylen = of_nat (le_nat (take 4 (drop 8 m))),
      buflen = of_nat (le_nat (take 8 (drop 16 m)))\<rparr>"

definition enc_server_headers :: "server_response_headers_t \<Rightarrow> byte list" where
  "enc_server_headers h =
     le_bytes 4 (unat (response h)) @ le_bytes 2 (unat (rtid h)) @ zeros 2 @
     le_bytes 4 (unat (rkeylen h)) @ zeros 4 @ le_bytes 8 (unat (rbuflen h)) @
     le_bytes 4 (unat (rkey (rkey_info h))) @ zeros 4 @ le_bytes 8 (unat (raddr (rkey_info h)))"

definition dec_server_headers :: "byte list \<Rightarrow> server_response_headers_t" where
  "dec_server_headers m =
     \<lparr>response = of_nat (le_nat (take 4 m)),
      rtid = of_nat (le_nat (take 2 (drop 4 m))),
      rkeylen = of_nat (le_nat (take 4 (drop 8 m))),
      rbuflen = of_nat (le_nat (take 8 (drop 16 m))),
      rkey_info = \<lparr>rkey = of_nat (le_nat (take 4 (drop 24 m))),
                   raddr = of_nat (le_nat (take 8 (drop 32 m)))\<rparr>\<rparr>"

lemma length_enc_client_headers [simp]: "length (enc_client_headers h) = CLIENT_HEADER_LEN"
  by (simp add: enc_client_headers_def)

lemma length_enc_server_headers [simp]: "length (enc_server_headers h) = SERVER_HEADER_LEN"
  by (simp add: enc_server_headers_def)

lemma dec_enc_client: "dec_client_headers (enc_client_headers h @ r) = h"
  by (simp add: dec_client_headers_def enc_client_headers_def le_nat_le_bytes_word
      del: le_bytes.simps)

lemma dec_enc_server: "dec_server_headers (enc_server_headers h @ r) = h"
  by (simp add: dec_server_headers_def enc_server_headers_def le_nat_le_bytes_word
      del: le_bytes.simps)

section \<open>Work request ids\<close>

text \<open>
  \<open>union wr_id_info\<close>: the buffer number or transaction id in the low half of the 64-bit
  value, the kind of the request in the high half.
\<close>

record wr_data =
  wr_id :: "32 word"
  wr_type :: "32 word"

datatype wrid_kind = RECV_WRID | SEND_WRID | RDMA_READ_WRID | RDMA_WRITE_WRID

fun wrid_val :: "wrid_kind \<Rightarrow> 32 word" where
  "wrid_val RECV_WRID = 1"
| "wrid_val SEND_WRID = 2"
| "wrid_val RDMA_READ_WRID = 3"
| "wrid_val RDMA_WRITE_WRID = 4"

definition wrid_of :: "32 word \<Rightarrow> wrid_kind option" where
  "wrid_of w =
     (if w = 1 then Some RECV_WRID
      else if w = 2 then Some SEND_WRID
      else if w = 3 then Some RDMA_READ_WRID
      else if w = 4 then Some RDMA_WRITE_WRID
      else None)"

lemma wrid_of_val [simp]: "wrid_of (wrid_val k) = Some k"
  by (cases k) (simp_all add: wrid_of_def)

definition wr_value :: "wr_data \<Rightarrow> 64 word" where
  "wr_value d = ucast (wr_id d) OR push_bit 32 (ucast (wr_type d))"

definition wr_info :: "64 word \<Rightarrow> wr_data" where
  "wr_info v = \<lparr>wr_id = ucast v, wr_type = ucast (drop_bit 32 v)\<rparr>"

lemma wr_info_value: "wr_info (wr_value d) = d"
proof -
  have "ucast (ucast (wr_id d) OR push_bit 32 (ucast (wr_type d)) :: 64 word) = wr_id d"
    by (rule bit_word_eqI) (auto simp: bit_simps)
  moreover have "ucast (drop_bit 32 (ucast (wr_id d) OR push_bit 32 (ucast (wr_type d)) :: 64 word))
      = wr_type d"
    by (rule bit_word_eqI) (auto simp: bit_simps dest: bit_imp_le_length)
  ultimately show ?thesis by (simp add: wr_info_def wr_value_def)
qed

text \<open>\<open>struct ibv_qp\<close>: its address and its number; the rest is the verbs library's.\<close>

record ibv_qp =
  qp_ptr :: ptr
  qp_num :: "32 word"

end
