(* ===== verification/Buffers.thy ===== *)
theory Buffers
  imports Constants
begin

text \<open>
  \<open>common/buffers_management.c\<close> on \<open>struct kv_context\<close>: the receive and the send area
  are each one block of fixed-size buffers, with a flag per buffer and a rotating search for a
  free one. The contract of such a ring of slots is the locale \<open>slot_ring\<close>, interpreted
  for both directions.
\<close>

section \<open>The context\<close>

text \<open>
  The fields the program itself reads or writes. Handles that are only passed on to the verbs
  library (device context, channel, protection domain, completion queue) are left out.
\<close>

record kv_context =
  in_buf :: "byte list"
  out_buf :: "byte list"
  max_recv_buff :: int
  curr_recv_buff :: int
  max_inline_data :: "32 word"
  last_used_recv_buff :: nat
  last_used_send_buff :: nat
  in_use_recv :: "bool list"
  in_use_send :: "bool list"
  ctx_qp :: "ibv_qp option"

text \<open>A context as \<open>calloc\<close> and the two buffer allocations leave it.\<close>

definition blank_context :: kv_context where
  "blank_context =
     \<lparr>in_buf = zeros (SERVER_NUM_RECV_BUFFS * BUFFER_SIZE),
      out_buf = zeros (SERVER_NUM_SEND_BUFFS * BUFFER_SIZE),
      max_recv_buff = int SERVER_NUM_RECV_BUFFS, curr_recv_buff = 0, max_inline_data = 0,
      last_used_recv_buff = 0, last_used_send_buff = 0,
      in_use_recv = replicate SERVER_NUM_RECV_BUFFS False,
      in_use_send = replicate SERVER_NUM_SEND_BUFFS False,
      ctx_qp = None\<rparr>"

definition ctx_wf :: "kv_context \<Rightarrow> bool" where
  "ctx_wf c \<longleftrightarrow>
     length (in_buf c) = SERVER_NUM_RECV_BUFFS * BUFFER_SIZE \<and>
     length (out_buf c) = SERVER_NUM_SEND_BUFFS * BUFFER_SIZE \<and>
     length (in_use_recv c) = SERVER_NUM_RECV_BUFFS \<and>
     length (in_use_send c) = SERVER_NUM_SEND_BUFFS \<and>
     last_used_recv_buff c < SERVER_NUM_RECV_BUFFS \<and>
     last_used_send_buff c < SERVER_NUM_SEND_BUFFS"

lemma ctx_wf_blank [simp]: "ctx_wf blank_context"
  by (simp add: ctx_wf_def blank_context_def)

section \<open>Addresses\<close>

text \<open>The pointer \<open>buf + BUFFER_SIZE * buff_id\<close>, as an offset into the area.\<close>

definition get_send_buffer :: "nat \<Rightarrow> nat" where
  "get_send_buffer buff_id = BUFFER_SIZE * buff_id"

definition get_recv_buffer :: "nat \<Rightarrow> nat" where
  "get_recv_buffer buff_id = BUFFER_SIZE * buff_id"

text \<open>Different buffers of an area do not overlap, so a write inside one leaves the others.\<close>

lemma buffer_disjoint:
  "i \<noteq> j \<Longrightarrow> BUFFER_SIZE * i + BUFFER_SIZE \<le> BUFFER_SIZE * j \<or>
   BUFFER_SIZE * j + BUFFER_SIZE \<le> BUFFER_SIZE * i"
  by (cases i j rule: linorder_cases) auto

section \<open>Flags\<close>

definition set_flag :: "bool list \<Rightarrow> int \<Rightarrow> bool \<Rightarrow> stop + bool list" where
  "set_flag u i b =
     (if 0 \<le> i \<and> i < int (length u) then Inr (u[nat i := b]) else Inl (UB Out_of_bounds))"

definition release_send_buffer :: "kv_context \<Rightarrow> int \<Rightarrow> stop + kv_context" where
  "release_send_buffer c buff_id =
     bnd (set_flag (in_use_send c) buff_id False) (\<lambda>u. Inr (c\<lparr>in_use_send := u\<rparr>))"

definition acquire_send_buffer :: "kv_context \<Rightarrow> int \<Rightarrow> stop + kv_context" where
  "acquire_send_buffer c buff_id =
     bnd (set_flag (in_use_send c) buff_id True) (\<lambda>u. Inr (c\<lparr>in_use_send := u\<rparr>))"

definition release_receive_buffer :: "kv_context \<Rightarrow> int \<Rightarrow> stop + kv_context" where
  "release_receive_buffer c buff_id =
     bnd (set_flag (in_use_recv c) buff_id False) (\<lambda>u. Inr (c\<lparr>in_use_recv := u\<rparr>))"

definition acquire_receive_buffer :: "kv_context \<Rightarrow> int \<Rightarrow> stop + kv_context" where
  "acquire_receive_buffer c buff_id =
     bnd (set_flag (in_use_recv c) buff_id True) (\<lambda>u. Inr (c\<lparr>in_use_recv := u\<rparr>))"

text \<open>\<open>free_send_buffer\<close> clears the buffer before it releases it.\<close>

definition free_send_buffer :: "kv_context \<Rightarrow> int \<Rightarrow> stop + kv_context" where
  "free_send_buffer c buff_id =
     (if buff_id < 0 then Inl (UB Out_of_bounds)
      else bnd (mem_write (out_buf c) (get_send_buffer (nat buff_id)) (zeros BUFFER_SIZE))
        (\<lambda>m. release_send_buffer (c\<lparr>out_buf := m\<rparr>) buff_id))"

section \<open>The search for a free buffer\<close>

text \<open>
  The loop \<open>while (in_use[cur]) { cur = (cur + 1) % N; if (cur == last) return -1; }\<close> on
  an array of \<open>N\<close> flags. It starts at \<open>cur = start\<close>, so the test of \<open>start\<close> is the
  bounds check of its first round.
\<close>

function free_scan :: "bool list \<Rightarrow> nat \<Rightarrow> nat \<Rightarrow> stop + nat option" where
  "free_scan u start cur =
     (if length u \<le> cur \<or> length u \<le> start then Inl (UB Out_of_bounds)
      else if \<not> u ! cur then Inr (Some cur)
      else let c = Suc cur mod length u
           in if c = start then Inr None else free_scan u start c)"
  by pat_completeness auto
termination
proof (relation "measure (\<lambda>(u, start, cur). if cur < start then start - cur else start + length u - cur)",
    goal_cases)
  case 1
  show ?case by simp
next
  case (2 u start cur c)
  then have "cur < length u" "start < length u" "c = Suc cur mod length u" "c \<noteq> start"
    by auto
  then show ?case
    by (cases "Suc cur = length u") auto
qed

declare free_scan.simps [simp del]

text \<open>The reference: the first free slot in cyclic order from \<open>start\<close>.\<close>

definition first_free :: "bool list \<Rightarrow> nat \<Rightarrow> nat option" where
  "first_free u start =
     find (\<lambda>i. \<not> u ! i) (map (\<lambda>j. (start + j) mod length u) [0..<length u])"

lemma free_scan_from:
  assumes "start < length u" and "k < length u"
  shows "free_scan u start ((start + k) mod length u) =
     Inr (find (\<lambda>i. \<not> u ! i) (map (\<lambda>j. (start + j) mod length u) [k..<length u]))"
  using assms(2)
proof (induction "length u - k" arbitrary: k rule: less_induct)
  case less
  let ?n = "length u" and ?i = "(start + k) mod length u"
  have i: "?i < ?n" using assms(1) by (intro mod_less_divisor) linarith
  have upt: "[k..<?n] = k # [Suc k..<?n]" using less.prems by (simp add: upt_conv_Cons)
  have next_i: "Suc ?i mod ?n = (start + Suc k) mod ?n" by (simp add: mod_Suc_eq)
  show ?case
  proof (cases "Suc k = ?n")
    case True
    then have "(start + Suc k) mod ?n = start" using assms(1) by simp
    with True i show ?thesis
      using assms(1) by (simp add: free_scan.simps [of u start ?i] upt next_i Let_def)
  next
    case False
    with less.prems have k: "Suc k < ?n" by simp
    have "(start + Suc k) mod ?n \<noteq> start"
    proof (cases "start + Suc k < ?n")
      case False
      then have "(start + Suc k) mod ?n = start + Suc k - ?n"
        using assms(1) k by (simp add: mod_if)
      with False k show ?thesis by linarith
    qed simp
    moreover have "free_scan u start ((start + Suc k) mod ?n) =
        Inr (find (\<lambda>i. \<not> u ! i) (map (\<lambda>j. (start + j) mod ?n) [Suc k..<?n]))"
      using k by (intro less.hyps) auto
    ultimately show ?thesis
      using i assms(1) by (simp add: free_scan.simps [of u start ?i] upt next_i Let_def)
  qed
qed

lemma free_scan_first_free: "start < length u \<Longrightarrow> free_scan u start start = Inr (first_free u start)"
  using free_scan_from [of start u 0] by (cases u) (auto simp: first_free_def)

lemma first_free_Some:
  "first_free u start = Some i \<Longrightarrow> i < length u \<and> \<not> u ! i"
  by (auto simp: first_free_def find_Some_iff intro!: mod_less_divisor)

lemma rotation_onto:
  assumes "start < n" and "i < n"
  shows "\<exists>j < n. (start + j) mod n = (i::nat)"
proof (cases "start \<le> i")
  case True
  then show ?thesis using assms by (intro exI [of _ "i - start"]) auto
next
  case False
  then have "(start + (n + i - start)) mod n = i" using assms by simp
  then show ?thesis using assms False by (intro exI [of _ "n + i - start"]) auto
qed

lemma first_free_None:
  assumes "start < length u"
  shows "first_free u start = None \<longleftrightarrow> (\<forall>i < length u. u ! i)"
proof -
  have "(\<forall>i < length u. u ! i) \<longleftrightarrow> (\<forall>j < length u. u ! ((start + j) mod length u))"
    using rotation_onto [OF assms] assms
    by (metis mod_less_divisor order_le_less_trans zero_le)
  then show ?thesis by (auto simp: first_free_def find_None_iff)
qed

definition get_free_recv_idx :: "kv_context \<Rightarrow> stop + int \<times> kv_context" where
  "get_free_recv_idx c =
     bnd (free_scan (in_use_recv c) (last_used_recv_buff c) (last_used_recv_buff c))
       (\<lambda>r. case r of
              None \<Rightarrow> Inr (- 1, c)
            | Some i \<Rightarrow> Inr (int i, c\<lparr>last_used_recv_buff := i\<rparr>))"

definition get_free_send_idx :: "kv_context \<Rightarrow> stop + int \<times> kv_context" where
  "get_free_send_idx c =
     bnd (free_scan (in_use_send c) (last_used_send_buff c) (last_used_send_buff c))
       (\<lambda>r. case r of
              None \<Rightarrow> Inr (- 1, c)
            | Some i \<Rightarrow> Inr (int i, c\<lparr>last_used_send_buff := i\<rparr>))"

section \<open>The contract of a ring of slots\<close>

lemma count_list_update:
  "i < length u \<Longrightarrow> count_list (u[i := x]) a + (if u ! i = a then 1 else 0) =
     count_list u a + (if x = a then 1 else 0)"
proof (induction u arbitrary: i)
  case (Cons y u)
  show ?case
  proof (cases i)
    case (Suc j)
    then show ?thesis using Cons.IH [of j] Cons.prems by auto
  qed auto
qed simp

lemma count_False_pos: "0 < count_list u False \<longleftrightarrow> (\<exists>i < length u. \<not> u ! i)"
  by (metis (full_types) count_list_0_iff in_set_conv_nth neq0_conv)

text \<open>
  What the users of a ring rely on: \<open>pick\<close> returns a free slot or -1 when there is none and
  changes no flag, \<open>occupy\<close> and \<open>vacate\<close> set one flag. \<open>spare\<close> counts the free
  slots.
\<close>

locale slot_ring =
  fixes pick :: "'c \<Rightarrow> stop + int \<times> 'c"
    and occupy :: "'c \<Rightarrow> int \<Rightarrow> stop + 'c"
    and vacate :: "'c \<Rightarrow> int \<Rightarrow> stop + 'c"
    and flags :: "'c \<Rightarrow> bool list"
    and wf :: "'c \<Rightarrow> bool"
  assumes pick_some: "wf c \<Longrightarrow> \<exists>i < length (flags c). \<not> flags c ! i \<Longrightarrow>
      \<exists>i c'. pick c = Inr (int i, c') \<and> i < length (flags c) \<and> \<not> flags c ! i \<and>
        flags c' = flags c \<and> wf c'"
    and pick_none: "wf c \<Longrightarrow> \<forall>i < length (flags c). flags c ! i \<Longrightarrow> pick c = Inr (- 1, c)"
    and occupy_slot: "wf c \<Longrightarrow> i < length (flags c) \<Longrightarrow>
      \<exists>c'. occupy c (int i) = Inr c' \<and> flags c' = (flags c)[i := True] \<and> wf c'"
    and vacate_slot: "wf c \<Longrightarrow> i < length (flags c) \<Longrightarrow>
      \<exists>c'. vacate c (int i) = Inr c' \<and> flags c' = (flags c)[i := False] \<and> wf c'"
begin

abbreviation spare :: "'c \<Rightarrow> nat" where
  "spare c \<equiv> count_list (flags c) False"

lemma pick_cases:
  assumes "wf c"
  obtains (full) "spare c = 0" "pick c = Inr (- 1, c)"
  | (slot) i c' where "0 < spare c" "pick c = Inr (int i, c')" "i < length (flags c)"
      "\<not> flags c ! i" "flags c' = flags c" "wf c'"
proof (cases "\<exists>i < length (flags c). \<not> flags c ! i")
  case True
  with pick_some [OF assms] show ?thesis using slot count_False_pos by metis
next
  case False
  then have "spare c = 0" using count_False_pos [of "flags c"] by blast
  with False pick_none [OF assms] show ?thesis using full by blast
qed

lemma pick_occupy:
  assumes "wf c" and "pick c = Inr (i, c1)" and "0 \<le> i"
  obtains c2 where "occupy c1 i = Inr c2" "wf c2" "flags c2 = (flags c)[nat i := True]"
    "nat i < length (flags c)" "\<not> flags c ! nat i" "spare c = Suc (spare c2)"
  using assms(1)
proof (cases rule: pick_cases)
  case full
  with assms show ?thesis by simp
next
  case (slot j c')
  with assms(2) have ij: "i = int j" "c1 = c'" by auto
  obtain c2 where c2: "occupy c' (int j) = Inr c2" "flags c2 = (flags c')[j := True]" "wf c2"
    using occupy_slot [of c' j] slot by auto
  have "spare c = Suc (spare c2)"
    using count_list_update [of j "flags c" True False] slot c2 by simp
  with c2 slot ij that show ?thesis by simp
qed

lemma vacate_spare:
  assumes "wf c" and "i < length (flags c)" and "flags c ! i"
  obtains c' where "vacate c (int i) = Inr c'" "wf c'" "flags c' = (flags c)[i := False]"
    "spare c' = Suc (spare c)"
proof -
  obtain c' where c': "vacate c (int i) = Inr c'" "flags c' = (flags c)[i := False]" "wf c'"
    using vacate_slot [OF assms(1,2)] by blast
  then have "spare c' = Suc (spare c)"
    using count_list_update [OF assms(2), of False False] assms(3) by simp
  with c' that show ?thesis by blast
qed

end

section \<open>Both directions are rings\<close>

lemma get_free_recv_idx_eq:
  "ctx_wf c \<Longrightarrow> get_free_recv_idx c =
     (case first_free (in_use_recv c) (last_used_recv_buff c) of
        None \<Rightarrow> Inr (- 1, c)
      | Some i \<Rightarrow> Inr (int i, c\<lparr>last_used_recv_buff := i\<rparr>))"
  by (simp add: get_free_recv_idx_def ctx_wf_def free_scan_first_free split: option.split)

lemma get_free_send_idx_eq:
  "ctx_wf c \<Longrightarrow> get_free_send_idx c =
     (case first_free (in_use_send c) (last_used_send_buff c) of
        None \<Rightarrow> Inr (- 1, c)
      | Some i \<Rightarrow> Inr (int i, c\<lparr>last_used_send_buff := i\<rparr>))"
  by (simp add: get_free_send_idx_def ctx_wf_def free_scan_first_free split: option.split)

lemmas flag_ops =
  acquire_send_buffer_def release_send_buffer_def
  acquire_receive_buffer_def release_receive_buffer_def set_flag_def

interpretation recv_ring:
  slot_ring get_free_recv_idx acquire_receive_buffer release_receive_buffer in_use_recv ctx_wf
proof unfold_locales
  fix c assume wf: "ctx_wf c" and "\<exists>i < length (in_use_recv c). \<not> in_use_recv c ! i"
  then obtain i where "first_free (in_use_recv c) (last_used_recv_buff c) = Some i"
    using first_free_None [of "last_used_recv_buff c" "in_use_recv c"]
    by (auto simp: ctx_wf_def)
  with wf show "\<exists>i c'. get_free_recv_idx c = Inr (int i, c') \<and> i < length (in_use_recv c) \<and>
      \<not> in_use_recv c ! i \<and> in_use_recv c' = in_use_recv c \<and> ctx_wf c'"
    using first_free_Some [of "in_use_recv c" "last_used_recv_buff c" i]
    by (auto simp: get_free_recv_idx_eq) (auto simp: ctx_wf_def)
next
  fix c assume "ctx_wf c" and "\<forall>i < length (in_use_recv c). in_use_recv c ! i"
  then show "get_free_recv_idx c = Inr (- 1, c)"
    using first_free_None [of "last_used_recv_buff c" "in_use_recv c"]
    by (auto simp: get_free_recv_idx_eq) (auto simp: ctx_wf_def)
qed (auto simp: flag_ops ctx_wf_def)

interpretation send_ring:
  slot_ring get_free_send_idx acquire_send_buffer release_send_buffer in_use_send ctx_wf
proof unfold_locales
  fix c assume wf: "ctx_wf c" and "\<exists>i < length (in_use_send c). \<not> in_use_send c ! i"
  then obtain i where "first_free (in_use_send c) (last_used_send_buff c) = Some i"
    using first_free_None [of "last_used_send_buff c" "in_use_send c"]
    by (auto simp: ctx_wf_def)
  with wf show "\<exists>i c'. get_free_send_idx c = Inr (int i, c') \<and> i < length (in_use_send c) \<and>
      \<not> in_use_send c ! i \<and> in_use_send c' = in_use_send c \<and> ctx_wf c'"
    using first_free_Some [of "in_use_send c" "last_used_send_buff c" i]
    by (auto simp: get_free_send_idx_eq) (auto simp: ctx_wf_def)
next
  fix c assume "ctx_wf c" and "\<forall>i < length (in_use_send c). in_use_send c ! i"
  then show "get_free_send_idx c = Inr (- 1, c)"
    using first_free_None [of "last_used_send_buff c" "in_use_send c"]
    by (auto simp: get_free_send_idx_eq) (auto simp: ctx_wf_def)
qed (auto simp: flag_ops ctx_wf_def)

text \<open>\<open>free_send_buffer\<close> frees its slot, clears its bytes, and touches no other buffer.\<close>

lemma free_send_buffer_ok:
  assumes "ctx_wf c" and "i < SERVER_NUM_SEND_BUFFS"
  shows "free_send_buffer c (int i) =
    Inr (c\<lparr>out_buf := splice (out_buf c) (get_send_buffer i) (zeros BUFFER_SIZE),
           in_use_send := (in_use_send c)[i := False]\<rparr>)"
  using assms
  by (simp add: free_send_buffer_def mem_write_def ctx_wf_def flag_ops get_send_buffer_def)

lemma spare_blank [simp]:
  "recv_ring.spare blank_context = SERVER_NUM_RECV_BUFFS" "send_ring.spare blank_context = SERVER_NUM_SEND_BUFFS"
proof -
  have "count_list (replicate n False) False = n" for n by (induction n) simp_all
  then show "recv_ring.spare blank_context = SERVER_NUM_RECV_BUFFS" "send_ring.spare blank_context = SERVER_NUM_SEND_BUFFS"
    by (simp_all add: blank_context_def)
qed

end
