(* ===== verification/Entry_Pool.thy ===== *)
theory Entry_Pool
  imports Constants
begin

text \<open>
  The pool of preallocated entries. \<open>server_internals/db.c\<close> and
  \<open>server_internals/server_requests_management.c\<close> hold the same three static variables
  and the same functions \<open>reallocate_entries\<close> and \<open>get_empty_buffer\<close>, which differ
  in the size of the array and in how one entry is made. Both are modelled here once, with these
  two as arguments; the locale \<open>entry_maker\<close> is what the pool asks of the code that makes an
  entry, and its lemmas are what the two files get from the pool.
\<close>

section \<open>State and operations\<close>

record pool =
  slots :: "ptr option list option" \<comment> \<open>\<open>preallocated_entries\<close>; \<open>None\<close> is the NULL array\<close>
  navail :: int \<comment> \<open>\<open>current_num_allocated_entries\<close>\<close>
  fidx :: nat \<comment> \<open>\<open>free_buffer_idx\<close>\<close>

definition empty_pool :: pool where
  "empty_pool = \<lparr>slots = None, navail = 0, fidx = 0\<rparr>"

text \<open>The loop over the array: every NULL slot gets a new entry, which is counted.\<close>

fun refill_slots ::
  "('s \<Rightarrow> stop + ptr \<times> 's) \<Rightarrow> ptr option list \<Rightarrow> 's \<Rightarrow> stop + ptr option list \<times> nat \<times> 's" where
  "refill_slots mk [] s = Inr ([], 0, s)"
| "refill_slots mk (Some p # xs) s =
     bnd (refill_slots mk xs s) (\<lambda>(ys, n, s'). Inr (Some p # ys, n, s'))"
| "refill_slots mk (None # xs) s =
     bnd (mk s) (\<lambda>(p, s1).
     bnd (refill_slots mk xs s1) (\<lambda>(ys, n, s2). Inr (Some p # ys, Suc n, s2)))"

text \<open>\<open>arr\<close> is the \<open>calloc\<close> of the array itself, with its success.\<close>

definition reallocate_entries ::
  "nat \<Rightarrow> ('s \<Rightarrow> bool \<times> 's) \<Rightarrow> ('s \<Rightarrow> stop + ptr \<times> 's) \<Rightarrow> pool \<Rightarrow> 's \<Rightarrow> stop + pool \<times> 's" where
  "reallocate_entries maxn arr mk P s =
     bnd (case slots P of
            Some xs \<Rightarrow> Inr (xs, s)
          | None \<Rightarrow> (let (ok, s1) = arr s
                     in if ok then Inr (replicate maxn None, s1) else Inl (Exit 1)))
       (\<lambda>(xs, s1). bnd (refill_slots mk xs s1)
         (\<lambda>(ys, n, s2). Inr (P\<lparr>slots := Some ys, navail := navail P + int n, fidx := 0\<rparr>, s2)))"

definition get_empty_buffer ::
  "nat \<Rightarrow> ('s \<Rightarrow> bool \<times> 's) \<Rightarrow> ('s \<Rightarrow> stop + ptr \<times> 's) \<Rightarrow> pool \<Rightarrow> 's \<Rightarrow>
     stop + ptr option \<times> pool \<times> 's" where
  "get_empty_buffer maxn arr mk P s =
     bnd (if navail P < 10 then reallocate_entries maxn arr mk P s else Inr (P, s))
       (\<lambda>(P1, s1).
         case slots P1 of
           None \<Rightarrow> Inl (UB Null_deref)
         | Some xs \<Rightarrow>
             (if length xs \<le> fidx P1 then Inl (UB Out_of_bounds)
              else Inr (xs ! fidx P1,
                        P1\<lparr>slots := Some (xs[fidx P1 := None]), fidx := Suc (fidx P1),
                           navail := navail P1 - 1\<rparr>, s1)))"

section \<open>The pool invariant\<close>

text \<open>
  The used slots are a prefix of the array, the count is the number of the others, and these
  hold different entries. \<open>pool_ptrs\<close> are the entries waiting in the pool.
\<close>

definition pool_ptrs :: "pool \<Rightarrow> ptr list" where
  "pool_ptrs P = (case slots P of None \<Rightarrow> [] | Some xs \<Rightarrow> List.map_filter id xs)"

definition pool_shape :: "nat \<Rightarrow> pool \<Rightarrow> bool" where
  "pool_shape maxn P \<longleftrightarrow>
     distinct (pool_ptrs P) \<and> navail P = int (length (pool_ptrs P)) \<and>
     (case slots P of
        None \<Rightarrow> True
      | Some xs \<Rightarrow> length xs = maxn \<and> xs = replicate (fidx P) None @ map Some (pool_ptrs P))"

lemma pool_shape_empty [simp]: "pool_shape maxn empty_pool" "pool_ptrs empty_pool = []"
  by (simp_all add: pool_shape_def empty_pool_def pool_ptrs_def)

lemma map_filter_id_simps [simp]:
  "List.map_filter id [] = []"
  "List.map_filter id (None # xs) = List.map_filter id xs"
  "List.map_filter id (Some p # xs) = p # List.map_filter id xs"
  "List.map_filter id (map Some ps) = ps"
  "List.map_filter id (replicate k None @ xs) = List.map_filter id xs"
proof -
  show "List.map_filter id (map Some ps) = ps"
    by (induction ps) (simp_all add: List.map_filter_def)
  show "List.map_filter id (replicate k None @ xs) = List.map_filter id xs"
    by (induction k) (simp_all add: List.map_filter_def)
qed (simp_all add: List.map_filter_def)

lemma pool_shape_length:
  assumes "pool_shape maxn P" and "slots P = Some xs"
  shows "length xs = maxn" "fidx P + length (pool_ptrs P) = maxn"
proof -
  have len: "length xs = maxn" and xs: "xs = replicate (fidx P) None @ map Some (pool_ptrs P)"
    using assms(1) unfolding pool_shape_def assms(2) option.case by blast+
  from xs have "length xs = length (replicate (fidx P) None @ map Some (pool_ptrs P))"
    by (rule arg_cong)
  then show "fidx P + length (pool_ptrs P) = maxn" using len by simp
  show "length xs = maxn" by (rule len)
qed

section \<open>What the pool relies on and provides\<close>

locale entry_maker =
  fixes mk :: "'s \<Rightarrow> stop + ptr \<times> 's"
    and arr :: "'s \<Rightarrow> bool \<times> 's"
    and view :: "'s \<Rightarrow> ptr \<Rightarrow> 'e option"
    and blank :: "'e \<Rightarrow> bool"
    and wfs :: "'s \<Rightarrow> bool"
  assumes mk_stop: "mk s = Inl e \<Longrightarrow> e = Exit 1"
    and mk_new: "wfs s \<Longrightarrow> mk s = Inr (p, s') \<Longrightarrow>
      view s p = None \<and> wfs s' \<and> (\<exists>e. blank e \<and> view s' = (view s)(p \<mapsto> e))"
    and arr_frame: "wfs s \<Longrightarrow> arr s = (b, s') \<Longrightarrow> wfs s' \<and> view s' = view s"
begin

text \<open>The entries of the pool are blank in the heap.\<close>

definition pool_ok :: "nat \<Rightarrow> pool \<Rightarrow> 's \<Rightarrow> bool" where
  "pool_ok maxn P s \<longleftrightarrow>
     pool_shape maxn P \<and> wfs s \<and> (\<forall>p \<in> set (pool_ptrs P). \<exists>e. view s p = Some e \<and> blank e)"

lemma refill_stop: "refill_slots mk xs s = Inl e \<Longrightarrow> e = Exit 1"
proof (induction xs arbitrary: s)
  case (Cons x xs)
  then show ?case by (cases x) (auto simp: bnd_eq_Inl dest: mk_stop)
qed simp

lemma refill_used:
  "refill_slots mk (map Some ps) s = Inr (map Some ps, 0, s)"
  by (induction ps) auto

lemma refill_new:
  assumes "wfs s" and "refill_slots mk (replicate k None @ map Some ps) s = Inr (ys, n, s')"
  shows "\<exists>qs. ys = map Some (qs @ ps) \<and> n = k \<and> length qs = k \<and> distinct qs \<and> wfs s' \<and>
    (\<forall>q \<in> set qs. view s q = None \<and> (\<exists>e. view s' q = Some e \<and> blank e)) \<and>
    (\<forall>p. view s p \<noteq> None \<longrightarrow> view s' p = view s p) \<and>
    (\<forall>p. view s' p \<noteq> None \<longrightarrow> view s p \<noteq> None \<or> p \<in> set qs)"
  using assms
proof (induction k arbitrary: s ys n)
  case 0
  then show ?case by (simp add: refill_used)
next
  case (Suc k)
  from Suc.prems(2) obtain p s1 ys1 n1 where
    mk: "mk s = Inr (p, s1)" and
    rest: "refill_slots mk (replicate k None @ map Some ps) s1 = Inr (ys1, n1, s')" and
    eqs: "ys = Some p # ys1" "n = Suc n1"
    by auto
  from mk_new [OF Suc.prems(1) mk] obtain e where
    new: "view s p = None" "wfs s1" "blank e" "view s1 = (view s)(p \<mapsto> e)" by blast
  from Suc.IH [OF new(2) rest] obtain qs where
    qs: "ys1 = map Some (qs @ ps)" "n1 = k" "length qs = k" "distinct qs" "wfs s'"
      "\<forall>q \<in> set qs. view s1 q = None \<and> (\<exists>e. view s' q = Some e \<and> blank e)"
      "\<forall>p. view s1 p \<noteq> None \<longrightarrow> view s' p = view s1 p"
      "\<forall>p. view s' p \<noteq> None \<longrightarrow> view s1 p \<noteq> None \<or> p \<in> set qs"
    by blast
  have "p \<notin> set qs" using qs(6) new(4) by auto
  moreover have "view s' p = Some e" using qs(7) new(4) by simp
  moreover have "\<forall>q. view s' q \<noteq> None \<longrightarrow> view s q \<noteq> None \<or> q \<in> set (p # qs)"
  proof (intro allI impI)
    fix q assume "view s' q \<noteq> None"
    with qs(8) have "view s1 q \<noteq> None \<or> q \<in> set qs" by blast
    then show "view s q \<noteq> None \<or> q \<in> set (p # qs)"
      by (cases "q = p") (auto simp: new(4))
  qed
  ultimately show ?case
    using qs(1-7) new eqs by (intro exI [of _ "p # qs"]) (auto split: if_splits)
qed

lemma reallocate_entries_ok:
  assumes "pool_ok maxn P s" and "reallocate_entries maxn arr mk P s = Inr (P', s')"
  shows "pool_ok maxn P' s' \<and> navail P' = int maxn \<and> fidx P' = 0 \<and>
    (\<forall>p. view s p \<noteq> None \<longrightarrow> view s' p = view s p) \<and>
    (\<forall>p \<in> set (pool_ptrs P'). p \<in> set (pool_ptrs P) \<or> view s p = None) \<and>
    set (pool_ptrs P) \<subseteq> set (pool_ptrs P') \<and>
    (\<forall>p. view s' p \<noteq> None \<longrightarrow> view s p \<noteq> None \<or> p \<in> set (pool_ptrs P'))"
proof -
  let ?k = "case slots P of None \<Rightarrow> maxn | Some xs \<Rightarrow> fidx P"
  from assms obtain s1 ys n where
    s1: "wfs s1" "view s1 = view s" and
    ref: "refill_slots mk (replicate ?k None @ map Some (pool_ptrs P)) s1 = Inr (ys, n, s')" and
    P': "P' = P\<lparr>slots := Some ys, navail := navail P + int n, fidx := 0\<rparr>"
    by (cases "slots P")
      (auto simp: reallocate_entries_def pool_ok_def pool_shape_def pool_ptrs_def
        split: if_splits prod.splits dest: arr_frame)
  have len: "?k + length (pool_ptrs P) = maxn"
  proof (cases "slots P")
    case None
    then show ?thesis by (simp add: pool_ptrs_def)
  next
    case (Some xs)
    then show ?thesis
      using pool_shape_length [of maxn P xs] assms(1) by (simp add: pool_ok_def)
  qed
  from refill_new [OF s1(1) ref] obtain qs where
    qs: "ys = map Some (qs @ pool_ptrs P)" "n = ?k" "length qs = ?k" "distinct qs" "wfs s'"
      "\<forall>q \<in> set qs. view s1 q = None \<and> (\<exists>e. view s' q = Some e \<and> blank e)"
      "\<forall>p. view s1 p \<noteq> None \<longrightarrow> view s' p = view s1 p"
      "\<forall>p. view s' p \<noteq> None \<longrightarrow> view s1 p \<noteq> None \<or> p \<in> set qs"
    by blast
  have old: "\<forall>p \<in> set (pool_ptrs P). \<exists>e. view s p = Some e \<and> blank e"
    using assms(1) by (simp add: pool_ok_def)
  have P'_ptrs: "pool_ptrs P' = qs @ pool_ptrs P"
    using P' qs(1) map_filter_id_simps(4) [of "qs @ pool_ptrs P"] by (simp add: pool_ptrs_def)
  have "distinct (qs @ pool_ptrs P)"
    using qs(4,6) old s1(2) assms(1) by (fastforce simp: pool_ok_def pool_shape_def)
  moreover have "navail P' = int maxn"
    using P' qs(2) len assms(1) by (simp add: pool_ok_def pool_shape_def)
  moreover have "\<forall>p \<in> set (pool_ptrs P). \<exists>e. view s' p = Some e \<and> blank e"
    using old qs(7) s1(2) by (metis option.distinct(1))
  ultimately show ?thesis
    using P' P'_ptrs qs len s1(2)
    by (auto simp: pool_ok_def pool_shape_def)
qed

lemma get_empty_buffer_stop:
  assumes "pool_ok maxn P s" and "10 \<le> maxn" and "get_empty_buffer maxn arr mk P s = Inl e"
  shows "e = Exit 1"
proof (cases "navail P < 10")
  case False
  then have "10 \<le> length (pool_ptrs P)" using assms(1) by (simp add: pool_ok_def pool_shape_def)
  moreover from this have "slots P \<noteq> None" by (cases "slots P") (auto simp: pool_ptrs_def)
  ultimately show ?thesis
    using assms False pool_shape_length [of maxn P]
    by (auto simp: get_empty_buffer_def pool_ok_def split: if_splits)
next
  case True
  have "\<And>P' s'. reallocate_entries maxn arr mk P s = Inr (P', s') \<Longrightarrow>
      \<exists>xs. slots P' = Some xs \<and> \<not> length xs \<le> fidx P'"
  proof -
    fix P' s' assume "reallocate_entries maxn arr mk P s = Inr (P', s')"
    from reallocate_entries_ok [OF assms(1) this] assms(2)
    show "\<exists>xs. slots P' = Some xs \<and> \<not> length xs \<le> fidx P'"
      by (auto simp: pool_ok_def pool_shape_def pool_ptrs_def split: option.splits)
  qed
  moreover have "reallocate_entries maxn arr mk P s = Inl e \<Longrightarrow> e = Exit 1"
    by (auto simp: reallocate_entries_def bnd_eq_Inl dest: refill_stop
      split: option.splits if_splits prod.splits)
  ultimately show ?thesis
    using assms(3) True
    by (fastforce simp: get_empty_buffer_def bnd_eq_Inl split: option.splits if_splits)
qed

lemma take_slot:
  assumes "pool_ok maxn P s" and "pool_ptrs P \<noteq> []" and "slots P = Some xs"
  obtains p ps where "pool_ptrs P = p # ps" "fidx P < length xs" "xs ! fidx P = Some p"
    "pool_ok maxn (P\<lparr>slots := Some (xs[fidx P := None]), fidx := Suc (fidx P),
                     navail := navail P - 1\<rparr>) s"
    "pool_ptrs (P\<lparr>slots := Some (xs[fidx P := None]), fidx := Suc (fidx P),
                     navail := navail P - 1\<rparr>) = ps"
proof -
  obtain p ps where ps: "pool_ptrs P = p # ps" using assms(2) by (cases "pool_ptrs P") auto
  have xs: "xs = replicate (fidx P) None @ Some p # map Some ps" "length xs = maxn"
    using assms(1,3) ps by (auto simp: pool_ok_def pool_shape_def)
  then have upd: "xs[fidx P := None] = replicate (Suc (fidx P)) None @ map Some ps"
    by (simp add: list_update_append replicate_append_same [symmetric])
  let ?P = "P\<lparr>slots := Some (xs[fidx P := None]), fidx := Suc (fidx P), navail := navail P - 1\<rparr>"
  have ptrs: "pool_ptrs ?P = ps"
    using map_filter_id_simps(5) [of "Suc (fidx P)" "map Some ps"]
    by (simp add: pool_ptrs_def upd)
  have "pool_ok maxn ?P s"
    using assms(1) ps ptrs upd xs(2) pool_shape_length [of maxn P xs] assms(3)
    by (auto simp: pool_ok_def pool_shape_def)
  with that [OF ps _ _ _ ptrs] xs show ?thesis by (simp add: nth_append)
qed

text \<open>The result: a blank entry that the pool no longer holds; everything else is kept.\<close>

lemma get_empty_buffer_ok:
  assumes "pool_ok maxn P s" and "10 \<le> maxn"
    and "get_empty_buffer maxn arr mk P s = Inr (r, P', s')"
  obtains p e where "r = Some p" "view s' p = Some e" "blank e" "pool_ok maxn P' s'"
    "p \<notin> set (pool_ptrs P')" "\<forall>q. view s q \<noteq> None \<longrightarrow> view s' q = view s q"
    "p \<in> set (pool_ptrs P) \<or> view s p = None"
    "\<forall>q \<in> set (pool_ptrs P'). q \<in> set (pool_ptrs P) \<or> view s q = None"
    "\<forall>q. view s' q \<noteq> None \<longrightarrow> view s q \<noteq> None \<or> q \<in> insert p (set (pool_ptrs P'))"
    "set (pool_ptrs P) \<subseteq> insert p (set (pool_ptrs P'))"
proof -
  obtain P1 where
    P1: "pool_ok maxn P1 s'" "10 \<le> navail P1" "\<forall>q. view s q \<noteq> None \<longrightarrow> view s' q = view s q"
      "\<forall>q \<in> set (pool_ptrs P1). q \<in> set (pool_ptrs P) \<or> view s q = None"
      "\<forall>q. view s' q \<noteq> None \<longrightarrow> view s q \<noteq> None \<or> q \<in> set (pool_ptrs P1)"
      "set (pool_ptrs P) \<subseteq> set (pool_ptrs P1)" and
    res: "\<exists>xs. slots P1 = Some xs \<and> fidx P1 < length xs \<and> r = xs ! fidx P1 \<and>
      P' = P1\<lparr>slots := Some (xs[fidx P1 := None]), fidx := Suc (fidx P1),
              navail := navail P1 - 1\<rparr>"
  proof (cases "navail P < 10")
    case True
    then obtain P1 s1 where ra: "reallocate_entries maxn arr mk P s = Inr (P1, s1)"
      using assms(3) by (auto simp: get_empty_buffer_def)
    from reallocate_entries_ok [OF assms(1) ra] assms(2,3) True ra that [of P1]
    show ?thesis by (auto simp: get_empty_buffer_def split: option.splits if_splits)
  next
    case False
    with assms that [of P] show ?thesis
      by (auto simp: get_empty_buffer_def split: option.splits if_splits)
  qed
  then obtain xs where xs: "slots P1 = Some xs" "r = xs ! fidx P1"
      "P' = P1\<lparr>slots := Some (xs[fidx P1 := None]), fidx := Suc (fidx P1),
              navail := navail P1 - 1\<rparr>"
    by blast
  have "pool_ptrs P1 \<noteq> []" using P1(1,2) by (auto simp: pool_ok_def pool_shape_def)
  from take_slot [OF P1(1) this xs(1)] obtain p ps where
    p: "pool_ptrs P1 = p # ps" "xs ! fidx P1 = Some p" "pool_ok maxn P' s'" "pool_ptrs P' = ps"
    using xs(3) by metis
  obtain e where e: "view s' p = Some e" "blank e"
    using P1(1) p(1) by (auto simp: pool_ok_def)
  have "p \<notin> set ps" using P1(1) p(1) by (auto simp: pool_ok_def pool_shape_def)
  then have notin: "p \<notin> set (pool_ptrs P')" using p(4) by simp
  have ins: "set (pool_ptrs P1) = insert p (set (pool_ptrs P'))" using p by simp
  show ?thesis
  proof (rule that [OF _ e p(3) notin P1(3)])
    show "r = Some p" using xs(2) p(2) by simp
    show "p \<in> set (pool_ptrs P) \<or> view s p = None" using P1(4) by (simp add: ins)
    show "\<forall>q \<in> set (pool_ptrs P'). q \<in> set (pool_ptrs P) \<or> view s q = None"
      using P1(4) by (simp add: ins)
    show "\<forall>q. view s' q \<noteq> None \<longrightarrow> view s q \<noteq> None \<or> q \<in> insert p (set (pool_ptrs P'))"
      using P1(5) ins by blast
    show "set (pool_ptrs P) \<subseteq> insert p (set (pool_ptrs P'))" using P1(6) ins by blast
  qed
qed

text \<open>With memory for every entry, the operation returns.\<close>

lemma refill_total:
  "(\<And>s. \<exists>p s'. mk s = Inr (p, s')) \<Longrightarrow> \<exists>ys n s'. refill_slots mk xs s = Inr (ys, n, s')"
proof (induction mk xs s rule: refill_slots.induct)
  case (3 mk xs s)
  obtain p s1 where "mk s = Inr (p, s1)" using "3.prems" by blast
  moreover from "3.IH" [OF this _ "3.prems"] have "\<exists>ys n s'. refill_slots mk xs s1 = Inr (ys, n, s')"
    by blast
  ultimately show ?case by auto
qed auto

lemma get_empty_buffer_total:
  assumes "pool_ok maxn P s" and "10 \<le> maxn"
    and "\<And>s. \<exists>p s'. mk s = Inr (p, s')" and "\<And>s. fst (arr s)"
  shows "\<exists>r P' s'. get_empty_buffer maxn arr mk P s = Inr (r, P', s')"
proof (cases "get_empty_buffer maxn arr mk P s")
  case (Inl e)
  have "e = Exit 1" by (rule get_empty_buffer_stop [OF assms(1,2) Inl])
  moreover have "\<exists>P' s'. reallocate_entries maxn arr mk P s = Inr (P', s')"
    using assms(4) [of s] refill_total [OF assms(3)]
    by (auto simp: reallocate_entries_def split: option.splits prod.splits) metis+
  ultimately have False
    using Inl by (auto simp: get_empty_buffer_def bnd_eq_Inl split: option.splits if_splits)
  then show ?thesis ..
qed auto

end

end
