(* ===== verification/Uthash.thy ===== *)
theory Uthash
  imports Prelude
begin

text \<open>
  The hash tables of \<open>external_libs/uthash.h\<close> as the program uses them: a table is the list
  of its nodes in application order (the order of \<open>HASH_ITER\<close>), and a node's key is read
  through \<open>kf\<close>, which is \<open>None\<close> for a node that is not allocated. A lookup meets the
  newest node of a bucket first, as \<open>HASH_ADD_TO_BKT\<close> inserts in front. The buckets, the hash
  function and their growth are the subject of \<open>Uthash_Buckets\<close>; the contract of a table of
  distinct keys is the locale \<open>keyed_table\<close>.
\<close>

section \<open>The macros\<close>

fun find_in :: "(ptr \<Rightarrow> 'k option) \<Rightarrow> ptr list \<Rightarrow> 'k \<Rightarrow> stop + ptr option" where
  "find_in kf [] k = Inr None"
| "find_in kf (p # ps) k =
     (case kf p of
        None \<Rightarrow> Inl (UB Dangling)
      | Some k' \<Rightarrow> if k' = k then Inr (Some p) else find_in kf ps k)"

definition HASH_FIND :: "(ptr \<Rightarrow> 'k option) \<Rightarrow> ptr list \<Rightarrow> 'k \<Rightarrow> stop + ptr option" where
  "HASH_FIND kf t k = find_in kf (rev t) k"

definition HASH_ADD :: "ptr list \<Rightarrow> ptr \<Rightarrow> ptr list" where
  "HASH_ADD t p = t @ [p]"

definition HASH_DEL :: "ptr list \<Rightarrow> ptr \<Rightarrow> ptr list" where
  "HASH_DEL t p = remove1 p t"

definition HASH_COUNT :: "ptr list \<Rightarrow> nat" where
  "HASH_COUNT t = length t"

text \<open>
  \<open>HASH_ITER\<close> reads the successor of a node before it runs the body on it, so the body may
  delete the node. A node that is no longer in the table when its turn comes is dangling. The
  first argument is fuel; the length of the table and one more is enough when the body adds
  nothing.
\<close>

fun succ_in :: "ptr list \<Rightarrow> ptr \<Rightarrow> ptr option" where
  "succ_in [] p = None"
| "succ_in (x # xs) p =
     (if x = p then (case xs of [] \<Rightarrow> None | y # _ \<Rightarrow> Some y) else succ_in xs p)"

fun hash_iter ::
  "nat \<Rightarrow> ('s \<Rightarrow> ptr list) \<Rightarrow> (ptr \<Rightarrow> 's \<Rightarrow> stop + 's) \<Rightarrow> ptr option \<Rightarrow> 's \<Rightarrow> stop + 's" where
  "hash_iter n tab body None s = Inr s"
| "hash_iter 0 tab body (Some el) s = Inl (UB Endless)"
| "hash_iter (Suc n) tab body (Some el) s =
     (if el \<notin> set (tab s) then Inl (UB Dangling)
      else let tmp = succ_in (tab s) el
           in bnd (body el s) (hash_iter n tab body tmp))"

definition HASH_ITER :: "('s \<Rightarrow> ptr list) \<Rightarrow> (ptr \<Rightarrow> 's \<Rightarrow> stop + 's) \<Rightarrow> 's \<Rightarrow> stop + 's" where
  "HASH_ITER tab body s =
     hash_iter (Suc (length (tab s))) tab body
       (case tab s of [] \<Rightarrow> None | x # _ \<Rightarrow> Some x) s"

section \<open>Lookups in a table of distinct keys\<close>

definition table_ok :: "(ptr \<Rightarrow> 'k option) \<Rightarrow> ptr list \<Rightarrow> bool" where
  "table_ok kf t \<longleftrightarrow> distinct t \<and> (\<forall>p \<in> set t. kf p \<noteq> None) \<and> inj_on kf (set t)"

lemma table_ok_Nil [simp]: "table_ok kf []"
  by (simp add: table_ok_def)

lemma find_in_miss:
  "\<forall>p \<in> set t. kf p \<noteq> None \<and> kf p \<noteq> Some k \<Longrightarrow> find_in kf t k = Inr None"
  by (induction t) auto

lemma find_in_hit:
  "\<forall>q \<in> set t. kf q \<noteq> None \<Longrightarrow> inj_on kf (set t) \<Longrightarrow> p \<in> set t \<Longrightarrow> kf p = Some k \<Longrightarrow>
   find_in kf t k = Inr (Some p)"
proof (induction t)
  case (Cons x t)
  show ?case
  proof (cases "x = p")
    case True
    then show ?thesis using Cons.prems(4) by simp
  next
    case False
    then have "kf x \<noteq> Some k"
      using inj_onD [OF Cons.prems(2), of x p] Cons.prems(3,4) by auto
    moreover have "find_in kf t k = Inr (Some p)"
      using Cons False by (auto intro: inj_on_subset)
    ultimately show ?thesis using Cons.prems(1) by auto
  qed
qed simp

locale keyed_table =
  fixes find_op :: "(ptr \<Rightarrow> 'k option) \<Rightarrow> 't \<Rightarrow> 'k \<Rightarrow> stop + ptr option"
    and add_op :: "'t \<Rightarrow> ptr \<Rightarrow> 't"
    and del_op :: "'t \<Rightarrow> ptr \<Rightarrow> 't"
    and elems :: "'t \<Rightarrow> ptr list"
    and ok :: "(ptr \<Rightarrow> 'k option) \<Rightarrow> 't \<Rightarrow> bool"
  assumes ok_distinct: "ok kf t \<Longrightarrow> distinct (elems t)"
    and ok_live: "ok kf t \<Longrightarrow> p \<in> set (elems t) \<Longrightarrow> kf p \<noteq> None"
    and ok_inj: "ok kf t \<Longrightarrow> p \<in> set (elems t) \<Longrightarrow> q \<in> set (elems t) \<Longrightarrow> kf p = kf q \<Longrightarrow> p = q"
    and ok_frame: "ok kf t \<Longrightarrow> \<forall>p \<in> set (elems t). kf' p = kf p \<Longrightarrow> ok kf' t"
    and find_hit: "ok kf t \<Longrightarrow> p \<in> set (elems t) \<Longrightarrow> kf p = Some k \<Longrightarrow> find_op kf t k = Inr (Some p)"
    and find_miss: "ok kf t \<Longrightarrow> \<forall>p \<in> set (elems t). kf p \<noteq> Some k \<Longrightarrow> find_op kf t k = Inr None"
    and add_elems: "elems (add_op t p) = elems t @ [p]"
    and add_ok: "ok kf t \<Longrightarrow> p \<notin> set (elems t) \<Longrightarrow> kf p = Some k \<Longrightarrow>
      \<forall>q \<in> set (elems t). kf q \<noteq> Some k \<Longrightarrow> ok kf (add_op t p)"
    and del_elems: "elems (del_op t p) = remove1 p (elems t)"
    and del_ok: "ok kf t \<Longrightarrow> ok kf (del_op t p)"
begin

lemma find_cases:
  assumes "ok kf t"
  obtains (hit) p where "find_op kf t k = Inr (Some p)" "p \<in> set (elems t)" "kf p = Some k"
  | (miss) "find_op kf t k = Inr None" "\<forall>p \<in> set (elems t). kf p \<noteq> Some k"
  using find_hit [OF assms] find_miss [OF assms] by blast

lemma find_Some_iff:
  "ok kf t \<Longrightarrow> find_op kf t k = Inr (Some p) \<longleftrightarrow> p \<in> set (elems t) \<and> kf p = Some k"
  by (metis Inr_inject find_cases find_hit option.distinct(1) option.inject)

lemma find_None_iff:
  "ok kf t \<Longrightarrow> find_op kf t k = Inr None \<longleftrightarrow> (\<forall>p \<in> set (elems t). kf p \<noteq> Some k)"
  by (metis Inr_inject find_hit find_miss option.distinct(1))

lemma del_set: "ok kf t \<Longrightarrow> set (elems (del_op t p)) = set (elems t) - {p}"
  by (simp add: del_elems ok_distinct set_remove1_eq)

lemma find_after_del:
  assumes "ok kf t" and "p \<in> set (elems t)" and "kf p = Some k"
  shows "find_op kf (del_op t p) k = Inr None"
proof -
  have "\<forall>q \<in> set (elems (del_op t p)). kf q \<noteq> Some k"
    using assms ok_inj [OF assms(1)] by (auto simp: del_set)
  then show ?thesis by (rule find_miss [OF del_ok [OF assms(1)]])
qed

lemma find_after_del_other:
  assumes "ok kf t" and "kf p \<noteq> Some k"
  shows "find_op kf (del_op t p) k = find_op kf t k"
  using assms(1)
proof (cases rule: find_cases [where k = k])
  case (hit q)
  with assms have "q \<in> set (elems (del_op t p))" by (auto simp: del_set)
  with hit show ?thesis using find_hit [OF del_ok [OF assms(1)]] by simp
next
  case miss
  then show ?thesis using assms find_miss [OF del_ok [OF assms(1)]] by (auto simp: del_set)
qed

lemma find_after_add:
  assumes "ok kf t" and "p \<notin> set (elems t)" and "kf p = Some k"
    and "\<forall>q \<in> set (elems t). kf q \<noteq> Some k"
  shows "find_op kf (add_op t p) j = (if j = k then Inr (Some p) else find_op kf t j)"
proof (cases "j = k")
  case True
  with assms show ?thesis using find_hit [OF add_ok [OF assms]] by (simp add: add_elems)
next
  case False
  show ?thesis
    using assms(1)
  proof (cases rule: find_cases [where k = j])
    case (hit q)
    with False show ?thesis using find_hit [OF add_ok [OF assms]] by (simp add: add_elems)
  next
    case miss
    with False assms(3) show ?thesis using find_miss [OF add_ok [OF assms]] by (auto simp: add_elems)
  qed
qed

end

interpretation ht: keyed_table HASH_FIND HASH_ADD HASH_DEL "\<lambda>t. t" table_ok
proof unfold_locales
  fix kf :: "ptr \<Rightarrow> 'a option" and t p k
  show "table_ok kf t \<Longrightarrow> p \<in> set t \<Longrightarrow> kf p = Some k \<Longrightarrow> HASH_FIND kf t k = Inr (Some p)"
    by (simp add: table_ok_def HASH_FIND_def find_in_hit)
  show "table_ok kf t \<Longrightarrow> \<forall>p \<in> set t. kf p \<noteq> Some k \<Longrightarrow> HASH_FIND kf t k = Inr None"
    by (simp add: table_ok_def HASH_FIND_def find_in_miss)
  show "table_ok kf t \<Longrightarrow> table_ok kf (HASH_DEL t p)"
    by (auto simp: table_ok_def HASH_DEL_def inj_on_def dest: notin_set_remove1 in_set_remove1
        [THEN iffD1] set_remove1_subset [THEN subsetD])
qed (auto simp: table_ok_def HASH_ADD_def HASH_DEL_def inj_on_def)

section \<open>Iteration\<close>

text \<open>The body run once on each node of a list, in order.\<close>

fun run_on :: "(ptr \<Rightarrow> 's \<Rightarrow> stop + 's) \<Rightarrow> ptr list \<Rightarrow> 's \<Rightarrow> stop + 's" where
  "run_on body [] s = Inr s"
| "run_on body (p # ps) s = bnd (body p s) (run_on body ps)"

lemma succ_in_split:
  "el \<notin> set as \<Longrightarrow> succ_in (as @ el # bs) el = (case bs of [] \<Rightarrow> None | y # _ \<Rightarrow> Some y)"
  by (induction as) auto

lemma hash_iter_run_on:
  assumes body: "\<And>p s s'. I s \<Longrightarrow> p \<in> set (tab s) \<Longrightarrow> body p s = Inr s' \<Longrightarrow>
      I s' \<and> (tab s' = tab s \<or> tab s' = remove1 p (tab s))"
    and dist: "\<And>s. I s \<Longrightarrow> distinct (tab s)"
  shows "I s \<Longrightarrow> tab s = as @ ps \<Longrightarrow> length ps < n \<Longrightarrow>
    hash_iter n tab body (case ps of [] \<Rightarrow> None | x # _ \<Rightarrow> Some x) s = run_on body ps s"
proof (induction ps arbitrary: as n s)
  case (Cons p ps)
  obtain m where n: "n = Suc m" "length ps < m" using Cons.prems(3) by (cases n) auto
  have p: "p \<in> set (tab s)" "p \<notin> set as" "distinct (as @ p # ps)"
    using Cons.prems dist by force+
  have step: "hash_iter m tab body (case ps of [] \<Rightarrow> None | x # _ \<Rightarrow> Some x) s' = run_on body ps s'"
    if "body p s = Inr s'" for s'
  proof -
    from body [OF Cons.prems(1) p(1) that]
    have "I s'" "tab s' = (as @ [p]) @ ps \<or> tab s' = as @ ps"
      using Cons.prems(2) p by (auto simp: remove1_append)
    then show ?thesis using Cons.IH n(2) by blast
  qed
  have "hash_iter n tab body (Some p) s =
      bnd (body p s) (hash_iter m tab body (case ps of [] \<Rightarrow> None | x # _ \<Rightarrow> Some x))"
    using p Cons.prems(2) by (simp add: n(1) succ_in_split Let_def)
  also have "\<dots> = run_on body (p # ps) s"
    using step by (cases "body p s") simp_all
  finally show ?case by simp
qed simp

lemma HASH_ITER_run_on:
  assumes "\<And>p s s'. I s \<Longrightarrow> p \<in> set (tab s) \<Longrightarrow> body p s = Inr s' \<Longrightarrow>
      I s' \<and> (tab s' = tab s \<or> tab s' = remove1 p (tab s))"
    and "\<And>s. I s \<Longrightarrow> distinct (tab s)" and "I s"
  shows "HASH_ITER tab body s = run_on body (tab s) s"
  unfolding HASH_ITER_def
  by (rule hash_iter_run_on [where I = I and as = "[]"]) (use assms in auto)

end
