(* ===== verification/Db.thy ===== *)
theory Db
  imports Entry_Pool Uthash
begin

text \<open>
  \<open>server_internals/db.c\<close>: the key-value table of the server. Its entries are heap objects
  with a key buffer, a value buffer, a registered memory region and a read-write lock; unused
  entries wait in the pool. Shown: the table invariant, that every operation keeps it and never
  is undefined on it, that \<open>db_insert\<close> and \<open>db_get\<close> refine the update and lookup of a
  finite map from strings to strings, and the lock discipline.
\<close>

section \<open>Entries\<close>

text \<open>
  A \<open>pthread_rwlock_t\<close> as one thread sees it: free, held by readers, or held by a writer.
\<close>

datatype rwlock = Free | Readers nat | Writer

text \<open>A value buffer with its address, and a memory region with the address it was registered for.\<close>

record vbuf =
  b_addr :: ptr
  b_data :: "byte list"

record memreg =
  mr_rkey :: "32 word"
  mr_addr :: "ptr option"

record db_entry =
  e_key :: "byte list option"
  e_value :: "vbuf option"
  e_keylen :: "32 word"
  e_size :: "32 word"
  e_alloc :: nat
  e_mr :: "memreg option"
  e_lock :: rwlock
  e_readers :: int
  e_writers :: int

text \<open>The heap of entries, with the numbers of the next allocation and registration.\<close>

record db_mem =
  db_heap :: "ptr \<Rightarrow> db_entry option"
  db_next :: nat
  db_regs :: nat

text \<open>The static variables of the file.\<close>

record db =
  internal_db :: "ptr list"
  db_pd :: "ptr option"
  db_page_size :: nat
  db_pool :: pool
  dmem :: db_mem

definition MAX_ALLOCATED_DB_ENTRIES :: nat where
  [simp]: "MAX_ALLOCATED_DB_ENTRIES = 1000"

definition db_start :: db where
  "db_start = \<lparr>internal_db = [], db_pd = None, db_page_size = 0, db_pool = empty_pool,
     dmem = \<lparr>db_heap = (\<lambda>_. None), db_next = 0, db_regs = 0\<rparr>\<rparr>"

definition reg_mr :: "world \<Rightarrow> nat \<Rightarrow> ptr option \<Rightarrow> memreg option" where
  "reg_mr W r a =
     (if reg_mr_ok W r then Some \<lparr>mr_rkey = rkey_of W r, mr_addr = a\<rparr> else None)"

section \<open>The pool of entries\<close>

text \<open>
  The body of the loop of \<open>reallocate_entries\<close>: three allocations, of which only the first
  is checked, and a registration that is not checked.
\<close>

definition key_room :: "nat \<Rightarrow> nat" where
  "key_room page = roundup page CLIENT_REQUEST_PAYLOAD_LEN"

definition fresh_entry :: "world \<Rightarrow> nat \<Rightarrow> nat \<Rightarrow> nat \<Rightarrow> db_entry" where
  "fresh_entry W page n r =
     (let allocated_size = key_room page;
          v = (if calloc_ok W (n + 2)
               then Some \<lparr>b_addr = n + 2, b_data = zeros (2 * allocated_size)\<rparr> else None)
      in \<lparr>e_key = (if calloc_ok W (n + 1) then Some (zeros allocated_size) else None),
          e_value = v, e_keylen = 0, e_size = 0, e_alloc = 2 * allocated_size,
          e_mr = reg_mr W r (map_option b_addr v),
          e_lock = Free, e_readers = 0, e_writers = 0\<rparr>)"

definition new_db_entry :: "world \<Rightarrow> nat \<Rightarrow> db_mem \<Rightarrow> stop + ptr \<times> db_mem" where
  "new_db_entry W page m =
     (let n = db_next m
      in if calloc_ok W n
         then Inr (n, m\<lparr>db_heap := (db_heap m)(n \<mapsto> fresh_entry W page n (db_regs m)),
                        db_next := n + 3, db_regs := Suc (db_regs m)\<rparr>)
         else Inl (Exit 1))"

definition db_array :: "world \<Rightarrow> db_mem \<Rightarrow> bool \<times> db_mem" where
  "db_array W m = (calloc_ok W (db_next m), m\<lparr>db_next := Suc (db_next m)\<rparr>)"

definition db_get_empty_buffer :: "world \<Rightarrow> db \<Rightarrow> stop + ptr option \<times> db" where
  "db_get_empty_buffer W d =
     bnd (get_empty_buffer MAX_ALLOCATED_DB_ENTRIES (db_array W)
            (new_db_entry W (db_page_size d)) (db_pool d) (dmem d))
       (\<lambda>(r, P, m). Inr (r, d\<lparr>db_pool := P, dmem := m\<rparr>))"

section \<open>Lookup and insertion\<close>

definition load :: "db \<Rightarrow> ptr option \<Rightarrow> stop + db_entry" where
  "load d r =
     (case r of
        None \<Rightarrow> Inl (UB Null_deref)
      | Some p \<Rightarrow> (case db_heap (dmem d) p of None \<Rightarrow> Inl (UB Dangling) | Some e \<Rightarrow> Inr e))"

definition store :: "db \<Rightarrow> ptr \<Rightarrow> db_entry \<Rightarrow> db" where
  "store d p e = d\<lparr>dmem := (dmem d)\<lparr>db_heap := (db_heap (dmem d))(p \<mapsto> e)\<rparr>\<rparr>"

text \<open>The key of a node in the hash table: \<open>keylen\<close> bytes of its key buffer.\<close>

definition entry_key :: "db_entry \<Rightarrow> byte list option" where
  "entry_key e = map_option (take (unat (e_keylen e))) (e_key e)"

definition db_key :: "db \<Rightarrow> ptr \<Rightarrow> byte list option" where
  "db_key d p = (case db_heap (dmem d) p of None \<Rightarrow> None | Some e \<Rightarrow> entry_key e)"

definition db_init :: "world \<Rightarrow> ptr \<Rightarrow> db \<Rightarrow> stop + db" where
  "db_init W pd d =
     bnd (db_get_empty_buffer W (d\<lparr>internal_db := [], db_pd := Some pd, db_page_size := page_size W\<rparr>))
       (\<lambda>(s, d1).
         case s of
           None \<Rightarrow> Inl (Exit (- 1))
         | Some p \<Rightarrow>
             bnd (load d1 s) (\<lambda>e.
             bnd (not_null (e_key e)) (\<lambda>kb.
             bnd (c_strncpy kb (''bla'' @ [NUL]) 3) (\<lambda>kb'.
             Inr ((store d1 p (e\<lparr>e_key := Some kb', e_keylen := 3, e_size := 1, e_lock := Free\<rparr>))
                    \<lparr>internal_db := HASH_ADD (internal_db d1) p\<rparr>)))))"

definition db_get :: "db \<Rightarrow> byte list \<Rightarrow> stop + ptr option" where
  "db_get d key =
     bnd (c_strlen key) (\<lambda>n. HASH_FIND (db_key d) (internal_db d) (take n key))"

text \<open>
  The branch of \<open>db_insert\<close> for a key that is not in the table. \<open>strncpy\<close> copies the key
  with its NUL, and the value without.
\<close>

definition db_insert_new :: "world \<Rightarrow> db \<Rightarrow> byte list \<Rightarrow> byte list \<Rightarrow> stop + db" where
  "db_insert_new W d key value =
     bnd (c_strlen value) (\<lambda>vlen.
     bnd (db_get_empty_buffer W d) (\<lambda>(s, d1).
     bnd (load d1 s) (\<lambda>e.
     bnd (c_strlen key) (\<lambda>klen.
     let kl = of_nat klen :: 32 word; sz = of_nat vlen :: 32 word
     in bnd (not_null (e_key e)) (\<lambda>kb.
        bnd (c_strncpy kb key (unat (kl + 1))) (\<lambda>kb'.
        bnd (not_null (e_value e)) (\<lambda>vb.
        bnd (c_strncpy (b_data vb) value (unat sz)) (\<lambda>vb'.
        Inr ((store d1 (the s) (e\<lparr>e_keylen := kl, e_key := Some kb', e_size := sz,
                e_value := Some (vb\<lparr>b_data := vb'\<rparr>), e_lock := Free\<rparr>))
               \<lparr>internal_db := HASH_ADD (internal_db d1) (the s)\<rparr>)))))))))"

text \<open>
  \<open>db_reallocate_item\<close> on a key that is in the table: keep the buffer when the new size is
  below half of it, else replace buffer and region.
\<close>

definition reallocate_entry :: "world \<Rightarrow> db \<Rightarrow> ptr \<Rightarrow> nat \<Rightarrow> stop + db" where
  "reallocate_entry W d p new_size =
     bnd (load d (Some p)) (\<lambda>e.
     if new_size < e_alloc e div 2 then Inr (store d p (e\<lparr>e_size := of_nat new_size\<rparr>))
     else
       let allocated_size = roundup (new_size * 4) (db_page_size d);
           n = db_next (dmem d); r = db_regs (dmem d)
       in if \<not> calloc_ok W n then Inl (Exit 1)
          else if \<not> reg_mr_ok W r then Inl (Exit 1)
          else Inr (store (d\<lparr>dmem := (dmem d)\<lparr>db_next := Suc n, db_regs := Suc r\<rparr>\<rparr>) p
                 (e\<lparr>e_value := Some \<lparr>b_addr = n, b_data = zeros allocated_size\<rparr>,
                    e_alloc := allocated_size, e_mr := reg_mr W r (Some n),
                    e_size := of_nat new_size\<rparr>)))"

text \<open>
  For a missing key the code creates the entry but goes on with its own NULL pointer. The
  insertion it calls takes the branch for new keys, after the test for an empty key.
\<close>

definition db_reallocate_item :: "world \<Rightarrow> db \<Rightarrow> byte list \<Rightarrow> nat \<Rightarrow> stop + db" where
  "db_reallocate_item W d key new_size =
     bnd (db_get d key) (\<lambda>entry.
     case entry of
       Some p \<Rightarrow> reallocate_entry W d p new_size
     | None \<Rightarrow>
         bnd (c_strlen key) (\<lambda>n.
         if n = 0 then Inl (Exit 1)
         else bnd (db_insert_new W d key [NUL]) (\<lambda>_. Inl (UB Null_deref))))"

definition db_insert :: "world \<Rightarrow> db \<Rightarrow> byte list \<Rightarrow> byte list \<Rightarrow> stop + db" where
  "db_insert W d key value =
     bnd (c_strlen key) (\<lambda>n.
     if n = 0 then Inl (Exit 1)
     else
       bnd (db_get d key) (\<lambda>s.
       bnd (c_strlen value) (\<lambda>vlen.
       case s of
         None \<Rightarrow> db_insert_new W d key value
       | Some p \<Rightarrow>
           bnd (db_reallocate_item W d key (vlen + 1)) (\<lambda>d1.
           bnd (load d1 s) (\<lambda>e.
           bnd (not_null (e_value e)) (\<lambda>vb.
           bnd (c_strncpy (b_data vb) value (unat (e_size e))) (\<lambda>vb'.
           Inr (store d1 p (e\<lparr>e_value := Some (vb\<lparr>b_data := vb'\<rparr>)\<rparr>)))))))))"

section \<open>Locks\<close>

definition db_entry_lock_wr :: "db \<Rightarrow> ptr option \<Rightarrow> stop + bool \<times> db" where
  "db_entry_lock_wr d r =
     bnd (load d r) (\<lambda>e.
     if e_lock e = Free
     then Inr (True, store d (the r) (e\<lparr>e_lock := Writer, e_writers := e_writers e + 1\<rparr>))
     else Inr (False, d))"

fun rd_locked :: "rwlock \<Rightarrow> rwlock option" where
  "rd_locked Free = Some (Readers 1)"
| "rd_locked (Readers n) = Some (Readers (Suc n))"
| "rd_locked Writer = None"

definition db_entry_lock_rd :: "db \<Rightarrow> ptr option \<Rightarrow> stop + bool \<times> db" where
  "db_entry_lock_rd d r =
     bnd (load d r) (\<lambda>e.
     case rd_locked (e_lock e) of
       Some l \<Rightarrow> Inr (True, store d (the r) (e\<lparr>e_lock := l, e_readers := e_readers e + 1\<rparr>))
     | None \<Rightarrow> Inr (False, d))"

fun unlocked :: "rwlock \<Rightarrow> stop + rwlock" where
  "unlocked Free = Inl (UB Bad_unlock)"
| "unlocked (Readers n) = Inr (if n \<le> 1 then Free else Readers (n - 1))"
| "unlocked Writer = Inr Free"

definition db_entry_unlock :: "db \<Rightarrow> ptr option \<Rightarrow> stop + bool \<times> db" where
  "db_entry_unlock d r =
     bnd (load d r) (\<lambda>e.
     if e_readers e = 0 \<and> e_writers e = 0 then Inl (Exit 1)
     else bnd (unlocked (e_lock e)) (\<lambda>l.
       Inr (True, store d (the r)
         (if 0 < e_readers e then e\<lparr>e_lock := l, e_readers := e_readers e - 1\<rparr>
          else e\<lparr>e_lock := l, e_writers := e_writers e - 1\<rparr>))))"

section \<open>Teardown\<close>

definition db_free :: "db \<Rightarrow> ptr \<Rightarrow> db" where
  "db_free d p = d\<lparr>dmem := (dmem d)\<lparr>db_heap := (db_heap (dmem d))(p := None)\<rparr>\<rparr>"

text \<open>The loop over the slots; the array must exist, an unused slot is skipped.\<close>

fun free_slots :: "ptr option list \<Rightarrow> db \<Rightarrow> stop + db" where
  "free_slots [] d = Inr d"
| "free_slots (None # xs) d = free_slots xs d"
| "free_slots (Some p # xs) d = bnd (load d (Some p)) (\<lambda>_. free_slots xs (db_free d p))"

definition db_clear_preallocated_buffers :: "db \<Rightarrow> stop + db" where
  "db_clear_preallocated_buffers d =
     (case slots (db_pool d) of
        None \<Rightarrow> Inl (UB Null_deref)
      | Some xs \<Rightarrow>
          bnd (free_slots xs d) (\<lambda>d1. Inr (d1\<lparr>db_pool := (db_pool d1)\<lparr>slots := None\<rparr>\<rparr>)))"

definition destroy_entry :: "ptr \<Rightarrow> db \<Rightarrow> stop + db" where
  "destroy_entry p d =
     bnd (load d (Some p)) (\<lambda>_.
     Inr (db_free (d\<lparr>internal_db := HASH_DEL (internal_db d) p\<rparr>) p))"

definition db_destroy :: "db \<Rightarrow> stop + db" where
  "db_destroy d =
     bnd (HASH_ITER internal_db destroy_entry d) (\<lambda>d1.
     db_clear_preallocated_buffers (d1\<lparr>internal_db := [], db_pd := None\<rparr>))"

section \<open>The invariant\<close>

fun lock_ok :: "rwlock \<Rightarrow> int \<Rightarrow> int \<Rightarrow> bool" where
  "lock_ok Free r w \<longleftrightarrow> r = 0 \<and> w = 0"
| "lock_ok (Readers n) r w \<longleftrightarrow> 0 < n \<and> r = int n \<and> w = 0"
| "lock_ok Writer r w \<longleftrightarrow> r = 0 \<and> w = 1"

text \<open>
  An entry of the table: the key is a non-empty NUL-terminated string, the value buffer has the
  recorded length and more room than the recorded size, there is a region for this buffer, and the
  counters agree with the lock.
\<close>

definition entry_ok :: "db_entry \<Rightarrow> bool" where
  "entry_ok e \<longleftrightarrow>
     (case (e_key e, e_value e) of
        (Some kb, Some vb) \<Rightarrow>
          0 < unat (e_keylen e) \<and> unat (e_keylen e) < length kb \<and>
          NUL \<notin> set (take (unat (e_keylen e)) kb) \<and> kb ! unat (e_keylen e) = NUL \<and>
          length (b_data vb) = e_alloc e \<and> unat (e_size e) < e_alloc e \<and>
          2 \<le> e_alloc e \<and>
          (case e_mr e of None \<Rightarrow> False | Some m \<Rightarrow> mr_addr m = Some (b_addr vb)) \<and>
          lock_ok (e_lock e) (e_readers e) (e_writers e)
      | _ \<Rightarrow> False)"

definition blank_entry :: "world \<Rightarrow> nat \<Rightarrow> db_entry \<Rightarrow> bool" where
  "blank_entry W page e \<longleftrightarrow> (\<exists>n r. e = fresh_entry W page n r)"

definition db_mem_wf :: "db_mem \<Rightarrow> bool" where
  "db_mem_wf m \<longleftrightarrow> (\<forall>p. db_heap m p \<noteq> None \<longrightarrow> p < db_next m)"

interpretation dpool: entry_maker "new_db_entry W page" "db_array W" db_heap "blank_entry W page" db_mem_wf
  for W page
proof unfold_locales
  show "new_db_entry W page s = Inl e \<Longrightarrow> e = Exit 1" for s e
    by (auto simp: new_db_entry_def Let_def split: if_splits)
  show "db_mem_wf s \<Longrightarrow> new_db_entry W page s = Inr (p, s') \<Longrightarrow>
      db_heap s p = None \<and> db_mem_wf s' \<and>
      (\<exists>e. blank_entry W page e \<and> db_heap s' = (db_heap s)(p \<mapsto> e))" for s p s'
    by (fastforce simp: new_db_entry_def Let_def db_mem_wf_def blank_entry_def split: if_splits)
  show "db_mem_wf s \<Longrightarrow> db_array W s = (b, s') \<Longrightarrow> db_mem_wf s' \<and> db_heap s' = db_heap s" for s b s'
    by (fastforce simp: db_array_def db_mem_wf_def less_Suc_eq)
qed

text \<open>
  The table holds live, well-formed entries with distinct keys, the pool holds the other
  entries, and no entry is lost.
\<close>

definition db_inv :: "world \<Rightarrow> db \<Rightarrow> bool" where
  "db_inv W d \<longleftrightarrow>
     0 < db_page_size d \<and>
     dpool.pool_ok W (db_page_size d) MAX_ALLOCATED_DB_ENTRIES (db_pool d) (dmem d) \<and>
     table_ok (db_key d) (internal_db d) \<and>
     (\<forall>p \<in> set (internal_db d). \<exists>e. db_heap (dmem d) p = Some e \<and> entry_ok e) \<and>
     set (internal_db d) \<inter> set (pool_ptrs (db_pool d)) = {} \<and>
     (\<forall>p. db_heap (dmem d) p \<noteq> None \<longrightarrow> p \<in> set (internal_db d) \<union> set (pool_ptrs (db_pool d)))"

text \<open>The map a table stands for: the value of a key is the string in the recorded size.\<close>

definition entry_val :: "db_entry \<Rightarrow> byte list" where
  "entry_val e =
     (case e_value e of None \<Rightarrow> [] | Some vb \<Rightarrow> cstr (take (unat (e_size e)) (b_data vb)))"

definition db_abs :: "db \<Rightarrow> byte list \<Rightarrow> byte list option" where
  "db_abs d k =
     (case find (\<lambda>p. db_key d p = Some k) (internal_db d) of
        None \<Rightarrow> None
      | Some p \<Rightarrow> map_option entry_val (db_heap (dmem d) p))"

section \<open>Basic facts\<close>

lemma load_eq_Inr [simp]: "load d (Some p) = Inr e \<longleftrightarrow> db_heap (dmem d) p = Some e"
  by (simp add: load_def split: option.split)

lemma load_Some: "db_heap (dmem d) p = Some e \<Longrightarrow> load d (Some p) = Inr e"
  by simp

lemma store_simps [simp]:
  "internal_db (store d p e) = internal_db d"
  "db_pd (store d p e) = db_pd d"
  "db_page_size (store d p e) = db_page_size d"
  "db_pool (store d p e) = db_pool d"
  "db_heap (dmem (store d p e)) = (db_heap (dmem d))(p \<mapsto> e)"
  "db_next (dmem (store d p e)) = db_next (dmem d)"
  "db_regs (dmem (store d p e)) = db_regs (dmem d)"
  by (simp_all add: store_def)

lemma not_null_simps [simp]: "not_null (Some a) = Inr a" "not_null None = Inl (UB Null_deref)"
  by (simp_all add: not_null_def)

lemma db_key_store: "db_key (store d p e) q = (if q = p then entry_key e else db_key d q)"
  by (simp add: db_key_def)

lemma db_key_heap: "db_heap (dmem d) p = Some e \<Longrightarrow> db_key d p = entry_key e"
  by (simp add: db_key_def)

lemma entry_ok_live:
  "db_inv W d \<Longrightarrow> p \<in> set (internal_db d) \<Longrightarrow> \<exists>e. db_heap (dmem d) p = Some e \<and> entry_ok e"
  by (simp add: db_inv_def)

lemma entry_okE:
  assumes "entry_ok e"
  obtains kb vb m where "e_key e = Some kb" "e_value e = Some vb" "e_mr e = Some m"
    "0 < unat (e_keylen e)" "unat (e_keylen e) < length kb"
    "NUL \<notin> set (take (unat (e_keylen e)) kb)" "kb ! unat (e_keylen e) = NUL"
    "length (b_data vb) = e_alloc e" "unat (e_size e) < e_alloc e" "2 \<le> e_alloc e"
    "mr_addr m = Some (b_addr vb)" "lock_ok (e_lock e) (e_readers e) (e_writers e)"
  using assms unfolding entry_ok_def by (auto split: option.splits)

lemma entry_ok_key: "entry_ok e \<Longrightarrow> \<exists>k. entry_key e = Some k \<and> k \<noteq> [] \<and> NUL \<notin> set k"
  by (auto simp: entry_key_def elim!: entry_okE)

text \<open>The entry is the same but for its lock.\<close>

definition same_but_lock :: "db_entry \<Rightarrow> db_entry \<Rightarrow> bool" where
  "same_but_lock e e' \<longleftrightarrow>
     e' = e\<lparr>e_lock := e_lock e', e_readers := e_readers e', e_writers := e_writers e'\<rparr>"

lemma same_but_lock_simps:
  assumes "same_but_lock e e'"
  shows "entry_key e' = entry_key e" "entry_val e' = entry_val e" "e_size e' = e_size e"
    "e_value e' = e_value e" "e_mr e' = e_mr e" "e_alloc e' = e_alloc e"
proof -
  from assms have e': "e' = e\<lparr>e_lock := e_lock e', e_readers := e_readers e', e_writers := e_writers e'\<rparr>"
    by (simp add: same_but_lock_def)
  show "entry_key e' = entry_key e" by (subst e') (simp add: entry_key_def)
  show "entry_val e' = entry_val e" by (subst e') (simp add: entry_val_def split: option.split)
  show "e_size e' = e_size e" by (subst e') simp
  show "e_value e' = e_value e" by (subst e') simp
  show "e_mr e' = e_mr e" by (subst e') simp
  show "e_alloc e' = e_alloc e" by (subst e') simp
qed

lemma same_but_lock_ok:
  assumes "same_but_lock e e'" and "entry_ok e" and "lock_ok (e_lock e') (e_readers e') (e_writers e')"
  shows "entry_ok e'"
proof -
  from assms(1) have e': "e' = e\<lparr>e_lock := e_lock e', e_readers := e_readers e', e_writers := e_writers e'\<rparr>"
    by (simp add: same_but_lock_def)
  show ?thesis using assms(2,3) by (subst e') (auto simp: entry_ok_def split: option.splits)
qed

section \<open>The map behind the table\<close>

lemma db_abs_Some:
  assumes "db_inv W d" and "p \<in> set (internal_db d)" and "db_heap (dmem d) p = Some e"
    and "entry_key e = Some k"
  shows "db_abs d k = Some (entry_val e)"
proof -
  have key: "db_key d p = Some k" using assms(3,4) by (simp add: db_key_def)
  have "find (\<lambda>p. db_key d p = Some k) (internal_db d) = Some p"
  proof (cases "find (\<lambda>p. db_key d p = Some k) (internal_db d)")
    case None
    then show ?thesis using assms(2) key by (simp add: find_None_iff)
  next
    case (Some q)
    then have "q \<in> set (internal_db d)" "db_key d q = Some k" by (auto simp: find_Some_iff)
    then have "q = p"
      using ht.ok_inj [of "db_key d" "internal_db d" q p] assms(1,2) key by (simp add: db_inv_def)
    then show ?thesis using Some by simp
  qed
  then show ?thesis using assms(3) by (simp add: db_abs_def)
qed

lemma db_abs_None:
  "\<forall>p \<in> set (internal_db d). db_key d p \<noteq> Some k \<Longrightarrow> db_abs d k = None"
proof -
  assume "\<forall>p \<in> set (internal_db d). db_key d p \<noteq> Some k"
  then have "find (\<lambda>p. db_key d p = Some k) (internal_db d) = None" by (simp add: find_None_iff)
  then show ?thesis by (simp add: db_abs_def)
qed

lemma db_abs_cases:
  assumes "db_inv W d"
  obtains (there) p e where "p \<in> set (internal_db d)" "db_heap (dmem d) p = Some e"
      "entry_ok e" "entry_key e = Some k" "db_abs d k = Some (entry_val e)"
  | (absent) "\<forall>p \<in> set (internal_db d). db_key d p \<noteq> Some k" "db_abs d k = None"
proof (cases "\<exists>p \<in> set (internal_db d). db_key d p = Some k")
  case True
  then obtain p where p: "p \<in> set (internal_db d)" "db_key d p = Some k" by blast
  from entry_ok_live [OF assms p(1)] obtain e where e: "db_heap (dmem d) p = Some e" "entry_ok e"
    by blast
  with p(2) have "entry_key e = Some k" by (simp add: db_key_def)
  with there [OF p(1) e this] db_abs_Some [OF assms p(1) e(1)] show ?thesis by simp
next
  case False
  then have none: "\<forall>p \<in> set (internal_db d). db_key d p \<noteq> Some k" by blast
  show ?thesis by (rule absent [OF none db_abs_None [OF none]])
qed

text \<open>Replacing an entry of the table by a well-formed one with the same key.\<close>

lemma db_inv_store:
  assumes inv: "db_inv W d" and p: "p \<in> set (internal_db d)" "db_heap (dmem d) p = Some e"
    and e': "entry_ok e'" "entry_key e' = entry_key e"
  shows "db_inv W (store d p e')"
proof -
  have pool: "p \<notin> set (pool_ptrs (db_pool d))" using inv p(1) by (auto simp: db_inv_def)
  have key: "db_key (store d p e') q = db_key d q" for q
    using p(2) e'(2) by (simp add: db_key_store db_key_heap)
  have "table_ok (db_key (store d p e')) (internal_db d)"
    using inv by (simp add: db_inv_def key table_ok_def inj_on_def)
  moreover have "dpool.pool_ok W (db_page_size d) MAX_ALLOCATED_DB_ENTRIES (db_pool d)
      (dmem (store d p e'))"
  proof -
    have old: "dpool.pool_ok W (db_page_size d) MAX_ALLOCATED_DB_ENTRIES (db_pool d) (dmem d)"
      using inv by (simp add: db_inv_def)
    then have "db_mem_wf (dmem (store d p e'))"
      using p(2) by (simp add: dpool.pool_ok_def db_mem_wf_def)
    with old pool show ?thesis by (auto simp: dpool.pool_ok_def)
  qed
  moreover have "\<forall>q. db_heap (dmem (store d p e')) q \<noteq> None \<longrightarrow>
      q \<in> set (internal_db d) \<union> set (pool_ptrs (db_pool d))"
    using inv p(1) by (simp add: db_inv_def)
  ultimately show ?thesis using inv e'(1) p(1) by (simp add: db_inv_def)
qed

lemma db_abs_store:
  assumes inv: "db_inv W d" and p: "p \<in> set (internal_db d)" "db_heap (dmem d) p = Some e"
    and e': "entry_ok e'" "entry_key e' = entry_key e" "entry_key e = Some k"
  shows "db_abs (store d p e') = (db_abs d)(k \<mapsto> entry_val e')"
proof
  fix j
  have inv': "db_inv W (store d p e')" by (rule db_inv_store [OF inv p e'(1,2)])
  show "db_abs (store d p e') j = ((db_abs d)(k \<mapsto> entry_val e')) j"
  proof (cases "j = k")
    case True
    then show ?thesis using db_abs_Some [OF inv', of p e' k] p e' by simp
  next
    case False
    show ?thesis
      using inv
    proof (cases rule: db_abs_cases [where k = j])
      case (there q f)
      then have "q \<noteq> p" using False p(2) e'(3) by auto
      with there False db_abs_Some [OF inv', of q f j] show ?thesis by simp
    next
      case absent
      then have "\<forall>q \<in> set (internal_db (store d p e')). db_key (store d p e') q \<noteq> Some j"
        using False e' by (auto simp: db_key_store)
      from db_abs_None [OF this] absent False show ?thesis by simp
    qed
  qed
qed

text \<open>Only the numbers of the next allocation and registration move.\<close>

lemma db_inv_counters:
  assumes "db_inv W d" and "db_next (dmem d) \<le> n"
  shows "db_inv W (d\<lparr>dmem := (dmem d)\<lparr>db_next := n, db_regs := r\<rparr>\<rparr>)"
  using assms
  by (auto simp: db_inv_def dpool.pool_ok_def db_mem_wf_def db_key_def table_ok_def inj_on_def
      intro: less_le_trans)

lemma db_abs_counters:
  "db_abs (d\<lparr>dmem := (dmem d)\<lparr>db_next := n, db_regs := r\<rparr>\<rparr>) = db_abs d"
proof -
  have "db_key (d\<lparr>dmem := (dmem d)\<lparr>db_next := n, db_regs := r\<rparr>\<rparr>) = db_key d"
    by (rule ext) (simp add: db_key_def)
  then show ?thesis by (intro ext) (simp add: db_abs_def split: option.split)
qed

section \<open>Lookup\<close>

lemma db_get_find:
  "NUL \<notin> set k \<Longrightarrow> db_get d (k @ NUL # r) = HASH_FIND (db_key d) (internal_db d) k"
  by (simp add: db_get_def)

lemma db_get_there:
  assumes "db_inv W d" and "NUL \<notin> set k" and "p \<in> set (internal_db d)" and "db_key d p = Some k"
  shows "db_get d (k @ NUL # r) = Inr (Some p)"
  using assms ht.find_hit [of "db_key d" "internal_db d" p k]
  by (simp add: db_get_find db_inv_def)

lemma db_get_absent:
  assumes "db_inv W d" and "NUL \<notin> set k" and "\<forall>p \<in> set (internal_db d). db_key d p \<noteq> Some k"
  shows "db_get d (k @ NUL # r) = Inr None"
  using assms ht.find_miss [of "db_key d" "internal_db d" k]
  by (simp add: db_get_find db_inv_def)

lemma db_get_cases:
  assumes "db_inv W d" and "NUL \<notin> set k"
  obtains (there) p e where "\<And>r. db_get d (k @ NUL # r) = Inr (Some p)" "p \<in> set (internal_db d)"
      "db_heap (dmem d) p = Some e" "entry_ok e" "entry_key e = Some k" "db_key d p = Some k"
      "db_abs d k = Some (entry_val e)"
  | (absent) "\<And>r. db_get d (k @ NUL # r) = Inr None"
      "\<forall>p \<in> set (internal_db d). db_key d p \<noteq> Some k" "db_abs d k = None"
  using assms(1)
proof (cases rule: db_abs_cases [where k = k])
  case (there p e)
  then show ?thesis using that(1) [of p e] assms db_get_there by (simp add: db_key_def)
next
  case absent
  show ?thesis
    by (rule that(2) [OF db_get_absent [OF assms absent(1)] absent])
qed

section \<open>Taking a new entry\<close>

lemma key_room_ge: "0 < page \<Longrightarrow> CLIENT_REQUEST_PAYLOAD_LEN \<le> key_room page"
proof -
  assume "0 < page"
  then have "0 < key_room page" using roundup_ge [of CLIENT_REQUEST_PAYLOAD_LEN page]
    by (simp add: key_room_def)
  moreover have "CLIENT_REQUEST_PAYLOAD_LEN dvd key_room page"
    unfolding key_room_def by (rule roundup_dvd)
  ultimately show ?thesis by (rule dvd_imp_le [rotated])
qed

lemma blank_fields:
  assumes "blank_entry W page e" and "plentiful W"
  obtains a m where "e_key e = Some (zeros (key_room page))"
    "e_value e = Some \<lparr>b_addr = a, b_data = zeros (2 * key_room page)\<rparr>"
    "e_alloc e = 2 * key_room page" "e_mr e = Some m" "mr_addr m = Some a"
    "e_lock e = Free" "e_readers e = 0" "e_writers e = 0"
  using assms by (auto simp: blank_entry_def fresh_entry_def plentiful_def reg_mr_def Let_def)

text \<open>The invariant while an entry \<open>p\<close> is out of the pool and not yet in the table.\<close>

definition detached :: "world \<Rightarrow> db \<Rightarrow> ptr \<Rightarrow> bool" where
  "detached W d p \<longleftrightarrow>
     0 < db_page_size d \<and>
     dpool.pool_ok W (db_page_size d) MAX_ALLOCATED_DB_ENTRIES (db_pool d) (dmem d) \<and>
     table_ok (db_key d) (internal_db d) \<and>
     (\<forall>q \<in> set (internal_db d). \<exists>e. db_heap (dmem d) q = Some e \<and> entry_ok e) \<and>
     set (internal_db d) \<inter> set (pool_ptrs (db_pool d)) = {} \<and>
     p \<notin> set (internal_db d) \<and> p \<notin> set (pool_ptrs (db_pool d)) \<and>
     db_heap (dmem d) p \<noteq> None \<and>
     (\<forall>q. db_heap (dmem d) q \<noteq> None \<longrightarrow>
        q \<in> set (internal_db d) \<union> insert p (set (pool_ptrs (db_pool d))))"

lemma take_entry:
  assumes inv: "db_inv W d" and W: "plentiful W"
  obtains p e d1 where "db_get_empty_buffer W d = Inr (Some p, d1)"
    "db_heap (dmem d1) p = Some e" "blank_entry W (db_page_size d) e" "detached W d1 p"
    "internal_db d1 = internal_db d" "db_page_size d1 = db_page_size d" "db_pd d1 = db_pd d"
    "\<forall>q \<in> set (internal_db d). db_heap (dmem d1) q = db_heap (dmem d) q"
proof -
  let ?pg = "db_page_size d"
  have ok: "dpool.pool_ok W ?pg MAX_ALLOCATED_DB_ENTRIES (db_pool d) (dmem d)"
    using inv by (simp add: db_inv_def)
  obtain r P m where res: "get_empty_buffer MAX_ALLOCATED_DB_ENTRIES (db_array W)
      (new_db_entry W ?pg) (db_pool d) (dmem d) = Inr (r, P, m)"
    using dpool.get_empty_buffer_total [OF ok] W
    by (auto simp: new_db_entry_def db_array_def plentiful_def Let_def)
  from dpool.get_empty_buffer_ok [OF ok _ res] obtain p e where
    pe: "r = Some p" "db_heap m p = Some e" "blank_entry W ?pg e"
      "dpool.pool_ok W ?pg MAX_ALLOCATED_DB_ENTRIES P m" "p \<notin> set (pool_ptrs P)"
      "\<forall>q. db_heap (dmem d) q \<noteq> None \<longrightarrow> db_heap m q = db_heap (dmem d) q"
      "p \<in> set (pool_ptrs (db_pool d)) \<or> db_heap (dmem d) p = None"
      "\<forall>q \<in> set (pool_ptrs P). q \<in> set (pool_ptrs (db_pool d)) \<or> db_heap (dmem d) q = None"
      "\<forall>q. db_heap m q \<noteq> None \<longrightarrow> db_heap (dmem d) q \<noteq> None \<or> q \<in> insert p (set (pool_ptrs P))"
      "set (pool_ptrs (db_pool d)) \<subseteq> insert p (set (pool_ptrs P))"
    by auto
  let ?d1 = "d\<lparr>db_pool := P, dmem := m\<rparr>"
  have live: "\<forall>q \<in> set (internal_db d). \<exists>e. db_heap (dmem d) q = Some e \<and> entry_ok e"
    using inv by (simp add: db_inv_def)
  have keep: "\<forall>q \<in> set (internal_db d). db_heap m q = db_heap (dmem d) q"
    using live pe(6) by (metis option.distinct(1))
  have out: "p \<notin> set (internal_db d)"
    using live pe(7) inv by (auto simp: db_inv_def)
  have disj: "set (internal_db d) \<inter> set (pool_ptrs P) = {}"
    using live pe(8) inv by (fastforce simp: db_inv_def)
  have "\<forall>q \<in> set (internal_db d). db_key ?d1 q = db_key d q"
    using keep by (simp add: db_key_def)
  then have tab: "table_ok (db_key ?d1) (internal_db d)"
    using ht.ok_frame [of "db_key d" "internal_db d" "db_key ?d1"] inv by (simp add: db_inv_def)
  have all: "q \<in> set (internal_db d) \<union> insert p (set (pool_ptrs P))" if "db_heap m q \<noteq> None" for q
    using pe(9,10) inv that unfolding db_inv_def by blast
  have det: "detached W ?d1 p"
    unfolding detached_def
    using inv pe(2,4,5) keep live out disj tab all by (simp add: db_inv_def)
  have "db_get_empty_buffer W d = Inr (Some p, ?d1)"
    using res pe(1) by (simp add: db_get_empty_buffer_def)
  from that [OF this _ pe(3) det] pe(2) keep show ?thesis by simp
qed

lemma db_inv_add:
  assumes det: "detached W d p" and e: "entry_ok e" "entry_key e = Some k"
    and new: "\<forall>q \<in> set (internal_db d). db_key d q \<noteq> Some k"
  shows "db_inv W ((store d p e)\<lparr>internal_db := HASH_ADD (internal_db d) p\<rparr>)"
proof -
  let ?d = "(store d p e)\<lparr>internal_db := HASH_ADD (internal_db d) p\<rparr>"
  have p: "p \<notin> set (internal_db d)" "p \<notin> set (pool_ptrs (db_pool d))" "db_heap (dmem d) p \<noteq> None"
    using det by (simp_all add: detached_def)
  have key: "db_key ?d q = (if q = p then Some k else db_key d q)" for q
    using e(2) by (simp add: db_key_def)
  have "table_ok (db_key ?d) (internal_db d)"
  proof (rule ht.ok_frame)
    show "table_ok (db_key d) (internal_db d)" using det by (simp add: detached_def)
    show "\<forall>q \<in> set (internal_db d). db_key ?d q = db_key d q" using p(1) by (auto simp: key)
  qed
  moreover have "\<forall>q \<in> set (internal_db d). db_key ?d q \<noteq> Some k"
    using new p(1) by (auto simp: key)
  ultimately have tab: "table_ok (db_key ?d) (HASH_ADD (internal_db d) p)"
    using p(1) by (intro ht.add_ok [where k = k]) (simp_all add: key)
  have pool: "dpool.pool_ok W (db_page_size d) MAX_ALLOCATED_DB_ENTRIES (db_pool d) (dmem ?d)"
  proof -
    have old: "dpool.pool_ok W (db_page_size d) MAX_ALLOCATED_DB_ENTRIES (db_pool d) (dmem d)"
      using det by (simp add: detached_def)
    then have "db_mem_wf (dmem ?d)" using p(3) by (simp add: dpool.pool_ok_def db_mem_wf_def)
    with old p(2) show ?thesis by (auto simp: dpool.pool_ok_def)
  qed
  have "\<forall>q. db_heap (dmem ?d) q \<noteq> None \<longrightarrow>
      q \<in> set (internal_db ?d) \<union> set (pool_ptrs (db_pool ?d))"
    using det by (simp add: detached_def HASH_ADD_def) blast
  with tab pool det e(1) p show ?thesis
    by (simp add: db_inv_def detached_def HASH_ADD_def)
qed

section \<open>Insertion\<close>

text \<open>What an operation on the entry of one key does to the rest of the table.\<close>

definition updates_entry :: "db \<Rightarrow> db \<Rightarrow> ptr \<Rightarrow> db_entry \<Rightarrow> bool" where
  "updates_entry d d' p e' \<longleftrightarrow>
     db_heap (dmem d') = (db_heap (dmem d))(p \<mapsto> e') \<and> internal_db d' = internal_db d \<and>
     db_page_size d' = db_page_size d \<and> db_pd d' = db_pd d"

lemma reallocate_entry_ok:
  assumes inv: "db_inv W d" and W: "plentiful W" and p: "p \<in> set (internal_db d)"
    and e: "db_heap (dmem d) p = Some e" and n: "n < 2 ^ 32"
  obtains e' d' where "reallocate_entry W d p n = Inr d'" "updates_entry d d' p e'"
    "entry_ok e'" "entry_key e' = entry_key e" "unat (e_size e') = n" "n < e_alloc e'"
    "e_lock e' = e_lock e" "e_readers e' = e_readers e" "e_writers e' = e_writers e" "db_inv W d'"
proof -
  have eok: "entry_ok e" using entry_ok_live [OF inv p] e by auto
  have sz: "unat (of_nat n :: 32 word) = n" using n by (rule unat_of_nat32)
  show ?thesis
  proof (cases "n < e_alloc e div 2")
    case True
    let ?e = "e\<lparr>e_size := of_nat n\<rparr>"
    have ok: "entry_ok ?e" "n < e_alloc e"
      using eok True sz by (auto simp: entry_ok_def split: option.splits)
    have key: "entry_key ?e = entry_key e" by (simp add: entry_key_def)
    show ?thesis
    proof (rule that [of "store d p ?e" ?e])
      show "reallocate_entry W d p n = Inr (store d p ?e)"
        using e True by (simp add: reallocate_entry_def load_Some)
      show "db_inv W (store d p ?e)" by (rule db_inv_store [OF inv p e ok(1) key])
    qed (use ok key sz in \<open>simp_all add: updates_entry_def\<close>)
  next
    case False
    let ?a = "db_next (dmem d)" and ?r = "db_regs (dmem d)"
    let ?sz = "roundup (n * 4) (db_page_size d)"
    let ?d = "d\<lparr>dmem := (dmem d)\<lparr>db_next := Suc ?a, db_regs := Suc ?r\<rparr>\<rparr>"
    let ?e = "e\<lparr>e_value := Some \<lparr>b_addr = ?a, b_data = zeros ?sz\<rparr>, e_alloc := ?sz,
                e_mr := reg_mr W ?r (Some ?a), e_size := of_nat n\<rparr>"
    have "2 \<le> e_alloc e" using eok by (auto elim: entry_okE)
    then have "0 < n" using False by (cases n) auto
    moreover have "n * 4 \<le> ?sz" using inv by (intro roundup_ge) (simp add: db_inv_def)
    ultimately have room: "n < ?sz" "2 \<le> ?sz" by linarith+
    have ok: "entry_ok ?e"
      using eok room sz W
      by (auto simp: entry_ok_def reg_mr_def plentiful_def split: option.splits)
    have key: "entry_key ?e = entry_key e" by (simp add: entry_key_def)
    show ?thesis
    proof (rule that [of "store ?d p ?e" ?e])
      show "reallocate_entry W d p n = Inr (store ?d p ?e)"
        using e False W by (simp add: reallocate_entry_def load_Some plentiful_def Let_def)
      show "db_inv W (store ?d p ?e)"
        using p e by (intro db_inv_store [OF db_inv_counters [OF inv] _ _ ok key]) simp_all
    qed (use ok key sz room in \<open>simp_all add: updates_entry_def\<close>)
  qed
qed

text \<open>
  Storing a string of at most the recorded size in the value buffer of an entry makes it the
  entry's value.
\<close>

lemma write_value:
  assumes e: "entry_ok e" "e_value e = Some vb" and v: "NUL \<notin> set v" "length v \<le> unat (e_size e)"
  obtains data where "c_strncpy (b_data vb) (v @ NUL # r) (unat (e_size e)) = Inr data"
    "entry_ok (e\<lparr>e_value := Some (vb\<lparr>b_data := data\<rparr>)\<rparr>)"
    "entry_val (e\<lparr>e_value := Some (vb\<lparr>b_data := data\<rparr>)\<rparr>) = v"
proof -
  let ?n = "unat (e_size e)"
  let ?data = "v @ zeros (?n - length v) @ drop ?n (b_data vb)"
  have room: "?n \<le> length (b_data vb)" using e by (auto elim!: entry_okE)
  have "c_strncpy (b_data vb) (v @ NUL # r) ?n = Inr ?data"
    using v room by (intro c_strncpy_string)
  moreover have "entry_ok (e\<lparr>e_value := Some (vb\<lparr>b_data := ?data\<rparr>)\<rparr>)"
    using e v room by (auto simp: entry_ok_def split: option.splits)
  moreover have "cstr (v @ zeros (?n - length v)) = v"
    using v(1) by (cases "?n - length v") (simp_all add: cstr_append cstr_id)
  then have "entry_val (e\<lparr>e_value := Some (vb\<lparr>b_data := ?data\<rparr>)\<rparr>) = v"
    using v by (simp add: entry_val_def)
  ultimately show ?thesis by (rule that)
qed

lemma db_insert_old:
  assumes inv: "db_inv W d" and W: "plentiful W" and p: "p \<in> set (internal_db d)"
    and e: "db_heap (dmem d) p = Some e" "entry_key e = Some k" and k: "NUL \<notin> set k"
    and v: "NUL \<notin> set v" "length v + 1 < 2 ^ 32"
  obtains e' d' where "db_insert W d (k @ NUL # r) (v @ NUL # r') = Inr d'"
    "updates_entry d d' p e'" "entry_ok e'" "entry_key e' = Some k" "entry_val e' = v"
    "e_lock e' = e_lock e" "e_readers e' = e_readers e" "e_writers e' = e_writers e"
    "unat (e_size e') = length v + 1" "db_inv W d'"
proof -
  have key: "db_key d p = Some k" using e by (simp add: db_key_def)
  have "entry_ok e" using entry_ok_live [OF inv p] e by auto
  from entry_ok_key [OF this] e(2) have "k \<noteq> []" by simp
  have get: "db_get d (k @ NUL # r) = Inr (Some p)" by (rule db_get_there [OF inv k p key])
  obtain e1 d1 where
    re: "reallocate_entry W d p (length v + 1) = Inr d1" "updates_entry d d1 p e1"
      "entry_ok e1" "entry_key e1 = entry_key e" "unat (e_size e1) = length v + 1"
      "e_lock e1 = e_lock e" "e_readers e1 = e_readers e" "e_writers e1 = e_writers e" "db_inv W d1"
    using reallocate_entry_ok [OF inv W p e(1) v(2)] by metis
  obtain vb where vb: "e_value e1 = Some vb" using re(3) by (auto elim: entry_okE)
  obtain data where
    data: "c_strncpy (b_data vb) (v @ NUL # r') (unat (e_size e1)) = Inr data"
      "entry_ok (e1\<lparr>e_value := Some (vb\<lparr>b_data := data\<rparr>)\<rparr>)"
      "entry_val (e1\<lparr>e_value := Some (vb\<lparr>b_data := data\<rparr>)\<rparr>) = v"
    using write_value [OF re(3) vb v(1)] re(5) by auto
  let ?e = "e1\<lparr>e_value := Some (vb\<lparr>b_data := data\<rparr>)\<rparr>"
  have e1: "db_heap (dmem d1) p = Some e1" "p \<in> set (internal_db d1)"
    using re(2) p by (simp_all add: updates_entry_def)
  have key': "entry_key ?e = entry_key e1" by (simp add: entry_key_def)
  show ?thesis
  proof (rule that [of "store d1 p ?e" ?e])
    show "db_insert W d (k @ NUL # r) (v @ NUL # r') = Inr (store d1 p ?e)"
      using \<open>k \<noteq> []\<close> k v(1) get re(1) e1(1) vb data(1)
      by (simp add: db_insert_def db_reallocate_item_def load_Some)
    show "db_inv W (store d1 p ?e)" by (rule db_inv_store [OF re(9) e1(2,1) data(2) key'])
  qed (use re e data key' in \<open>simp_all add: updates_entry_def\<close>)
qed

lemma db_insert_fresh:
  assumes inv: "db_inv W d" and W: "plentiful W"
    and absent: "\<forall>q \<in> set (internal_db d). db_key d q \<noteq> Some k"
    and k: "NUL \<notin> set k" "k \<noteq> []" "length k < key_room (db_page_size d)" "length k + 1 < 2 ^ 32"
    and v: "NUL \<notin> set v" "length v < 2 * key_room (db_page_size d)" "length v < 2 ^ 32"
  obtains p e' d' where "db_insert W d (k @ NUL # r) (v @ NUL # r') = Inr d'"
    "p \<notin> set (internal_db d)" "internal_db d' = internal_db d @ [p]"
    "db_heap (dmem d') p = Some e'" "entry_ok e'" "entry_key e' = Some k" "entry_val e' = v"
    "e_lock e' = Free" "unat (e_size e') = length v"
    "\<forall>q \<in> set (internal_db d). db_heap (dmem d') q = db_heap (dmem d) q"
    "db_page_size d' = db_page_size d" "db_inv W d'"
proof -
  let ?pg = "db_page_size d"
  have get: "db_get d (k @ NUL # r) = Inr None" by (rule db_get_absent [OF inv k(1) absent])
  obtain p e d1 where
    tk: "db_get_empty_buffer W d = Inr (Some p, d1)" "db_heap (dmem d1) p = Some e"
      "blank_entry W ?pg e" "detached W d1 p" "internal_db d1 = internal_db d"
      "db_page_size d1 = ?pg"
      "\<forall>q \<in> set (internal_db d). db_heap (dmem d1) q = db_heap (dmem d) q"
    using take_entry [OF inv W] by metis
  obtain a m where
    bl: "e_key e = Some (zeros (key_room ?pg))"
      "e_value e = Some \<lparr>b_addr = a, b_data = zeros (2 * key_room ?pg)\<rparr>"
      "e_alloc e = 2 * key_room ?pg" "e_mr e = Some m" "mr_addr m = Some a"
      "e_lock e = Free" "e_readers e = 0" "e_writers e = 0"
    using blank_fields [OF tk(3) W] by metis
  let ?kl = "of_nat (length k) :: 32 word" and ?sz = "of_nat (length v) :: 32 word"
  have kl: "unat ?kl = length k" "unat (?kl + 1) = length k + 1"
    using k(4) unat_of_nat32 [of "length k"] unat_of_nat32 [of "length k + 1"]
    by (simp_all add: add.commute)
  have sz: "unat ?sz = length v" using v(3) by (rule unat_of_nat32)
  let ?kb = "k @ NUL # zeros (key_room ?pg - (length k + 1))"
  let ?vb = "v @ zeros (2 * key_room ?pg - length v)"
  have cpk: "c_strncpy (zeros (key_room ?pg)) (k @ NUL # r) (unat (?kl + 1)) = Inr ?kb"
    using k kl c_strncpy_string [OF k(1), of "length k + 1" "zeros (key_room ?pg)" r]
    by (simp add: zeros_def)
  have cpv: "c_strncpy (zeros (2 * key_room ?pg)) (v @ NUL # r') (unat ?sz) = Inr ?vb"
    using v sz c_strncpy_string [OF v(1), of "length v" "zeros (2 * key_room ?pg)" r'] by simp
  let ?e = "e\<lparr>e_keylen := ?kl, e_key := Some ?kb, e_size := ?sz,
              e_value := Some \<lparr>b_addr = a, b_data = ?vb\<rparr>, e_lock := Free\<rparr>"
  let ?d = "(store d1 p ?e)\<lparr>internal_db := HASH_ADD (internal_db d1) p\<rparr>"
  have ok: "entry_ok ?e"
    using k v bl kl sz by (simp add: entry_ok_def nth_append)
  have key: "entry_key ?e = Some k" by (simp add: entry_key_def kl)
  have val: "entry_val ?e = v" using v(1) by (simp add: entry_val_def sz cstr_id)
  have new: "\<forall>q \<in> set (internal_db d1). db_key d1 q \<noteq> Some k"
    using absent tk(5,7) by (simp add: db_key_def)
  have ins: "db_insert W d (k @ NUL # r) (v @ NUL # r') = Inr ?d"
    using k v get tk(1,2) cpk cpv bl
    by (simp add: db_insert_def db_insert_new_def load_Some Let_def)
  show ?thesis
  proof (rule that [OF ins, of p ?e])
    show "db_inv W ?d" by (rule db_inv_add [OF tk(4) ok key new])
    show "p \<notin> set (internal_db d)" using tk(4,5) by (simp add: detached_def)
    then show "\<forall>q \<in> set (internal_db d). db_heap (dmem ?d) q = db_heap (dmem d) q"
      using tk(7) by auto
  qed (use tk ok key val sz in \<open>simp_all add: HASH_ADD_def\<close>)
qed

lemma db_abs_cong:
  assumes "internal_db d' = internal_db d" and "db_heap (dmem d') = db_heap (dmem d)"
  shows "db_abs d' = db_abs d"
proof -
  have "db_key d' = db_key d" using assms(2) by (intro ext) (simp add: db_key_def)
  then show ?thesis using assms by (intro ext) (simp add: db_abs_def split: option.split)
qed

lemma db_abs_updates:
  assumes "db_inv W d" and "p \<in> set (internal_db d)" "db_heap (dmem d) p = Some e"
    and "entry_ok e'" "entry_key e' = Some k" "entry_key e = Some k" and "updates_entry d d' p e'"
  shows "db_abs d' = (db_abs d)(k \<mapsto> entry_val e')"
proof -
  have "db_abs d' = db_abs (store d p e')"
    using assms(7) by (intro db_abs_cong) (simp_all add: updates_entry_def)
  then show ?thesis using db_abs_store [OF assms(1-4)] assms(5,6) by simp
qed

lemma db_abs_add:
  assumes inv: "db_inv W d" "db_inv W d'" and i: "internal_db d' = internal_db d @ [p]"
    and p: "db_heap (dmem d') p = Some e'" "entry_key e' = Some k"
    and keep: "\<forall>q \<in> set (internal_db d). db_heap (dmem d') q = db_heap (dmem d) q"
  shows "db_abs d' = (db_abs d)(k \<mapsto> entry_val e')"
proof
  fix j
  show "db_abs d' j = ((db_abs d)(k \<mapsto> entry_val e')) j"
  proof (cases "j = k")
    case True
    then show ?thesis using db_abs_Some [OF inv(2), of p e' k] p i by simp
  next
    case False
    show ?thesis
      using inv(1)
    proof (cases rule: db_abs_cases [where k = j])
      case (there q f)
      then show ?thesis using False db_abs_Some [OF inv(2), of q f j] keep i by simp
    next
      case absent
      have "\<forall>q \<in> set (internal_db d'). db_key d' q \<noteq> Some j"
        using absent(1) keep i p False by (auto simp: db_key_def)
      from db_abs_None [OF this] absent False show ?thesis by simp
    qed
  qed
qed

text \<open>The keys and values a call can store: C strings that fit the buffers of a new entry.\<close>

definition storable :: "nat \<Rightarrow> byte list \<Rightarrow> byte list \<Rightarrow> bool" where
  "storable page k v \<longleftrightarrow>
     k \<noteq> [] \<and> NUL \<notin> set k \<and> length k < key_room page \<and> length k + 1 < 2 ^ 32 \<and>
     NUL \<notin> set v \<and> length v < 2 * key_room page \<and> length v + 1 < 2 ^ 32"

lemma db_insert_ok:
  assumes inv: "db_inv W d" and W: "plentiful W" and kv: "storable (db_page_size d) k v"
  shows "\<exists>d'. db_insert W d (k @ NUL # r) (v @ NUL # r') = Inr d' \<and> db_inv W d' \<and>
    db_abs d' = (db_abs d)(k \<mapsto> v)"
  using inv kv[unfolded storable_def, THEN conjunct2, THEN conjunct1]
proof (cases rule: db_get_cases [where k = k])
  case (there p e)
  have st: "NUL \<notin> set k" "NUL \<notin> set v" "length v + 1 < 2 ^ 32"
    using kv by (simp_all add: storable_def)
  obtain e' d' where ins: "db_insert W d (k @ NUL # r) (v @ NUL # r') = Inr d'"
      "updates_entry d d' p e'" "entry_ok e'" "entry_key e' = Some k" "entry_val e' = v" "db_inv W d'"
    by (rule db_insert_old [OF inv W there(2,3,5) st, where r = r and r' = r'])
  have "db_abs d' = (db_abs d)(k \<mapsto> v)"
    using db_abs_updates [OF inv there(2,3) ins(3,4) there(5) ins(2)] ins(5) by simp
  with ins show ?thesis by blast
next
  case absent
  have st: "NUL \<notin> set k" "k \<noteq> []" "length k < key_room (db_page_size d)" "length k + 1 < 2 ^ 32"
    "NUL \<notin> set v" "length v < 2 * key_room (db_page_size d)" "length v < 2 ^ 32"
    using kv by (simp_all add: storable_def)
  obtain p e' d' where ins: "db_insert W d (k @ NUL # r) (v @ NUL # r') = Inr d'"
      "internal_db d' = internal_db d @ [p]"
      "db_heap (dmem d') p = Some e'" "entry_key e' = Some k" "entry_val e' = v"
      "\<forall>q \<in> set (internal_db d). db_heap (dmem d') q = db_heap (dmem d) q" "db_inv W d'"
    by (rule db_insert_fresh [OF inv W absent(2) st, where r = r and r' = r'])
  have "db_abs d' = (db_abs d)(k \<mapsto> v)"
    using db_abs_add [OF inv ins(7,2,3,4,6)] ins(5) by simp
  with ins show ?thesis by blast
qed

section \<open>Locks\<close>

lemma lock_update:
  assumes inv: "db_inv W d" and p: "p \<in> set (internal_db d)" "db_heap (dmem d) p = Some e"
    and l: "lock_ok l r w" and e': "e' = e\<lparr>e_lock := l, e_readers := r, e_writers := w\<rparr>"
  shows "db_inv W (store d p e')" "db_abs (store d p e') = db_abs d" "same_but_lock e e'"
proof -
  show same: "same_but_lock e e'" by (simp add: same_but_lock_def e')
  have eok: "entry_ok e" using entry_ok_live [OF inv p(1)] p(2) by auto
  have ok: "entry_ok e'" by (rule same_but_lock_ok [OF same eok]) (simp add: e' l)
  have key: "entry_key e' = entry_key e" and val: "entry_val e' = entry_val e"
    using same_but_lock_simps [OF same] by simp_all
  show "db_inv W (store d p e')" by (rule db_inv_store [OF inv p ok key])
  obtain k where k: "entry_key e = Some k" using entry_ok_key [OF eok] by blast
  have "db_abs (store d p e') = (db_abs d)(k \<mapsto> entry_val e)"
    using db_abs_store [OF inv p ok key k] val by simp
  also have "\<dots> = db_abs d" using db_abs_Some [OF inv p k] by auto
  finally show "db_abs (store d p e') = db_abs d" .
qed

lemma entry_lock_counts:
  assumes "db_inv W d" and "p \<in> set (internal_db d)" "db_heap (dmem d) p = Some e"
  shows "lock_ok (e_lock e) (e_readers e) (e_writers e)"
  using entry_ok_live [OF assms(1,2)] assms(3) by (auto elim: entry_okE)

lemma lock_wr_ok:
  assumes inv: "db_inv W d" and p: "p \<in> set (internal_db d)" "db_heap (dmem d) p = Some e"
  shows "db_entry_lock_wr d (Some p) =
    (if e_lock e = Free
     then Inr (True, store d p (e\<lparr>e_lock := Writer, e_readers := 0, e_writers := 1\<rparr>))
     else Inr (False, d))"
  using entry_lock_counts [OF assms] p(2)
  by (cases "e_lock e"; cases e) (simp_all add: db_entry_lock_wr_def load_Some)

lemma lock_rd_ok:
  assumes inv: "db_inv W d" and p: "p \<in> set (internal_db d)" "db_heap (dmem d) p = Some e"
  shows "db_entry_lock_rd d (Some p) =
    (case e_lock e of
       Free \<Rightarrow> Inr (True, store d p (e\<lparr>e_lock := Readers 1, e_readers := 1, e_writers := 0\<rparr>))
     | Readers n \<Rightarrow>
         Inr (True, store d p (e\<lparr>e_lock := Readers (Suc n), e_readers := int (Suc n), e_writers := 0\<rparr>))
     | Writer \<Rightarrow> Inr (False, d))"
  using entry_lock_counts [OF assms] p(2)
  by (cases "e_lock e"; cases e) (simp_all add: db_entry_lock_rd_def load_Some add.commute)

lemma unlock_ok:
  assumes inv: "db_inv W d" and p: "p \<in> set (internal_db d)" "db_heap (dmem d) p = Some e"
  shows "db_entry_unlock d (Some p) =
    (case e_lock e of
       Free \<Rightarrow> Inl (Exit 1)
     | Readers n \<Rightarrow>
         Inr (True, store d p
           (e\<lparr>e_lock := (if n \<le> 1 then Free else Readers (n - 1)), e_readers := int (n - 1),
              e_writers := 0\<rparr>))
     | Writer \<Rightarrow> Inr (True, store d p (e\<lparr>e_lock := Free, e_readers := 0, e_writers := 0\<rparr>)))"
  using entry_lock_counts [OF assms] p(2)
  by (cases "e_lock e"; cases e)
    (auto simp: db_entry_unlock_def load_Some of_nat_diff le_Suc_eq)

lemma store_store [simp]: "store (store d p e) p e' = store d p e'"
  by (simp add: store_def)

lemma store_same [simp]: "db_heap (dmem d) p = Some e \<Longrightarrow> store d p e = d"
  by (simp add: store_def fun_upd_idem)

text \<open>
  The same with the number of holds, \<open>e_readers + e_writers\<close>: unlocking a held entry always
  works and releases one hold; locking takes one hold or changes nothing.
\<close>

definition holds :: "db_entry \<Rightarrow> int" where
  "holds e = e_readers e + e_writers e"

lemma holds_Free:
  "lock_ok (e_lock e) (e_readers e) (e_writers e) \<Longrightarrow> 0 \<le> holds e \<and> (holds e = 0 \<longleftrightarrow> e_lock e = Free)"
  by (cases "e_lock e") (auto simp: holds_def)

lemma unlock_holds:
  assumes inv: "db_inv W d" and p: "p \<in> set (internal_db d)" "db_heap (dmem d) p = Some e"
    and h: "0 < holds e"
  shows "\<exists>e'. db_entry_unlock d (Some p) = Inr (True, store d p e') \<and> db_inv W (store d p e') \<and>
    db_abs (store d p e') = db_abs d \<and> same_but_lock e e' \<and> holds e' = holds e - 1"
proof (cases "e_lock e")
  case Free
  then show ?thesis using holds_Free [OF entry_lock_counts [OF inv p]] h by simp
next
  case (Readers n)
  then have n: "0 < n" "holds e = int n" using entry_lock_counts [OF inv p] by (simp_all add: holds_def)
  let ?e = "e\<lparr>e_lock := (if n \<le> 1 then Free else Readers (n - 1)), e_readers := int (n - 1), e_writers := 0\<rparr>"
  have "lock_ok (if n \<le> 1 then Free else Readers (n - 1)) (int (n - 1)) 0" using n by auto
  note upd = lock_update [OF inv p this refl]
  have "db_entry_unlock d (Some p) = Inr (True, store d p ?e)"
    using Readers unlock_ok [OF inv p] by simp
  moreover have "holds ?e = holds e - 1" using n by (simp add: holds_def of_nat_diff)
  ultimately show ?thesis using upd by blast
next
  case Writer
  then have "holds e = 1" using entry_lock_counts [OF inv p] by (simp add: holds_def)
  then show ?thesis
    using Writer unlock_ok [OF inv p] lock_update [OF inv p, of Free 0 0]
    by (intro exI [of _ "e\<lparr>e_lock := Free, e_readers := 0, e_writers := 0\<rparr>"]) (simp add: holds_def)
qed

lemma lock_wr_holds:
  assumes inv: "db_inv W d" and p: "p \<in> set (internal_db d)" "db_heap (dmem d) p = Some e"
  obtains (taken) e' where "holds e = 0" "db_entry_lock_wr d (Some p) = Inr (True, store d p e')"
      "db_inv W (store d p e')" "db_abs (store d p e') = db_abs d" "same_but_lock e e'"
      "e_lock e' = Writer" "holds e' = 1"
  | (refused) "0 < holds e" "db_entry_lock_wr d (Some p) = Inr (False, d)"
proof (cases "e_lock e = Free")
  case True
  let ?e = "e\<lparr>e_lock := Writer, e_readers := 0, e_writers := 1\<rparr>"
  have "holds e = 0" using holds_Free [OF entry_lock_counts [OF inv p]] True by simp
  then show ?thesis
    using taken [of ?e] True lock_wr_ok [OF inv p] lock_update [OF inv p, of Writer 0 1 ?e]
    by (simp add: holds_def)
next
  case False
  then show ?thesis
    using refused holds_Free [OF entry_lock_counts [OF inv p]] lock_wr_ok [OF inv p] by simp
qed

lemma lock_rd_holds:
  assumes inv: "db_inv W d" and p: "p \<in> set (internal_db d)" "db_heap (dmem d) p = Some e"
  obtains (taken) e' where "e_lock e \<noteq> Writer" "db_entry_lock_rd d (Some p) = Inr (True, store d p e')"
      "db_inv W (store d p e')" "db_abs (store d p e') = db_abs d" "same_but_lock e e'"
      "holds e' = holds e + 1"
  | (refused) "e_lock e = Writer" "db_entry_lock_rd d (Some p) = Inr (False, d)"
proof (cases "e_lock e")
  case Free
  have "lock_ok (Readers 1) 1 0" by simp
  note upd = lock_update [OF inv p this refl]
  have "db_entry_lock_rd d (Some p) =
      Inr (True, store d p (e\<lparr>e_lock := Readers 1, e_readers := 1, e_writers := 0\<rparr>))"
    using Free lock_rd_ok [OF inv p] by simp
  from taken [OF _ this upd] show ?thesis
    using Free entry_lock_counts [OF inv p] by (simp add: holds_def)
next
  case (Readers n)
  have "lock_ok (Readers (Suc n)) (int (Suc n)) 0" by simp
  note upd = lock_update [OF inv p this refl]
  have "db_entry_lock_rd d (Some p) = Inr (True,
      store d p (e\<lparr>e_lock := Readers (Suc n), e_readers := int (Suc n), e_writers := 0\<rparr>))"
    using Readers lock_rd_ok [OF inv p] by simp
  from taken [OF _ this upd] show ?thesis
    using Readers entry_lock_counts [OF inv p] by (simp add: holds_def)
next
  case Writer
  then show ?thesis using refused lock_rd_ok [OF inv p] by simp
qed

text \<open>The table is the same but for the state of the locks.\<close>

definition db_same :: "db \<Rightarrow> db \<Rightarrow> bool" where
  "db_same d d' \<longleftrightarrow>
     internal_db d' = internal_db d \<and> db_page_size d' = db_page_size d \<and>
     (\<forall>p e. db_heap (dmem d) p = Some e \<longrightarrow>
        (\<exists>e'. db_heap (dmem d') p = Some e' \<and> same_but_lock e e')) \<and>
     (\<forall>p. db_heap (dmem d) p = None \<longrightarrow> db_heap (dmem d') p = None)"

lemma same_but_lock_refl [simp]: "same_but_lock e e"
  by (simp add: same_but_lock_def)

lemma same_but_lockI: "same_but_lock e (e\<lparr>e_lock := l, e_readers := r, e_writers := w\<rparr>)"
  by (simp add: same_but_lock_def)

lemma same_but_lock_trans:
  assumes "same_but_lock e f" and "same_but_lock f g"
  shows "same_but_lock e g"
proof -
  obtain l r w where f: "f = e\<lparr>e_lock := l, e_readers := r, e_writers := w\<rparr>"
    using assms(1) unfolding same_but_lock_def by blast
  obtain l' r' w' where g: "g = f\<lparr>e_lock := l', e_readers := r', e_writers := w'\<rparr>"
    using assms(2) unfolding same_but_lock_def by blast
  have "g = e\<lparr>e_lock := l', e_readers := r', e_writers := w'\<rparr>" unfolding g f by simp
  then show ?thesis using same_but_lockI [where e = e] by (simp only:)
qed

lemma db_same_refl [simp]: "db_same d d"
  by (simp add: db_same_def)

lemma db_same_trans: "db_same d d' \<Longrightarrow> db_same d' d'' \<Longrightarrow> db_same d d''"
  unfolding db_same_def by (simp, blast intro: same_but_lock_trans)

lemma db_same_store: "db_heap (dmem d) p = Some e \<Longrightarrow> same_but_lock e e' \<Longrightarrow> db_same d (store d p e')"
  by (simp add: db_same_def)

lemma db_same_key: "db_same d d' \<Longrightarrow> db_key d' = db_key d"
proof
  fix p assume "db_same d d'"
  then show "db_key d' p = db_key d p"
    by (cases "db_heap (dmem d) p") (force simp: db_same_def db_key_def same_but_lock_simps)+
qed

lemma db_same_abs: "db_same d d' \<Longrightarrow> db_abs d' = db_abs d"
proof
  fix k assume same: "db_same d d'"
  have "map_option entry_val (db_heap (dmem d') p) = map_option entry_val (db_heap (dmem d) p)" for p
    using same by (cases "db_heap (dmem d) p") (force simp: db_same_def same_but_lock_simps)+
  then show "db_abs d' k = db_abs d k"
    using same by (simp add: db_abs_def db_same_key) (auto simp: db_same_def split: option.split)
qed

lemma db_same_get: "db_same d d' \<Longrightarrow> db_get d' key = db_get d key"
  by (simp add: db_get_def db_same_key) (simp add: db_same_def)

text \<open>What taking and releasing an entry's lock does, on the entry alone.\<close>

fun take_locks :: "nat \<Rightarrow> db \<Rightarrow> ptr \<Rightarrow> stop + bool \<times> db" where
  "take_locks 0 d p = Inr (True, d)"
| "take_locks (Suc n) d p =
     bnd (db_entry_lock_rd d (Some p)) (\<lambda>(ok, d1).
     if ok then take_locks n d1 p else Inr (False, d1))"

fun drop_locks :: "nat \<Rightarrow> db \<Rightarrow> ptr \<Rightarrow> stop + db" where
  "drop_locks 0 d p = Inr d"
| "drop_locks (Suc n) d p = bnd (db_entry_unlock d (Some p)) (\<lambda>(_, d1). drop_locks n d1 p)"

definition readers :: "nat \<Rightarrow> db_entry \<Rightarrow> db_entry" where
  "readers n e = e\<lparr>e_lock := (if n = 0 then Free else Readers n), e_readers := int n, e_writers := 0\<rparr>"

lemma readers_simps [simp]:
  "readers m (readers n e) = readers m e"
  "e_lock (readers n e) = (if n = 0 then Free else Readers n)"
  "e_readers (readers n e) = int n" "e_writers (readers n e) = 0"
  by (simp_all add: readers_def)

lemma lock_rd_readers:
  assumes "db_heap (dmem d) p = Some (readers n e)"
  shows "db_entry_lock_rd d (Some p) = Inr (True, store d p (readers (Suc n) e))"
  using assms by (cases e) (simp add: db_entry_lock_rd_def load_Some readers_def add.commute)

lemma unlock_readers:
  assumes "db_heap (dmem d) p = Some (readers (Suc n) e)"
  shows "db_entry_unlock d (Some p) = Inr (True, store d p (readers n e))"
  using assms by (cases n; cases e) (simp_all add: db_entry_unlock_def load_Some readers_def)

lemma take_locks_readers:
  "db_heap (dmem d) p = Some (readers n e) \<Longrightarrow>
   take_locks m d p = Inr (True, store d p (readers (n + m) e))"
proof (induction m arbitrary: d n)
  case (Suc m)
  then show ?case using Suc.IH [of "store d p (readers (Suc n) e)" "Suc n"]
    by (simp add: lock_rd_readers)
qed simp

lemma drop_locks_readers:
  "db_heap (dmem d) p = Some (readers (n + m) e) \<Longrightarrow>
   drop_locks m d p = Inr (store d p (readers n e))"
proof (induction m arbitrary: d)
  case (Suc m)
  then show ?case using Suc.IH [of "store d p (readers (n + m) e)"] unlock_readers [of d p "n + m" e]
    by simp
qed simp

lemma free_readers: "lock_ok (e_lock e) (e_readers e) (e_writers e) \<Longrightarrow> e_lock e = Free \<Longrightarrow> readers 0 e = e"
  by (cases e) (simp add: readers_def)

section \<open>Initialisation and teardown\<close>

lemma db_init_ok:
  assumes W: "plentiful W"
  obtains d where "db_init W pd db_start = Inr d" "db_inv W d" "db_abs d = [''bla'' \<mapsto> []]"
    "db_page_size d = page_size W" "\<forall>p \<in> set (internal_db d). \<forall>e. db_heap (dmem d) p = Some e \<longrightarrow> e_lock e = Free"
    "slots (db_pool d) \<noteq> None"
proof -
  let ?start = "db_start\<lparr>internal_db := [], db_pd := Some pd, db_page_size := page_size W\<rparr>"
  have pg: "0 < page_size W" using W by (simp add: plentiful_def)
  have inv0: "db_inv W ?start"
    using pg by (simp add: db_inv_def dpool.pool_ok_def db_start_def db_mem_wf_def)
  obtain p e d1 where
    tk: "db_get_empty_buffer W ?start = Inr (Some p, d1)" "db_heap (dmem d1) p = Some e"
      "blank_entry W (page_size W) e" "detached W d1 p" "internal_db d1 = []"
      "db_page_size d1 = page_size W"
    by (rule take_entry [OF inv0 W]) auto
  obtain a m where
    bl: "e_key e = Some (zeros (key_room (page_size W)))"
      "e_value e = Some \<lparr>b_addr = a, b_data = zeros (2 * key_room (page_size W))\<rparr>"
      "e_alloc e = 2 * key_room (page_size W)" "e_mr e = Some m" "mr_addr m = Some a"
      "e_lock e = Free" "e_readers e = 0" "e_writers e = 0"
    using blank_fields [OF tk(3) W] by metis
  have room: "4072 \<le> key_room (page_size W)" using key_room_ge [OF pg] by simp
  let ?kb = "''bla'' @ zeros (key_room (page_size W) - 3)"
  let ?e = "e\<lparr>e_key := Some ?kb, e_keylen := 3, e_size := 1, e_lock := Free\<rparr>"
  let ?d = "(store d1 p ?e)\<lparr>internal_db := HASH_ADD (internal_db d1) p\<rparr>"
  have cp: "c_strncpy (zeros (key_room (page_size W))) (''bla'' @ [NUL]) 3 = Inr ?kb"
    using c_strncpy_string [of "''bla''" 3 "zeros (key_room (page_size W))" "[]"] room by simp
  have init: "db_init W pd db_start = Inr ?d"
    using tk(1,2) bl cp by (simp add: db_init_def load_Some)
  have ok: "entry_ok ?e" using bl room by (simp add: entry_ok_def nth_append)
  have key: "entry_key ?e = Some ''bla''" by (simp add: entry_key_def)
  have inv: "db_inv W ?d" using tk(5) by (intro db_inv_add [OF tk(4) ok key]) simp
  have val: "entry_val ?e = []" using bl room by (simp add: entry_val_def)
  have none: "db_abs ?start = Map.empty" by (intro ext) (simp add: db_abs_def)
  have "db_abs ?d = (db_abs ?start)(''bla'' \<mapsto> entry_val ?e)"
    using tk(5) key by (intro db_abs_add [OF inv0 inv, of p]) (simp_all add: HASH_ADD_def)
  also have "\<dots> = [''bla'' \<mapsto> []]" unfolding none val ..
  finally have abs: "db_abs ?d = [''bla'' \<mapsto> []]" .
  have sl: "slots (db_pool ?d) \<noteq> None"
    using tk(1) by (auto simp: db_get_empty_buffer_def get_empty_buffer_def split: option.splits if_splits)
  show ?thesis by (rule that [OF init inv abs _ _ sl]) (use tk(5,6) in \<open>auto simp: HASH_ADD_def\<close>)
qed

lemma run_destroy:
  "distinct ps \<Longrightarrow> \<forall>p \<in> set ps. db_heap (dmem d) p \<noteq> None \<Longrightarrow>
   \<exists>d'. run_on destroy_entry ps d = Inr d' \<and> db_pool d' = db_pool d \<and>
     db_heap (dmem d') = (\<lambda>q. if q \<in> set ps then None else db_heap (dmem d) q)"
proof (induction ps arbitrary: d)
  case (Cons p ps)
  then obtain e where e: "db_heap (dmem d) p = Some e" by auto
  let ?d = "db_free (d\<lparr>internal_db := HASH_DEL (internal_db d) p\<rparr>) p"
  have "\<forall>q \<in> set ps. db_heap (dmem ?d) q \<noteq> None" using Cons.prems by (auto simp: db_free_def)
  with Cons obtain d' where "run_on destroy_entry ps ?d = Inr d'" "db_pool d' = db_pool ?d"
    "db_heap (dmem d') = (\<lambda>q. if q \<in> set ps then None else db_heap (dmem ?d) q)"
    by fastforce
  moreover have "destroy_entry p d = Inr ?d" using e by (simp add: destroy_entry_def load_Some)
  ultimately show ?case by (auto simp: db_free_def fun_eq_iff)
qed (simp add: fun_eq_iff)

lemma free_slots_run:
  "distinct ps \<Longrightarrow> \<forall>p \<in> set ps. db_heap (dmem d) p \<noteq> None \<Longrightarrow>
   \<exists>d'. free_slots (replicate k None @ map Some ps) d = Inr d' \<and> internal_db d' = internal_db d \<and>
     navail (db_pool d') = navail (db_pool d) \<and>
     db_heap (dmem d') = (\<lambda>q. if q \<in> set ps then None else db_heap (dmem d) q)"
proof (induction k)
  case 0
  then show ?case
  proof (induction ps arbitrary: d)
    case (Cons p ps)
    then obtain e where e: "db_heap (dmem d) p = Some e" by auto
    have "\<forall>q \<in> set ps. db_heap (dmem (db_free d p)) q \<noteq> None"
      using Cons.prems by (auto simp: db_free_def)
    with Cons obtain d' where "free_slots (map Some ps) (db_free d p) = Inr d'"
      "internal_db d' = internal_db (db_free d p)"
      "navail (db_pool d') = navail (db_pool (db_free d p))"
      "db_heap (dmem d') = (\<lambda>q. if q \<in> set ps then None else db_heap (dmem (db_free d p)) q)"
      by fastforce
    with e show ?case by (auto simp: load_Some db_free_def fun_eq_iff)
  qed (simp add: fun_eq_iff)
qed simp

lemma db_destroy_ok:
  assumes inv: "db_inv W d" and sl: "slots (db_pool d) = Some xs"
  obtains d' where "db_destroy d = Inr d'" "db_heap (dmem d') = Map.empty" "internal_db d' = []"
    "slots (db_pool d') = None" "navail (db_pool d') = navail (db_pool d)"
proof -
  let ?ps = "internal_db d" and ?qs = "pool_ptrs (db_pool d)"
  have pool: "dpool.pool_ok W (db_page_size d) MAX_ALLOCATED_DB_ENTRIES (db_pool d) (dmem d)"
    and dps: "distinct ?ps" and disj: "set ?ps \<inter> set ?qs = {}"
    and live: "\<forall>p \<in> set ?ps. db_heap (dmem d) p \<noteq> None"
    and all: "\<forall>p. db_heap (dmem d) p \<noteq> None \<longrightarrow> p \<in> set ?ps \<union> set ?qs"
    using inv by (fastforce simp: db_inv_def table_ok_def)+
  have "HASH_ITER internal_db destroy_entry d = run_on destroy_entry ?ps d"
    by (rule HASH_ITER_run_on [where I = "\<lambda>s. distinct (internal_db s)"])
      (use dps in \<open>auto simp: destroy_entry_def db_free_def HASH_DEL_def\<close>)
  moreover obtain d1 where d1: "run_on destroy_entry ?ps d = Inr d1" "db_pool d1 = db_pool d"
    "db_heap (dmem d1) = (\<lambda>q. if q \<in> set ?ps then None else db_heap (dmem d) q)"
    using run_destroy [OF dps live] by blast
  ultimately have it: "HASH_ITER internal_db destroy_entry d = Inr d1" by simp
  let ?d1 = "d1\<lparr>internal_db := [], db_pd := None\<rparr>"
  have xs: "xs = replicate (fidx (db_pool d)) None @ map Some ?qs" "distinct ?qs"
    using pool sl by (simp_all add: dpool.pool_ok_def pool_shape_def)
  have "\<forall>q \<in> set ?qs. db_heap (dmem ?d1) q \<noteq> None"
    using pool disj by (auto simp: dpool.pool_ok_def d1(3))
  from free_slots_run [OF xs(2) this, of "fidx (db_pool d)"] obtain d2 where
    d2: "free_slots xs ?d1 = Inr d2" "internal_db d2 = []"
      "navail (db_pool d2) = navail (db_pool ?d1)"
      "db_heap (dmem d2) = (\<lambda>q. if q \<in> set ?qs then None else db_heap (dmem ?d1) q)"
    unfolding xs(1) by auto
  have "db_heap (dmem d2) = Map.empty"
    using all by (auto simp: d2(4) d1(3) fun_eq_iff)
  moreover have "db_destroy d = Inr (d2\<lparr>db_pool := (db_pool d2)\<lparr>slots := None\<rparr>\<rparr>)"
    using it d1(2) sl d2(1) by (simp add: db_destroy_def db_clear_preallocated_buffers_def)
  ultimately show ?thesis
    using d1(2) d2(2,3) that [of "d2\<lparr>db_pool := (db_pool d2)\<lparr>slots := None\<rparr>\<rparr>"] by simp
qed

section \<open>Properties\<close>

lemma linux_db:
  obtains d where "db_init linux_world 0 db_start = Inr d" "db_inv linux_world d"
    "db_abs d = [''bla'' \<mapsto> []]" "db_page_size d = 4096" "slots (db_pool d) \<noteq> None"
    "\<forall>p \<in> set (internal_db d). \<forall>e. db_heap (dmem d) p = Some e \<longrightarrow> e_lock e = Free"
proof (rule db_init_ok [OF plentiful_linux, of 0])
  fix d
  assume "db_init linux_world 0 db_start = Inr d" "db_inv linux_world d"
    "db_abs d = [''bla'' \<mapsto> []]" "db_page_size d = page_size linux_world" "slots (db_pool d) \<noteq> None"
    "\<forall>p \<in> set (internal_db d). \<forall>e. db_heap (dmem d) p = Some e \<longrightarrow> e_lock e = Free"
  then show ?thesis by (intro that) (simp_all add: linux_world_def)
qed

lemma key_room_linux [simp]: "key_room 4096 = 8144"
  by (simp add: key_room_def roundup_def)

lemma bla_entry:
  assumes "db_inv W d" and "db_abs d = [''bla'' \<mapsto> v]"
  obtains p e where "p \<in> set (internal_db d)" "db_heap (dmem d) p = Some e" "entry_key e = Some ''bla''"
proof (rule db_abs_cases [OF assms(1), of "''bla''"])
  assume "db_abs d ''bla'' = None"
  then show ?thesis using assms(2) by simp
qed (rule that)

text \<open>
  On a sane system the table starts in its invariant and stands for the map whose only key
  is the bogus \<open>bla\<close>, with the empty value.
\<close>

theorem db_init_creates:
  "plentiful W \<Longrightarrow> \<exists>d. db_init W pd db_start = Inr d \<and> db_inv W d \<and> db_abs d = [''bla'' \<mapsto> []]"
  by (rule db_init_ok [where W = W and pd = pd]) auto

theorem db_init_creates_witness:
  "\<exists>d. db_init linux_world 7 db_start = Inr d \<and> db_inv linux_world d \<and> db_abs d = [''bla'' \<mapsto> []]"
  by (rule db_init_creates) simp

text \<open>
  C24: \<open>db_insert\<close> of any key and value that fit a new entry returns, keeps the invariant and
  is the update of the map, whether the key was there (the value buffer is kept or replaced) or
  not (an entry is taken from the pool, which may be refilled).
\<close>

theorem db_insert_refines:
  assumes "db_inv W d" and "plentiful W" and "storable (db_page_size d) k v"
  shows "\<exists>d'. db_insert W d (k @ NUL # r) (v @ NUL # r') = Inr d' \<and> db_inv W d' \<and>
    db_abs d' = (db_abs d)(k \<mapsto> v)"
  by (rule db_insert_ok [OF assms])

theorem db_insert_refines_witness:
  "\<exists>d d'. db_init linux_world 0 db_start = Inr d \<and>
     db_insert linux_world d (''key'' @ [NUL]) (''value'' @ [NUL]) = Inr d' \<and>
     db_abs d' ''key'' = Some ''value'' \<and> db_abs d' ''bla'' = Some []"
proof (rule linux_db)
  fix d
  assume d: "db_init linux_world 0 db_start = Inr d" "db_inv linux_world d"
    "db_abs d = [''bla'' \<mapsto> []]" "db_page_size d = 4096"
  have "storable (db_page_size d) ''key'' ''value''" using d(4) by (simp add: storable_def)
  from db_insert_refines [OF d(2) plentiful_linux this, of "[]" "[]"] d(1,3)
  show ?thesis by auto
qed

text \<open>
  C25: \<open>db_get\<close> of a C string never fails on a well-formed table. It returns NULL exactly when
  the map has no such key, and else a live entry of that key whose string is the map's value.
\<close>

theorem db_get_refines:
  assumes "db_inv W d" and "NUL \<notin> set k"
  shows "\<exists>s. db_get d (k @ NUL # r) = Inr s \<and>
    (case s of
       None \<Rightarrow> db_abs d k = None
     | Some p \<Rightarrow> \<exists>e. db_heap (dmem d) p = Some e \<and> entry_key e = Some k \<and>
         db_abs d k = Some (entry_val e))"
  using assms by (cases rule: db_get_cases [where k = k]) auto

theorem db_get_refines_witness:
  "\<exists>d p e. db_init linux_world 0 db_start = Inr d \<and> db_get d (''bla'' @ [NUL]) = Inr (Some p) \<and>
     db_heap (dmem d) p = Some e \<and> entry_val e = []"
proof (rule linux_db)
  fix d
  assume d: "db_init linux_world 0 db_start = Inr d" "db_inv linux_world d"
    "db_abs d = [''bla'' \<mapsto> []]"
  from db_get_refines [OF d(2), of "''bla''" "[]"] d(1,3) show ?thesis
    by (auto split: option.splits)
qed

lemma insert_new_overflow:
  assumes inv: "db_inv W d" and W: "plentiful W" and k: "NUL \<notin> set k" "k \<noteq> []"
    and absent: "db_abs d k = None" "length k < key_room (db_page_size d)" "length k + 1 < 2 ^ 32"
    and v: "NUL \<notin> set v" "2 * key_room (db_page_size d) < length v" "length v < 2 ^ 32"
  shows "db_insert W d (k @ NUL # r) (v @ NUL # r') = Inl (UB Out_of_bounds)"
  using inv k(1)
proof (cases rule: db_get_cases [where k = k])
  case (there p e)
  then show ?thesis using absent by simp
next
  case absent': absent
  obtain p e d1 where
    tk: "db_get_empty_buffer W d = Inr (Some p, d1)" "db_heap (dmem d1) p = Some e"
      "blank_entry W (db_page_size d) e"
    using take_entry [OF inv W] by metis
  obtain a where bl: "e_key e = Some (zeros (key_room (db_page_size d)))"
    "e_value e = Some \<lparr>b_addr = a, b_data = zeros (2 * key_room (db_page_size d))\<rparr>"
    using blank_fields [OF tk(3) W] by metis
  have kl: "unat ((of_nat (length k) :: 32 word) + 1) = length k + 1"
    using absent(3) unat_of_nat32 [of "length k + 1"] by (simp add: add.commute)
  have sz: "unat (of_nat (length v) :: 32 word) = length v" using v(3) by (rule unat_of_nat32)
  have cpk: "c_strncpy (zeros (key_room (db_page_size d))) (k @ NUL # r)
      (unat ((of_nat (length k) :: 32 word) + 1)) = Inr (k @ NUL # zeros (key_room (db_page_size d) - (length k + 1)))"
    using k absent kl c_strncpy_string [OF k(1), of "length k + 1" "zeros (key_room (db_page_size d))" r]
    by (simp add: zeros_def)
  have "c_strncpy (zeros (2 * key_room (db_page_size d))) (v @ NUL # r') (length v)
      = Inl (UB Out_of_bounds)"
    using v(2) by (simp add: c_strncpy_def)
  then show ?thesis
    using k v absent'(1) tk(1,2) cpk bl sz
    by (simp add: db_insert_def db_insert_new_def load_Some Let_def)
qed

text \<open>
  The first \<open>db_insert\<close> of a key checks no length: a value that is longer than the value
  buffer of a new entry (twice the key buffer) is written past its end.
\<close>

theorem db_insert_long_value:
  assumes "db_inv W d" and "plentiful W" and "storable (db_page_size d) k []" and "db_abs d k = None"
    and "NUL \<notin> set v" and "2 * key_room (db_page_size d) < length v" and "length v < 2 ^ 32"
  shows "db_insert W d (k @ NUL # r) (v @ NUL # r') = Inl (UB Out_of_bounds)"
  using assms by (intro insert_new_overflow) (auto simp: storable_def)

theorem db_insert_long_value_witness:
  "\<exists>d. db_init linux_world 0 db_start = Inr d \<and>
     db_insert linux_world d (''key'' @ [NUL]) (replicate 16289 CHR ''v'' @ [NUL])
       = Inl (UB Out_of_bounds)"
proof (rule linux_db)
  fix d
  assume d: "db_init linux_world 0 db_start = Inr d" "db_inv linux_world d"
    "db_abs d = [''bla'' \<mapsto> []]" "db_page_size d = 4096"
  have "storable (db_page_size d) ''key'' []" using d(4) by (simp add: storable_def)
  from db_insert_long_value [OF d(2) plentiful_linux this, of "replicate 16289 CHR ''v''" "[]" "[]"] d
  show ?thesis by auto
qed

text \<open>
  \<open>db_insert\<close> of an empty key ends the process.
\<close>

theorem db_insert_empty_key: "db_insert W d (NUL # r) value = Inl (Exit 1)"
  by (simp add: db_insert_def c_strlen_def cstr_Cons)

lemma insert_new_ok:
  assumes inv: "db_inv W d" and W: "plentiful W" and k: "storable (db_page_size d) k []"
    and absent: "db_abs d k = None"
  shows "\<exists>d'. db_insert_new W d (k @ NUL # r) [NUL] = Inr d'"
proof -
  have k0: "NUL \<notin> set k" "k \<noteq> []" using k by (simp_all add: storable_def)
  have nokey: "db_get d (k @ NUL # r) = Inr None"
    using inv k0(1) absent by (cases rule: db_get_cases [where k = k]) auto
  have "c_strlen (k @ NUL # r) = Inr (length k)" using k0 by simp
  then have "db_insert W d (k @ NUL # r) ([] @ NUL # []) = db_insert_new W d (k @ NUL # r) [NUL]"
    using nokey k0 by (simp add: db_insert_def c_strlen_def del: c_strlen_terminated)
  then show ?thesis using db_insert_ok [OF inv W k, of r "[]"] by auto
qed

text \<open>
  \<open>db_reallocate_item\<close> of a key that the table has makes room for the new size, records it
  and keeps key, lock and region; of a key that the table does not have it creates the entry
  and then dereferences the NULL pointer of its own lookup.
\<close>

theorem db_reallocate_item_cases:
  assumes "db_inv W d" and "plentiful W" and "storable (db_page_size d) k []" and "n < 2 ^ 32"
  shows "case db_abs d k of
      None \<Rightarrow> db_reallocate_item W d (k @ NUL # r) n = Inl (UB Null_deref)
    | Some v \<Rightarrow> \<exists>d' p e e'. db_reallocate_item W d (k @ NUL # r) n = Inr d' \<and> db_inv W d' \<and>
        db_heap (dmem d) p = Some e \<and> entry_key e = Some k \<and> updates_entry d d' p e' \<and>
        entry_key e' = Some k \<and> e_lock e' = e_lock e \<and> unat (e_size e') = n \<and> n < e_alloc e'"
proof -
  have k0: "NUL \<notin> set k" "k \<noteq> []" using assms(3) by (simp_all add: storable_def)
  from assms(1) k0(1) show ?thesis
  proof (cases rule: db_get_cases [where k = k])
    case (there p e)
    obtain e' d' where "reallocate_entry W d p n = Inr d'" "updates_entry d d' p e'"
      "entry_key e' = entry_key e" "unat (e_size e') = n" "n < e_alloc e'" "e_lock e' = e_lock e"
      "db_inv W d'"
      using reallocate_entry_ok [OF assms(1,2) there(2,3) assms(4)] by metis
    then show ?thesis using there by (auto simp: db_reallocate_item_def)
  next
    case absent
    with insert_new_ok [OF assms(1-3), of r] k0 show ?thesis
      by (auto simp: db_reallocate_item_def)
  qed
qed

theorem db_reallocate_item_cases_witness:
  "\<exists>d. db_init linux_world 0 db_start = Inr d \<and>
     db_reallocate_item linux_world d (''new'' @ [NUL]) 100 = Inl (UB Null_deref) \<and>
     (\<exists>d' p e'. db_reallocate_item linux_world d (''bla'' @ [NUL]) 100000 = Inr d' \<and>
        updates_entry d d' p e' \<and> 100000 < e_alloc e')"
proof (rule linux_db)
  fix d
  assume d: "db_init linux_world 0 db_start = Inr d" "db_inv linux_world d"
    "db_abs d = [''bla'' \<mapsto> []]" "db_page_size d = 4096"
  have st: "storable (db_page_size d) ''new'' []" "storable (db_page_size d) ''bla'' []"
    using d(4) by (simp_all add: storable_def)
  have "db_reallocate_item linux_world d (''new'' @ [NUL]) 100 = Inl (UB Null_deref)"
    using db_reallocate_item_cases [OF d(2) plentiful_linux st(1), of 100 "[]"] d(3) by simp
  moreover have "\<exists>d' p e'. db_reallocate_item linux_world d (''bla'' @ [NUL]) 100000 = Inr d' \<and>
      updates_entry d d' p e' \<and> 100000 < e_alloc e'"
    using db_reallocate_item_cases [OF d(2) plentiful_linux st(2), of 100000 "[]"] d(3) by auto
  ultimately show ?thesis using d(1) by blast
qed

text \<open>
  C31: the read-write lock of an entry. \<open>n\<close> readers of a free entry all get in and \<open>n\<close>
  unlocks restore the table exactly; while there is a reader a writer is refused, while there is
  a writer everyone is refused; and unlocking a free entry ends the process.
\<close>

theorem entry_lock_discipline:
  assumes "db_inv W d" and "p \<in> set (internal_db d)" and "db_heap (dmem d) p = Some e"
    and "e_lock e = Free"
  shows "\<exists>dn dw. take_locks n d p = Inr (True, dn) \<and> drop_locks n dn p = Inr d \<and>
      (0 < n \<longrightarrow> db_entry_lock_wr dn (Some p) = Inr (False, dn)) \<and>
      db_entry_lock_wr d (Some p) = Inr (True, dw) \<and> db_entry_unlock dw (Some p) = Inr (True, d) \<and>
      db_entry_lock_wr dw (Some p) = Inr (False, dw) \<and>
      db_entry_lock_rd dw (Some p) = Inr (False, dw) \<and>
      db_entry_unlock d (Some p) = Inl (Exit 1)"
proof -
  have cnt: "e_readers e = 0" "e_writers e = 0"
    using entry_lock_counts [OF assms(1-3)] assms(4) by simp_all
  have free: "readers 0 e = e"
    by (rule free_readers [OF entry_lock_counts [OF assms(1-3)] assms(4)])
  let ?dn = "store d p (readers n e)" and ?w = "e\<lparr>e_lock := Writer, e_writers := 1\<rparr>"
  have "take_locks n d p = Inr (True, ?dn)"
    using take_locks_readers [of d p 0 e n] assms(3) free by simp
  moreover have "drop_locks n ?dn p = Inr d"
    using drop_locks_readers [of ?dn p 0 n e] assms(3) free by simp
  moreover have "0 < n \<longrightarrow> db_entry_lock_wr ?dn (Some p) = Inr (False, ?dn)"
    by (simp add: db_entry_lock_wr_def load_Some)
  moreover have "db_entry_lock_wr d (Some p) = Inr (True, store d p ?w)"
    using assms(3,4) cnt by (simp add: db_entry_lock_wr_def load_Some)
  moreover have "?w\<lparr>e_lock := Free, e_writers := 0\<rparr> = e"
    using assms(4) cnt by (cases e) simp
  then have "db_entry_unlock (store d p ?w) (Some p) = Inr (True, d)"
    using assms(3) cnt by (simp add: db_entry_unlock_def load_Some)
  moreover have "db_entry_lock_wr (store d p ?w) (Some p) = Inr (False, store d p ?w)"
    "db_entry_lock_rd (store d p ?w) (Some p) = Inr (False, store d p ?w)"
    by (simp_all add: db_entry_lock_wr_def db_entry_lock_rd_def load_Some)
  moreover have "db_entry_unlock d (Some p) = Inl (Exit 1)"
    using assms(3) cnt by (simp add: db_entry_unlock_def load_Some)
  ultimately show ?thesis by blast
qed

theorem entry_lock_discipline_witness:
  "\<exists>d p d3. db_init linux_world 0 db_start = Inr d \<and> take_locks 3 d p = Inr (True, d3) \<and>
     db_entry_lock_wr d3 (Some p) = Inr (False, d3) \<and> drop_locks 3 d3 p = Inr d"
proof (rule linux_db)
  fix d
  assume d: "db_init linux_world 0 db_start = Inr d" "db_inv linux_world d"
    "db_abs d = [''bla'' \<mapsto> []]"
    "\<forall>p \<in> set (internal_db d). \<forall>e. db_heap (dmem d) p = Some e \<longrightarrow> e_lock e = Free"
  obtain p e where p: "p \<in> set (internal_db d)" "db_heap (dmem d) p = Some e"
    using bla_entry [OF d(2,3)] by metis
  from entry_lock_discipline [OF d(2) p, of 3] d(1,4) p show ?thesis by auto
qed

text \<open>
  \<open>db_destroy\<close> of a table that has allocated its pool returns and frees every entry: those
  of the table and those waiting in the pool. It does not reset the count of waiting
  entries, so that a later \<open>db_init\<close> dereferences the NULL array.
\<close>

theorem db_destroy_frees_all:
  assumes "db_inv W d" and "slots (db_pool d) = Some xs"
  shows "\<exists>d'. db_destroy d = Inr d' \<and> db_heap (dmem d') = Map.empty \<and> internal_db d' = [] \<and>
    (10 \<le> navail (db_pool d) \<longrightarrow> db_init W' pd d' = Inl (UB Null_deref))"
proof -
  obtain d' where d': "db_destroy d = Inr d'" "db_heap (dmem d') = Map.empty" "internal_db d' = []"
    "slots (db_pool d') = None" "navail (db_pool d') = navail (db_pool d)"
    by (rule db_destroy_ok [OF assms])
  have "10 \<le> navail (db_pool d) \<longrightarrow> db_init W' pd d' = Inl (UB Null_deref)"
    using d'(4,5) by (simp add: db_init_def db_get_empty_buffer_def get_empty_buffer_def)
  with d' show ?thesis by blast
qed

theorem db_destroy_frees_all_witness:
  "\<exists>d d'. db_init linux_world 0 db_start = Inr d \<and> db_destroy d = Inr d' \<and>
     db_heap (dmem d') = Map.empty"
proof (rule linux_db)
  fix d
  assume d: "db_init linux_world 0 db_start = Inr d" "db_inv linux_world d" "slots (db_pool d) \<noteq> None"
  then obtain xs where "slots (db_pool d) = Some xs" by blast
  from db_destroy_frees_all [OF d(2) this] d(1) show ?thesis by blast
qed

text \<open>
  \<open>db_destroy\<close> before \<open>db_init\<close> has allocated the pool dereferences NULL: the array is not
  tested, unlike in \<open>server_requests_management.c\<close>.
\<close>

theorem db_destroy_uninitialised: "db_destroy db_start = Inl (UB Null_deref)"
  by (simp add: db_destroy_def HASH_ITER_def db_start_def db_clear_preallocated_buffers_def empty_pool_def)

end
