(* ===== verification/Utlist.thy ===== *)
theory Utlist
  imports Prelude
begin

text \<open>
  The doubly linked list of \<open>external_libs/utlist.h\<close>, as far as the server uses it: the
  macros \<open>DL_APPEND\<close>, \<open>DL_DELETE\<close>, \<open>DL_SEARCH\<close> and \<open>DL_COUNT\<close> on explicit
  link fields. The nodes are those of the program's heap, of which only the two links are seen
  here; \<open>live\<close> says which of them are allocated. Where the links form a list (\<open>dl_repr\<close>)
  the macros refine the operations of HOL lists; the contract is the locale \<open>fifo\<close>.
\<close>

section \<open>The macros\<close>

record dlist =
  head :: "ptr option"
  nxt :: "ptr \<Rightarrow> ptr option"
  prv :: "ptr \<Rightarrow> ptr option"

definition empty_dlist :: dlist where
  "empty_dlist = \<lparr>head = None, nxt = (\<lambda>_. None), prv = (\<lambda>_. None)\<rparr>"

text \<open>The dereference of a pointer that must point to a live node.\<close>

definition deref :: "(ptr \<Rightarrow> bool) \<Rightarrow> ptr option \<Rightarrow> stop + ptr" where
  "deref live p =
     (case p of None \<Rightarrow> Inl (UB Null_deref)
      | Some x \<Rightarrow> if live x then Inr x else Inl (UB Dangling))"

definition DL_APPEND :: "(ptr \<Rightarrow> bool) \<Rightarrow> dlist \<Rightarrow> ptr \<Rightarrow> stop + dlist" where
  "DL_APPEND live d add =
     bnd (deref live (Some add)) (\<lambda>_.
     case head d of
       Some _ \<Rightarrow>
         bnd (deref live (head d)) (\<lambda>h.
         let p1 = (prv d)(add := prv d h)
         in bnd (deref live (p1 h)) (\<lambda>t.
            let n1 = (nxt d)(t := Some add);
                p2 = p1(h := Some add);
                n2 = n1(add := None)
            in Inr (d\<lparr>nxt := n2, prv := p2\<rparr>)))
     | None \<Rightarrow>
         Inr (d\<lparr>head := Some add, prv := (prv d)(add := Some add),
                nxt := (nxt d)(add := None)\<rparr>))"

definition DL_DELETE :: "(ptr \<Rightarrow> bool) \<Rightarrow> dlist \<Rightarrow> ptr \<Rightarrow> stop + dlist" where
  "DL_DELETE live d del =
     (if head d = None then Inl (UB Assert_failed)
      else bnd (deref live (Some del)) (\<lambda>_.
        if prv d del = None then Inl (UB Assert_failed)
        else if prv d del = Some del then Inr (d\<lparr>head := None\<rparr>)
        else if head d = Some del then
          (if nxt d del = None then Inl (UB Assert_failed)
           else bnd (deref live (nxt d del)) (\<lambda>n.
             Inr (d\<lparr>prv := (prv d)(n := prv d del), head := Some n\<rparr>)))
        else
          bnd (deref live (prv d del)) (\<lambda>p.
          let d1 = d\<lparr>nxt := (nxt d)(p := nxt d del)\<rparr>
          in case nxt d1 del of
               Some _ \<Rightarrow> bnd (deref live (nxt d1 del)) (\<lambda>n.
                 Inr (d1\<lparr>prv := (prv d1)(n := prv d1 del)\<rparr>))
             | None \<Rightarrow> bnd (deref live (head d1)) (\<lambda>h.
                 Inr (d1\<lparr>prv := (prv d1)(h := prv d1 del)\<rparr>)))))"

text \<open>
  The two traversals follow \<open>next\<close> until NULL; on a cycle they may not end, which is the value
  \<open>None\<close> here and the stop \<open>Endless\<close> in the macros.
\<close>

partial_function (option) dl_find ::
  "(ptr \<Rightarrow> stop + bool) \<Rightarrow> (ptr \<Rightarrow> ptr option) \<Rightarrow> ptr option \<Rightarrow> (stop + ptr option) option" where
  "dl_find test nx cur =
     (case cur of
        None \<Rightarrow> Some (Inr None)
      | Some p \<Rightarrow>
          (case test p of
             Inl e \<Rightarrow> Some (Inl e)
           | Inr b \<Rightarrow> if b then Some (Inr (Some p)) else dl_find test nx (nx p)))"

definition DL_SEARCH :: "(ptr \<Rightarrow> bool) \<Rightarrow> dlist \<Rightarrow> (ptr \<Rightarrow> bool) \<Rightarrow> stop + ptr option" where
  "DL_SEARCH live d matches =
     (case dl_find (\<lambda>p. if live p then Inr (matches p) else Inl (UB Dangling)) (nxt d) (head d) of
        None \<Rightarrow> Inl (UB Endless)
      | Some r \<Rightarrow> r)"

partial_function (option) dl_walk ::
  "(ptr \<Rightarrow> bool) \<Rightarrow> (ptr \<Rightarrow> ptr option) \<Rightarrow> ptr option \<times> nat \<Rightarrow> (stop + nat) option" where
  "dl_walk live nx st =
     (case st of (cur, count) \<Rightarrow>
       (case cur of
          None \<Rightarrow> Some (Inr count)
        | Some p \<Rightarrow>
            if \<not> live p then Some (Inl (UB Dangling))
            else dl_walk live nx (nx p, Suc count)))"

definition DL_COUNT :: "(ptr \<Rightarrow> bool) \<Rightarrow> dlist \<Rightarrow> stop + nat" where
  "DL_COUNT live d =
     (case dl_walk live (nxt d) (head d, 0) of None \<Rightarrow> Inl (UB Endless) | Some r \<Rightarrow> r)"

section \<open>Linked lists\<close>

text \<open>
  \<open>fwd\<close> follows \<open>next\<close> through the nodes to NULL, \<open>bwd\<close> checks each \<open>prev\<close>; the
  first node's \<open>prev\<close> is the last node.
\<close>

fun fwd :: "(ptr \<Rightarrow> ptr option) \<Rightarrow> ptr option \<Rightarrow> ptr list \<Rightarrow> bool" where
  "fwd nx c [] \<longleftrightarrow> c = None"
| "fwd nx c (x # xs) \<longleftrightarrow> c = Some x \<and> fwd nx (nx x) xs"

fun bwd :: "(ptr \<Rightarrow> ptr option) \<Rightarrow> ptr \<Rightarrow> ptr list \<Rightarrow> bool" where
  "bwd pv q [] \<longleftrightarrow> True"
| "bwd pv q (x # xs) \<longleftrightarrow> pv x = Some q \<and> bwd pv x xs"

definition dl_repr :: "dlist \<Rightarrow> ptr list \<Rightarrow> bool" where
  "dl_repr d xs \<longleftrightarrow> fwd (nxt d) (head d) xs \<and> bwd (prv d) (last xs) xs \<and> distinct xs"

lemma fwd_fresh [simp]: "a \<notin> set xs \<Longrightarrow> fwd (nx(a := v)) c xs = fwd nx c xs"
  by (induction xs arbitrary: c) auto

lemma bwd_fresh [simp]: "a \<notin> set xs \<Longrightarrow> bwd (pv(a := v)) q xs = bwd pv q xs"
  by (induction xs arbitrary: q) auto

lemma bwd_append:
  "bwd pv q (xs @ ys) \<longleftrightarrow> bwd pv q xs \<and> bwd pv (if xs = [] then q else last xs) ys"
  by (induction xs arbitrary: q) auto

lemma fwd_snoc:
  "fwd nx c xs \<Longrightarrow> xs \<noteq> [] \<Longrightarrow> distinct xs \<Longrightarrow> a \<notin> set xs \<Longrightarrow>
   fwd (nx(last xs := Some a, a := None)) c (xs @ [a])"
proof (induction xs arbitrary: c)
  case (Cons x xs)
  then show ?case by (cases "xs = []") auto
qed simp

lemma fwd_unlink:
  "fwd nx c (xs @ p # ys) \<Longrightarrow> xs \<noteq> [] \<Longrightarrow> distinct (xs @ p # ys) \<Longrightarrow>
   fwd (nx(last xs := nx p)) c (xs @ ys)"
proof (induction xs arbitrary: c)
  case (Cons x xs)
  show ?case
  proof (cases "xs = []")
    case True
    have "fwd (nx(x := nx p)) (nx p) ys = fwd nx (nx p) ys"
      using Cons.prems True by (intro fwd_fresh) auto
    then show ?thesis using Cons.prems True by (simp del: fun_upd_apply add: fun_upd_same)
  next
    case False
    then show ?thesis using Cons by auto
  qed
qed simp

lemma fwd_after: "fwd nx c (xs @ p # ys) \<Longrightarrow> fwd nx (nx p) ys"
  by (induction xs arbitrary: c) auto

lemma dl_repr_empty [simp]: "dl_repr empty_dlist []"
  by (simp add: dl_repr_def empty_dlist_def)

lemma dl_repr_Nil: "dl_repr d [] \<longleftrightarrow> head d = None"
  by (simp add: dl_repr_def)

lemma dl_repr_head: "dl_repr d xs \<Longrightarrow> head d = (case xs of [] \<Rightarrow> None | x # _ \<Rightarrow> Some x)"
  by (cases xs) (auto simp: dl_repr_def)

lemma dl_repr_unique: "dl_repr d xs \<Longrightarrow> dl_repr d ys \<Longrightarrow> xs = ys"
proof -
  have "fwd nx c xs \<Longrightarrow> fwd nx c ys \<Longrightarrow> xs = ys" for nx c
  proof (induction xs arbitrary: c ys)
    case (Cons x xs)
    then show ?case by (cases ys) auto
  qed (case_tac ys, auto)
  then show "dl_repr d xs \<Longrightarrow> dl_repr d ys \<Longrightarrow> xs = ys" by (auto simp: dl_repr_def)
qed

section \<open>The macros refine list operations\<close>

lemma DL_APPEND_repr:
  assumes "dl_repr d xs" and "add \<notin> set xs" and "\<forall>x \<in> set xs. live x" and "live add"
  shows "\<exists>d'. DL_APPEND live d add = Inr d' \<and> dl_repr d' (xs @ [add])"
proof (cases xs)
  case Nil
  with assms show ?thesis by (auto simp: dl_repr_def DL_APPEND_def deref_def)
next
  case (Cons h ys)
  let ?t = "last xs"
  have h: "head d = Some h" "prv d h = Some ?t" "live h" "live ?t" "h \<noteq> add"
    using assms Cons last_in_set [of xs] by (auto simp: dl_repr_def)
  have "?t \<noteq> add" using assms(2) Cons last_in_set [of xs] by auto
  then have app: "DL_APPEND live d add = Inr (d\<lparr>nxt := (nxt d)(?t := Some add, add := None),
      prv := (prv d)(add := Some ?t, h := Some add)\<rparr>)"
    using h assms(4) by (simp add: DL_APPEND_def deref_def Let_def)
  have "fwd ((nxt d)(?t := Some add, add := None)) (Some h) (xs @ [add])"
    using assms(1,2) Cons h(1) by (intro fwd_snoc) (auto simp: dl_repr_def)
  moreover have "bwd ((prv d)(add := Some ?t, h := Some add)) add (xs @ [add])"
    using assms(1,2) Cons h(5) by (auto simp: dl_repr_def bwd_append)
  ultimately show ?thesis using app assms(1,2) h(1) by (auto simp: dl_repr_def)
qed

lemma DL_DELETE_repr:
  assumes "dl_repr d xs" and "p \<in> set xs" and "\<forall>x \<in> set xs. live x"
  shows "\<exists>d'. DL_DELETE live d p = Inr d' \<and> dl_repr d' (remove1 p xs)"
proof -
  from assms(2) obtain as bs where xs: "xs = as @ p # bs" by (metis split_list)
  with assms(1) have dist: "p \<notin> set as" "p \<notin> set bs" "distinct as" "distinct bs"
    "set as \<inter> set bs = {}" by (auto simp: dl_repr_def)
  have rem: "remove1 p xs = as @ bs" using xs dist by (simp add: remove1_append)
  have lp: "live p" using assms(2,3) by blast
  show ?thesis
  proof (cases as)
    case Nil
    show ?thesis
    proof (cases bs)
      case Nil
      with \<open>as = []\<close> xs rem assms(1) lp show ?thesis
        by (auto simp: dl_repr_def DL_DELETE_def deref_def)
    next
      case (Cons n bs')
      have "last xs \<noteq> p" using Cons xs dist by (auto split: if_splits)
      then show ?thesis
        using Cons \<open>as = []\<close> xs rem assms lp dist
        by (auto simp: dl_repr_def DL_DELETE_def deref_def)
    qed
  next
    case (Cons h as')
    let ?q = "last as"
    have q: "prv d p = Some ?q" "?q \<in> set as" "live ?q" "?q \<noteq> p"
      using assms(1,3) Cons xs dist last_in_set [of as] by (auto simp: dl_repr_def bwd_append)
    have h: "head d = Some h" "h \<noteq> p" "live h" "prv d h = Some (last xs)"
      using assms(1,3) Cons xs dist by (auto simp: dl_repr_def)
    have next_p: "fwd (nxt d) (nxt d p) bs"
      using assms(1) xs fwd_after by (auto simp: dl_repr_def)
    have f: "fwd ((nxt d)(?q := nxt d p)) (Some h) (as @ bs)"
      using assms(1) xs Cons h(1) by (intro fwd_unlink) (auto simp: dl_repr_def)
    have b: "bwd (prv d) (last xs) as" "bwd (prv d) p bs"
      using assms(1) xs Cons by (auto simp: dl_repr_def bwd_append)
    show ?thesis
    proof (cases bs)
      case Nil
      have "bwd ((prv d)(h := Some ?q)) ?q as" using b(1) Cons dist by auto
      moreover have "DL_DELETE live d p = Inr (d\<lparr>nxt := (nxt d)(?q := nxt d p),
          prv := (prv d)(h := Some ?q)\<rparr>)"
        using Nil next_p q h lp by (auto simp: DL_DELETE_def deref_def)
      ultimately show ?thesis using f Nil rem h dist by (auto simp: dl_repr_def)
    next
      case (Cons n bs')
      have n: "nxt d p = Some n" "live n" "n \<noteq> p" "n \<notin> set as" "n \<notin> set bs'"
        using Cons next_p assms(3) xs dist by auto
      have "bwd ((prv d)(n := Some ?q)) (last (as @ bs)) (as @ bs)"
        using b n Cons xs \<open>as = h # as'\<close> by (auto simp: bwd_append)
      moreover have "DL_DELETE live d p = Inr (d\<lparr>nxt := (nxt d)(?q := nxt d p),
          prv := (prv d)(n := Some ?q)\<rparr>)"
        using n q h lp by (auto simp: DL_DELETE_def deref_def)
      ultimately show ?thesis using f rem h dist by (auto simp: dl_repr_def)
    qed
  qed
qed

lemma dl_find_fwd:
  "fwd nx c xs \<Longrightarrow> \<forall>x \<in> set xs. test x = Inr (m x) \<Longrightarrow>
   dl_find test nx c = Some (Inr (find m xs))"
proof (induction xs arbitrary: c)
  case Nil
  then show ?case by (simp add: dl_find.simps [of _ _ None])
next
  case (Cons x xs)
  then show ?case by (auto simp: dl_find.simps [of _ _ "Some x"])
qed

lemma dl_walk_fwd:
  "fwd nx c xs \<Longrightarrow> \<forall>x \<in> set xs. live x \<Longrightarrow> dl_walk live nx (c, n) = Some (Inr (n + length xs))"
proof (induction xs arbitrary: c n)
  case Nil
  then show ?case by (simp add: dl_walk.simps [of _ _ "(None, n)"])
next
  case (Cons x xs)
  then show ?case by (auto simp: dl_walk.simps [of _ _ "(Some x, n)"])
qed

text \<open>
  Appending a node that is already in the list: the links behind it are lost, and the list ends
  with this node.
\<close>

lemma fwd_cut:
  "fwd nx c (as @ p # bs) \<Longrightarrow> \<forall>x \<in> set as. nx' x = nx x \<Longrightarrow> nx' p = None \<Longrightarrow> fwd nx' c (as @ [p])"
  by (induction as arbitrary: c) auto

lemma DL_APPEND_again:
  assumes "dl_repr d (as @ p # bs)" and "\<forall>x \<in> set (as @ p # bs). live x"
  shows "\<exists>d'. DL_APPEND live d p = Inr d' \<and> DL_COUNT live d' = Inr (Suc (length as))"
proof -
  let ?xs = "as @ p # bs"
  obtain h where h: "head d = Some h" "prv d h = Some (last ?xs)" "live h"
    using assms by (cases as) (auto simp: dl_repr_def)
  have t: "live (last ?xs)" "last ?xs \<notin> set as"
    using assms last_in_set [of "p # bs"] by (auto simp: dl_repr_def)
  let ?n = "(nxt d)(last ?xs := Some p, p := None)"
  have app: "DL_APPEND live d p =
      Inr (d\<lparr>nxt := ?n, prv := (prv d)(p := Some (last ?xs), h := Some p)\<rparr>)"
    using h t(1) assms(2) by (simp add: DL_APPEND_def deref_def Let_def)
  have "fwd (nxt d) (Some h) ?xs" "p \<notin> set as" using assms(1) h(1) by (auto simp: dl_repr_def)
  then have "fwd ?n (Some h) (as @ [p])"
    using t(2) by (intro fwd_cut [of "nxt d" "Some h" as p bs]) auto
  from dl_walk_fwd [OF this, of live 0] assms(2) app h(1) show ?thesis
    by (simp add: DL_COUNT_def)
qed

text \<open>
  The contract of a first-in first-out list with deletion in the middle, in terms of the list
  it represents.
\<close>

locale fifo =
  fixes append_op :: "(ptr \<Rightarrow> bool) \<Rightarrow> 'd \<Rightarrow> ptr \<Rightarrow> stop + 'd"
    and delete_op :: "(ptr \<Rightarrow> bool) \<Rightarrow> 'd \<Rightarrow> ptr \<Rightarrow> stop + 'd"
    and search_op :: "(ptr \<Rightarrow> bool) \<Rightarrow> 'd \<Rightarrow> (ptr \<Rightarrow> bool) \<Rightarrow> stop + ptr option"
    and count_op :: "(ptr \<Rightarrow> bool) \<Rightarrow> 'd \<Rightarrow> stop + nat"
    and repr :: "'d \<Rightarrow> ptr list \<Rightarrow> bool"
  assumes repr_distinct: "repr d xs \<Longrightarrow> distinct xs"
    and append_repr: "repr d xs \<Longrightarrow> a \<notin> set xs \<Longrightarrow> \<forall>x \<in> set xs. live x \<Longrightarrow> live a \<Longrightarrow>
      \<exists>d'. append_op live d a = Inr d' \<and> repr d' (xs @ [a])"
    and delete_repr: "repr d xs \<Longrightarrow> a \<in> set xs \<Longrightarrow> \<forall>x \<in> set xs. live x \<Longrightarrow>
      \<exists>d'. delete_op live d a = Inr d' \<and> repr d' (remove1 a xs)"
    and search_repr: "repr d xs \<Longrightarrow> \<forall>x \<in> set xs. live x \<Longrightarrow>
      search_op live d m = Inr (find m xs)"
    and count_repr: "repr d xs \<Longrightarrow> \<forall>x \<in> set xs. live x \<Longrightarrow> count_op live d = Inr (length xs)"
begin

text \<open>Appending then deleting the first node, again and again, serves in arrival order.\<close>

lemma delete_first:
  assumes "repr d (x # xs)" and "\<forall>y \<in> set (x # xs). live y"
  shows "\<exists>d'. delete_op live d x = Inr d' \<and> repr d' xs"
  using delete_repr [OF assms(1) _ assms(2), of x] by auto

lemma search_delete:
  assumes "repr d xs" and "\<forall>x \<in> set xs. live x"
  shows "\<exists>d'. bnd (search_op live d m)
      (\<lambda>r. case r of None \<Rightarrow> Inr d | Some a \<Rightarrow> delete_op live d a) = Inr d' \<and>
    repr d' (case find m xs of None \<Rightarrow> xs | Some a \<Rightarrow> remove1 a xs)"
proof (cases "find m xs")
  case None
  then show ?thesis using assms by (auto simp: search_repr)
next
  case (Some a)
  then have "a \<in> set xs" by (auto simp: find_Some_iff)
  from delete_repr [OF assms(1) this assms(2)] Some show ?thesis
    using assms by (auto simp: search_repr)
qed

end

interpretation utl: fifo DL_APPEND DL_DELETE DL_SEARCH DL_COUNT dl_repr
proof unfold_locales
  show "dl_repr d xs \<Longrightarrow> distinct xs" for d xs by (simp add: dl_repr_def)
  show "dl_repr d xs \<Longrightarrow> \<forall>x \<in> set xs. live x \<Longrightarrow> DL_SEARCH live d m = Inr (find m xs)"
    for d xs live m by (simp add: dl_repr_def DL_SEARCH_def dl_find_fwd [where m = m and xs = xs])
  show "dl_repr d xs \<Longrightarrow> \<forall>x \<in> set xs. live x \<Longrightarrow> DL_COUNT live d = Inr (length xs)"
    for d xs live by (simp add: dl_repr_def DL_COUNT_def dl_walk_fwd [where xs = xs])
qed (simp_all add: DL_APPEND_repr DL_DELETE_repr)

end
