(* ===== verification/Server_Requests.thy ===== *)
theory Server_Requests
  imports Db Utlist
begin

text \<open>
  \<open>server_internals/server_requests_management.c\<close>: the requests that wait for the lock of an
  entry (the table \<open>internal_q\<close> by transaction id and the queue \<open>sorted_q\<close>) and the RDMA
  transfers whose FIN message is awaited (\<open>waiting_fin_q\<close>), each of which holds the lock of its
  entry. Shown: the invariant of the three collections with the accounting of locks, that
  every operation keeps it and never is undefined on it, that a request is added at the end of the
  queue and taken from its front, and what the disconnection of a client leaves behind.
\<close>

section \<open>State\<close>

text \<open>
  \<open>r_info\<close> is the 64-bit value of the work request id; \<open>prev\<close> and \<open>next\<close> are in the links
  of \<open>sorted_q\<close>.
\<close>

record server_pending_request =
  r_tid :: int
  r_info :: "64 word"
  r_is_pending :: bool
  r_entry :: "ptr option"
  r_headers :: client_request_headers_t
  r_buffer :: "byte list option"
  r_qp :: "ibv_qp option"
  r_qp_num :: "32 word"

record req_mem =
  req_heap :: "ptr \<Rightarrow> server_pending_request option"
  req_next :: nat

text \<open>The static variables of the file, and those of \<open>db.c\<close> that it works on.\<close>

record requests =
  internal_q :: "ptr list"
  sorted_q :: dlist
  waiting_fin_q :: "ptr list"
  q_page_size :: nat
  q_pool :: pool
  q_mem :: req_mem
  q_db :: db

definition MAX_ALLOCATED_ENTRIES :: nat where
  [simp]: "MAX_ALLOCATED_ENTRIES = 100000"

definition requests_start :: "db \<Rightarrow> requests" where
  "requests_start d = \<lparr>internal_q = [], sorted_q = empty_dlist, waiting_fin_q = [],
     q_page_size = 0, q_pool = empty_pool,
     q_mem = \<lparr>req_heap = (\<lambda>_. None), req_next = 0\<rparr>, q_db = d\<rparr>"

section \<open>The pool of requests\<close>

definition zero_headers :: client_request_headers_t where
  "zero_headers = \<lparr>opcode = 0, tid = 0, keylen = 0, buflen = 0\<rparr>"

definition fresh_request :: "world \<Rightarrow> nat \<Rightarrow> nat \<Rightarrow> server_pending_request" where
  "fresh_request W page n =
     \<lparr>r_tid = 0, r_info = 0, r_is_pending = False, r_entry = None, r_headers = zero_headers,
      r_buffer = (if q_calloc_ok W (n + 1) then Some (zeros (key_room page)) else None),
      r_qp = None, r_qp_num = 0\<rparr>"

definition new_request :: "world \<Rightarrow> nat \<Rightarrow> req_mem \<Rightarrow> stop + ptr \<times> req_mem" where
  "new_request W page m =
     (let n = req_next m
      in if q_calloc_ok W n
         then Inr (n, m\<lparr>req_heap := (req_heap m)(n \<mapsto> fresh_request W page n), req_next := n + 2\<rparr>)
         else Inl (Exit 1))"

definition req_array :: "world \<Rightarrow> req_mem \<Rightarrow> bool \<times> req_mem" where
  "req_array W m = (q_calloc_ok W (req_next m), m\<lparr>req_next := Suc (req_next m)\<rparr>)"

definition req_get_empty_buffer :: "world \<Rightarrow> requests \<Rightarrow> stop + ptr option \<times> requests" where
  "req_get_empty_buffer W q =
     bnd (get_empty_buffer MAX_ALLOCATED_ENTRIES (req_array W)
            (new_request W (q_page_size q)) (q_pool q) (q_mem q))
       (\<lambda>(r, P, m). Inr (r, q\<lparr>q_pool := P, q_mem := m\<rparr>))"

section \<open>Operations\<close>

definition rload :: "requests \<Rightarrow> ptr option \<Rightarrow> stop + server_pending_request" where
  "rload q s =
     (case s of
        None \<Rightarrow> Inl (UB Null_deref)
      | Some p \<Rightarrow> (case req_heap (q_mem q) p of None \<Rightarrow> Inl (UB Dangling) | Some r \<Rightarrow> Inr r))"

definition rstore :: "requests \<Rightarrow> ptr \<Rightarrow> server_pending_request \<Rightarrow> requests" where
  "rstore q p r = q\<lparr>q_mem := (q_mem q)\<lparr>req_heap := (req_heap (q_mem q))(p \<mapsto> r)\<rparr>\<rparr>"

definition rfree :: "requests \<Rightarrow> ptr \<Rightarrow> requests" where
  "rfree q p = q\<lparr>q_mem := (q_mem q)\<lparr>req_heap := (req_heap (q_mem q))(p := None)\<rparr>\<rparr>"

definition rlive :: "requests \<Rightarrow> ptr \<Rightarrow> bool" where
  "rlive q p \<longleftrightarrow> req_heap (q_mem q) p \<noteq> None"

definition req_key :: "requests \<Rightarrow> ptr \<Rightarrow> int option" where
  "req_key q p = map_option r_tid (req_heap (q_mem q) p)"

definition push_back_pending_request :: "requests \<Rightarrow> ptr \<Rightarrow> stop + requests" where
  "push_back_pending_request q p =
     bnd (DL_APPEND (rlive q) (sorted_q q) p) (\<lambda>l. Inr (q\<lparr>sorted_q := l\<rparr>))"

definition get_server_pending_request :: "requests \<Rightarrow> 16 word \<Rightarrow> stop + ptr option" where
  "get_server_pending_request q transaction_id =
     HASH_FIND (req_key q) (internal_q q) (uint transaction_id)"

definition add_server_pending_request :: "world \<Rightarrow> requests \<Rightarrow> 16 word \<Rightarrow> stop + requests" where
  "add_server_pending_request W q transaction_id =
     bnd (req_get_empty_buffer W q) (\<lambda>(s, q1).
     bnd (rload q1 s) (\<lambda>r.
     let p = the s;
         q2 = rstore q1 p (r\<lparr>r_tid := uint transaction_id, r_entry := None\<rparr>)
     in push_back_pending_request (q2\<lparr>internal_q := HASH_ADD (internal_q q2) p\<rparr>) p))"

definition server_pending_requests_init :: "world \<Rightarrow> requests \<Rightarrow> stop + requests" where
  "server_pending_requests_init W q =
     bnd (req_get_empty_buffer W
            (q\<lparr>internal_q := [], sorted_q := (sorted_q q)\<lparr>head := None\<rparr>, q_page_size := page_size W\<rparr>))
       (\<lambda>(s, q1).
         case s of
           None \<Rightarrow> Inl (Exit (- 1))
         | Some p \<Rightarrow>
             bnd (rload q1 s) (\<lambda>r.
             Inr ((rstore q1 p (r\<lparr>r_tid := - 1\<rparr>))\<lparr>internal_q := HASH_ADD (internal_q q1) p\<rparr>)))"

definition mark_rdma_fin_received :: "requests \<Rightarrow> 16 word \<Rightarrow> stop + int \<times> requests" where
  "mark_rdma_fin_received q tid' =
     bnd (HASH_FIND (req_key q) (waiting_fin_q q) (uint tid')) (\<lambda>request.
     case request of
       Some p \<Rightarrow>
         bnd (rload q request) (\<lambda>r.
         bnd (db_entry_unlock (q_db q) (r_entry r)) (\<lambda>(_, d).
         Inr (0, rfree (q\<lparr>q_db := d, waiting_fin_q := HASH_DEL (waiting_fin_q q) p\<rparr>) p)))
     | None \<Rightarrow> Inr (- 1, q))"

text \<open>The two parts of \<open>remove_server_pending_request\<close>: out of the queue, out of the table.\<close>

definition drop_queued :: "requests \<Rightarrow> 16 word \<Rightarrow> stop + requests" where
  "drop_queued q transaction_id =
     bnd (DL_SEARCH (rlive q) (sorted_q q) (\<lambda>p. req_key q p = Some (uint transaction_id))) (\<lambda>tmp.
     case tmp of
       None \<Rightarrow> Inr q
     | Some t \<Rightarrow> bnd (DL_DELETE (rlive q) (sorted_q q) t) (\<lambda>l. Inr (q\<lparr>sorted_q := l\<rparr>)))"

definition drop_internal :: "requests \<Rightarrow> 16 word \<Rightarrow> stop + requests" where
  "drop_internal q transaction_id =
     bnd (get_server_pending_request q transaction_id) (\<lambda>s.
     case s of
       None \<Rightarrow> Inr q
     | Some p \<Rightarrow>
         bnd (rload q s) (\<lambda>r.
         bnd (case r_entry r of
                None \<Rightarrow> Inr q
              | Some e \<Rightarrow> bnd (db_entry_unlock (q_db q) (Some e)) (\<lambda>(_, d). Inr (q\<lparr>q_db := d\<rparr>)))
           (\<lambda>q1. Inr (rfree (q1\<lparr>internal_q := HASH_DEL (internal_q q1) p\<rparr>) p))))"

definition remove_server_pending_request :: "requests \<Rightarrow> 16 word \<Rightarrow> stop + requests" where
  "remove_server_pending_request q transaction_id =
     bnd (drop_queued q transaction_id) (\<lambda>q1.
     bnd (mark_rdma_fin_received q1 transaction_id) (\<lambda>(_, q2).
     drop_internal q2 transaction_id))"

text \<open>
  The number of bytes of the payload that a pushed request keeps; \<open>size\<close> is computed in 64
  bits. A request that is already in the table only goes back to the end of the queue.
\<close>

definition kept :: "client_request_headers_t \<Rightarrow> nat" where
  "kept headers =
     (let size = of_nat CLIENT_HEADER_LEN + ucast (keylen headers) + buflen headers + 2 :: 64 word
      in if size \<le> of_nat CLIENT_REQUEST_PAYLOAD_LEN then unat size else unat (keylen headers))"

definition push_pending_request ::
  "world \<Rightarrow> requests \<Rightarrow> 16 word \<Rightarrow> 64 word \<Rightarrow> client_request_headers_t \<Rightarrow> byte list \<Rightarrow> ibv_qp \<Rightarrow>
     stop + requests" where
  "push_pending_request W q tid' info headers buffer qp =
     bnd (get_server_pending_request q tid') (\<lambda>req.
     case req of
       Some p \<Rightarrow> push_back_pending_request q p
     | None \<Rightarrow>
         bnd (add_server_pending_request W q tid') (\<lambda>q1.
         bnd (get_server_pending_request q1 tid') (\<lambda>req1.
         bnd (rload q1 req1) (\<lambda>r.
         let r1 = r\<lparr>r_is_pending := True, r_tid := uint tid', r_info := info,
                    r_headers := headers, r_qp := Some qp, r_qp_num := qp_num qp\<rparr>
         in bnd (not_null (r_buffer r1)) (\<lambda>b.
            bnd (mem_read buffer 0 (kept headers)) (\<lambda>bs.
            bnd (mem_write b 0 bs) (\<lambda>b'.
            Inr (rstore q1 (the req1) (r1\<lparr>r_buffer := Some b'\<rparr>)))))))))"

definition pop_pending_request :: "requests \<Rightarrow> stop + ptr option \<times> requests" where
  "pop_pending_request q =
     (case head (sorted_q q) of
        Some res \<Rightarrow>
          bnd (DL_DELETE (rlive q) (sorted_q q) res) (\<lambda>l. Inr (Some res, q\<lparr>sorted_q := l\<rparr>))
      | None \<Rightarrow> Inr (None, q))"

definition pending_req_count :: "requests \<Rightarrow> stop + nat" where
  "pending_req_count q = DL_COUNT (rlive q) (sorted_q q)"

text \<open>The message printed for a transaction id that is still awaited reads its entry's key.\<close>

definition mark_rdma_fin_required ::
  "world \<Rightarrow> requests \<Rightarrow> 16 word \<Rightarrow> byte list \<Rightarrow> 32 word \<Rightarrow> stop + requests" where
  "mark_rdma_fin_required W q transaction_id key qpn =
     bnd (HASH_FIND (req_key q) (waiting_fin_q q) (uint transaction_id)) (\<lambda>request.
     bnd (case request of
            None \<Rightarrow> Inr q
          | Some p \<Rightarrow>
              bnd (rload q request) (\<lambda>r.
              bnd (load (q_db q) (r_entry r)) (\<lambda>_.
              remove_server_pending_request q (word_of_int (r_tid r)))))
       (\<lambda>q1.
     bnd (req_get_empty_buffer W q1) (\<lambda>(s, q2).
     bnd (rload q2 s) (\<lambda>r.
     bnd (db_get (q_db q2) key) (\<lambda>entry.
     Inr ((rstore q2 (the s)
             (r\<lparr>r_tid := uint transaction_id, r_entry := entry, r_qp_num := qpn\<rparr>))
            \<lparr>waiting_fin_q := HASH_ADD (waiting_fin_q q2) (the s)\<rparr>))))))"

definition invalidate_step :: "32 word \<Rightarrow> ptr \<Rightarrow> requests \<Rightarrow> stop + requests" where
  "invalidate_step n p q =
     bnd (rload q (Some p)) (\<lambda>r.
     if r_qp_num r = n then remove_server_pending_request q (word_of_int (r_tid r)) else Inr q)"

definition invalidate_requests_by_qp :: "requests \<Rightarrow> ibv_qp \<Rightarrow> stop + requests" where
  "invalidate_requests_by_qp q qp = HASH_ITER internal_q (invalidate_step (qp_num qp)) q"

section \<open>Teardown\<close>

fun req_free_slots :: "ptr option list \<Rightarrow> requests \<Rightarrow> stop + requests" where
  "req_free_slots [] q = Inr q"
| "req_free_slots (None # xs) q = req_free_slots xs q"
| "req_free_slots (Some p # xs) q =
     bnd (rload q (Some p)) (\<lambda>_. req_free_slots xs (rfree q p))"

definition req_clear_preallocated_buffers :: "requests \<Rightarrow> stop + requests" where
  "req_clear_preallocated_buffers q =
     (case slots (q_pool q) of
        None \<Rightarrow> Inr q
      | Some xs \<Rightarrow>
          bnd (req_free_slots xs q) (\<lambda>q1. Inr (q1\<lparr>q_pool := (q_pool q1)\<lparr>slots := None\<rparr>\<rparr>)))"

definition destroy_step :: "ptr \<Rightarrow> requests \<Rightarrow> stop + requests" where
  "destroy_step p q =
     bnd (rload q (Some p)) (\<lambda>r.
     if r_tid r \<noteq> - 1 then remove_server_pending_request q (word_of_int (r_tid r))
     else Inr (rfree (q\<lparr>internal_q := HASH_DEL (internal_q q) p\<rparr>) p))"

text \<open>
  The table is empty after the loop unless two nodes share a transaction id; what is left of it
  is only its first node, which is freed. The count of the queue is printed at most.
\<close>

definition server_pending_requests_destroy :: "requests \<Rightarrow> stop + requests" where
  "server_pending_requests_destroy q =
     bnd (HASH_ITER internal_q destroy_step q) (\<lambda>q1.
     bnd (DL_COUNT (rlive q1) (sorted_q q1)) (\<lambda>_.
     let q2 = q1\<lparr>sorted_q := (sorted_q q1)\<lparr>head := None\<rparr>\<rparr>;
         q3 = (case internal_q q2 of
                 [] \<Rightarrow> q2
               | p # _ \<Rightarrow> (rfree q2 p)\<lparr>internal_q := []\<rparr>)
     in req_clear_preallocated_buffers q3))"

section \<open>The invariant\<close>

definition blank_request :: "world \<Rightarrow> nat \<Rightarrow> server_pending_request \<Rightarrow> bool" where
  "blank_request W page r \<longleftrightarrow> (\<exists>n. r = fresh_request W page n)"

definition req_mem_wf :: "req_mem \<Rightarrow> bool" where
  "req_mem_wf m \<longleftrightarrow> (\<forall>p. req_heap m p \<noteq> None \<longrightarrow> p < req_next m)"

interpretation rpool:
  entry_maker "new_request W page" "req_array W" req_heap "blank_request W page" req_mem_wf
  for W page
proof unfold_locales
  show "new_request W page s = Inl e \<Longrightarrow> e = Exit 1" for s e
    by (auto simp: new_request_def Let_def split: if_splits)
  show "req_mem_wf s \<Longrightarrow> new_request W page s = Inr (p, s') \<Longrightarrow>
      req_heap s p = None \<and> req_mem_wf s' \<and>
      (\<exists>e. blank_request W page e \<and> req_heap s' = (req_heap s)(p \<mapsto> e))" for s p s'
    by (fastforce simp: new_request_def Let_def req_mem_wf_def blank_request_def split: if_splits)
  show "req_mem_wf s \<Longrightarrow> req_array W s = (b, s') \<Longrightarrow> req_mem_wf s' \<and> req_heap s' = req_heap s"
    for s b s'
    by (fastforce simp: req_array_def req_mem_wf_def less_Suc_eq)
qed

text \<open>
  The nodes: every live request is in exactly one of the table of pending requests, the table of
  awaited FIN messages, the pool, or the set \<open>E\<close> of requests an operation has in hand; ids are
  unique in each table; the queue holds nodes of the first table, in order \<open>xs\<close>.
\<close>

definition req_shape :: "world \<Rightarrow> ptr set \<Rightarrow> requests \<Rightarrow> ptr list \<Rightarrow> bool" where
  "req_shape W E q xs \<longleftrightarrow>
     0 < q_page_size q \<and>
     rpool.pool_ok W (q_page_size q) MAX_ALLOCATED_ENTRIES (q_pool q) (q_mem q) \<and>
     table_ok (req_key q) (internal_q q) \<and> table_ok (req_key q) (waiting_fin_q q) \<and>
     (\<forall>p \<in> set (internal_q q). \<exists>r. req_heap (q_mem q) p = Some r \<and> r_entry r = None \<and>
        - 1 \<le> r_tid r \<and> r_tid r < 2 ^ 16 \<and> (r_tid r = - 1 \<longrightarrow> r_qp_num r = 0)) \<and>
     (\<forall>p \<in> set (waiting_fin_q q). \<exists>r. req_heap (q_mem q) p = Some r \<and> 0 \<le> r_tid r \<and> r_tid r < 2 ^ 16) \<and>
     set (internal_q q) \<inter> set (waiting_fin_q q) = {} \<and>
     (set (internal_q q) \<union> set (waiting_fin_q q)) \<inter> set (pool_ptrs (q_pool q)) = {} \<and>
     E \<inter> (set (internal_q q) \<union> set (waiting_fin_q q) \<union> set (pool_ptrs (q_pool q))) = {} \<and>
     (\<forall>p. req_heap (q_mem q) p \<noteq> None \<longleftrightarrow>
        p \<in> set (internal_q q) \<union> set (waiting_fin_q q) \<union> set (pool_ptrs (q_pool q)) \<union> E) \<and>
     dl_repr (sorted_q q) xs \<and> set xs \<subseteq> set (internal_q q)"

text \<open>
  The locks: each awaited FIN message stands for one hold on the lock of its entry, and
  these are all the holds but those of the handler that is running, \<open>x\<close>.
\<close>

definition r_target :: "requests \<Rightarrow> ptr \<Rightarrow> ptr option" where
  "r_target q w = (case req_heap (q_mem q) w of None \<Rightarrow> None | Some r \<Rightarrow> r_entry r)"

definition fins :: "requests \<Rightarrow> ptr \<Rightarrow> nat" where
  "fins q p = count_list (map (r_target q) (waiting_fin_q q)) (Some p)"

definition req_locks :: "world \<Rightarrow> (ptr \<Rightarrow> nat) \<Rightarrow> requests \<Rightarrow> bool" where
  "req_locks W x q \<longleftrightarrow>
     db_inv W (q_db q) \<and>
     (\<forall>w \<in> set (waiting_fin_q q). \<exists>p \<in> set (internal_db (q_db q)). r_target q w = Some p) \<and>
     (\<forall>p \<in> set (internal_db (q_db q)). \<forall>e. db_heap (dmem (q_db q)) p = Some e \<longrightarrow>
        holds e = int (fins q p + x p))"

definition req_inv :: "world \<Rightarrow> (ptr \<Rightarrow> nat) \<Rightarrow> requests \<Rightarrow> ptr list \<Rightarrow> bool" where
  "req_inv W x q xs \<longleftrightarrow> req_shape W {} q xs \<and> req_locks W x q"

section \<open>Basic facts\<close>

lemma rload_eq_Inr [simp]: "rload q (Some p) = Inr r \<longleftrightarrow> req_heap (q_mem q) p = Some r"
  by (simp add: rload_def split: option.split)

lemma rload_Some: "req_heap (q_mem q) p = Some r \<Longrightarrow> rload q (Some p) = Inr r"
  by simp

lemma rstore_simps [simp]:
  "internal_q (rstore q p r) = internal_q q" "sorted_q (rstore q p r) = sorted_q q"
  "waiting_fin_q (rstore q p r) = waiting_fin_q q" "q_page_size (rstore q p r) = q_page_size q"
  "q_pool (rstore q p r) = q_pool q" "q_db (rstore q p r) = q_db q"
  "req_heap (q_mem (rstore q p r)) = (req_heap (q_mem q))(p \<mapsto> r)"
  "req_next (q_mem (rstore q p r)) = req_next (q_mem q)"
  by (simp_all add: rstore_def)

lemma rfree_simps [simp]:
  "internal_q (rfree q p) = internal_q q" "sorted_q (rfree q p) = sorted_q q"
  "waiting_fin_q (rfree q p) = waiting_fin_q q" "q_page_size (rfree q p) = q_page_size q"
  "q_pool (rfree q p) = q_pool q" "q_db (rfree q p) = q_db q"
  "req_heap (q_mem (rfree q p)) = (req_heap (q_mem q))(p := None)"
  "req_next (q_mem (rfree q p)) = req_next (q_mem q)"
  by (simp_all add: rfree_def)

lemma req_key_update [simp]:
  "req_key (q\<lparr>internal_q := a\<rparr>) = req_key q" "req_key (q\<lparr>sorted_q := b\<rparr>) = req_key q"
  "req_key (q\<lparr>waiting_fin_q := a\<rparr>) = req_key q" "req_key (q\<lparr>q_db := d\<rparr>) = req_key q"
  by (simp_all add: req_key_def fun_eq_iff)

lemma r_target_update [simp]:
  "r_target (q\<lparr>internal_q := a\<rparr>) = r_target q" "r_target (q\<lparr>sorted_q := b\<rparr>) = r_target q"
  "r_target (q\<lparr>waiting_fin_q := a\<rparr>) = r_target q" "r_target (q\<lparr>q_db := d\<rparr>) = r_target q"
  by (simp_all add: r_target_def fun_eq_iff)

lemma req_key_heap: "req_heap (q_mem q) p = Some r \<Longrightarrow> req_key q p = Some (r_tid r)"
  by (simp add: req_key_def)

lemma rlive_update [simp]:
  "rlive (q\<lparr>internal_q := a\<rparr>) = rlive q" "rlive (q\<lparr>sorted_q := b\<rparr>) = rlive q"
  "rlive (q\<lparr>waiting_fin_q := a\<rparr>) = rlive q" "rlive (q\<lparr>q_db := d\<rparr>) = rlive q"
  by (simp_all add: rlive_def fun_eq_iff)

text \<open>The parts of the shape, by name.\<close>

lemma req_shapeD:
  assumes "req_shape W E q xs"
  shows "0 < q_page_size q"
    and "rpool.pool_ok W (q_page_size q) MAX_ALLOCATED_ENTRIES (q_pool q) (q_mem q)"
    and "table_ok (req_key q) (internal_q q)" and "table_ok (req_key q) (waiting_fin_q q)"
    and "dl_repr (sorted_q q) xs" and "set xs \<subseteq> set (internal_q q)"
    and "set (internal_q q) \<inter> set (waiting_fin_q q) = {}"
    and "\<And>p. p \<in> set (internal_q q) \<Longrightarrow> \<exists>r. req_heap (q_mem q) p = Some r \<and> r_entry r = None \<and>
        - 1 \<le> r_tid r \<and> r_tid r < 2 ^ 16 \<and> (r_tid r = - 1 \<longrightarrow> r_qp_num r = 0)"
    and "\<And>p. p \<in> set (waiting_fin_q q) \<Longrightarrow> \<exists>r. req_heap (q_mem q) p = Some r \<and> 0 \<le> r_tid r \<and> r_tid r < 2 ^ 16"
    and "\<And>p. p \<in> set (internal_q q) \<Longrightarrow> rlive q p"
    and "\<And>p. p \<in> set xs \<Longrightarrow> rlive q p"
    and "E \<inter> (set (internal_q q) \<union> set (waiting_fin_q q) \<union> set (pool_ptrs (q_pool q))) = {}"
  using assms by (auto simp: req_shape_def rlive_def)

section \<open>Moves of one request\<close>

lemma shape_db [simp]: "req_shape W E (q\<lparr>q_db := d\<rparr>) xs = req_shape W E q xs"
  by (simp add: req_shape_def)

lemma shape_queue:
  assumes "req_shape W E q xs" and "dl_repr l ys" and "set ys \<subseteq> set (internal_q q)"
  shows "req_shape W E (q\<lparr>sorted_q := l\<rparr>) ys"
  using assms by (simp add: req_shape_def)

lemma shape_store:
  assumes shape: "req_shape W E q xs" and p: "p \<in> E"
  shows "req_shape W E (rstore q p r) xs"
proof -
  let ?q = "rstore q p r"
  have out: "p \<notin> set (internal_q q)" "p \<notin> set (waiting_fin_q q)" "p \<notin> set (pool_ptrs (q_pool q))"
    using shape p by (auto simp: req_shape_def)
  have live: "req_heap (q_mem q) p \<noteq> None" using shape p by (simp add: req_shape_def)
  have key: "req_key ?q a = req_key q a" if "a \<noteq> p" for a using that by (simp add: req_key_def)
  have same: "\<forall>a \<in> set (internal_q q). req_key ?q a = req_key q a"
    "\<forall>a \<in> set (waiting_fin_q q). req_key ?q a = req_key q a"
    using key out by metis+
  have "table_ok (req_key ?q) (internal_q q)" "table_ok (req_key ?q) (waiting_fin_q q)"
    by (rule ht.ok_frame [OF _ same(1)], use shape in \<open>simp add: req_shape_def\<close>)
      (rule ht.ok_frame [OF _ same(2)], use shape in \<open>simp add: req_shape_def\<close>)
  moreover have "rpool.pool_ok W (q_page_size q) MAX_ALLOCATED_ENTRIES (q_pool q) (q_mem ?q)"
  proof -
    have old: "rpool.pool_ok W (q_page_size q) MAX_ALLOCATED_ENTRIES (q_pool q) (q_mem q)"
      using shape by (simp add: req_shape_def)
    then have "req_mem_wf (q_mem ?q)" using live by (simp add: rpool.pool_ok_def req_mem_wf_def)
    with old out(3) show ?thesis by (auto simp: rpool.pool_ok_def)
  qed
  moreover have "(req_heap (q_mem ?q) a \<noteq> None) = (req_heap (q_mem q) a \<noteq> None)" for a
    using live by simp
  ultimately show ?thesis using shape out by (simp add: req_shape_def)
qed

lemma shape_free:
  assumes shape: "req_shape W E q xs" and p: "p \<in> E"
  shows "req_shape W (E - {p}) (rfree q p) xs"
proof -
  let ?q = "rfree q p"
  have out: "p \<notin> set (internal_q q)" "p \<notin> set (waiting_fin_q q)" "p \<notin> set (pool_ptrs (q_pool q))"
    using shape p by (auto simp: req_shape_def)
  have key: "req_key ?q a = req_key q a" if "a \<noteq> p" for a using that by (simp add: req_key_def)
  have same: "\<forall>a \<in> set (internal_q q). req_key ?q a = req_key q a"
    "\<forall>a \<in> set (waiting_fin_q q). req_key ?q a = req_key q a"
    using key out by metis+
  have "table_ok (req_key ?q) (internal_q q)" "table_ok (req_key ?q) (waiting_fin_q q)"
    by (rule ht.ok_frame [OF _ same(1)], use shape in \<open>simp add: req_shape_def\<close>)
      (rule ht.ok_frame [OF _ same(2)], use shape in \<open>simp add: req_shape_def\<close>)
  moreover have "rpool.pool_ok W (q_page_size q) MAX_ALLOCATED_ENTRIES (q_pool q) (q_mem ?q)"
  proof -
    have old: "rpool.pool_ok W (q_page_size q) MAX_ALLOCATED_ENTRIES (q_pool q) (q_mem q)"
      using shape by (simp add: req_shape_def)
    then have "req_mem_wf (q_mem ?q)" by (simp add: rpool.pool_ok_def req_mem_wf_def)
    with old out(3) show ?thesis by (auto simp: rpool.pool_ok_def)
  qed
  moreover have "\<forall>a. (req_heap (q_mem ?q) a \<noteq> None) \<longleftrightarrow>
      a \<in> set (internal_q q) \<union> set (waiting_fin_q q) \<union> set (pool_ptrs (q_pool q)) \<union> (E - {p})"
    using shape out by (auto simp: req_shape_def)
  ultimately show ?thesis using shape out by (simp add: req_shape_def) blast
qed

lemma shape_del_internal:
  assumes shape: "req_shape W E q xs" and p: "p \<in> set (internal_q q)" "p \<notin> set xs"
  shows "req_shape W (insert p E) (q\<lparr>internal_q := HASH_DEL (internal_q q) p\<rparr>) xs"
proof -
  have tab: "table_ok (req_key q) (internal_q q)" using shape by (simp add: req_shape_def)
  have del: "set (HASH_DEL (internal_q q) p) = set (internal_q q) - {p}" by (rule ht.del_set [OF tab])
  have heap: "\<forall>a. (req_heap (q_mem q) a \<noteq> None) \<longleftrightarrow>
      a \<in> set (internal_q q) \<union> set (waiting_fin_q q) \<union> set (pool_ptrs (q_pool q)) \<union> E"
    using shape by (simp add: req_shape_def)
  have "\<forall>a. (req_heap (q_mem q) a \<noteq> None) \<longleftrightarrow>
      a \<in> set (HASH_DEL (internal_q q) p) \<union> set (waiting_fin_q q) \<union> set (pool_ptrs (q_pool q)) \<union> insert p E"
    using p(1) unfolding heap [rule_format] del by blast
  moreover have "table_ok (req_key q) (HASH_DEL (internal_q q) p)" by (rule ht.del_ok [OF tab])
  moreover have "insert p E \<inter> (set (HASH_DEL (internal_q q) p) \<union> set (waiting_fin_q q) \<union>
      set (pool_ptrs (q_pool q))) = {}"
    using shape p(1) by (auto simp: req_shape_def del)
  ultimately show ?thesis
    using shape p by (simp add: req_shape_def del) blast
qed

lemma shape_del_waiting:
  assumes shape: "req_shape W E q xs" and p: "p \<in> set (waiting_fin_q q)"
  shows "req_shape W (insert p E) (q\<lparr>waiting_fin_q := HASH_DEL (waiting_fin_q q) p\<rparr>) xs"
proof -
  have tab: "table_ok (req_key q) (waiting_fin_q q)" using shape by (simp add: req_shape_def)
  have del: "set (HASH_DEL (waiting_fin_q q) p) = set (waiting_fin_q q) - {p}"
    by (rule ht.del_set [OF tab])
  have heap: "\<forall>a. (req_heap (q_mem q) a \<noteq> None) \<longleftrightarrow>
      a \<in> set (internal_q q) \<union> set (waiting_fin_q q) \<union> set (pool_ptrs (q_pool q)) \<union> E"
    using shape by (simp add: req_shape_def)
  have "\<forall>a. (req_heap (q_mem q) a \<noteq> None) \<longleftrightarrow>
      a \<in> set (internal_q q) \<union> set (HASH_DEL (waiting_fin_q q) p) \<union> set (pool_ptrs (q_pool q)) \<union> insert p E"
    using p unfolding heap [rule_format] del by blast
  moreover have "table_ok (req_key q) (HASH_DEL (waiting_fin_q q) p)" by (rule ht.del_ok [OF tab])
  moreover have "insert p E \<inter> (set (internal_q q) \<union> set (HASH_DEL (waiting_fin_q q) p) \<union>
      set (pool_ptrs (q_pool q))) = {}"
    using shape p by (auto simp: req_shape_def del)
  ultimately show ?thesis
    using shape p by (simp add: req_shape_def del) blast
qed

lemma shape_add_internal:
  assumes shape: "req_shape W (insert p E) q xs" and p: "p \<notin> E"
    and r: "req_heap (q_mem q) p = Some r" "r_entry r = None" "- 1 \<le> r_tid r" "r_tid r < 2 ^ 16"
      "r_tid r = - 1 \<Longrightarrow> r_qp_num r = 0"
    and new: "\<forall>a \<in> set (internal_q q). req_key q a \<noteq> Some (r_tid r)"
  shows "req_shape W E (q\<lparr>internal_q := HASH_ADD (internal_q q) p\<rparr>) xs"
proof -
  have out: "p \<notin> set (internal_q q)" "p \<notin> set (waiting_fin_q q)" "p \<notin> set (pool_ptrs (q_pool q))"
    using shape by (auto simp: req_shape_def)
  have "table_ok (req_key q) (HASH_ADD (internal_q q) p)"
    using shape out new r(1)
    by (intro ht.add_ok [where k = "r_tid r"]) (simp_all add: req_shape_def req_key_def)
  moreover have "\<forall>a. (req_heap (q_mem q) a \<noteq> None) \<longleftrightarrow>
      a \<in> insert p (set (internal_q q)) \<union> set (waiting_fin_q q) \<union> set (pool_ptrs (q_pool q)) \<union> E"
    using shape by (simp add: req_shape_def)
  ultimately show ?thesis
    using shape out p r by (simp add: req_shape_def HASH_ADD_def) blast
qed

lemma shape_add_waiting:
  assumes shape: "req_shape W (insert p E) q xs" and p: "p \<notin> E"
    and r: "req_heap (q_mem q) p = Some r" "0 \<le> r_tid r" "r_tid r < 2 ^ 16"
    and new: "\<forall>a \<in> set (waiting_fin_q q). req_key q a \<noteq> Some (r_tid r)"
  shows "req_shape W E (q\<lparr>waiting_fin_q := HASH_ADD (waiting_fin_q q) p\<rparr>) xs"
proof -
  have out: "p \<notin> set (internal_q q)" "p \<notin> set (waiting_fin_q q)" "p \<notin> set (pool_ptrs (q_pool q))"
    using shape by (auto simp: req_shape_def)
  have "table_ok (req_key q) (HASH_ADD (waiting_fin_q q) p)"
    using shape out new r(1)
    by (intro ht.add_ok [where k = "r_tid r"]) (simp_all add: req_shape_def req_key_def)
  moreover have "\<forall>a. (req_heap (q_mem q) a \<noteq> None) \<longleftrightarrow>
      a \<in> set (internal_q q) \<union> insert p (set (waiting_fin_q q)) \<union> set (pool_ptrs (q_pool q)) \<union> E"
    using shape by (simp add: req_shape_def)
  ultimately show ?thesis
    using shape out p r by (simp add: req_shape_def HASH_ADD_def)
qed

lemma take_request:
  assumes shape: "req_shape W E q xs" and W: "plentiful W"
  obtains p r q1 where "req_get_empty_buffer W q = Inr (Some p, q1)"
    "req_heap (q_mem q1) p = Some r" "blank_request W (q_page_size q) r"
    "req_shape W (insert p E) q1 xs" "p \<notin> E" "req_heap (q_mem q) p = None \<or> p \<in> set (pool_ptrs (q_pool q))"
    "internal_q q1 = internal_q q" "waiting_fin_q q1 = waiting_fin_q q" "sorted_q q1 = sorted_q q"
    "q_db q1 = q_db q" "q_page_size q1 = q_page_size q"
    "\<forall>a. req_heap (q_mem q) a \<noteq> None \<longrightarrow> req_heap (q_mem q1) a = req_heap (q_mem q) a"
proof -
  let ?pg = "q_page_size q"
  have ok: "rpool.pool_ok W ?pg MAX_ALLOCATED_ENTRIES (q_pool q) (q_mem q)"
    by (rule req_shapeD(2) [OF shape])
  obtain s P m where res: "get_empty_buffer MAX_ALLOCATED_ENTRIES (req_array W)
      (new_request W ?pg) (q_pool q) (q_mem q) = Inr (s, P, m)"
    using rpool.get_empty_buffer_total [OF ok] W
    by (auto simp: new_request_def req_array_def plentiful_def Let_def)
  from rpool.get_empty_buffer_ok [OF ok _ res] obtain p r where
    pr: "s = Some p" "req_heap m p = Some r" "blank_request W ?pg r"
      "rpool.pool_ok W ?pg MAX_ALLOCATED_ENTRIES P m" "p \<notin> set (pool_ptrs P)"
      "\<forall>a. req_heap (q_mem q) a \<noteq> None \<longrightarrow> req_heap m a = req_heap (q_mem q) a"
      "p \<in> set (pool_ptrs (q_pool q)) \<or> req_heap (q_mem q) p = None"
      "\<forall>a \<in> set (pool_ptrs P). a \<in> set (pool_ptrs (q_pool q)) \<or> req_heap (q_mem q) a = None"
      "\<forall>a. req_heap m a \<noteq> None \<longrightarrow> req_heap (q_mem q) a \<noteq> None \<or> a \<in> insert p (set (pool_ptrs P))"
      "set (pool_ptrs (q_pool q)) \<subseteq> insert p (set (pool_ptrs P))"
    by auto
  let ?q = "q\<lparr>q_pool := P, q_mem := m\<rparr>" and ?IW = "set (internal_q q) \<union> set (waiting_fin_q q)"
  have live: "\<And>a. (req_heap (q_mem q) a \<noteq> None) \<longleftrightarrow> a \<in> ?IW \<union> set (pool_ptrs (q_pool q)) \<union> E"
    using shape by (simp add: req_shape_def)
  have apart: "?IW \<inter> set (pool_ptrs (q_pool q)) = {}" "E \<inter> (?IW \<union> set (pool_ptrs (q_pool q))) = {}"
    using shape by (simp_all add: req_shape_def)
  have keep: "req_heap m a = req_heap (q_mem q) a" if "a \<in> ?IW \<union> E" for a
    using that live [of a] pr(6) by blast
  have out: "p \<notin> ?IW \<union> E" using pr(7) live [of p] apart by blast
  have disj: "(?IW \<union> E) \<inter> set (pool_ptrs P) = {}" using pr(8) live apart by blast
  have pool_live: "\<And>a. a \<in> set (pool_ptrs P) \<Longrightarrow> req_heap m a \<noteq> None"
    using pr(4) by (auto simp: rpool.pool_ok_def)
  have all: "(req_heap m a \<noteq> None) \<longleftrightarrow> a \<in> ?IW \<union> set (pool_ptrs P) \<union> insert p E" for a
  proof
    assume "req_heap m a \<noteq> None"
    then show "a \<in> ?IW \<union> set (pool_ptrs P) \<union> insert p E"
      using pr(9,10) live [of a] by blast
  next
    assume "a \<in> ?IW \<union> set (pool_ptrs P) \<union> insert p E"
    then show "req_heap m a \<noteq> None"
      using pool_live [of a] pr(2) keep [of a] live [of a] by auto
  qed
  have same: "\<forall>a \<in> set (internal_q q). req_key ?q a = req_key q a"
    "\<forall>a \<in> set (waiting_fin_q q). req_key ?q a = req_key q a"
    using keep by (simp_all add: req_key_def)
  have tab: "table_ok (req_key ?q) (internal_q q)" "table_ok (req_key ?q) (waiting_fin_q q)"
    using ht.ok_frame [OF req_shapeD(3) [OF shape] same(1)]
      ht.ok_frame [OF req_shapeD(4) [OF shape] same(2)] by simp_all
  have "req_shape W (insert p E) ?q xs"
    unfolding req_shape_def
    using req_shapeD [OF shape] tab pr(4,5) out disj all keep apart by simp blast
  moreover have "req_get_empty_buffer W q = Inr (Some p, ?q)"
    using res pr(1) by (simp add: req_get_empty_buffer_def)
  ultimately show ?thesis using pr(2,3,6,7) out by (intro that [of p ?q r]) auto
qed

section \<open>Locks of awaited transfers\<close>

lemma count_map_remove1:
  "w \<in> set ws \<Longrightarrow>
   count_list (map f ws) a = count_list (map f (remove1 w ws)) a + (if f w = a then 1 else 0)"
  by (induction ws) auto

lemma locks_heap:
  assumes "req_locks W x q" and "\<forall>w \<in> set (waiting_fin_q q). req_heap (q_mem q') w = req_heap (q_mem q) w"
    and "waiting_fin_q q' = waiting_fin_q q" and "q_db q' = q_db q"
  shows "req_locks W x q'"
proof -
  have t: "\<forall>w \<in> set (waiting_fin_q q). r_target q' w = r_target q w"
    using assms(2) by (simp add: r_target_def)
  then have "map (r_target q') (waiting_fin_q q) = map (r_target q) (waiting_fin_q q)"
    by (intro map_cong refl) blast
  then have "\<And>a. fins q' a = fins q a" using assms(3) by (metis fins_def)
  then show ?thesis using assms t by (simp add: req_locks_def)
qed

lemma locks_del_waiting:
  assumes l: "req_locks W x q" and w: "w \<in> set (waiting_fin_q q)" "r_target q w = Some p"
  shows "req_locks W (x(p := Suc (x p))) (q\<lparr>waiting_fin_q := HASH_DEL (waiting_fin_q q) w\<rparr>)"
proof -
  let ?q = "q\<lparr>waiting_fin_q := HASH_DEL (waiting_fin_q q) w\<rparr>"
  have "fins q a = fins ?q a + (if a = p then 1 else 0)" for a
    using count_map_remove1 [OF w(1), of "r_target q" "Some a"] w(2)
    by (simp add: fins_def HASH_DEL_def)
  then show ?thesis
    using l set_remove1_subset [of w "waiting_fin_q q"] by (auto simp: req_locks_def HASH_DEL_def)
qed

lemma locks_add_waiting:
  assumes l: "req_locks W (x(p := Suc (x p))) q" and w: "r_target q w = Some p"
    and p: "p \<in> set (internal_db (q_db q))"
  shows "req_locks W x (q\<lparr>waiting_fin_q := HASH_ADD (waiting_fin_q q) w\<rparr>)"
proof -
  let ?q = "q\<lparr>waiting_fin_q := HASH_ADD (waiting_fin_q q) w\<rparr>"
  have "fins ?q a = fins q a + (if a = p then 1 else 0)" for a
    using w by (simp add: fins_def HASH_ADD_def)
  then show ?thesis using l w p by (auto simp: req_locks_def HASH_ADD_def)
qed

lemma locks_store:
  assumes l: "req_locks W x q" and inv: "db_inv W (store (q_db q) p e')"
    and e': "p \<in> set (internal_db (q_db q)) \<Longrightarrow> holds e' = int (fins q p + x' p)" and x: "\<And>a. a \<noteq> p \<Longrightarrow> x' a = x a"
  shows "req_locks W x' (q\<lparr>q_db := store (q_db q) p e'\<rparr>)"
proof -
  have "fins (q\<lparr>q_db := store (q_db q) p e'\<rparr>) a = fins q a" for a by (simp add: fins_def)
  then show ?thesis using l inv e' x by (auto simp: req_locks_def)
qed

lemma locks_unlock:
  assumes l: "req_locks W x q" and p: "p \<in> set (internal_db (q_db q))" and x: "x p = Suc n"
  obtains e' where "db_entry_unlock (q_db q) (Some p) = Inr (True, store (q_db q) p e')"
    "req_locks W (x(p := n)) (q\<lparr>q_db := store (q_db q) p e'\<rparr>)"
    "db_same (q_db q) (store (q_db q) p e')"
proof -
  have inv: "db_inv W (q_db q)" using l by (simp add: req_locks_def)
  obtain e where e: "db_heap (dmem (q_db q)) p = Some e" using entry_ok_live [OF inv p] by blast
  have h: "holds e = int (fins q p + x p)" using l p e by (simp add: req_locks_def)
  with x have pos: "0 < holds e" by simp
  from unlock_holds [OF inv p e pos] obtain e' where
    e': "db_entry_unlock (q_db q) (Some p) = Inr (True, store (q_db q) p e')"
      "db_inv W (store (q_db q) p e')" "same_but_lock e e'" "holds e' = holds e - 1" by blast
  have "req_locks W (x(p := n)) (q\<lparr>q_db := store (q_db q) p e'\<rparr>)"
    using e'(4) h x by (intro locks_store [OF l e'(2)]) auto
  from that [OF e'(1) this db_same_store [OF e e'(3)]] show ?thesis .
qed

section \<open>The operations keep the invariant\<close>

text \<open>The queue without the request of an id.\<close>

definition without :: "requests \<Rightarrow> 16 word \<Rightarrow> ptr list \<Rightarrow> ptr list" where
  "without q t xs = filter (\<lambda>p. req_key q p \<noteq> Some (uint t)) xs"

lemma remove1_find_filter:
  "distinct xs \<Longrightarrow> inj_on f (set xs) \<Longrightarrow> find (\<lambda>p. f p = a) xs = Some b \<Longrightarrow>
   remove1 b xs = filter (\<lambda>p. f p \<noteq> a) xs"
proof (induction xs)
  case (Cons y xs)
  show ?case
  proof (cases "f y = a")
    case True
    then have "\<forall>z \<in> set xs. f z \<noteq> a" using Cons.prems(1,2) by (auto simp: inj_on_def)
    then have "filter (\<lambda>p. f p \<noteq> a) xs = xs" by simp
    then show ?thesis using True Cons.prems(3) by simp
  next
    case False
    have "b \<in> set xs" "f b = a" using Cons.prems(3) False by (auto simp: find_Some_iff)
    then have "b \<noteq> y" using False by auto
    then show ?thesis using Cons False by (simp add: inj_on_def)
  qed
qed simp

lemma drop_queued_ok:
  assumes shape: "req_shape W E q xs"
  obtains l where "drop_queued q t = Inr (q\<lparr>sorted_q := l\<rparr>)"
    "req_shape W E (q\<lparr>sorted_q := l\<rparr>) (without q t xs)"
proof -
  note D = req_shapeD [OF shape]
  have live: "\<forall>p \<in> set xs. rlive q p" using D(11) by blast
  have search: "DL_SEARCH (rlive q) (sorted_q q) (\<lambda>p. req_key q p = Some (uint t)) =
      Inr (find (\<lambda>p. req_key q p = Some (uint t)) xs)"
    by (rule utl.search_repr [OF D(5) live])
  show ?thesis
  proof (cases "find (\<lambda>p. req_key q p = Some (uint t)) xs")
    case None
    then have "without q t xs = xs" by (simp add: without_def find_None_iff)
    with that [of "sorted_q q"] None search shape show ?thesis by (simp add: drop_queued_def)
  next
    case (Some p)
    then have "p \<in> set xs" by (auto simp: find_Some_iff)
    from utl.delete_repr [OF D(5) this live] obtain l where
      l: "DL_DELETE (rlive q) (sorted_q q) p = Inr l" "dl_repr l (remove1 p xs)" by blast
    have "inj_on (req_key q) (set xs)" "distinct xs"
      using D(3,6) utl.repr_distinct [OF D(5)] by (auto simp: table_ok_def intro: inj_on_subset)
    then have eq: "remove1 p xs = without q t xs"
      unfolding without_def by (intro remove1_find_filter [OF _ _ Some])
    have "req_shape W E (q\<lparr>sorted_q := l\<rparr>) (without q t xs)"
      using l(2) D(6) unfolding eq by (intro shape_queue [OF shape]) (auto simp: without_def)
    with that [of l] l(1) search Some show ?thesis by (simp add: drop_queued_def)
  qed
qed

lemma mark_received_ok:
  assumes shape: "req_shape W {} q xs" and locks: "req_locks W x q"
  obtains (none) "mark_rdma_fin_received q t = Inr (- 1, q)"
      "\<forall>w \<in> set (waiting_fin_q q). req_key q w \<noteq> Some (uint t)"
  | (released) w p e' q' where "mark_rdma_fin_received q t = Inr (0, q')"
      "w \<in> set (waiting_fin_q q)" "req_key q w = Some (uint t)" "r_target q w = Some p"
      "q' = rfree (q\<lparr>q_db := store (q_db q) p e', waiting_fin_q := HASH_DEL (waiting_fin_q q) w\<rparr>) w"
      "req_shape W {} q' xs" "req_locks W x q'" "db_same (q_db q) (q_db q')"
proof -
  note D = req_shapeD [OF shape]
  show ?thesis
    using D(4)
  proof (cases rule: ht.find_cases [where k = "uint t"])
    case miss
    then show ?thesis using none by (simp add: mark_rdma_fin_received_def)
  next
    case (hit w)
    obtain r where r: "req_heap (q_mem q) w = Some r" using D(9) hit(2) by blast
    obtain p where p: "p \<in> set (internal_db (q_db q))" "r_target q w = Some p"
      using locks hit(2) by (auto simp: req_locks_def)
    then have entry: "r_entry r = Some p" using r by (simp add: r_target_def)
    let ?q1 = "q\<lparr>waiting_fin_q := HASH_DEL (waiting_fin_q q) w\<rparr>"
    have l1: "req_locks W (x(p := Suc (x p))) ?q1" by (rule locks_del_waiting [OF locks hit(2) p(2)])
    from locks_unlock [OF l1, of p "x p"] p(1) obtain e' where
      e': "db_entry_unlock (q_db q) (Some p) = Inr (True, store (q_db q) p e')"
        "req_locks W x (?q1\<lparr>q_db := store (q_db q) p e'\<rparr>)"
        "db_same (q_db q) (store (q_db q) p e')" by auto
    let ?q = "rfree (q\<lparr>q_db := store (q_db q) p e', waiting_fin_q := HASH_DEL (waiting_fin_q q) w\<rparr>) w"
    have s1: "req_shape W {w} ?q1 xs" using shape_del_waiting [OF shape hit(2)] by simp
    then have "w \<notin> set (waiting_fin_q ?q1)" by (simp add: req_shape_def)
    then have "req_locks W x ?q" by (intro locks_heap [OF e'(2)]) auto
    moreover have "req_shape W {w} (q\<lparr>q_db := store (q_db q) p e', waiting_fin_q := HASH_DEL (waiting_fin_q q) w\<rparr>) xs"
      using s1 by (simp add: req_shape_def)
    then have "req_shape W ({w} - {w}) ?q xs" by (intro shape_free) simp_all
    moreover have "mark_rdma_fin_received q t = Inr (0, ?q)"
      using hit r entry e'(1) by (simp add: mark_rdma_fin_received_def rload_Some)
    ultimately show ?thesis using released [OF _ hit(2,3) p(2) refl] e'(3) by simp
  qed
qed

lemma drop_internal_ok:
  assumes shape: "req_shape W {} q xs" and locks: "req_locks W x q"
    and out: "\<forall>p \<in> set xs. req_key q p \<noteq> Some (uint t)"
  obtains q' where "drop_internal q t = Inr q'" "req_shape W {} q' xs" "req_locks W x q'"
    "q_db q' = q_db q" "waiting_fin_q q' = waiting_fin_q q" "sorted_q q' = sorted_q q"
    "internal_q q' = filter (\<lambda>p. req_key q p \<noteq> Some (uint t)) (internal_q q)"
    "\<forall>p \<in> set (internal_q q'). req_heap (q_mem q') p = req_heap (q_mem q) p"
    "\<forall>p \<in> set (waiting_fin_q q'). req_heap (q_mem q') p = req_heap (q_mem q) p"
    "q_page_size q' = q_page_size q"
proof -
  note D = req_shapeD [OF shape]
  show ?thesis
    using D(3)
  proof (cases rule: ht.find_cases [where k = "uint t"])
    case miss
    then have "filter (\<lambda>p. req_key q p \<noteq> Some (uint t)) (internal_q q) = internal_q q"
      by (auto simp: filter_id_conv)
    then show ?thesis
      using that [of q] miss shape locks
      by (simp add: drop_internal_def get_server_pending_request_def)
  next
    case (hit p)
    obtain r where r: "req_heap (q_mem q) p = Some r" "r_entry r = None" using D(8) [OF hit(2)] by blast
    let ?q1 = "q\<lparr>internal_q := HASH_DEL (internal_q q) p\<rparr>"
    let ?q = "rfree ?q1 p"
    have s1: "req_shape W {p} ?q1 xs"
      using out hit by (intro shape_del_internal [OF shape]) auto
    then have "req_shape W ({p} - {p}) ?q xs" by (intro shape_free) simp_all
    then have s2: "req_shape W {} ?q xs" by simp
    have nw: "p \<notin> set (waiting_fin_q q)" using D(7) hit(2) by blast
    have lo: "req_locks W x ?q" using nw by (intro locks_heap [OF locks]) auto
    have dist: "distinct (internal_q q)" "inj_on (req_key q) (set (internal_q q))"
      using D(3) by (simp_all add: table_ok_def)
    have "find (\<lambda>a. req_key q a = Some (uint t)) (internal_q q) = Some p"
    proof (cases "find (\<lambda>a. req_key q a = Some (uint t)) (internal_q q)")
      case None
      then show ?thesis using hit by (simp add: find_None_iff)
    next
      case (Some b)
      then have "b \<in> set (internal_q q)" "req_key q b = Some (uint t)"
        by (auto simp: find_Some_iff)
      then show ?thesis using ht.ok_inj [OF D(3), of b p] hit Some by simp
    qed
    from remove1_find_filter [OF dist this]
    have fil: "HASH_DEL (internal_q q) p = filter (\<lambda>p. req_key q p \<noteq> Some (uint t)) (internal_q q)"
      by (simp add: HASH_DEL_def)
    have "drop_internal q t = Inr ?q"
      using hit r by (simp add: drop_internal_def get_server_pending_request_def rload_Some)
    moreover have "p \<notin> set (filter (\<lambda>p. req_key q p \<noteq> Some (uint t)) (internal_q q))" using hit(3) by simp
    ultimately show ?thesis using s2 lo fil nw by (intro that [of ?q]) (simp_all, metis+)
  qed
qed

text \<open>What removal does: the request of this id leaves all three collections.\<close>

definition removed :: "requests \<Rightarrow> 16 word \<Rightarrow> requests \<Rightarrow> bool" where
  "removed q t q' \<longleftrightarrow>
     internal_q q' = filter (\<lambda>p. req_key q p \<noteq> Some (uint t)) (internal_q q) \<and>
     set (waiting_fin_q q') = {w \<in> set (waiting_fin_q q). req_key q w \<noteq> Some (uint t)} \<and>
     (\<forall>p \<in> set (internal_q q') \<union> set (waiting_fin_q q'). req_heap (q_mem q') p = req_heap (q_mem q) p) \<and>
     db_same (q_db q) (q_db q') \<and> q_page_size q' = q_page_size q"

lemma remove_ok:
  assumes inv: "req_inv W x q xs"
  obtains q' where "remove_server_pending_request q t = Inr q'" "req_inv W x q' (without q t xs)"
    "removed q t q'"
proof -
  have shape: "req_shape W {} q xs" and locks: "req_locks W x q" using inv by (simp_all add: req_inv_def)
  obtain l where l: "drop_queued q t = Inr (q\<lparr>sorted_q := l\<rparr>)"
    "req_shape W {} (q\<lparr>sorted_q := l\<rparr>) (without q t xs)"
    by (rule drop_queued_ok [OF shape])
  let ?q1 = "q\<lparr>sorted_q := l\<rparr>" and ?xs = "without q t xs"
  have l1: "req_locks W x ?q1" by (rule locks_heap [OF locks]) simp_all
  obtain n q2 where
    q2: "mark_rdma_fin_received ?q1 t = Inr (n, q2)" "req_shape W {} q2 ?xs" "req_locks W x q2"
      "internal_q q2 = internal_q q" "db_same (q_db q) (q_db q2)" "q_page_size q2 = q_page_size q"
      "set (waiting_fin_q q2) = {w \<in> set (waiting_fin_q q). req_key q w \<noteq> Some (uint t)}"
      "\<forall>p \<in> set (internal_q q) \<union> set (waiting_fin_q q2). req_heap (q_mem q2) p = req_heap (q_mem q) p"
    using l(2) l1
  proof (cases rule: mark_received_ok [where t = t])
    case none
    then show ?thesis using that [of "- 1" ?q1] l(2) l1 by auto
  next
    case (released w p e' q')
    note D = req_shapeD [OF l(2)]
    have ws: "set (HASH_DEL (waiting_fin_q q) w) = set (waiting_fin_q q) - {w}"
      using ht.del_set [OF D(4), of w] by simp
    have "\<And>a. a \<in> set (waiting_fin_q q) \<Longrightarrow> req_key q a = Some (uint t) \<Longrightarrow> a = w"
      using ht.ok_inj [OF D(4)] released(2,3) by simp
    then have "set (waiting_fin_q q) - {w} = {a \<in> set (waiting_fin_q q). req_key q a \<noteq> Some (uint t)}"
      using released(3) by auto
    moreover have "w \<notin> set (internal_q q)" using D(7) released(2) by auto
    ultimately show ?thesis
      using released ws by (intro that [of 0 q']) auto
  qed
  have keys: "\<And>p. p \<in> set (internal_q q) \<Longrightarrow> req_key q2 p = req_key q p"
    using q2(8) by (simp add: req_key_def)
  have "set xs \<subseteq> set (internal_q q)" by (rule req_shapeD(6) [OF shape])
  then have out: "\<forall>p \<in> set ?xs. req_key q2 p \<noteq> Some (uint t)"
    using keys by (auto simp: without_def)
  obtain q' where
    q': "drop_internal q2 t = Inr q'" "req_shape W {} q' ?xs" "req_locks W x q'"
      "q_db q' = q_db q2" "waiting_fin_q q' = waiting_fin_q q2"
      "internal_q q' = filter (\<lambda>p. req_key q2 p \<noteq> Some (uint t)) (internal_q q2)"
      "\<forall>p \<in> set (internal_q q'). req_heap (q_mem q') p = req_heap (q_mem q2) p"
      "\<forall>p \<in> set (waiting_fin_q q'). req_heap (q_mem q') p = req_heap (q_mem q2) p"
      "q_page_size q' = q_page_size q2"
    by (rule drop_internal_ok [OF q2(2,3) out])
  have "filter (\<lambda>p. req_key q2 p \<noteq> Some (uint t)) (internal_q q2) =
      filter (\<lambda>p. req_key q p \<noteq> Some (uint t)) (internal_q q)"
    unfolding q2(4) using keys by (intro filter_cong) auto
  then have "removed q t q'"
    using q'(4-9) q2(5-8) by (auto simp: removed_def)
  moreover have "remove_server_pending_request q t = Inr q'"
    using l(1) q2(1) q'(1) by (simp add: remove_server_pending_request_def)
  ultimately show ?thesis using that q'(2,3) by (simp add: req_inv_def)
qed

lemma mark_required_ok:
  assumes shape: "req_shape W {} q xs" and locks: "req_locks W (x(p := Suc (x p))) q"
    and W: "plentiful W" and p: "p \<in> set (internal_db (q_db q))"
    and get: "db_get (q_db q) key = Inr (Some p)"
  obtains q' w r where "mark_rdma_fin_required W q t key n = Inr q'"
    "req_inv W x q' (if \<exists>w \<in> set (waiting_fin_q q). req_key q w = Some (uint t) then without q t xs else xs)"
    "w \<in> set (waiting_fin_q q')" "req_heap (q_mem q') w = Some r" "r_tid r = uint t" "r_entry r = Some p"
    "r_qp_num r = n" "db_same (q_db q) (q_db q')"
    "set (internal_q q') \<subseteq> set (internal_q q)" "\<forall>a \<in> set (internal_q q'). req_key q' a = req_key q a"
    "q_page_size q' = q_page_size q"
    "(\<forall>w \<in> set (waiting_fin_q q). req_key q w \<noteq> Some (uint t)) \<longrightarrow> q_db q' = q_db q"
proof -
  let ?x = "x(p := Suc (x p))"
  have inv: "req_inv W ?x q xs" using shape locks by (simp add: req_inv_def)
  note D = req_shapeD [OF shape]
  obtain q1 ys where
    q1: "req_inv W ?x q1 ys" "db_same (q_db q) (q_db q1)"
      "\<forall>w \<in> set (waiting_fin_q q1). req_key q1 w \<noteq> Some (uint t)"
      "ys = (if \<exists>w \<in> set (waiting_fin_q q). req_key q w = Some (uint t) then without q t xs else xs)"
      "set (internal_q q1) \<subseteq> set (internal_q q)" "\<forall>a \<in> set (internal_q q1). req_key q1 a = req_key q a"
      "q_page_size q1 = q_page_size q"
      "(\<forall>w \<in> set (waiting_fin_q q). req_key q w \<noteq> Some (uint t)) \<longrightarrow> q_db q1 = q_db q" and
    run: "mark_rdma_fin_required W q t key n =
     bnd (req_get_empty_buffer W q1) (\<lambda>(s, q2).
     bnd (rload q2 s) (\<lambda>r.
     bnd (db_get (q_db q2) key) (\<lambda>entry.
     Inr ((rstore q2 (the s) (r\<lparr>r_tid := uint t, r_entry := entry, r_qp_num := n\<rparr>))
            \<lparr>waiting_fin_q := HASH_ADD (waiting_fin_q q2) (the s)\<rparr>))))"
    using D(4)
  proof (cases rule: ht.find_cases [where k = "uint t"])
    case miss
    then show ?thesis using that [of q xs] inv by (simp add: mark_rdma_fin_required_def)
  next
    case (hit w)
    obtain r where r: "req_heap (q_mem q) w = Some r" using D(9) hit(2) by blast
    then have t: "word_of_int (r_tid r) = t" using hit(3) by (simp add: req_key_def)
    obtain a where a: "r_entry r = Some a" "a \<in> set (internal_db (q_db q))"
      using locks hit(2) r by (auto simp: req_locks_def r_target_def)
    obtain e where e: "db_heap (dmem (q_db q)) a = Some e"
      using locks a(2) entry_ok_live [of W "q_db q" a] by (auto simp: req_locks_def)
    obtain q1 where q1: "remove_server_pending_request q t = Inr q1"
      "req_inv W ?x q1 (without q t xs)" "removed q t q1"
      by (rule remove_ok [OF inv])
    have "\<forall>w \<in> set (waiting_fin_q q1). req_key q1 w \<noteq> Some (uint t)"
      using q1(3) by (auto simp: removed_def req_key_def)
    moreover have "\<exists>w \<in> set (waiting_fin_q q). req_key q w = Some (uint t)" using hit(2,3) by blast
    moreover have none: "(\<forall>w \<in> set (waiting_fin_q q). req_key q w \<noteq> Some (uint t)) \<longrightarrow> q_db q1 = q_db q"
      using hit(2,3) by blast
    ultimately show ?thesis
      using that [OF q1(2) _ _ _ _ _ _ none] q1(1,3) hit(1) r t a e
      by (simp add: mark_rdma_fin_required_def rload_Some load_Some removed_def req_key_def)
  qed
  have shape1: "req_shape W {} q1 ys" and locks1: "req_locks W ?x q1"
    using q1(1) by (simp_all add: req_inv_def)
  obtain w r q2 where
    tk: "req_get_empty_buffer W q1 = Inr (Some w, q2)" "req_heap (q_mem q2) w = Some r"
      "req_shape W {w} q2 ys" "waiting_fin_q q2 = waiting_fin_q q1" "q_db q2 = q_db q1"
      "internal_q q2 = internal_q q1" "q_page_size q2 = q_page_size q1"
      "\<forall>a. req_heap (q_mem q1) a \<noteq> None \<longrightarrow> req_heap (q_mem q2) a = req_heap (q_mem q1) a"
    using take_request [OF shape1 W] by metis
  let ?r = "r\<lparr>r_tid := uint t, r_entry := Some p, r_qp_num := n\<rparr>"
  let ?q3 = "rstore q2 w ?r"
  let ?q = "?q3\<lparr>waiting_fin_q := HASH_ADD (waiting_fin_q q2) w\<rparr>"
  have s3: "req_shape W {w} ?q3 ys" by (rule shape_store [OF tk(3)]) simp
  have out: "w \<notin> set (waiting_fin_q q2)" using tk(3) by (simp add: req_shape_def)
  have old: "req_heap (q_mem ?q3) a = req_heap (q_mem q1) a" if "a \<in> set (waiting_fin_q q1)" for a
    using that tk(4,8) out req_shapeD(9) [OF shape1 that] by auto
  have new: "\<forall>a \<in> set (waiting_fin_q ?q3). req_key ?q3 a \<noteq> Some (r_tid ?r)"
    using q1(3) old tk(4) by (simp add: req_key_def)
  have t16: "uint t < 2 ^ 16" using uint_lt2p [of t] by simp
  have "req_shape W {} ?q ys"
    using shape_add_waiting [OF s3 _ _ _ _ new] t16 by simp
  moreover have "req_locks W ?x ?q3"
    using old tk(4,5) by (intro locks_heap [OF locks1]) simp_all
  then have "req_locks W x (?q3\<lparr>waiting_fin_q := HASH_ADD (waiting_fin_q ?q3) w\<rparr>)"
    using p q1(2) tk(5)
    by (intro locks_add_waiting [where p = p]) (simp_all add: r_target_def db_same_def)
  ultimately have "req_inv W x ?q ys" by (simp add: req_inv_def)
  moreover have "mark_rdma_fin_required W q t key n = Inr ?q"
    using run tk(1,2,5) get db_same_get [OF q1(2)] by (simp add: rload_Some)
  moreover have "\<forall>a \<in> set (internal_q ?q). req_key ?q a = req_key q1 a"
  proof
    fix a assume a: "a \<in> set (internal_q ?q)"
    then have "a \<noteq> w" using tk(3,6) by (auto simp: req_shape_def)
    moreover have "a \<in> set (internal_q q1)" using a tk(6) by simp
    then have "req_heap (q_mem q1) a \<noteq> None" using req_shapeD(8) [OF shape1] by fastforce
    ultimately show "req_key ?q a = req_key q1 a" using tk(8) by (simp add: req_key_def)
  qed
  ultimately show ?thesis
    using that [of ?q w ?r] q1(2,4-8) tk(4-7) by (auto simp: HASH_ADD_def)
qed

text \<open>Storing in a request of the table, with its id and no entry.\<close>

lemma shape_store_internal:
  assumes shape: "req_shape W E q xs" and p: "p \<in> set (internal_q q)"
    and r: "req_heap (q_mem q) p = Some r" "r_tid r' = r_tid r" "r_entry r' = None"
      "r_tid r' = - 1 \<Longrightarrow> r_qp_num r' = 0"
  shows "req_shape W E (rstore q p r') xs"
proof -
  let ?q = "rstore q p r'"
  note D = req_shapeD [OF shape]
  have out: "p \<notin> set (waiting_fin_q q)" "p \<notin> set (pool_ptrs (q_pool q))"
    using shape p by (auto simp: req_shape_def)
  have key: "req_key ?q = req_key q" using r by (intro ext) (simp add: req_key_def)
  have "rpool.pool_ok W (q_page_size q) MAX_ALLOCATED_ENTRIES (q_pool q) (q_mem ?q)"
  proof -
    have "req_mem_wf (q_mem ?q)" using D(2) r(1) by (simp add: rpool.pool_ok_def req_mem_wf_def)
    with D(2) out(2) show ?thesis by (auto simp: rpool.pool_ok_def)
  qed
  moreover have "\<forall>a. (req_heap (q_mem ?q) a \<noteq> None) = (req_heap (q_mem q) a \<noteq> None)"
    using r(1) by simp
  moreover have "- 1 \<le> r_tid r'" "r_tid r' < 2 ^ 16" using D(8) [OF p] r by auto
  ultimately show ?thesis using shape out r key by (simp add: req_shape_def)
qed

lemma push_new_ok:
  assumes inv: "req_inv W x q xs" and W: "plentiful W"
    and new: "\<forall>p \<in> set (internal_q q). req_key q p \<noteq> Some (uint t)"
    and fit: "kept h \<le> length buf" "kept h \<le> key_room (q_page_size q)"
  obtains q' p r where "push_pending_request W q t info h buf qp = Inr q'"
    "req_inv W x q' (xs @ [p])" "internal_q q' = internal_q q @ [p]" "p \<notin> set (internal_q q)"
    "req_heap (q_mem q') p = Some r" "r_tid r = uint t" "r_info r = info" "r_headers r = h"
    "r_qp r = Some qp" "r_qp_num r = qp_num qp"
    "r_buffer r = Some (take (kept h) buf @ zeros (key_room (q_page_size q) - kept h))"
    "\<forall>a \<in> set (internal_q q) \<union> set (waiting_fin_q q). req_heap (q_mem q') a = req_heap (q_mem q) a"
    "waiting_fin_q q' = waiting_fin_q q" "q_db q' = q_db q" "q_page_size q' = q_page_size q"
proof -
  have shape: "req_shape W {} q xs" and locks: "req_locks W x q" using inv by (simp_all add: req_inv_def)
  obtain p r0 q1 where
    tk: "req_get_empty_buffer W q = Inr (Some p, q1)" "req_heap (q_mem q1) p = Some r0"
      "blank_request W (q_page_size q) r0" "req_shape W {p} q1 xs"
      "internal_q q1 = internal_q q" "waiting_fin_q q1 = waiting_fin_q q" "sorted_q q1 = sorted_q q"
      "q_db q1 = q_db q" "q_page_size q1 = q_page_size q"
      "\<forall>a. req_heap (q_mem q) a \<noteq> None \<longrightarrow> req_heap (q_mem q1) a = req_heap (q_mem q) a"
    using take_request [OF shape W] by metis
  have blank: "r_entry r0 = None" "r_qp_num r0 = 0" "r_buffer r0 = Some (zeros (key_room (q_page_size q)))"
    using tk(3) W by (auto simp: blank_request_def fresh_request_def plentiful_def)
  have t16: "uint t < 2 ^ 16" using uint_lt2p [of t] by simp
  have t0: "- 1 \<le> uint t" by (rule order_trans [of _ 0]) simp_all
  have out: "p \<notin> set (internal_q q)" "p \<notin> set (waiting_fin_q q)"
    using tk(4-6) by (auto simp: req_shape_def)
  let ?r1 = "r0\<lparr>r_tid := uint t, r_entry := None\<rparr>"
  let ?q2 = "rstore q1 p ?r1"
  let ?q3 = "?q2\<lparr>internal_q := HASH_ADD (internal_q ?q2) p\<rparr>"
  have s2: "req_shape W {p} ?q2 xs" by (rule shape_store [OF tk(4)]) simp
  have keep: "req_heap (q_mem ?q2) a = req_heap (q_mem q) a"
    if "a \<in> set (internal_q q) \<union> set (waiting_fin_q q)" for a
  proof -
    have "req_heap (q_mem q) a \<noteq> None" using that req_shapeD(8,9) [OF shape] by fastforce
    then show ?thesis using tk(10) that out by auto
  qed
  have keep1: "\<forall>a \<in> set (internal_q q) \<union> set (waiting_fin_q q). req_heap (q_mem q1) a = req_heap (q_mem q) a \<and> a \<noteq> p"
    using keep out by (metis Un_iff fun_upd_other rstore_simps(7))
  have fresh: "\<forall>a \<in> set (internal_q ?q2). req_key ?q2 a \<noteq> Some (r_tid ?r1)"
    using new keep tk(5) by (simp add: req_key_def)
  have s3: "req_shape W {} ?q3 xs"
    using shape_add_internal [OF s2 _ _ _ _ _ _ fresh] t16 t0 blank(2) by simp
  have lv: "\<forall>a \<in> set xs. rlive ?q3 a" "rlive ?q3 p" using req_shapeD(11) [OF s3] by (auto simp: rlive_def)
  have "p \<notin> set xs" using req_shapeD(6) [OF shape] out by blast
  from utl.append_repr [OF req_shapeD(5) [OF s3] this lv] obtain l where
    l: "DL_APPEND (rlive ?q3) (sorted_q ?q3) p = Inr l" "dl_repr l (xs @ [p])" by blast
  let ?q4 = "?q3\<lparr>sorted_q := l\<rparr>"
  have s4: "req_shape W {} ?q4 (xs @ [p])"
    using req_shapeD(6) [OF s3] by (intro shape_queue [OF s3 l(2)]) (simp add: HASH_ADD_def)
  have add: "add_server_pending_request W q t = Inr ?q4"
    using tk(1,2) l(1) by (simp add: add_server_pending_request_def rload_Some push_back_pending_request_def Let_def)
  have get1: "get_server_pending_request q t = Inr None"
    using ht.find_miss [OF req_shapeD(3) [OF shape] new] by (simp add: get_server_pending_request_def)
  have "p \<in> set (internal_q ?q4)" by (simp add: HASH_ADD_def)
  moreover have "req_key ?q4 p = Some (uint t)" by (simp add: req_key_def)
  ultimately have get2: "get_server_pending_request ?q4 t = Inr (Some p)"
    using ht.find_hit [OF req_shapeD(3) [OF s4]] by (simp add: get_server_pending_request_def)
  let ?b = "take (kept h) buf @ zeros (key_room (q_page_size q) - kept h)"
  let ?r2 = "?r1\<lparr>r_is_pending := True, r_info := info, r_headers := h, r_qp := Some qp,
      r_qp_num := qp_num qp\<rparr>"
  let ?r = "?r2\<lparr>r_buffer := Some ?b\<rparr>"
  let ?q = "rstore ?q4 p ?r"
  have "push_pending_request W q t info h buf qp = Inr ?q"
    unfolding push_pending_request_def get1 add
    using get2 fit blank(3)
    by (cases r0) (simp add: rload_Some Let_def mem_read_def mem_write_def splice_def)
  moreover have "req_shape W {} ?q (xs @ [p])"
    by (intro shape_store_internal [OF s4, where r = ?r1]) (simp_all add: HASH_ADD_def)
  moreover have "req_locks W x ?q"
    using keep1 tk(6,8) by (intro locks_heap [OF locks]) auto
  ultimately show ?thesis
    using keep1 out tk(5,6,8,9) by (intro that [of ?q p ?r]) (auto simp: req_inv_def HASH_ADD_def)
qed

lemma push_again_ok:
  assumes inv: "req_inv W x q xs" and p: "p \<in> set (internal_q q)" "req_key q p = Some (uint t)"
    and out: "p \<notin> set xs"
  obtains l where "push_pending_request W q t info h buf qp = Inr (q\<lparr>sorted_q := l\<rparr>)"
    "req_inv W x (q\<lparr>sorted_q := l\<rparr>) (xs @ [p])"
proof -
  have shape: "req_shape W {} q xs" and locks: "req_locks W x q" using inv by (simp_all add: req_inv_def)
  note D = req_shapeD [OF shape]
  have lv: "\<forall>a \<in> set xs. rlive q a" "rlive q p" using D(10,11) p(1) by blast+
  from utl.append_repr [OF D(5) out lv] obtain l where
    l: "DL_APPEND (rlive q) (sorted_q q) p = Inr l" "dl_repr l (xs @ [p])" by blast
  have "req_shape W {} (q\<lparr>sorted_q := l\<rparr>) (xs @ [p])"
    using D(6) p(1) by (intro shape_queue [OF shape l(2)]) simp
  moreover have "req_locks W x (q\<lparr>sorted_q := l\<rparr>)" by (rule locks_heap [OF locks]) simp_all
  moreover have "push_pending_request W q t info h buf qp = Inr (q\<lparr>sorted_q := l\<rparr>)"
    using ht.find_hit [OF D(3) p] l(1)
    by (simp add: push_pending_request_def get_server_pending_request_def push_back_pending_request_def)
  ultimately show ?thesis by (intro that) (simp_all add: req_inv_def)
qed

lemma pop_ok:
  assumes inv: "req_inv W x q xs"
  shows "case xs of
      [] \<Rightarrow> pop_pending_request q = Inr (None, q)
    | p # ys \<Rightarrow> \<exists>l. pop_pending_request q = Inr (Some p, q\<lparr>sorted_q := l\<rparr>) \<and>
        req_inv W x (q\<lparr>sorted_q := l\<rparr>) ys \<and> p \<in> set (internal_q q) \<and> p \<notin> set ys"
proof (cases xs)
  case Nil
  then show ?thesis
    using inv by (simp add: req_inv_def req_shape_def pop_pending_request_def dl_repr_Nil)
next
  case (Cons p ys)
  have shape: "req_shape W {} q xs" and locks: "req_locks W x q" using inv by (simp_all add: req_inv_def)
  note D = req_shapeD [OF shape]
  have lv: "\<forall>a \<in> set (p # ys). rlive q a" using D(11) Cons by blast
  from utl.delete_first [OF D(5) [unfolded Cons] lv] obtain l where
    l: "DL_DELETE (rlive q) (sorted_q q) p = Inr l" "dl_repr l ys" by blast
  have "req_shape W {} (q\<lparr>sorted_q := l\<rparr>) ys"
    using D(6) Cons by (intro shape_queue [OF shape l(2)]) simp
  moreover have "req_locks W x (q\<lparr>sorted_q := l\<rparr>)" by (rule locks_heap [OF locks]) simp_all
  moreover have "head (sorted_q q) = Some p" using dl_repr_head [OF D(5)] Cons by simp
  moreover have "distinct xs" by (rule utl.repr_distinct [OF D(5)])
  ultimately show ?thesis
    using l(1) Cons D(6) by (auto simp: pop_pending_request_def req_inv_def intro!: exI [of _ l])
qed

lemma count_ok: "req_inv W x q xs \<Longrightarrow> pending_req_count q = Inr (length xs)"
  using req_shapeD(5,11) [of W "{}" q xs] utl.count_repr [of "sorted_q q" xs "rlive q"]
  by (simp add: req_inv_def pending_req_count_def)

lemma requests_init_shape:
  assumes W: "plentiful W"
  obtains q p r where "server_pending_requests_init W (requests_start d) = Inr q"
    "req_shape W {} q []" "q_db q = d" "waiting_fin_q q = []" "internal_q q = [p]"
    "req_heap (q_mem q) p = Some r" "r_tid r = - 1" "r_qp_num r = 0" "q_page_size q = page_size W"
    "slots (q_pool q) \<noteq> None"
proof -
  let ?s = "(requests_start d)\<lparr>internal_q := [], sorted_q := (sorted_q (requests_start d))\<lparr>head := None\<rparr>,
      q_page_size := page_size W\<rparr>"
  have pg: "0 < page_size W" using W by (simp add: plentiful_def)
  have shape0: "req_shape W {} ?s []"
    using pg by (simp add: req_shape_def rpool.pool_ok_def requests_start_def req_mem_wf_def dl_repr_Nil)
  obtain p r q1 where
    tk: "req_get_empty_buffer W ?s = Inr (Some p, q1)" "req_heap (q_mem q1) p = Some r"
      "blank_request W (page_size W) r" "req_shape W {p} q1 []"
      "internal_q q1 = []" "waiting_fin_q q1 = []" "q_db q1 = d" "q_page_size q1 = page_size W"
    by (rule take_request [OF shape0 W]) (auto simp: requests_start_def)
  let ?r = "r\<lparr>r_tid := - 1\<rparr>"
  let ?q = "(rstore q1 p ?r)\<lparr>internal_q := HASH_ADD (internal_q q1) p\<rparr>"
  have blank: "r_entry r = None" "r_qp_num r = 0"
    using tk(3) by (auto simp: blank_request_def fresh_request_def)
  have s1: "req_shape W {p} (rstore q1 p ?r) []" by (rule shape_store [OF tk(4)]) simp
  have "req_shape W {} ?q []"
    using shape_add_internal [OF s1, of ?r] blank tk(5) by simp
  moreover have "server_pending_requests_init W (requests_start d) = Inr ?q"
    using tk(1,2) by (simp add: server_pending_requests_init_def rload_Some)
  moreover have "slots (q_pool ?q) \<noteq> None"
    using tk(1) by (auto simp: req_get_empty_buffer_def get_empty_buffer_def split: option.splits if_splits)
  ultimately show ?thesis
    using tk blank by (intro that [of ?q p ?r]) (auto simp: HASH_ADD_def)
qed

text \<open>A free table: no lock is held.\<close>

lemma locks_none:
  assumes db: "db_inv W (q_db q)" and w: "waiting_fin_q q = []"
    and free: "\<forall>p \<in> set (internal_db (q_db q)). \<forall>e. db_heap (dmem (q_db q)) p = Some e \<longrightarrow> e_lock e = Free"
  shows "req_locks W (\<lambda>_. 0) q"
  using db free entry_lock_counts [OF db] w by (fastforce simp: req_locks_def fins_def holds_def)

lemma requests_init_ok:
  assumes db: "db_inv W d" and free: "\<forall>p \<in> set (internal_db d). \<forall>e. db_heap (dmem d) p = Some e \<longrightarrow> e_lock e = Free"
    and W: "plentiful W"
  obtains q p r where "server_pending_requests_init W (requests_start d) = Inr q"
    "req_inv W (\<lambda>_. 0) q []" "q_db q = d" "waiting_fin_q q = []" "internal_q q = [p]"
    "req_heap (q_mem q) p = Some r" "r_tid r = - 1" "r_qp_num r = 0" "q_page_size q = page_size W"
    "slots (q_pool q) \<noteq> None"
proof (rule requests_init_shape [OF W, of d])
  fix q p r
  assume q: "server_pending_requests_init W (requests_start d) = Inr q" "req_shape W {} q []"
    "q_db q = d" "waiting_fin_q q = []" "internal_q q = [p]"
    "req_heap (q_mem q) p = Some r" "r_tid r = - 1" "r_qp_num r = 0" "q_page_size q = page_size W"
    "slots (q_pool q) \<noteq> None"
  have "req_locks W (\<lambda>_. 0) q" using locks_none [of W q] db free q(3,4) by simp
  then show ?thesis using that q by (simp add: req_inv_def)
qed

section \<open>A client goes away\<close>

definition req_qp :: "requests \<Rightarrow> ptr \<Rightarrow> 32 word option" where
  "req_qp q p = map_option r_qp_num (req_heap (q_mem q) p)"

text \<open>What a run of removals of requests of the first table leaves.\<close>

definition removed_all :: "requests \<Rightarrow> ptr set \<Rightarrow> requests \<Rightarrow> bool" where
  "removed_all q D q' \<longleftrightarrow>
     internal_q q' = filter (\<lambda>p. p \<notin> D) (internal_q q) \<and>
     set (waiting_fin_q q') = {w \<in> set (waiting_fin_q q). \<forall>p \<in> D. req_key q w \<noteq> req_key q p} \<and>
     (\<forall>p \<in> set (internal_q q') \<union> set (waiting_fin_q q'). req_heap (q_mem q') p = req_heap (q_mem q) p) \<and>
     db_same (q_db q) (q_db q') \<and> q_page_size q' = q_page_size q"

lemma removed_all_none [simp]: "removed_all q {} q"
  by (simp add: removed_all_def)

lemma removed_one:
  assumes shape: "req_shape W E q xs" and p: "p \<in> set (internal_q q)" "req_key q p = Some (uint t)"
    and rem: "removed q t q'"
  shows "removed_all q {p} q'" and "without q t xs = filter (\<lambda>a. a \<notin> {p}) xs"
proof -
  note D = req_shapeD [OF shape]
  have uniq: "req_key q a = Some (uint t) \<longleftrightarrow> a = p" if "a \<in> set (internal_q q)" for a
    using ht.ok_inj [OF D(3) that p(1)] p(2) by auto
  have "filter (\<lambda>a. req_key q a \<noteq> Some (uint t)) (internal_q q) = filter (\<lambda>a. a \<notin> {p}) (internal_q q)"
    by (rule filter_cong) (use uniq in auto)
  then show "removed_all q {p} q'" using rem p(2) by (simp add: removed_def removed_all_def)
  show "without q t xs = filter (\<lambda>a. a \<notin> {p}) xs"
    unfolding without_def by (rule filter_cong) (use uniq D(6) in auto)
qed

lemma removed_all_trans:
  assumes 1: "removed_all q A q1" and 2: "removed_all q1 B q2"
    and B: "B \<subseteq> set (internal_q q1)"
  shows "removed_all q (A \<union> B) q2"
proof -
  have k1: "req_key q1 p = req_key q p" if "p \<in> set (internal_q q1) \<union> set (waiting_fin_q q1)" for p
    using 1 that by (simp add: removed_all_def req_key_def)
  have sub: "set (internal_q q2) \<subseteq> set (internal_q q1)" "set (waiting_fin_q q2) \<subseteq> set (waiting_fin_q q1)"
    using 2 by (auto simp: removed_all_def)
  have "set (waiting_fin_q q2) = {w \<in> set (waiting_fin_q q1). \<forall>p \<in> B. req_key q w \<noteq> req_key q p}"
    using 2 B k1 by (auto simp: removed_all_def subset_iff)
  also have "\<dots> = {w \<in> set (waiting_fin_q q). \<forall>p \<in> A \<union> B. req_key q w \<noteq> req_key q p}"
    using 1 by (auto simp: removed_all_def)
  finally have "set (waiting_fin_q q2) = {w \<in> set (waiting_fin_q q). \<forall>p \<in> A \<union> B. req_key q w \<noteq> req_key q p}" .
  moreover have "req_heap (q_mem q2) p = req_heap (q_mem q) p"
    if p: "p \<in> set (internal_q q2) \<union> set (waiting_fin_q q2)" for p
  proof -
    have "p \<in> set (internal_q q1) \<union> set (waiting_fin_q q1)" using p sub by blast
    moreover have "req_heap (q_mem q2) p = req_heap (q_mem q1) p"
      using 2 p unfolding removed_all_def by blast
    ultimately show ?thesis using 1 unfolding removed_all_def by metis
  qed
  moreover have "internal_q q2 = filter (\<lambda>p. p \<notin> A \<union> B) (internal_q q)"
    using 1 2 by (simp add: removed_all_def conj_commute [of "_ \<notin> B"])
  moreover have "db_same (q_db q) (q_db q2)"
    using 1 2 db_same_trans by (auto simp: removed_all_def)
  moreover have "q_page_size q2 = q_page_size q" using 1 2 by (simp add: removed_all_def)
  ultimately show ?thesis unfolding removed_all_def by blast
qed

lemma tid_word:
  assumes "- 1 \<le> r_tid r" "r_tid r < 2 ^ 16" "r_tid r \<noteq> - 1"
  shows "uint (word_of_int (r_tid r) :: 16 word) = r_tid r"
  using assms by (simp add: uint_word_of_int_eq take_bit_int_eq_self)

lemma invalidate_step_ok:
  assumes inv: "req_inv W x q xs" and p: "p \<in> set (internal_q q)" and n: "n \<noteq> 0"
  obtains q' where "invalidate_step n p q = Inr q'"
    "req_inv W x q' (filter (\<lambda>a. a \<notin> {b. b = p \<and> req_qp q b = Some n}) xs)"
    "removed_all q {b. b = p \<and> req_qp q b = Some n} q'"
proof -
  have shape: "req_shape W {} q xs" using inv by (simp add: req_inv_def)
  obtain r where r: "req_heap (q_mem q) p = Some r" "- 1 \<le> r_tid r" "r_tid r < 2 ^ 16"
    "r_tid r = - 1 \<longrightarrow> r_qp_num r = 0"
    using req_shapeD(8) [OF shape p] by blast
  show ?thesis
  proof (cases "r_qp_num r = n")
    case True
    let ?t = "word_of_int (r_tid r) :: 16 word"
    have t: "uint ?t = r_tid r" using r True n by (intro tid_word) auto
    obtain q' where q': "remove_server_pending_request q ?t = Inr q'"
      "req_inv W x q' (without q ?t xs)" "removed q ?t q'"
      by (rule remove_ok [OF inv])
    have key: "req_key q p = Some (uint ?t)" using r(1) t by (simp add: req_key_def)
    have one: "{b. b = p \<and> req_qp q b = Some n} = {p}" using True r(1) by (auto simp: req_qp_def)
    show ?thesis
      using that [of q', unfolded one] q' removed_one [OF shape p key q'(3)] True r(1)
      by (simp add: invalidate_step_def rload_Some)
  next
    case False
    then have none: "{b. b = p \<and> req_qp q b = Some n} = {}" using r(1) by (auto simp: req_qp_def)
    show ?thesis
      using that [of q, unfolded none] inv False r(1) by (simp add: invalidate_step_def rload_Some)
  qed
qed

text \<open>Running a step that removes some of its nodes over a list of nodes of the table.\<close>

lemma run_on_removes:
  assumes step: "\<And>p q xs. req_inv W x q xs \<Longrightarrow> p \<in> set (internal_q q) \<Longrightarrow>
      \<exists>q'. body p q = Inr q' \<and> req_inv W x q' (filter (\<lambda>a. a \<notin> {b. b = p \<and> sel (req_heap (q_mem q) b)}) xs) \<and>
        removed_all q {b. b = p \<and> sel (req_heap (q_mem q) b)} q'"
  shows "req_inv W x q xs \<Longrightarrow> distinct ps \<Longrightarrow> set ps \<subseteq> set (internal_q q) \<Longrightarrow>
    \<exists>q'. run_on body ps q = Inr q' \<and>
      req_inv W x q' (filter (\<lambda>a. a \<notin> {b \<in> set ps. sel (req_heap (q_mem q) b)}) xs) \<and>
      removed_all q {b \<in> set ps. sel (req_heap (q_mem q) b)} q'"
proof (induction ps arbitrary: q xs)
  case (Cons p ps)
  let ?h = "req_heap (q_mem q)"
  let ?A = "{b. b = p \<and> sel (?h b)}" and ?B = "{b \<in> set ps. sel (?h b)}"
  obtain q1 where q1: "body p q = Inr q1" "req_inv W x q1 (filter (\<lambda>a. a \<notin> ?A) xs)" "removed_all q ?A q1"
    using step [OF Cons.prems(1), of p] Cons.prems(3) by auto
  have sub: "set ps \<subseteq> set (internal_q q1)"
    using q1(3) Cons.prems(2,3) by (auto simp: removed_all_def)
  have heap: "req_heap (q_mem q1) b = ?h b" if "b \<in> set ps" for b
    using q1(3) sub that unfolding removed_all_def by blast
  then have B: "{b \<in> set ps. sel (req_heap (q_mem q1) b)} = ?B" by auto
  obtain q2 where
    q2: "run_on body ps q1 = Inr q2" "req_inv W x q2 (filter (\<lambda>a. a \<notin> ?B) (filter (\<lambda>a. a \<notin> ?A) xs))"
      "removed_all q1 ?B q2"
    using Cons.IH [OF q1(2) _ sub] Cons.prems(2) unfolding B by auto
  have AB: "?A \<union> ?B = {b \<in> set (p # ps). sel (?h b)}" by auto
  have "removed_all q (?A \<union> ?B) q2"
    using sub by (intro removed_all_trans [OF q1(3) q2(3)]) auto
  moreover have "filter (\<lambda>a. a \<notin> ?B) (filter (\<lambda>a. a \<notin> ?A) xs) = filter (\<lambda>a. a \<notin> ?A \<union> ?B) xs"
    by (simp add: filter_filter)
  ultimately show ?case using q1(1) q2(1,2) unfolding AB by auto
qed simp

text \<open>
  The invalidation of the requests of a queue pair with a number other than 0 (which is that of
  the subnet manager): these requests leave the table and the queue, and the transfers that were
  awaited under their ids are released.
\<close>

lemma invalidate_ok:
  assumes inv: "req_inv W x q xs" and n: "qp_num qp \<noteq> 0"
  obtains q' where "invalidate_requests_by_qp q qp = Inr q'"
    "req_inv W x q' (filter (\<lambda>p. req_qp q p \<noteq> Some (qp_num qp)) xs)"
    "removed_all q {p \<in> set (internal_q q). req_qp q p = Some (qp_num qp)} q'"
proof -
  let ?sel = "\<lambda>r. map_option r_qp_num r = Some (qp_num qp)"
  have step: "\<exists>q'. invalidate_step (qp_num qp) p s = Inr q' \<and>
      req_inv W x q' (filter (\<lambda>a. a \<notin> {b. b = p \<and> ?sel (req_heap (q_mem s) b)}) ys) \<and>
      removed_all s {b. b = p \<and> ?sel (req_heap (q_mem s) b)} q'"
    if "req_inv W x s ys" "p \<in> set (internal_q s)" for p s ys
  proof (rule invalidate_step_ok [OF that n])
    fix q'
    assume "invalidate_step (qp_num qp) p s = Inr q'"
      "req_inv W x q' (filter (\<lambda>a. a \<notin> {b. b = p \<and> req_qp s b = Some (qp_num qp)}) ys)"
      "removed_all s {b. b = p \<and> req_qp s b = Some (qp_num qp)} q'"
    then show ?thesis unfolding req_qp_def by blast
  qed
  have dist: "distinct (internal_q s)" if "req_inv W x s ys" for s ys
    using that req_shapeD(3) [of W "{}" s ys] by (simp add: req_inv_def table_ok_def)
  have "HASH_ITER internal_q (invalidate_step (qp_num qp)) q = run_on (invalidate_step (qp_num qp)) (internal_q q) q"
  proof (rule HASH_ITER_run_on [where I = "\<lambda>s. \<exists>ys. req_inv W x s ys"])
    fix p s s'
    assume "\<exists>ys. req_inv W x s ys" and p: "p \<in> set (internal_q s)"
      and run: "invalidate_step (qp_num qp) p s = Inr s'"
    then obtain ys where ys: "req_inv W x s ys" by blast
    from step [OF ys p] run have s': "\<exists>ys. req_inv W x s' ys"
      "removed_all s {b. b = p \<and> ?sel (req_heap (q_mem s) b)} s'" by auto
    have "filter (\<lambda>a. a \<noteq> p) (internal_q s) = remove1 p (internal_q s)"
      using distinct_remove1_removeAll [OF dist [OF ys]] by (simp add: removeAll_filter_not_eq eq_commute)
    then show "(\<exists>ys. req_inv W x s' ys) \<and> (internal_q s' = internal_q s \<or> internal_q s' = remove1 p (internal_q s))"
      using s' by (cases "?sel (req_heap (q_mem s) p)") (auto simp: removed_all_def)
  qed (use inv dist in auto)
  moreover obtain q' where q': "run_on (invalidate_step (qp_num qp)) (internal_q q) q = Inr q'"
    "req_inv W x q' (filter (\<lambda>a. a \<notin> {b \<in> set (internal_q q). ?sel (req_heap (q_mem q) b)}) xs)"
    "removed_all q {b \<in> set (internal_q q). ?sel (req_heap (q_mem q) b)} q'"
    using run_on_removes [OF step inv, of "internal_q q"] dist [OF inv] by auto
  moreover have "filter (\<lambda>a. a \<notin> {b \<in> set (internal_q q). ?sel (req_heap (q_mem q) b)}) xs =
      filter (\<lambda>p. req_qp q p \<noteq> Some (qp_num qp)) xs"
    using inv req_shapeD(6) [of W "{}" q xs] by (intro filter_cong) (auto simp: req_inv_def req_qp_def)
  ultimately show ?thesis
    by (intro that [of q']) (simp_all add: invalidate_requests_by_qp_def req_qp_def)
qed

section \<open>Taking the lock of an entry\<close>

lemma locks_wr:
  assumes l: "req_locks W x q" and p: "p \<in> set (internal_db (q_db q))"
  obtains (taken) e' where "fins q p + x p = 0"
      "db_entry_lock_wr (q_db q) (Some p) = Inr (True, store (q_db q) p e')"
      "req_locks W (x(p := Suc (x p))) (q\<lparr>q_db := store (q_db q) p e'\<rparr>)"
      "db_same (q_db q) (store (q_db q) p e')" "e_lock e' = Writer"
  | (refused) "0 < fins q p + x p" "db_entry_lock_wr (q_db q) (Some p) = Inr (False, q_db q)"
proof -
  have inv: "db_inv W (q_db q)" using l by (simp add: req_locks_def)
  obtain e where e: "db_heap (dmem (q_db q)) p = Some e" using entry_ok_live [OF inv p] by blast
  have h: "holds e = int (fins q p + x p)" using l p e by (simp add: req_locks_def)
  from inv p e show ?thesis
  proof (cases rule: lock_wr_holds)
    case (taken e')
    have "req_locks W (x(p := Suc (x p))) (q\<lparr>q_db := store (q_db q) p e'\<rparr>)"
      using taken(1,7) h by (intro locks_store [OF l taken(3)]) auto
    then show ?thesis using that(1) taken h db_same_store [OF e taken(5)] by simp
  next
    case refused
    then have "0 < fins q p + x p" using h by linarith
    from that(2) [OF this refused(2)] show ?thesis .
  qed
qed

lemma locks_rd:
  assumes l: "req_locks W x q" and p: "p \<in> set (internal_db (q_db q))"
    and e: "db_heap (dmem (q_db q)) p = Some e"
  obtains (taken) e' where "e_lock e \<noteq> Writer"
      "db_entry_lock_rd (q_db q) (Some p) = Inr (True, store (q_db q) p e')"
      "req_locks W (x(p := Suc (x p))) (q\<lparr>q_db := store (q_db q) p e'\<rparr>)"
      "same_but_lock e e'" "db_same (q_db q) (store (q_db q) p e')"
  | (refused) "e_lock e = Writer" "db_entry_lock_rd (q_db q) (Some p) = Inr (False, q_db q)"
proof -
  have inv: "db_inv W (q_db q)" using l by (simp add: req_locks_def)
  have h: "holds e = int (fins q p + x p)" using l p e by (simp add: req_locks_def)
  from inv p e show ?thesis
  proof (cases rule: lock_rd_holds)
    case (taken e')
    have "req_locks W (x(p := Suc (x p))) (q\<lparr>q_db := store (q_db q) p e'\<rparr>)"
      using taken(6) h by (intro locks_store [OF l taken(3)]) auto
    then show ?thesis using that(1) taken db_same_store [OF e taken(5)] by simp
  next
    case refused
    then show ?thesis using that(2) by simp
  qed
qed

text \<open>An operation on the entry of one key that keeps its holds.\<close>

lemma locks_updates:
  assumes l: "req_locks W x q" and u: "updates_entry (q_db q) d' p e'" "db_inv W d'"
    and e: "db_heap (dmem (q_db q)) p = Some e" "holds e' = holds e"
  shows "req_locks W x (q\<lparr>q_db := d'\<rparr>)"
proof -
  have "fins (q\<lparr>q_db := d'\<rparr>) a = fins q a" for a by (simp add: fins_def)
  then show ?thesis using l u e by (auto simp: req_locks_def updates_entry_def)
qed

text \<open>A new entry with a free lock.\<close>

lemma locks_fresh:
  assumes l: "req_locks W x q" and d': "db_inv W d'" "internal_db d' = internal_db (q_db q) @ [p]"
    and p: "p \<notin> set (internal_db (q_db q))" "db_heap (dmem d') p = Some e'" "e_lock e' = Free" "x p = 0"
    and keep: "\<forall>a \<in> set (internal_db (q_db q)). db_heap (dmem d') a = db_heap (dmem (q_db q)) a"
  shows "req_locks W x (q\<lparr>q_db := d'\<rparr>)" and "fins q p = 0"
proof -
  have f: "fins (q\<lparr>q_db := d'\<rparr>) a = fins q a" for a by (simp add: fins_def)
  have "Some p \<notin> set (map (r_target q) (waiting_fin_q q))" using l p(1) by (auto simp: req_locks_def)
  then show z: "fins q p = 0" unfolding fins_def by (rule count_notin)
  have "holds e' = 0"
    using holds_Free [OF entry_lock_counts [OF d'(1) _ p(2)]] d'(2) p(3) by simp
  then show "req_locks W x (q\<lparr>q_db := d'\<rparr>)"
    using l d' keep p z by (fastforce simp: req_locks_def f)
qed

section \<open>Properties\<close>

lemma linux_requests:
  obtains q where "bnd (db_init linux_world 0 db_start)
      (\<lambda>d. server_pending_requests_init linux_world (requests_start d)) = Inr q"
    "req_inv linux_world (\<lambda>_. 0) q []" "waiting_fin_q q = []" "q_page_size q = 4096"
    "db_abs (q_db q) = [''bla'' \<mapsto> []]" "db_page_size (q_db q) = 4096"
    "\<And>t. \<forall>p \<in> set (internal_q q). req_key q p \<noteq> Some (uint (t :: 16 word))"
proof (rule linux_db)
  fix d
  assume d: "db_init linux_world 0 db_start = Inr d" "db_inv linux_world d"
    "db_abs d = [''bla'' \<mapsto> []]" "db_page_size d = 4096"
    "\<forall>p \<in> set (internal_db d). \<forall>e. db_heap (dmem d) p = Some e \<longrightarrow> e_lock e = Free"
  show ?thesis
  proof (rule requests_init_ok [OF d(2,5) plentiful_linux])
    fix q p r
    assume q: "server_pending_requests_init linux_world (requests_start d) = Inr q"
      "req_inv linux_world (\<lambda>_. 0) q []" "q_db q = d" "waiting_fin_q q = []" "internal_q q = [p]"
      "req_heap (q_mem q) p = Some r" "r_tid r = - 1" "q_page_size q = page_size linux_world"
    have "\<forall>p \<in> set (internal_q q). req_key q p \<noteq> Some (uint t)" for t :: "16 word"
      using q(5-7) by (simp add: req_key_def)
    then show ?thesis using that [of q] d q by (simp add: linux_world_def)
  qed
qed

text \<open>
  After initialisation the server holds no lock, awaits no transfer and has no request in
  its queue, and the invariant of the three collections holds.
\<close>

theorem requests_init_establishes:
  assumes "db_init W pd db_start = Inr d" and "plentiful W"
  shows "\<exists>q. server_pending_requests_init W (requests_start d) = Inr q \<and> req_inv W (\<lambda>_. 0) q [] \<and>
    q_db q = d \<and> waiting_fin_q q = []"
proof (rule db_init_ok [OF assms(2), of pd])
  fix d'
  assume "db_init W pd db_start = Inr d'" "db_inv W d'"
    "\<forall>p \<in> set (internal_db d'). \<forall>e. db_heap (dmem d') p = Some e \<longrightarrow> e_lock e = Free"
  with assms(1) have d: "db_inv W d"
    "\<forall>p \<in> set (internal_db d). \<forall>e. db_heap (dmem d) p = Some e \<longrightarrow> e_lock e = Free" by simp_all
  show ?thesis by (rule requests_init_ok [OF d assms(2)]) blast
qed

theorem requests_init_establishes_witness:
  "\<exists>d q. db_init linux_world 0 db_start = Inr d \<and>
     server_pending_requests_init linux_world (requests_start d) = Inr q \<and>
     req_inv linux_world (\<lambda>_. 0) q []"
proof (rule linux_db)
  fix d
  assume d: "db_init linux_world 0 db_start = Inr d"
  from requests_init_establishes [OF this plentiful_linux] d show ?thesis by blast
qed

fun push_all ::
  "world \<Rightarrow> (16 word \<times> client_request_headers_t \<times> byte list) list \<Rightarrow> ibv_qp \<Rightarrow> requests \<Rightarrow> stop + requests" where
  "push_all W [] qp q = Inr q"
| "push_all W ((t, h, buf) # rs) qp q =
     bnd (push_pending_request W q t 0 h buf qp) (push_all W rs qp)"

lemma push_all_ok:
  "req_inv W x q xs \<Longrightarrow> plentiful W \<Longrightarrow> distinct (map fst rs) \<Longrightarrow>
   \<forall>(t, h, buf) \<in> set rs. (\<forall>p \<in> set (internal_q q). req_key q p \<noteq> Some (uint t)) \<and>
      kept h \<le> length buf \<and> kept h \<le> key_room (q_page_size q) \<Longrightarrow>
   \<exists>q' ps. push_all W rs qp q = Inr q' \<and> req_inv W x q' (xs @ ps) \<and>
     map (req_key q') ps = map (\<lambda>(t, h, buf). Some (uint t)) rs \<and>
     (\<forall>p \<in> set (internal_q q). p \<in> set (internal_q q') \<and> req_key q' p = req_key q p)"
proof (induction rs arbitrary: q xs)
  case Nil
  then show ?case by auto
next
  case (Cons a rs)
  obtain t h buf where a: "a = (t, h, buf)" by (cases a)
  have new: "\<forall>p \<in> set (internal_q q). req_key q p \<noteq> Some (uint t)"
    and fit: "kept h \<le> length buf" "kept h \<le> key_room (q_page_size q)"
    using Cons.prems(4) a by auto
  obtain q1 p r where
    q1: "push_pending_request W q t 0 h buf qp = Inr q1" "req_inv W x q1 (xs @ [p])"
      "internal_q q1 = internal_q q @ [p]" "req_heap (q_mem q1) p = Some r" "r_tid r = uint t"
      "\<forall>b \<in> set (internal_q q) \<union> set (waiting_fin_q q). req_heap (q_mem q1) b = req_heap (q_mem q) b"
      "q_page_size q1 = q_page_size q"
    using push_new_ok [OF Cons.prems(1,2) new fit, where info = 0 and qp = qp] by metis
  have key1: "\<forall>b \<in> set (internal_q q). req_key q1 b = req_key q b" "req_key q1 p = Some (uint t)"
    using q1(4-6) by (auto simp: req_key_def)
  have "\<forall>(t', h, buf) \<in> set rs. (\<forall>b \<in> set (internal_q q1). req_key q1 b \<noteq> Some (uint t')) \<and>
      kept h \<le> length buf \<and> kept h \<le> key_room (q_page_size q1)"
  proof (intro ballI, clarify)
    fix t' h' buf'
    assume in_rs: "(t', h', buf') \<in> set rs"
    then have "t' \<in> set (map fst rs)" by (metis fst_conv image_eqI list.set_map)
    then have "t' \<noteq> t" using Cons.prems(3) a by auto
    then have "uint t' \<noteq> uint t" by (simp add: word_uint_eq_iff)
    moreover have "\<forall>p \<in> set (internal_q q). req_key q p \<noteq> Some (uint t')"
      "kept h' \<le> length buf'" "kept h' \<le> key_room (q_page_size q)"
      using Cons.prems(4) in_rs by auto
    ultimately show "(\<forall>b \<in> set (internal_q q1). req_key q1 b \<noteq> Some (uint t')) \<and>
        kept h' \<le> length buf' \<and> kept h' \<le> key_room (q_page_size q1)"
      using key1 q1(3,7) by simp
  qed
  from Cons.IH [OF q1(2) Cons.prems(2) _ this] obtain q' ps where
    q': "push_all W rs qp q1 = Inr q'" "req_inv W x q' ((xs @ [p]) @ ps)"
      "map (req_key q') ps = map (\<lambda>(t, h, buf). Some (uint t)) rs"
      "\<forall>b \<in> set (internal_q q1). b \<in> set (internal_q q') \<and> req_key q' b = req_key q1 b"
    using Cons.prems(3) by (simp only: list.map distinct.simps) blast
  have "push_all W (a # rs) qp q = Inr q'" using a q1(1) q'(1) by simp
  moreover have "req_inv W x q' (xs @ p # ps)" using q'(2) by simp
  moreover have "map (req_key q') (p # ps) = map (\<lambda>(t, h, buf). Some (uint t)) (a # rs)"
    using q'(3,4) q1(3) key1(2) a by simp
  moreover have "\<forall>b \<in> set (internal_q q). b \<in> set (internal_q q') \<and> req_key q' b = req_key q b"
    using q'(4) q1(3) key1(1) by simp
  ultimately show ?case by blast
qed

definition set_headers :: "16 word \<Rightarrow> 32 word \<Rightarrow> 64 word \<Rightarrow> client_request_headers_t" where
  "set_headers t kl bl = \<lparr>opcode = opcode_val SET_REQUEST_OPCODE, tid = t, keylen = kl, buflen = bl\<rparr>"

definition get_headers :: "16 word \<Rightarrow> 32 word \<Rightarrow> client_request_headers_t" where
  "get_headers t kl = \<lparr>opcode = opcode_val GET_REQUEST_OPCODE, tid = t, keylen = kl, buflen = 0\<rparr>"

lemma headers_simps [simp]:
  "opcode (set_headers t kl bl) = 1" "tid (set_headers t kl bl) = t"
  "keylen (set_headers t kl bl) = kl" "buflen (set_headers t kl bl) = bl"
  "opcode (get_headers t kl) = 2" "tid (get_headers t kl) = t"
  "keylen (get_headers t kl) = kl" "buflen (get_headers t kl) = 0"
  by (simp_all add: set_headers_def get_headers_def)

definition qp9 :: ibv_qp where
  "qp9 = \<lparr>qp_ptr = 1, qp_num = 9\<rparr>"

lemma qp9_num [simp]: "qp_num qp9 = 9"
  by (simp add: qp9_def)

text \<open>
  C28: \<open>remove_server_pending_request\<close> never fails on a well-formed state. Afterwards no
  collection holds a request with this id, all the others are as before and in the same order,
  the locks of the awaited transfers stay accounted for, and the stored map is unchanged.
\<close>

theorem remove_server_pending_request_ok:
  assumes "req_inv W x q xs"
  shows "\<exists>q'. remove_server_pending_request q t = Inr q' \<and> req_inv W x q' (without q t xs) \<and>
    removed q t q' \<and> db_abs (q_db q') = db_abs (q_db q)"
proof (rule remove_ok [OF assms, of t])
  fix q'
  assume q': "remove_server_pending_request q t = Inr q'" "req_inv W x q' (without q t xs)" "removed q t q'"
  then have "db_abs (q_db q') = db_abs (q_db q)" by (intro db_same_abs) (simp add: removed_def)
  with q' show ?thesis by blast
qed

text \<open>A state with one transfer awaited on \<open>bla\<close>, for transaction 9 of queue pair 9.\<close>

lemma linux_transfer:
  obtains q w p where "req_inv linux_world (\<lambda>_. 0) q []" "w \<in> set (waiting_fin_q q)"
    "req_key q w = Some 9" "r_target q w = Some p" "req_qp q w = Some 9"
    "p \<in> set (internal_db (q_db q))" "db_key (q_db q) p = Some ''bla''"
    "\<And>t. \<forall>p \<in> set (internal_q q). req_key q p \<noteq> Some (uint (t :: 16 word))"
    "map_option e_lock (db_heap (dmem (q_db q)) p) = Some Writer" "q_page_size q = 4096"
    "db_abs (q_db q) = [''bla'' \<mapsto> []]" "db_page_size (q_db q) = 4096"
proof (rule linux_requests)
  fix q
  assume q: "req_inv linux_world (\<lambda>_. 0) q []" "waiting_fin_q q = []"
    "db_abs (q_db q) = [''bla'' \<mapsto> []]" and pg: "q_page_size q = 4096" "db_page_size (q_db q) = 4096"
    and q4: "\<And>t. \<forall>p \<in> set (internal_q q). req_key q p \<noteq> Some (uint (t :: 16 word))"
  have shape: "req_shape linux_world {} q []" and locks: "req_locks linux_world (\<lambda>_. 0) q"
    and inv: "db_inv linux_world (q_db q)"
    using q(1) by (simp_all add: req_inv_def req_locks_def)
  obtain p e where p: "p \<in> set (internal_db (q_db q))" "db_heap (dmem (q_db q)) p = Some e"
    "entry_key e = Some ''bla''" by (rule bla_entry [OF inv q(3)])
  have key: "db_key (q_db q) p = Some ''bla''" using p by (simp add: db_key_def)
  have get: "db_get (q_db q) (''bla'' @ NUL # []) = Inr (Some p)"
    by (rule db_get_there [OF inv _ p(1) key]) simp
  from locks p(1) show ?thesis
  proof (cases rule: locks_wr)
    case refused
    then show ?thesis using q(2) by (simp add: fins_def)
  next
    case (taken e')
    let ?q = "q\<lparr>q_db := store (q_db q) p e'\<rparr>"
    have l: "req_locks linux_world ((\<lambda>_. 0)(p := Suc ((\<lambda>_. 0) p))) ?q" using taken(3) by simp
    have s: "req_shape linux_world {} ?q []" using shape by simp
    have p': "p \<in> set (internal_db (q_db ?q))" using p(1) by simp
    have get': "db_get (q_db ?q) (''bla'' @ NUL # []) = Inr (Some p)"
      using get db_same_get [OF taken(4)] by simp
    show ?thesis
    proof (rule mark_required_ok [OF s l plentiful_linux p' get', of 9 9])
      fix q' w r
      assume run: "mark_rdma_fin_required linux_world ?q 9 (''bla'' @ NUL # []) 9 = Inr q'"
        and inv': "req_inv linux_world (\<lambda>_. 0) q' (if \<exists>w \<in> set (waiting_fin_q ?q).
          req_key ?q w = Some (uint (9 :: 16 word)) then without ?q 9 [] else [])"
        and r: "w \<in> set (waiting_fin_q q')" "req_heap (q_mem q') w = Some r" "r_tid r = uint (9 :: 16 word)"
          "r_entry r = Some p" "r_qp_num r = 9" "db_same (q_db ?q) (q_db q')"
          "set (internal_q q') \<subseteq> set (internal_q ?q)" "\<forall>a \<in> set (internal_q q'). req_key q' a = req_key ?q a"
          "q_page_size q' = q_page_size ?q"
          "(\<forall>w \<in> set (waiting_fin_q ?q). req_key ?q w \<noteq> Some (uint (9 :: 16 word))) \<longrightarrow> q_db q' = q_db ?q"
      have d9: "q_db q' = store (q_db q) p e'" using r(10) q(2) by simp
      have inv9: "req_inv linux_world (\<lambda>_. 0) q' []" using inv' by (simp add: without_def split: if_splits)
      have "\<forall>a \<in> set (internal_q q'). req_key q' a \<noteq> Some (uint t)" for t :: "16 word"
        using r(7,8) q4 [of t] by auto
      moreover have "db_same (q_db q) (q_db q')" using db_same_trans [OF taken(4)] r(6) by simp
      then have "db_key (q_db q') = db_key (q_db q)" "internal_db (q_db q') = internal_db (q_db q)"
        by (simp_all only: db_same_key) (simp add: db_same_def)
      ultimately show ?thesis
        using inv9 r(1-5,9) key p(1) d9 taken(5) pg q(3) db_same_abs [OF taken(4)]
        by (intro that [of q' w p]) (simp_all add: req_key_def r_target_def req_qp_def)
    qed
  qed
qed

theorem remove_server_pending_request_ok_witness:
  "\<exists>q q' w p. req_inv linux_world (\<lambda>_. 0) q [] \<and> w \<in> set (waiting_fin_q q) \<and> req_key q w = Some 9 \<and>
     remove_server_pending_request q 9 = Inr q' \<and> w \<notin> set (waiting_fin_q q')"
proof (rule linux_transfer)
  fix q w p
  assume q: "req_inv linux_world (\<lambda>_. 0) q []" "w \<in> set (waiting_fin_q q)" "req_key q w = Some 9"
  from remove_server_pending_request_ok [OF q(1), of 9] q show ?thesis
    by (fastforce simp: removed_def)
qed

text \<open>
  C26: the FIN protocol. When a handler that holds the lock of an entry marks a transfer as
  awaited, the lock is accounted to the transfer and the handler holds nothing; the FIN message
  then releases exactly this hold and leaves the stored map alone, and a second FIN
  message for the same transaction is answered with -1.
\<close>

theorem fin_protocol:
  assumes "req_inv W (x(p := Suc (x p))) q xs" and "plentiful W" and "p \<in> set (internal_db (q_db q))"
    and "db_get (q_db q) key = Inr (Some p)"
    and "\<forall>w \<in> set (waiting_fin_q q). req_key q w \<noteq> Some (uint t)"
  shows "\<exists>q1 q2. mark_rdma_fin_required W q t key n = Inr q1 \<and> req_inv W x q1 xs \<and>
    mark_rdma_fin_received q1 t = Inr (0, q2) \<and> req_inv W x q2 xs \<and>
    mark_rdma_fin_received q2 t = Inr (- 1, q2) \<and> db_abs (q_db q2) = db_abs (q_db q)"
proof -
  have s: "req_shape W {} q xs" and l: "req_locks W (x(p := Suc (x p))) q"
    using assms(1) by (simp_all add: req_inv_def)
  have none: "\<not> (\<exists>w \<in> set (waiting_fin_q q). req_key q w = Some (uint t))" using assms(5) by blast
  obtain q1 w r where
    q1: "mark_rdma_fin_required W q t key n = Inr q1" "req_inv W x q1 xs" "w \<in> set (waiting_fin_q q1)"
      "req_heap (q_mem q1) w = Some r" "r_tid r = uint t" "db_same (q_db q) (q_db q1)"
    by (rule mark_required_ok [OF s l assms(2-4), of t n]) (use none in auto)
  have s1: "req_shape W {} q1 xs" and l1: "req_locks W x q1" using q1(2) by (simp_all add: req_inv_def)
  have key: "req_key q1 w = Some (uint t)" using q1(4,5) by (simp add: req_key_def)
  from s1 l1 show ?thesis
  proof (cases rule: mark_received_ok [where t = t])
    case none
    then show ?thesis using q1(3) key by blast
  next
    case (released w' p' e' q2)
    note D = req_shapeD [OF s1]
    have "set (waiting_fin_q q2) = set (waiting_fin_q q1) - {w'}"
      using ht.del_set [OF D(4), of w'] released(5) by simp
    moreover have "\<And>a. a \<in> set (waiting_fin_q q1) \<Longrightarrow> req_key q1 a = Some (uint t) \<Longrightarrow> a = w'"
      using ht.ok_inj [OF D(4)] released(2,3) by simp
    ultimately have "\<forall>a \<in> set (waiting_fin_q q2). req_key q2 a \<noteq> Some (uint t)"
      using released(5) by (auto simp: req_key_def)
    then have "mark_rdma_fin_received q2 t = Inr (- 1, q2)"
      using ht.find_miss [OF req_shapeD(4) [OF released(6)]] by (simp add: mark_rdma_fin_received_def)
    moreover have "db_abs (q_db q2) = db_abs (q_db q)"
      by (rule db_same_abs [OF db_same_trans [OF q1(6) released(8)]])
    ultimately show ?thesis using q1(1,2) released(1,6,7) by (auto simp: req_inv_def)
  qed
qed

text \<open>A state in which a handler holds the lock of \<open>bla\<close> and no transfer is awaited.\<close>

lemma linux_held:
  obtains q p where "req_inv linux_world ((\<lambda>_. 0)(p := Suc ((\<lambda>_. 0) p))) q []"
    "p \<in> set (internal_db (q_db q))" "db_get (q_db q) (''bla'' @ NUL # []) = Inr (Some p)"
    "waiting_fin_q q = []"
proof (rule linux_requests)
  fix q
  assume q: "req_inv linux_world (\<lambda>_. 0) q []" "waiting_fin_q q = []"
    "db_abs (q_db q) = [''bla'' \<mapsto> []]"
  have locks: "req_locks linux_world (\<lambda>_. 0) q" and inv: "db_inv linux_world (q_db q)"
    using q(1) by (simp_all add: req_inv_def req_locks_def)
  obtain p e where p: "p \<in> set (internal_db (q_db q))" "db_heap (dmem (q_db q)) p = Some e"
    "entry_key e = Some ''bla''" by (rule bla_entry [OF inv q(3)])
  have get: "db_get (q_db q) (''bla'' @ NUL # []) = Inr (Some p)"
    using p by (intro db_get_there [OF inv _ p(1)]) (simp_all add: db_key_def)
  from locks p(1) show ?thesis
  proof (cases rule: locks_wr)
    case refused
    then show ?thesis using q(2) by (simp add: fins_def)
  next
    case (taken e')
    have "req_shape linux_world {} q []" using q(1) by (simp add: req_inv_def)
    then show ?thesis
      using taken(3) p(1) q(2) get db_same_get [OF taken(4)]
      by (intro that [of p "q\<lparr>q_db := store (q_db q) p e'\<rparr>"]) (simp_all add: req_inv_def)
  qed
qed

theorem fin_protocol_witness:
  "\<exists>q q1 q2. mark_rdma_fin_required linux_world q 9 (''bla'' @ NUL # []) 9 = Inr q1 \<and>
     mark_rdma_fin_received q1 9 = Inr (0, q2) \<and> mark_rdma_fin_received q2 9 = Inr (- 1, q2)"
proof (rule linux_held)
  fix q p
  assume q: "req_inv linux_world ((\<lambda>_. 0)(p := Suc ((\<lambda>_. 0) p))) q []"
    "p \<in> set (internal_db (q_db q))" "db_get (q_db q) (''bla'' @ NUL # []) = Inr (Some p)"
    "waiting_fin_q q = []"
  from fin_protocol [OF q(1) plentiful_linux q(2,3), of 9 9] q(4) show ?thesis by auto
qed

text \<open>
  C29: when a queue pair (of a number other than 0) goes away, its waiting requests leave the
  table and the queue, the others keep their place, and the invariant holds, locks included.
\<close>

theorem invalidate_requests_ok:
  assumes "req_inv W x q xs" and "qp_num qp \<noteq> 0"
  shows "\<exists>q'. invalidate_requests_by_qp q qp = Inr q' \<and>
    req_inv W x q' (filter (\<lambda>p. req_qp q p \<noteq> Some (qp_num qp)) xs) \<and>
    (\<forall>p \<in> set (internal_q q'). req_qp q' p \<noteq> Some (qp_num qp)) \<and>
    internal_q q' = filter (\<lambda>p. req_qp q p \<noteq> Some (qp_num qp)) (internal_q q) \<and>
    db_abs (q_db q') = db_abs (q_db q)"
proof (rule invalidate_ok [OF assms])
  fix q'
  assume q': "invalidate_requests_by_qp q qp = Inr q'"
    "req_inv W x q' (filter (\<lambda>p. req_qp q p \<noteq> Some (qp_num qp)) xs)"
    "removed_all q {p \<in> set (internal_q q). req_qp q p = Some (qp_num qp)} q'"
  have "internal_q q' = filter (\<lambda>p. p \<notin> {p \<in> set (internal_q q). req_qp q p = Some (qp_num qp)}) (internal_q q)"
    using q'(3) by (simp add: removed_all_def)
  also have "\<dots> = filter (\<lambda>p. req_qp q p \<noteq> Some (qp_num qp)) (internal_q q)"
    by (rule filter_cong) auto
  finally have i: "internal_q q' = filter (\<lambda>p. req_qp q p \<noteq> Some (qp_num qp)) (internal_q q)" .
  have "\<forall>p \<in> set (internal_q q'). req_heap (q_mem q') p = req_heap (q_mem q) p"
    using q'(3) unfolding removed_all_def by blast
  then have "\<forall>p \<in> set (internal_q q'). req_qp q' p \<noteq> Some (qp_num qp)"
    unfolding i by (simp add: req_qp_def)
  moreover have "db_abs (q_db q') = db_abs (q_db q)"
    using q'(3) by (intro db_same_abs) (simp add: removed_all_def)
  ultimately show ?thesis using q'(1,2) i by blast
qed

theorem invalidate_requests_ok_witness:
  "\<exists>q q1 q2. push_pending_request linux_world q 9 0 (get_headers 9 3) (zeros 100) qp9 = Inr q1 \<and>
     (\<exists>p \<in> set (internal_q q1). req_qp q1 p = Some 9) \<and>
     invalidate_requests_by_qp q1 qp9 = Inr q2 \<and> (\<forall>p \<in> set (internal_q q2). req_qp q2 p \<noteq> Some 9) \<and>
     req_inv linux_world (\<lambda>_. 0) q2 []"
proof (rule linux_requests)
  fix q
  assume q: "req_inv linux_world (\<lambda>_. 0) q []" "q_page_size q = 4096"
    "\<And>t. \<forall>p \<in> set (internal_q q). req_key q p \<noteq> Some (uint (t :: 16 word))"
  have k: "kept (get_headers 9 3) \<le> length (zeros 100)" "kept (get_headers 9 3) \<le> key_room (q_page_size q)"
    using q(2) by (simp_all add: kept_def)
  obtain q1 p r where
    q1: "push_pending_request linux_world q 9 0 (get_headers 9 3) (zeros 100) qp9 = Inr q1"
      "req_inv linux_world (\<lambda>_. 0) q1 ([] @ [p])" "internal_q q1 = internal_q q @ [p]"
      "req_heap (q_mem q1) p = Some r" "r_qp_num r = qp_num qp9"
    using push_new_ok [OF q(1) plentiful_linux q(3) k, where info = 0 and qp = qp9] by metis
  then have "req_qp q1 p = Some 9" "p \<in> set (internal_q q1)" by (simp_all add: req_qp_def)
  with invalidate_requests_ok [OF q1(2), of qp9] q1(1) show ?thesis by auto
qed

text \<open>
  The disconnection of a client does not release the transfers it has not finished. A
  transfer that is awaited under an id that no waiting request has stays awaited, and the lock
  of its entry stays held, so that every later SET of this key is refused.
\<close>

theorem unfinished_transfer_stays_locked:
  assumes "req_inv W (\<lambda>_. 0) q xs" and "qp_num qp \<noteq> 0" and "w \<in> set (waiting_fin_q q)"
    and "r_target q w = Some p" and "\<forall>a \<in> set (internal_q q). req_key q a \<noteq> req_key q w"
  shows "\<exists>q'. invalidate_requests_by_qp q qp = Inr q' \<and> w \<in> set (waiting_fin_q q') \<and>
    r_target q' w = Some p \<and> db_entry_lock_wr (q_db q') (Some p) = Inr (False, q_db q')"
proof (rule invalidate_ok [OF assms(1,2)])
  fix q'
  assume q': "invalidate_requests_by_qp q qp = Inr q'"
    "req_inv W (\<lambda>_. 0) q' (filter (\<lambda>p. req_qp q p \<noteq> Some (qp_num qp)) xs)"
    "removed_all q {p \<in> set (internal_q q). req_qp q p = Some (qp_num qp)} q'"
  have w: "w \<in> set (waiting_fin_q q')" using q'(3) assms(3,5) by (force simp: removed_all_def)
  then have "req_heap (q_mem q') w = req_heap (q_mem q) w"
    using q'(3) unfolding removed_all_def by blast
  then have t: "r_target q' w = Some p" using assms(4) by (simp add: r_target_def)
  have locks: "req_locks W (\<lambda>_. 0) q'" using q'(2) by (simp add: req_inv_def)
  have p: "p \<in> set (internal_db (q_db q'))" using locks w t by (force simp: req_locks_def)
  have pos: "0 < fins q' p"
    using count_map_remove1 [OF w, of "r_target q'" "Some p"] t by (simp add: fins_def)
  from locks p have "db_entry_lock_wr (q_db q') (Some p) = Inr (False, q_db q')"
    by (cases rule: locks_wr) (use pos in auto)
  with q'(1) w t show ?thesis by blast
qed

theorem unfinished_transfer_stays_locked_witness:
  "\<exists>q q' p w. req_inv linux_world (\<lambda>_. 0) q [] \<and> req_qp q w = Some 9 \<and>
     invalidate_requests_by_qp q qp9 = Inr q' \<and> w \<in> set (waiting_fin_q q') \<and>
     db_entry_lock_wr (q_db q') (Some p) = Inr (False, q_db q')"
proof (rule linux_transfer)
  fix q w p
  assume q: "req_inv linux_world (\<lambda>_. 0) q []" "w \<in> set (waiting_fin_q q)"
    "req_key q w = Some 9" "r_target q w = Some p" "req_qp q w = Some 9"
    "\<And>t. \<forall>p \<in> set (internal_q q). req_key q p \<noteq> Some (uint (t :: 16 word))"
  have "\<forall>a \<in> set (internal_q q). req_key q a \<noteq> req_key q w" using q(3) q(6) [of 9] by simp
  from unfinished_transfer_stays_locked [OF q(1) _ q(2,4) this, of qp9] q(1,5) show ?thesis by auto
qed

text \<open>
  C30: how much of a request is kept while it waits. When the announced lengths, the header and
  two NUL bytes fit in the payload of a message, that many payload bytes are copied; else
  only the key is, so that a SET whose key and value together have 4047 to 4070 bytes, which
  its handler will take for one with the value in the message, waits with an empty value.
\<close>

theorem waiting_set_loses_value:
  assumes "req_inv W x q xs" and "plentiful W" and "\<forall>p \<in> set (internal_q q). req_key q p \<noteq> Some (uint t)"
    and "NUL \<notin> set k" and "NUL \<notin> set v" and "length k + length v < 4071" and "4046 < length k + length v"
    and "q_page_size q = 4096"
  shows "\<exists>q' p r b. push_pending_request W q t info
      (set_headers t (of_nat (length k)) (of_nat (length v))) (k @ NUL # v @ NUL # rest) qp = Inr q' \<and>
    req_inv W x q' (xs @ [p]) \<and> req_heap (q_mem q') p = Some r \<and> r_buffer r = Some b \<and>
    cstr b = k \<and> cstr (drop (length k + 1) b) = []"
proof -
  let ?h = "set_headers t (of_nat (length k)) (of_nat (length v))"
  let ?buf = "k @ NUL # v @ NUL # rest"
  have kl: "unat (of_nat (length k) :: 32 word) = length k"
    using assms(6) by (intro unat_of_nat32) simp
  have u: "ucast (of_nat (length k) :: 32 word) = (of_nat (length k) :: 64 word)"
    by (metis kl of_nat_unat)
  have "(24 + of_nat (length k) + of_nat (length v) + 2 :: 64 word) = of_nat (26 + length k + length v)"
    by simp
  moreover have "unat (of_nat (26 + length k + length v) :: 64 word) = 26 + length k + length v"
    using assms(6) by (intro unat_of_nat64) simp
  ultimately have "\<not> (24 + of_nat (length k) + of_nat (length v) + 2 :: 64 word) \<le> 4072"
    using assms(7) by (simp add: word_le_nat_alt del: of_nat_add)
  then have kept: "kept ?h = length k" by (simp add: kept_def u kl)
  have fit: "kept ?h \<le> length ?buf" "kept ?h \<le> key_room (q_page_size q)"
    using assms(6,8) by (simp_all add: kept)
  obtain q' p r where
    q': "push_pending_request W q t info ?h ?buf qp = Inr q'" "req_inv W x q' (xs @ [p])"
      "req_heap (q_mem q') p = Some r"
      "r_buffer r = Some (take (kept ?h) ?buf @ zeros (key_room (q_page_size q) - kept ?h))"
    using push_new_ok [OF assms(1-3) fit, where info = info and qp = qp] by metis
  let ?b = "k @ zeros (8144 - length k)"
  have "r_buffer r = Some ?b" using q'(4) assms(8) by (simp add: kept)
  moreover have "cstr ?b = k" using assms(4) by (simp add: cstr_append)
  moreover have "cstr (drop (length k + 1) ?b) = []" by simp
  ultimately show ?thesis using q' by blast
qed

theorem waiting_set_loses_value_witness:
  "\<exists>q q' p r b. req_inv linux_world (\<lambda>_. 0) q [] \<and>
     push_pending_request linux_world q 9 0 (set_headers 9 3 4050)
       (''key'' @ NUL # replicate 4050 CHR ''v'' @ NUL # []) qp9 = Inr q' \<and>
     req_heap (q_mem q') p = Some r \<and> r_buffer r = Some b \<and> cstr b = ''key'' \<and> cstr (drop 4 b) = []"
proof (rule linux_requests)
  fix q
  assume q: "req_inv linux_world (\<lambda>_. 0) q []" "q_page_size q = 4096"
    "\<And>t. \<forall>p \<in> set (internal_q q). req_key q p \<noteq> Some (uint (t :: 16 word))"
  let ?v = "replicate 4050 CHR ''v''"
  have e: "of_nat (length ''key'') = (3 :: 32 word)" "of_nat (length ?v) = (4050 :: 64 word)"
    "length ''key'' + 1 = 4" by simp_all
  have "\<exists>q' p r b. push_pending_request linux_world q 9 0
      (set_headers 9 (of_nat (length ''key'')) (of_nat (length ?v))) (''key'' @ NUL # ?v @ NUL # []) qp9 = Inr q' \<and>
    req_inv linux_world (\<lambda>_. 0) q' ([] @ [p]) \<and> req_heap (q_mem q') p = Some r \<and> r_buffer r = Some b \<and>
    cstr b = ''key'' \<and> cstr (drop (length ''key'' + 1) b) = []"
    by (rule waiting_set_loses_value [OF q(1) plentiful_linux q(3)]) (use q(2) in simp_all)
  then show ?thesis using q(1) unfolding e by blast
qed

text \<open>
  A request that is pushed again while it is already in the queue is linked in twice. The
  requests behind it are cut off: the queue ends with the pushed one.
\<close>

theorem second_push_cuts_queue:
  assumes "req_inv W x q (as @ p # bs)" and "req_key q p = Some (uint t)"
  shows "\<exists>q'. push_pending_request W q t info h buf qp = Inr q' \<and>
    pending_req_count q = Inr (Suc (length as + length bs)) \<and>
    pending_req_count q' = Inr (Suc (length as)) \<and> internal_q q' = internal_q q"
proof -
  let ?xs = "as @ p # bs"
  have shape: "req_shape W {} q ?xs" using assms(1) by (simp add: req_inv_def)
  note D = req_shapeD [OF shape]
  have p: "p \<in> set (internal_q q)" using D(6) by auto
  have live: "\<forall>a \<in> set ?xs. rlive q a" using D(11) by blast
  from DL_APPEND_again [OF D(5) live] obtain l where
    l: "DL_APPEND (rlive q) (sorted_q q) p = Inr l" "DL_COUNT (rlive q) l = Inr (Suc (length as))" by blast
  have "push_pending_request W q t info h buf qp = Inr (q\<lparr>sorted_q := l\<rparr>)"
    using ht.find_hit [OF D(3) p assms(2)] l(1)
    by (simp add: push_pending_request_def get_server_pending_request_def push_back_pending_request_def)
  moreover have "pending_req_count q = Inr (length ?xs)" by (rule count_ok [OF assms(1)])
  ultimately show ?thesis using l(2) by (simp add: pending_req_count_def)
qed

theorem second_push_cuts_queue_witness:
  "\<exists>q q2 q3. push_all linux_world [(9, get_headers 9 3, zeros 100), (17, get_headers 17 3, zeros 100)] qp9 q = Inr q2 \<and>
     pending_req_count q2 = Inr 2 \<and>
     push_pending_request linux_world q2 9 0 (get_headers 9 3) (zeros 100) qp9 = Inr q3 \<and>
     pending_req_count q3 = Inr 1"
proof (rule linux_requests)
  fix q
  let ?rs = "[(9 :: 16 word, get_headers 9 3, zeros 100), (17, get_headers 17 3, zeros 100)]"
  assume q: "req_inv linux_world (\<lambda>_. 0) q []" "q_page_size q = 4096"
    "\<And>t. \<forall>p \<in> set (internal_q q). req_key q p \<noteq> Some (uint (t :: 16 word))"
  have k: "kept (get_headers t 3) = 29" for t by (simp add: kept_def)
  have "\<forall>(t, h, buf) \<in> set ?rs. (\<forall>p \<in> set (internal_q q). req_key q p \<noteq> Some (uint t)) \<and>
      kept h \<le> length buf \<and> kept h \<le> key_room (q_page_size q)"
    using q(2) q(3) by (auto simp: k)
  from push_all_ok [OF q(1) plentiful_linux _ this, of qp9] obtain q2 ps where
    q2: "push_all linux_world ?rs qp9 q = Inr q2" "req_inv linux_world (\<lambda>_. 0) q2 ([] @ ps)"
      "map (req_key q2) ps = map (\<lambda>(t, h, buf). Some (uint t)) ?rs"
    by (simp only: list.map fst_conv) force
  have "map (\<lambda>(t, h, buf). Some (uint t)) ?rs = [Some 9, Some 17]" by simp
  with q2(3) obtain p1 p2 where ps: "ps = [p1, p2]" "req_key q2 p1 = Some 9"
    by (auto simp: map_eq_Cons_conv)
  have "req_inv linux_world (\<lambda>_. 0) q2 ([] @ p1 # [p2])" "req_key q2 p1 = Some (uint (9 :: 16 word))"
    using q2(2) ps by simp_all
  from second_push_cuts_queue [OF this, where info = 0 and
      h = "get_headers 9 3" and buf = "zeros 100" and qp = qp9]
  have "\<exists>q3. push_pending_request linux_world q2 9 0 (get_headers 9 3) (zeros 100) qp9 = Inr q3 \<and>
      pending_req_count q2 = Inr 2 \<and> pending_req_count q3 = Inr 1" by auto
  with q2(1) show ?thesis by blast
qed

end
