(* ===== verification/Exchange.thy ===== *)
theory Exchange
  imports Constants
begin

text \<open>
  The exchange of addresses over TCP: the conversions of \<open>common/connection.c\<close> between a GID and
  its printed form, the message a client sends (\<open>client_exch_dest\<close>), its scanning by the
  server (\<open>handle_received_connection_data\<close>), the answer (\<open>send_address_back_to_client\<close>) and
  its scanning by the client; the attributes \<open>connect_ctx\<close> gives to the queue pair. \<open>sprintf\<close>
  and \<open>sscanf\<close> are modelled for the conversions the code uses. Shown: the round trips of
  GID and both messages, their lengths, and the overflow of the server's buffer for a GID.
\<close>

section \<open>Printing hexadecimal numbers\<close>

definition hex_digit :: "nat \<Rightarrow> byte" where
  "hex_digit d = char_of (if d < 10 then 48 + d else 87 + d)"

fun hex_of :: "nat \<Rightarrow> byte list" where
  "hex_of n = (if n < 16 then [hex_digit n] else hex_of (n div 16) @ [hex_digit (n mod 16)])"

declare hex_of.simps [simp del]

text \<open>The conversion \<open>%0wx\<close>.\<close>

definition print_x :: "nat \<Rightarrow> 32 word \<Rightarrow> byte list" where
  "print_x w v = (let s = hex_of (unat v) in replicate (w - length s) CHR ''0'' @ s)"

section \<open>Scanning hexadecimal numbers\<close>

definition is_space :: "byte \<Rightarrow> bool" where
  "is_space c \<longleftrightarrow> c = CHR '' '' \<or> (9 \<le> (of_char c :: nat) \<and> (of_char c :: nat) \<le> 13)"

definition hex_val :: "byte \<Rightarrow> nat option" where
  "hex_val c =
     (let n = of_char c
      in if 48 \<le> n \<and> n \<le> 57 then Some (n - 48)
         else if 97 \<le> n \<and> n \<le> 102 then Some (n - 87)
         else if 65 \<le> n \<and> n \<le> 70 then Some (n - 55)
         else None)"

definition is_hex :: "byte \<Rightarrow> bool" where
  "is_hex c \<longleftrightarrow> hex_val c \<noteq> None"

definition hex_value :: "byte list \<Rightarrow> nat" where
  "hex_value s = fold (\<lambda>c n. 16 * n + the (hex_val c)) s 0"

text \<open>
  The conversion \<open>%x\<close> on the rest of a string: white space, a sign, the prefix 0x and digits, as
  \<open>strtoul\<close> reads them; the value is stored in 32 bits. Without a digit the conversion fails.
\<close>

fun strip_sign :: "byte list \<Rightarrow> bool \<times> byte list" where
  "strip_sign (c # s) = (if c = CHR ''-'' then (True, s) else if c = CHR ''+'' then (False, s) else (False, c # s))"
| "strip_sign [] = (False, [])"

fun strip_0x :: "byte list \<Rightarrow> byte list" where
  "strip_0x (a # b # s) = (if a = CHR ''0'' \<and> (b = CHR ''x'' \<or> b = CHR ''X'') then s else a # b # s)"
| "strip_0x s = s"

definition scan_x :: "byte list \<Rightarrow> (32 word \<times> byte list) option" where
  "scan_x s =
     (let (neg, s1) = strip_sign (dropWhile is_space s);
          s2 = strip_0x s1; ds = takeWhile is_hex s2; n = hex_value ds
      in if ds = [] then None
         else Some (if 2 ^ 64 \<le> n then - 1 else if neg then - of_nat n else of_nat n, dropWhile is_hex s2))"

text \<open>With a maximal field width, which counts from the first character after white space.\<close>

definition scan_x_width :: "nat \<Rightarrow> byte list \<Rightarrow> (32 word \<times> byte list) option" where
  "scan_x_width w s =
     (let t = dropWhile is_space s
      in map_option (\<lambda>(v, r). (v, r @ drop w t)) (scan_x (take w t)))"

text \<open>
  \<open>n\<close> fields \<open>%x:\<close> one after the other; scanning stops at the first thing that does not
  match. The values read, and the rest when all matched.
\<close>

fun scan_fields :: "nat \<Rightarrow> byte list \<Rightarrow> 32 word list \<times> byte list option" where
  "scan_fields 0 s = ([], Some s)"
| "scan_fields (Suc n) s =
     (case scan_x s of
        None \<Rightarrow> ([], None)
      | Some (v, r) \<Rightarrow>
          (case r of
             c # r1 \<Rightarrow> if c = CHR '':'' then (let (vs, t) = scan_fields n r1 in (v # vs, t)) else ([v], None)
           | [] \<Rightarrow> ([v], None)))"

definition scan_s :: "byte list \<Rightarrow> byte list option" where
  "scan_s s =
     (let w = takeWhile (\<lambda>c. \<not> is_space c) (dropWhile is_space s) in if w = [] then None else Some w)"

section \<open>GIDs\<close>

text \<open>
  A \<open>union ibv_gid\<close> is its 16 raw bytes. The four 32-bit parts are printed after \<open>htonl\<close>
  and stored after \<open>ntohl\<close>, which swap the bytes on a little-endian machine.
\<close>

definition htonl :: "32 word \<Rightarrow> 32 word" where
  "htonl v = of_nat (le_nat (rev (le_bytes 4 (unat v))))"

definition gid_part :: "byte list \<Rightarrow> nat \<Rightarrow> 32 word" where
  "gid_part raw i = of_nat (le_nat (take 4 (drop (4 * i) raw)))"

definition gid_to_wire_gid :: "byte list \<Rightarrow> byte list" where
  "gid_to_wire_gid raw = concat (map (\<lambda>i. print_x 8 (htonl (gid_part raw i))) [0..<4])"

text \<open>
  A part that does not scan keeps the value of the part before; \<open>v32\<close> is what the variable held.
\<close>

fun wire_parts :: "byte list \<Rightarrow> nat list \<Rightarrow> 32 word \<Rightarrow> byte list" where
  "wire_parts wgid [] v32 = []"
| "wire_parts wgid (i # is) v32 =
     (let tmp = take 8 (drop (8 * i) wgid);
          v = (case scan_x (cstr tmp) of Some (x, _) \<Rightarrow> x | None \<Rightarrow> v32)
      in le_bytes 4 (unat (htonl v)) @ wire_parts wgid is v)"

definition wire_gid_to_gid :: "32 word \<Rightarrow> byte list \<Rightarrow> byte list" where
  "wire_gid_to_gid v32 wgid = wire_parts wgid [0..<4] v32"

section \<open>Messages\<close>

record kv_dest =
  lid :: "32 word"
  qpn :: "32 word"
  psn :: "32 word"
  gid :: "byte list"

definition EXCHANGE_MSG_SIZE :: nat where
  [simp]: "EXCHANGE_MSG_SIZE = 52"

definition EXCHANGE_MSG_SIZE_OUT :: nat where
  [simp]: "EXCHANGE_MSG_SIZE_OUT = 59"

text \<open>
  \<open>sprintf\<close> of the string with its NUL into an array of \<open>n\<close> bytes; the write of the whole
  array sends what is behind the NUL as it was, \<open>old\<close>.
\<close>

definition fill :: "byte list \<Rightarrow> nat \<Rightarrow> byte list \<Rightarrow> stop + byte list" where
  "fill old n s = mem_write (take n (old @ zeros n)) 0 (s @ [NUL])"

definition client_msg :: "byte list \<Rightarrow> kv_dest \<Rightarrow> stop + byte list" where
  "client_msg old d =
     fill old 52 (print_x 4 (lid d) @ CHR '':'' # print_x 6 (qpn d) @ CHR '':'' # print_x 6 (psn d) @
       CHR '':'' # gid_to_wire_gid (gid d))"

definition server_msg :: "byte list \<Rightarrow> 32 word \<Rightarrow> kv_dest \<Rightarrow> byte list \<Rightarrow> stop + byte list" where
  "server_msg old number d wgid =
     fill old 57 (print_x 4 number @ CHR '':'' # print_x 4 (lid d) @ CHR '':'' # print_x 6 (qpn d) @
       CHR '':'' # print_x 6 (psn d) @ CHR '':'' # wgid)"

text \<open>
  Scanning \<open>%s\<close> into the array \<open>gid[33]\<close>, whose bytes were \<open>junk\<close>.
\<close>

definition scan_gid :: "byte list \<Rightarrow> byte list option \<Rightarrow> stop + byte list" where
  "scan_gid junk rest =
     (case rest of
        None \<Rightarrow> Inr junk
      | Some s \<Rightarrow> (case scan_s s of None \<Rightarrow> Inr junk | Some w \<Rightarrow> mem_write junk 0 (w @ [NUL])))"

definition nth_or :: "'a list \<Rightarrow> nat \<Rightarrow> 'a \<Rightarrow> 'a" where
  "nth_or xs i x = (if i < length xs then xs ! i else x)"

text \<open>
  \<open>rem_dest\<close> as the server fills it from the message of a client; the fields are zero before.
\<close>

definition scan_client_msg :: "byte list \<Rightarrow> 32 word \<Rightarrow> byte list \<Rightarrow> stop + kv_dest" where
  "scan_client_msg junk v32 msg =
     bnd (c_strlen msg) (\<lambda>_.
     let (vs, rest) = scan_fields 3 (cstr msg)
     in bnd (scan_gid junk rest) (\<lambda>g.
        Inr \<lparr>lid = nth_or vs 0 0, qpn = nth_or vs 1 0, psn = nth_or vs 2 0, gid = wire_gid_to_gid v32 g\<rparr>))"

text \<open>
  The client's scan: its number comes first, in at most four characters; \<open>t\<close> is what the
  variable for the number held.
\<close>

definition scan_server_msg :: "byte list \<Rightarrow> 32 word \<Rightarrow> 32 word \<Rightarrow> byte list \<Rightarrow> stop + 32 word \<times> kv_dest" where
  "scan_server_msg junk v32 t msg =
     bnd (c_strlen msg) (\<lambda>_.
     let (n, vs, rest) =
           (case scan_x_width 4 (cstr msg) of
              None \<Rightarrow> (t, [], None)
            | Some (n, r) \<Rightarrow>
                (case r of
                   c # r1 \<Rightarrow> if c = CHR '':'' then (let (vs, u) = scan_fields 3 r1 in (n, vs, u)) else (n, [], None)
                 | [] \<Rightarrow> (n, [], None)))
     in bnd (scan_gid junk rest) (\<lambda>g.
        Inr (n, \<lparr>lid = nth_or vs 0 0, qpn = nth_or vs 1 0, psn = nth_or vs 2 0, gid = wire_gid_to_gid v32 g\<rparr>)))"

section \<open>Connecting a queue pair\<close>

text \<open>
  The two \<open>ibv_modify_qp\<close> calls of \<open>connect_ctx\<close>, with the attributes that depend on its
  arguments; the constants it passes are left out.
\<close>

record rtr_attr =
  dest_qp_num :: "32 word"
  rq_psn :: "32 word"
  dlid :: "32 word"
  is_global :: bool
  hop_limit :: nat
  dgid :: "byte list"
  sgid_index :: int

definition interface_id :: "kv_dest \<Rightarrow> byte list" where
  "interface_id d = drop 8 (gid d)"

definition GIDX :: int where
  [simp]: "GIDX = - 1"

definition rtr_of :: "kv_dest \<Rightarrow> rtr_attr" where
  "rtr_of d =
     (let a = \<lparr>dest_qp_num = qpn d, rq_psn = psn d, dlid = lid d, is_global = False, hop_limit = 0,
              dgid = zeros 16, sgid_index = 0\<rparr>
      in if \<exists>b \<in> set (interface_id d). b \<noteq> NUL
         then a\<lparr>is_global := True, hop_limit := 1, dgid := gid d, sgid_index := GIDX\<rparr> else a)"

text \<open>
  \<open>to_rtr\<close> and \<open>to_rts\<close> tell whether the verbs library accepts the transition; the result
  is the exit status.
\<close>

definition connect_ctx :: "(ibv_qp \<Rightarrow> rtr_attr \<Rightarrow> bool) \<Rightarrow> (ibv_qp \<Rightarrow> 32 word \<Rightarrow> bool) \<Rightarrow> ibv_qp \<Rightarrow> 32 word \<Rightarrow> kv_dest \<Rightarrow> int" where
  "connect_ctx to_rtr to_rts qp my_psn rem_dest =
     (if \<not> to_rtr qp (rtr_of rem_dest) then 1 else if \<not> to_rts qp my_psn then 1 else 0)"

section \<open>Printing and scanning a number\<close>

lemma hex_val_digit [simp]: "d < 16 \<Longrightarrow> hex_val (hex_digit d) = Some d"
  by (auto simp: hex_val_def hex_digit_def Let_def)

lemma hex_val_zero [simp]: "hex_val CHR ''0'' = Some 0"
  by (simp add: hex_val_def)

lemma hex_value_append: "hex_value (s @ [c]) = 16 * hex_value s + the (hex_val c)"
  by (simp add: hex_value_def)

lemma hex_value_of [simp]: "hex_value (hex_of n) = n"
proof (induction n rule: hex_of.induct)
  case (1 n)
  show ?case
  proof (cases "n < 16")
    case True
    then show ?thesis by (simp add: hex_of.simps [of n] hex_value_def)
  next
    case False
    then show ?thesis using 1 by (simp add: hex_of.simps [of n] hex_value_append)
  qed
qed

lemma hex_of_chars: "\<forall>c \<in> set (hex_of n). is_hex c" and hex_of_nonempty [simp]: "hex_of n \<noteq> []"
  by (induction n rule: hex_of.induct; subst hex_of.simps; auto simp: is_hex_def)+

lemma length_hex_of: "n < 16 ^ Suc w \<Longrightarrow> length (hex_of n) \<le> Suc w"
proof (induction w arbitrary: n)
  case 0
  then show ?case by (simp add: hex_of.simps [of n])
next
  case (Suc w)
  have "n div 16 < 16 ^ Suc w" using Suc.prems by (simp add: less_mult_imp_div_less mult.commute)
  then show ?case using Suc.IH by (simp add: hex_of.simps [of n])
qed

lemma hex_value_zeros: "hex_value (replicate k CHR ''0'' @ s) = hex_value s"
proof -
  have "fold (\<lambda>c n. 16 * n + the (hex_val c)) (replicate k CHR ''0'') 0 = (0 :: nat)"
    by (induction k) simp_all
  then show ?thesis by (simp add: hex_value_def)
qed

lemma print_x_ok:
  "hex_value (print_x w v) = unat v" "print_x w v \<noteq> []" "\<forall>c \<in> set (print_x w v). is_hex c"
  using hex_of_chars [of "unat v"] by (auto simp: print_x_def Let_def hex_value_zeros is_hex_def)

lemma length_print_x: "0 < w \<Longrightarrow> unat v < 16 ^ w \<Longrightarrow> length (print_x w v) = w"
  using length_hex_of [of "unat v" "w - 1"] by (cases w) (simp_all add: print_x_def Let_def)

lemma is_hex_char:
  assumes "is_hex c"
  shows "\<not> is_space c" "c \<noteq> CHR ''-''" "c \<noteq> CHR ''+''" "c \<noteq> CHR ''x''" "c \<noteq> CHR ''X''" "c \<noteq> NUL" "c \<noteq> CHR '':''"
  using assms by (auto simp: is_hex_def hex_val_def is_space_def Let_def split: if_splits)

lemma strip_0x_none:
  "\<forall>c \<in> set s. is_hex c \<Longrightarrow> s \<noteq> [] \<Longrightarrow> r = [] \<or> (hd r \<noteq> CHR ''x'' \<and> hd r \<noteq> CHR ''X'') \<Longrightarrow> strip_0x (s @ r) = s @ r"
  using is_hex_char(4,5) by (cases s; cases "tl s"; cases r) auto

lemma scan_print:
  assumes s: "\<forall>c \<in> set s. is_hex c" "s \<noteq> []" "hex_value s < 2 ^ 32"
    and r: "r = [] \<or> (\<not> is_hex (hd r) \<and> hd r \<noteq> CHR ''x'' \<and> hd r \<noteq> CHR ''X'')"
  shows "scan_x (s @ r) = Some (of_nat (hex_value s), r)"
proof -
  obtain c t where c: "s = c # t" "is_hex c" using s(1,2) by (cases s) auto
  have sp: "dropWhile is_space (s @ r) = s @ r" "strip_sign (s @ r) = (False, s @ r)"
    using c is_hex_char [OF c(2)] by simp_all
  have "takeWhile is_hex (s @ r) = s" "dropWhile is_hex (s @ r) = r"
    using s(1) r by (cases r; simp)+
  moreover have "strip_0x (s @ r) = s @ r" using r by (intro strip_0x_none [OF s(1,2)]) auto
  ultimately show ?thesis using s(2,3) by (simp add: scan_x_def sp Let_def)
qed

lemma scan_print_x:
  assumes "r = [] \<or> (\<not> is_hex (hd r) \<and> hd r \<noteq> CHR ''x'' \<and> hd r \<noteq> CHR ''X'')"
  shows "scan_x (print_x w v @ r) = Some (v, r)"
  using scan_print [OF print_x_ok(3,2) _ assms, of w v] unsigned_less [of v]
  by (simp add: print_x_ok(1))

section \<open>GIDs round trip\<close>

lemma rev_le_bytes_le_nat: "length bs = n \<Longrightarrow> le_bytes n (le_nat bs) = bs"
proof (induction bs arbitrary: n)
  case (Cons b bs)
  have "(of_char b :: nat) < 256" by (metis of_char_mod_256 mod_less_divisor zero_less_numeral)
  then show ?case using Cons by (cases n) simp_all
qed simp

lemma le_nat_bound: "le_nat bs < 256 ^ length bs"
proof (induction bs)
  case (Cons b bs)
  have step: "c < 256 \<Longrightarrow> n < m \<Longrightarrow> c + 256 * n < 256 * m" for c n m :: nat by linarith
  have "(of_char b :: nat) < 256" by (metis of_char_mod_256 mod_less_divisor zero_less_numeral)
  from step [OF this Cons] show ?case by simp
qed simp

lemma le_bytes_of_nat: "length bs = 4 \<Longrightarrow> le_bytes 4 (unat (of_nat (le_nat bs) :: 32 word)) = bs"
  using le_nat_bound [of bs] rev_le_bytes_le_nat [of bs 4] by (simp add: unat_of_nat32)

lemma htonl_htonl [simp]: "htonl (htonl v) = v"
  using le_bytes_of_nat [of "rev (le_bytes 4 (unat v))"] le_nat_le_bytes_word [of 4 v]
  by (simp add: htonl_def del: le_bytes.simps)

lemma upt4: "[0..<4] = [0, 1, 2, 3 :: nat]"
  by (simp add: upt_rec)

lemma length_print_8 [simp]: "length (print_x 8 v) = 8"
  using length_print_x [of 8 v] unsigned_less [of v] by simp

lemma length_wire [simp]: "length (gid_to_wire_gid raw) = 32"
  by (simp add: gid_to_wire_gid_def upt4)

lemma wire_part:
  assumes "i < 4" shows "take 8 (drop (8 * i) (gid_to_wire_gid raw)) = print_x 8 (htonl (gid_part raw i))"
proof -
  have "i \<in> {0, 1, 2, 3}" using assms by auto
  then show ?thesis by (auto simp: gid_to_wire_gid_def upt4)
qed

text \<open>
  A GID survives its printed form: what \<open>gid_to_wire_gid\<close> prints, \<open>wire_gid_to_gid\<close>
  reads back, whatever follows the 32 characters and whatever the scanned variable held.
\<close>

lemma wire_gid_round_trip:
  assumes "length raw = 16"
  shows "wire_gid_to_gid v32 (gid_to_wire_gid raw @ rest) = raw"
proof -
  have tmp: "take 8 (drop (8 * i) (gid_to_wire_gid raw @ rest)) = print_x 8 (htonl (gid_part raw i))" if "i < 4" for i
    using wire_part [OF that, of raw] that by simp
  have "NUL \<notin> set (print_x 8 v)" for v using print_x_ok(3) [of 8 v] is_hex_char(6) by blast
  then have cs: "cstr (print_x 8 v) = print_x 8 v" for v by (rule cstr_id)
  have part: "le_bytes 4 (unat (gid_part raw i)) = take 4 (drop (4 * i) raw)" if "i < 4" for i
    using assms that by (simp add: gid_part_def le_bytes_of_nat del: le_bytes.simps)
  have sc: "scan_x (cstr (print_x 8 v)) = Some (v, [])" for v
    using scan_print_x [of "[]" 8 v] cs by simp
  have parts: "wire_parts (gid_to_wire_gid raw @ rest) is x = concat (map (\<lambda>i. take 4 (drop (4 * i) raw)) is)"
    if "\<forall>i \<in> set is. i < 4" for x and "is"
    using that
  proof (induction "is" arbitrary: x)
    case (Cons i "is")
    then show ?case using tmp [of i] sc part [of i] by (simp add: Let_def del: le_bytes.simps)
  qed simp
  have "wire_gid_to_gid v32 (gid_to_wire_gid raw @ rest) =
      take 4 raw @ take 4 (drop 4 raw) @ take 4 (drop 8 raw) @ take 4 (drop 12 raw)"
    using parts [of "[0..<4]" v32] by (simp add: wire_gid_to_gid_def upt4)
  also have "\<dots> = take 16 raw"
    using take_add [of 4 12 raw] take_add [of 4 8 "drop 4 raw"] take_add [of 4 4 "drop 8 raw"] by simp
  finally show ?thesis using assms by simp
qed

section \<open>Messages round trip\<close>

lemma wire_chars: "\<forall>c \<in> set (gid_to_wire_gid raw). is_hex c"
  using print_x_ok(3) by (auto simp: gid_to_wire_gid_def)

lemma scan_s_hex:
  assumes "\<forall>c \<in> set s. is_hex c" and "s \<noteq> []"
  shows "scan_s s = Some s"
proof -
  have "\<forall>c \<in> set s. \<not> is_space c" using assms(1) is_hex_char(1) by blast
  then have "dropWhile is_space s = s" "takeWhile (\<lambda>c. \<not> is_space c) s = s"
    using assms(2) by (cases s; simp)+
  then show ?thesis using assms(2) by (simp only: scan_s_def Let_def) simp
qed

lemma not_hex_colon [simp]: "\<not> is_hex CHR '':''"
  by (simp add: is_hex_def hex_val_def)

lemma scan_field: "scan_fields (Suc n) (print_x w v @ CHR '':'' # r) =
    (let (vs, t) = scan_fields n r in (v # vs, t))"
  using scan_print_x [of "CHR '':'' # r" w v] by simp

lemma no_NUL_hex: "\<forall>c \<in> set s. is_hex c \<Longrightarrow> NUL \<notin> set s"
  using is_hex_char(6) by blast

lemma fill_string:
  assumes "length s < n" and "NUL \<notin> set s"
  obtains r where "fill old n s = Inr (s @ NUL # r)" "length (s @ NUL # r) = n"
proof -
  have "fill old n s = Inr (s @ NUL # drop (Suc (length s)) (take n (old @ zeros n)))"
    using assms(1) by (simp add: fill_def mem_write_def splice_def)
  moreover have "length (s @ NUL # drop (Suc (length s)) (take n (old @ zeros n))) = n"
    using assms(1) by simp
  ultimately show ?thesis using that by blast
qed

lemma scan_gid_wire:
  assumes "length junk = 33"
  shows "scan_gid junk (Some (gid_to_wire_gid raw)) = Inr (gid_to_wire_gid raw @ [NUL])"
proof -
  have "gid_to_wire_gid raw \<noteq> []" using length_wire [of raw] by force
  then show ?thesis
    using assms scan_s_hex [OF wire_chars] by (simp add: scan_gid_def mem_write_def splice_def)
qed

definition dest_ok :: "kv_dest \<Rightarrow> bool" where
  "dest_ok d \<longleftrightarrow> length (gid d) = 16 \<and> unat (lid d) < 2 ^ 16 \<and> unat (qpn d) < 2 ^ 24 \<and> unat (psn d) < 2 ^ 24"

lemma client_msg_scanned:
  assumes "dest_ok d" and "length junk = 33"
  obtains m where "client_msg old d = Inr m" "length m = EXCHANGE_MSG_SIZE" "scan_client_msg junk v32 m = Inr d"
proof -
  let ?s = "print_x 4 (lid d) @ CHR '':'' # print_x 6 (qpn d) @ CHR '':'' # print_x 6 (psn d) @
       CHR '':'' # gid_to_wire_gid (gid d)"
  have d: "length (gid d) = 16" "length (print_x 4 (lid d)) = 4" "length (print_x 6 (qpn d)) = 6"
    "length (print_x 6 (psn d)) = 6"
    using assms(1) by (simp_all add: dest_ok_def length_print_x)
  have nul: "NUL \<notin> set ?s"
    using no_NUL_hex [OF print_x_ok(3)] no_NUL_hex [OF wire_chars] by simp
  obtain r where r: "fill old 52 ?s = Inr (?s @ NUL # r)" "length (?s @ NUL # r) = 52"
    by (rule fill_string [of ?s 52 old]) (use nul d in simp_all)
  have "cstr (?s @ NUL # r) = ?s" by (rule cstr_terminated [OF nul])
  moreover have "scan_fields 3 ?s = ([lid d, qpn d, psn d], Some (gid_to_wire_gid (gid d)))"
    by (simp add: numeral_3_eq_3 scan_field del: scan_fields.simps(2))
  ultimately have "scan_client_msg junk v32 (?s @ NUL # r) = Inr d"
    using scan_gid_wire [OF assms(2)] wire_gid_round_trip [OF d(1)] c_strlen_terminated [OF nul]
    by (simp add: scan_client_msg_def nth_or_def del: append.simps append_assoc)
  then show ?thesis using r by (intro that [of "?s @ NUL # r"]) (simp_all only: client_msg_def EXCHANGE_MSG_SIZE_def)
qed

text \<open>
  C35: the address a client sends is the address the server scans: the message fills exactly the
  \<open>EXCHANGE_MSG_SIZE\<close> bytes the server waits for, and no array overflows.
\<close>

theorem client_msg_round_trip:
  assumes "dest_ok d" and "length junk = 33"
  shows "\<exists>m. client_msg old d = Inr m \<and> length m = EXCHANGE_MSG_SIZE \<and> scan_client_msg junk v32 m = Inr d"
  using client_msg_scanned [OF assms] by metis

definition sample_dest :: kv_dest where
  "sample_dest = \<lparr>lid = 7, qpn = 0x1a3, psn = 0x5f0e11, gid = zeros 16\<rparr>"

theorem client_msg_round_trip_witness:
  "\<exists>m. client_msg [] sample_dest = Inr m \<and> length m = EXCHANGE_MSG_SIZE \<and>
     scan_client_msg (zeros 33) 0 m = Inr sample_dest"
  by (rule client_msg_round_trip) (simp_all add: dest_ok_def sample_dest_def)

lemma server_msg_scanned:
  assumes "dest_ok d" and "length junk = 33" and "unat number < 2 ^ 16"
  shows "\<exists>m. server_msg old number d (gid_to_wire_gid (gid d)) = Inr m \<and>
    scan_server_msg junk v32 t m = Inr (number, d)"
proof -
  let ?u = "print_x 4 (lid d) @ CHR '':'' # print_x 6 (qpn d) @ CHR '':'' # print_x 6 (psn d) @
       CHR '':'' # gid_to_wire_gid (gid d)"
  let ?s = "print_x 4 number @ CHR '':'' # ?u"
  have d: "length (gid d) = 16" "length (print_x 4 (lid d)) = 4" "length (print_x 6 (qpn d)) = 6"
    "length (print_x 6 (psn d)) = 6" "length (print_x 4 number) = 4"
    using assms(1,3) by (simp_all add: dest_ok_def length_print_x)
  have nul: "NUL \<notin> set ?s"
    using no_NUL_hex [OF print_x_ok(3)] no_NUL_hex [OF wire_chars] by simp
  obtain r where r: "fill old 57 ?s = Inr (?s @ NUL # r)"
    by (rule fill_string [of ?s 57 old]) (use nul d in simp_all)
  have "cstr (?s @ NUL # r) = ?s" by (rule cstr_terminated [OF nul])
  moreover have "scan_fields 3 ?u = ([lid d, qpn d, psn d], Some (gid_to_wire_gid (gid d)))"
    by (simp add: numeral_3_eq_3 scan_field del: scan_fields.simps(2))
  moreover have "scan_x_width 4 ?s = Some (number, CHR '':'' # ?u)"
  proof -
    obtain c w where c: "print_x 4 number = c # w" "is_hex c"
      using print_x_ok(2,3) [of 4 number] by (cases "print_x 4 number") auto
    have "dropWhile is_space ?s = ?s" using c is_hex_char(1) by simp
    moreover have "take 4 ?s = print_x 4 number @ []" "drop 4 ?s = CHR '':'' # ?u" using d(5) by simp_all
    ultimately show ?thesis using scan_print_x [of "[]" 4 number] by (simp add: scan_x_width_def Let_def)
  qed
  ultimately have "scan_server_msg junk v32 t (?s @ NUL # r) = Inr (number, d)"
    using scan_gid_wire [OF assms(2)] wire_gid_round_trip [OF d(1)] c_strlen_terminated [OF nul]
    by (simp add: scan_server_msg_def nth_or_def del: append.simps append_assoc)
  then show ?thesis using r by (simp only: server_msg_def) simp
qed

text \<open>
  C36: the answer of the server, with the number of the client, its address and the printed GID, is
  scanned by the client to the same number and address, and fits its array.
\<close>

theorem server_msg_round_trip:
  assumes "dest_ok d" and "length junk = 33" and "unat number < 2 ^ 16"
  shows "\<exists>m. server_msg old number d (gid_to_wire_gid (gid d)) = Inr m \<and>
    scan_server_msg junk v32 t m = Inr (number, d)"
  by (rule server_msg_scanned [OF assms])

theorem server_msg_round_trip_witness:
  "\<exists>m. server_msg [] 3 sample_dest (gid_to_wire_gid (gid sample_dest)) = Inr m \<and>
     scan_server_msg (zeros 33) 0 0 m = Inr (3, sample_dest)"
  by (rule server_msg_round_trip) (simp_all add: dest_ok_def sample_dest_def)

section \<open>Messages of other clients\<close>

text \<open>The server scans the GID with no limit on its length, into an array of 33 bytes.\<close>

lemma scan_client_msg_long:
  assumes w: "\<forall>c \<in> set w. \<not> is_space c \<and> c \<noteq> NUL" "length junk \<le> length w" "w \<noteq> []"
  shows "scan_client_msg junk v32 (print_x i l @ CHR '':'' # print_x j q @ CHR '':'' # print_x k p @
    CHR '':'' # w @ NUL # r) = Inl (UB Out_of_bounds)"
proof -
  let ?s = "print_x i l @ CHR '':'' # print_x j q @ CHR '':'' # print_x k p @ CHR '':'' # w"
  have nul: "NUL \<notin> set ?s" using w(1) no_NUL_hex [OF print_x_ok(3)] by auto
  have str: "cstr (?s @ NUL # r) = ?s" by (rule cstr_terminated [OF nul])
  have f: "scan_fields 3 ?s = ([l, q, p], Some w)"
    by (simp add: numeral_3_eq_3 scan_field del: scan_fields.simps(2))
  have "dropWhile is_space w = w" using w(1,3) by (cases w) auto
  moreover have "takeWhile (\<lambda>c. \<not> is_space c) w = w" using w(1) by simp
  ultimately have ss: "scan_s w = Some w" using w(3) by (simp only: scan_s_def Let_def if_False)
  have g: "scan_gid junk (Some w) = Inl (UB Out_of_bounds)"
    using w(2) by (simp add: scan_gid_def ss mem_write_def)
  have "scan_client_msg junk v32 (?s @ NUL # r) = Inl (UB Out_of_bounds)"
    unfolding scan_client_msg_def str f by (simp add: c_strlen_terminated [OF nul, simplified] g)
  then show ?thesis by simp
qed

end
