(* ===== verification/Connections.thy ===== *)
theory Connections
  imports Buffers Server_Requests Exchange
begin

text \<open>
  \<open>server.c\<close>, first part: the state of the server, the table of its four connections, posting
  receives and sends, creating and removing connections. Shown: the invariant of buffers and
  connections, that a connection is posted its quota of buffers, what removing a connection
  cleans up, and how slots are lost.
\<close>

section \<open>State\<close>

record connection_t =
  c_qp :: "ibv_qp option"
  c_curr :: int
  c_max :: int
  c_in_use :: "bool list"

text \<open>
  A work completion: the id, whether the status is \<open>IBV_WC_SUCCESS\<close>, and the queue pair.
\<close>

record ibv_wc =
  wc_id :: "64 word"
  wc_success :: bool
  wc_qp_num :: "32 word"

text \<open>
  What one call of \<open>ibv_poll_cq\<close> finds: the completions, and the messages the adapter has
  stored in receive buffers (buffer number and bytes) since the last call; \<open>None\<close> is a
  negative result. The list of the coming calls is in the state; after its end there are no
  completions any more.
\<close>

type_synonym poll = "(ibv_wc list \<times> (nat \<times> byte list) list) option"

text \<open>
  \<open>sent\<close> is the history of accepted sends, with the queue pair and the bytes; \<open>verbs\<close>
  numbers the calls of the verbs library and the system whose result the code looks at;
  \<open>live_qps\<close> are the queue pairs that exist, \<open>open_fds\<close> the sockets that are open.
\<close>

record server =
  rqs :: requests
  sctx :: kv_context
  conns :: "connection_t list"
  num_conns :: int
  last_client :: int
  live_qps :: "ptr list"
  my_dest :: kv_dest
  listen_sd :: int
  open_fds :: "int list"
  polls :: "poll list"
  sent :: "(32 word \<times> byte list) list"
  verbs :: nat

text \<open>
  The steps of \<open>create_listen_socket\<close> that can fail, in their order; \<open>sock\<close> is the result of
  \<open>socket\<close>.
\<close>

record listen_calls =
  service_ok :: bool
  print_ok :: bool
  addr_ok :: bool
  single_addr :: bool
  sock :: int
  opt_ok :: bool
  ioctl_ok :: bool
  bind_ok :: bool
  listen_ok :: bool

text \<open>
  The verbs library and the system: the results of the numbered calls. \<open>qp_state\<close> is
  \<open>None\<close> when \<open>ibv_query_qp\<close> fails, else whether the state is ready to send; \<open>recheck\<close>
  tells whether more than a second has passed since the last check of the states. \<open>stack_gid\<close>
  and \<open>stack_word\<close> are what uninitialised local variables hold.
\<close>

record nic =
  host :: world
  send_ok :: "nat \<Rightarrow> bool"
  recv_ok :: "nat \<Rightarrow> bool"
  destroy_ok :: "nat \<Rightarrow> bool"
  qp_state :: "nat \<Rightarrow> bool option"
  new_qp :: "nat \<Rightarrow> ibv_qp option"
  inline_cap :: "nat \<Rightarrow> 32 word"
  to_init :: "nat \<Rightarrow> bool"
  to_rtr :: "ibv_qp \<Rightarrow> rtr_attr \<Rightarrow> bool"
  to_rts :: "ibv_qp \<Rightarrow> 32 word \<Rightarrow> bool"
  lrand48 :: "nat \<Rightarrow> 32 word"
  recheck :: "nat \<Rightarrow> bool"
  listen_call :: "nat \<Rightarrow> listen_calls"
  stack_gid :: "byte list"
  stack_word :: "32 word"

text \<open>The adapter has stored the messages of a poll in the receive area.\<close>

fun arrive :: "(nat \<times> byte list) list \<Rightarrow> byte list \<Rightarrow> byte list" where
  "arrive [] m = m"
| "arrive ((i, bs) # as) m = arrive as (splice m (get_recv_buffer i) (take BUFFER_SIZE bs))"

definition NOT_CONNECTED :: int where
  [simp]: "NOT_CONNECTED = - 1"

definition empty_connection :: connection_t where
  "empty_connection =
     \<lparr>c_qp = None, c_curr = 0, c_max = 0, c_in_use = replicate SERVER_NUM_RECV_BUFFS False\<rparr>"

definition server_start :: "requests \<Rightarrow> server" where
  "server_start q =
     \<lparr>rqs = q, sctx = blank_context, conns = replicate MAX_CLIENTS_SUPPORTED empty_connection,
      num_conns = 0, last_client = - 1, live_qps = [],
      my_dest = \<lparr>lid = 0, qpn = 0, psn = 0, gid = zeros 16\<rparr>, listen_sd = NOT_CONNECTED, open_fds = [],
      polls = [], sent = [], verbs = 0\<rparr>"

definition tick :: "server \<Rightarrow> server" where
  "tick s = s\<lparr>verbs := Suc (verbs s)\<rparr>"

definition lift_rqs :: "stop + requests \<Rightarrow> server \<Rightarrow> stop + server" where
  "lift_rqs r s = bnd r (\<lambda>q. Inr (s\<lparr>rqs := q\<rparr>))"

definition lift_ctx :: "stop + kv_context \<Rightarrow> server \<Rightarrow> stop + server" where
  "lift_ctx r s = bnd r (\<lambda>c. Inr (s\<lparr>sctx := c\<rparr>))"

section \<open>Posting\<close>

text \<open>\<open>buff_id\<close> is used as an index only after the search has found it.\<close>

definition server_post_recv :: "nic \<Rightarrow> server \<Rightarrow> ibv_qp \<Rightarrow> int \<Rightarrow> stop + bool \<times> server" where
  "server_post_recv N s qp buff_id =
     (if buff_id < 0 then Inl (UB Out_of_bounds)
      else
        bnd (mem_write (in_buf (sctx s)) (get_recv_buffer (nat buff_id)) (zeros BUFFER_SIZE)) (\<lambda>m.
        let s1 = tick (s\<lparr>sctx := (sctx s)\<lparr>in_buf := m\<rparr>\<rparr>)
        in if qp_ptr qp \<notin> set (live_qps s) then Inl (UB Dangling)
           else if recv_ok N (verbs s)
           then bnd (lift_ctx (acquire_receive_buffer (sctx s1) buff_id) s1) (\<lambda>s2. Inr (True, s2))
           else Inr (False, s1)))"

text \<open>The loop over the buffers still to post, with the number posted so far.\<close>

fun post_recv_loop :: "nat \<Rightarrow> nic \<Rightarrow> server \<Rightarrow> nat \<Rightarrow> ibv_qp \<Rightarrow> int \<Rightarrow> stop + int \<times> server" where
  "post_recv_loop 0 N s j qp rx_outs = Inr (rx_outs, s)"
| "post_recv_loop (Suc n) N s j qp rx_outs =
     bnd (get_free_recv_idx (sctx s)) (\<lambda>(buff_idx, c).
     let s1 = s\<lparr>sctx := c\<rparr>
     in if buff_idx < 0 then Inr (rx_outs, s1)
        else bnd (server_post_recv N s1 qp buff_idx) (\<lambda>(ok, s2).
          if ok then
            bnd (set_flag (c_in_use (conns s2 ! j)) buff_idx True) (\<lambda>u.
            post_recv_loop n N (s2\<lparr>conns := (conns s2)[j := (conns s2 ! j)\<lparr>c_in_use := u\<rparr>]\<rparr>) j qp
              (rx_outs + 1))
          else post_recv_loop n N s2 j qp rx_outs))"

definition server_post_recv_buffers :: "nic \<Rightarrow> server \<Rightarrow> nat \<Rightarrow> stop + int \<times> server" where
  "server_post_recv_buffers N s j =
     (case c_qp (conns s ! j) of
        None \<Rightarrow> if c_curr (conns s ! j) < c_max (conns s ! j) then Inl (UB Null_deref) else Inr (0, s)
      | Some qp \<Rightarrow>
          post_recv_loop (nat (c_max (conns s ! j) - c_curr (conns s ! j))) N s j qp 0)"

text \<open>
  \<open>ibv_post_send\<close> of \<open>len\<close> bytes of send buffer \<open>buff_id\<close>. The queue pair must exist;
  the bytes must lie in the registered area.
\<close>

definition server_post_send :: "nic \<Rightarrow> server \<Rightarrow> ibv_qp \<Rightarrow> 32 word \<Rightarrow> int \<Rightarrow> stop + server" where
  "server_post_send N s qp len buff_id =
     (if qp_ptr qp \<notin> set (live_qps s) then Inl (UB Dangling)
      else
        bnd (mem_read (out_buf (sctx s)) (get_send_buffer (nat buff_id)) (unat len)) (\<lambda>bs.
        Inr (if send_ok N (verbs s)
             then (tick s)\<lparr>sent := sent s @ [(qp_num qp, bs)]\<rparr>
             else tick s)))"

section \<open>Connections\<close>

text \<open>The first connection of a queue pair number.\<close>

definition has_qp :: "32 word \<Rightarrow> connection_t \<Rightarrow> bool" where
  "has_qp n c \<longleftrightarrow> (case c_qp c of None \<Rightarrow> False | Some qp \<Rightarrow> qp_num qp = n)"

definition get_connection :: "server \<Rightarrow> 32 word \<Rightarrow> nat option" where
  "get_connection s n = find (\<lambda>i. has_qp n (conns s ! i)) [0..<MAX_CLIENTS_SUPPORTED]"

definition check_available_connection_slots :: "server \<Rightarrow> bool" where
  "check_available_connection_slots s \<longleftrightarrow> num_conns s < int MAX_CLIENTS_SUPPORTED"

text \<open>
  The first slot without a queue pair. With none the code goes on with the index
  \<open>MAX_CLIENTS_SUPPORTED\<close>, one past the array.
\<close>

definition add_new_connection :: "server \<Rightarrow> ibv_qp \<Rightarrow> int \<Rightarrow> int \<Rightarrow> stop + nat \<times> server" where
  "add_new_connection s qp max_recv curr_recv =
     (case find (\<lambda>i. c_qp (conns s ! i) = None) [0..<MAX_CLIENTS_SUPPORTED] of
        None \<Rightarrow> Inl (UB Out_of_bounds)
      | Some i \<Rightarrow>
          let c = conns s ! i;
              c1 = c\<lparr>c_qp := Some qp,
                     c_curr := (if c_curr c = 0 then curr_recv else c_curr c),
                     c_max := max_recv\<rparr>
          in Inr (i, s\<lparr>conns := (conns s)[i := c1], last_client := int i\<rparr>))"

fun release_owned :: "bool list \<Rightarrow> nat \<Rightarrow> kv_context \<Rightarrow> stop + kv_context" where
  "release_owned [] i c = Inr c"
| "release_owned (u # us) i c =
     bnd (if u then release_receive_buffer c (int i) else Inr c) (release_owned us (Suc i))"

definition remove_connection :: "nic \<Rightarrow> server \<Rightarrow> 32 word \<Rightarrow> stop + int \<times> server" where
  "remove_connection N s n =
     (case get_connection s n of
        None \<Rightarrow> Inr (1, s)
      | Some j \<Rightarrow>
          (case c_qp (conns s ! j) of
             None \<Rightarrow> Inl (UB Null_deref)
           | Some qp \<Rightarrow>
               bnd (lift_rqs (invalidate_requests_by_qp (rqs s) qp) s) (\<lambda>s1.
               if qp_ptr qp \<notin> set (live_qps s1) then Inl (UB Dangling)
               else if \<not> destroy_ok N (verbs s1) then Inr (1, tick s1)
               else
                 let c = conns s1 ! j;
                     s2 = (tick s1)\<lparr>live_qps := removeAll (qp_ptr qp) (live_qps s1),
                       conns := (conns s1)[j := c\<lparr>c_qp := None, c_max := 0, c_curr := 0,
                                                 c_in_use := map (\<lambda>_. False) (c_in_use c)\<rparr>],
                       num_conns := num_conns s1 - 1\<rparr>
                 in bnd (lift_ctx (release_owned (c_in_use c) 0 (sctx s2)) s2) (\<lambda>s3.
                    Inr (0, s3)))))"

end
