(* ===== verification/Server.thy ===== *)
theory Server
  imports Connections
begin

text \<open>
  \<open>server.c\<close>, second part: the handlers of SET, GET and FIN messages, the completion loop, the
  retry of pending requests, shutdown. Waiting for a send buffer handles completions, so
  that handlers nest: they take the acquisition of a buffer as an argument, and the completion
  loop is defined with the depth of the nesting as fuel. Shown: what each handler stores, sends
  and locks, and that it keeps the invariant.
\<close>

section \<open>Send buffers\<close>

text \<open>
  \<open>wait\<close> is the completion loop. Each round of waiting uses up a call of \<open>ibv_poll_cq\<close>;
  without fuel the loop never ends.
\<close>

fun get_free_send_buffer :: "nat \<Rightarrow> (server \<Rightarrow> stop + server) \<Rightarrow> server \<Rightarrow> stop + int \<times> server" where
  "get_free_send_buffer 0 wait s = Inl (UB Endless)"
| "get_free_send_buffer (Suc n) wait s =
     bnd (get_free_send_idx (sctx s)) (\<lambda>(buff_id, c).
     let s1 = s\<lparr>sctx := c\<rparr>
     in if buff_id < 0 then bnd (wait s1) (get_free_send_buffer n wait)
        else bnd (lift_ctx (acquire_send_buffer c buff_id) s1) (\<lambda>s2. Inr (buff_id, s2)))"

declare get_free_send_buffer.simps [simp del]

text \<open>\<open>memcpy\<close> into the send buffer, at an offset.\<close>

definition put_out :: "server \<Rightarrow> int \<Rightarrow> nat \<Rightarrow> byte list \<Rightarrow> stop + server" where
  "put_out s buff_id off bs =
     bnd (mem_write (out_buf (sctx s)) (get_send_buffer (nat buff_id) + off) bs) (\<lambda>m.
     Inr (s\<lparr>sctx := (sctx s)\<lparr>out_buf := m\<rparr>\<rparr>))"

type_synonym get_buffer = "server \<Rightarrow> stop + int \<times> server"

definition response_headers ::
  "response_t \<Rightarrow> 16 word \<Rightarrow> 32 word \<Rightarrow> 64 word \<Rightarrow> 32 word \<Rightarrow> 64 word \<Rightarrow> server_response_headers_t" where
  "response_headers c t kl bl rk ra =
     \<lparr>response = response_val c, rtid = t, rkeylen = kl, rbuflen = bl,
      rkey_info = \<lparr>rkey = rk, raddr = ra\<rparr>\<rparr>"

section \<open>SET and GET\<close>

text \<open>
  The lookup that both handlers begin with: a key that is missing is stored with an empty value,
  \<open>value\<close>, which is the literal for a SET; for a GET it is allocated, and never freed. When that
  fails it is NULL, whose length \<open>db_insert\<close> takes.
\<close>

definition empty_value :: "world \<Rightarrow> server \<Rightarrow> byte list option" where
  "empty_value W s = (if value_calloc_ok W (length (internal_db (q_db (rqs s)))) then Some [NUL] else None)"

definition insert_value :: "world \<Rightarrow> db \<Rightarrow> byte list \<Rightarrow> byte list option \<Rightarrow> stop + db" where
  "insert_value W d key value =
     (case value of
        Some v \<Rightarrow> db_insert W d key v
      | None \<Rightarrow> bnd (c_strlen key) (\<lambda>n. if n = 0 then Inl (Exit 1) else Inl (UB Null_deref)))"

definition find_or_create :: "world \<Rightarrow> server \<Rightarrow> byte list \<Rightarrow> byte list option \<Rightarrow> stop + ptr option \<times> server" where
  "find_or_create W s key value =
     bnd (db_get (q_db (rqs s)) key) (\<lambda>entry.
     case entry of
       Some p \<Rightarrow> Inr (entry, s)
     | None \<Rightarrow>
         bnd (insert_value W (q_db (rqs s)) key value) (\<lambda>d.
         bnd (db_get d key) (\<lambda>entry1. Inr (entry1, s\<lparr>rqs := (rqs s)\<lparr>q_db := d\<rparr>\<rparr>))))"

definition set_db :: "server \<Rightarrow> db \<Rightarrow> server" where
  "set_db s d = s\<lparr>rqs := (rqs s)\<lparr>q_db := d\<rparr>\<rparr>"

text \<open>The value is in the message.\<close>

definition set_eager :: "nic \<Rightarrow> server \<Rightarrow> ptr option \<Rightarrow> client_request_headers_t \<Rightarrow> byte list \<Rightarrow> stop + server" where
  "set_eager N s entry headers buffer =
     (let value = drop (unat (keylen headers) + 1) buffer
      in bnd (db_insert (host N) (q_db (rqs s)) buffer value) (\<lambda>d.
         bnd (db_entry_unlock d entry) (\<lambda>(_, d1).
         lift_rqs (remove_server_pending_request ((rqs s)\<lparr>q_db := d1\<rparr>) (tid headers)) s)))"

text \<open>The client will write the value by RDMA into the buffer announced to it.\<close>

definition set_rdma ::
  "nic \<Rightarrow> get_buffer \<Rightarrow> server \<Rightarrow> ibv_qp \<Rightarrow> ptr option \<Rightarrow> client_request_headers_t \<Rightarrow> byte list \<Rightarrow> stop + server" where
  "set_rdma N get_buf s qp entry headers buffer =
     (let t = tid headers; bl = ucast (buflen headers) :: 32 word
      in bnd (db_reallocate_item (host N) (q_db (rqs s)) buffer (unat bl)) (\<lambda>d.
         bnd (load d entry) (\<lambda>e.
         bnd (not_null (e_mr e)) (\<lambda>mr.
         let resp = response_headers RDMA_RKEY_SET t (keylen headers) (ucast bl) (mr_rkey mr)
               (case e_value e of None \<Rightarrow> 0 | Some vb \<Rightarrow> of_nat (b_addr vb))
         in bnd (get_buf (set_db s d)) (\<lambda>(buff_id, s1).
            bnd (put_out s1 buff_id 0 (enc_server_headers resp)) (\<lambda>s2.
            bnd (server_post_send N s2 qp (of_nat SERVER_HEADER_LEN) buff_id) (\<lambda>s3.
            bnd (load (q_db (rqs s3)) entry) (\<lambda>e1.
            bnd (not_null (e_key e1)) (\<lambda>kb.
            lift_rqs (mark_rdma_fin_required (host N) (rqs s3) t kb (qp_num qp)) s3)))))))))"

text \<open>The test whether the value is expected in the message.\<close>

definition takes_value :: "client_request_headers_t \<Rightarrow> bool" where
  [simp]: "takes_value headers \<longleftrightarrow>
     ucast (buflen headers) + keylen headers + 2 \<le> (of_nat CLIENT_REQUEST_PAYLOAD_LEN :: 32 word)"

definition handle_set_request ::
  "nic \<Rightarrow> get_buffer \<Rightarrow> server \<Rightarrow> ibv_qp \<Rightarrow> client_request_headers_t \<Rightarrow> byte list \<Rightarrow> 64 word \<Rightarrow>
     stop + int \<times> server" where
  "handle_set_request N get_buf s qp headers buffer info =
     bnd (find_or_create (host N) s buffer (Some [NUL])) (\<lambda>(entry, s1).
     bnd (db_entry_lock_wr (q_db (rqs s1)) entry) (\<lambda>(locked, d).
     if \<not> locked then
       bnd (lift_rqs (push_pending_request (host N) (rqs s1) (tid headers) info headers buffer qp) s1)
         (\<lambda>s2. Inr (1, s2))
     else
       bnd (if takes_value headers
            then set_eager N (set_db s1 d) entry headers buffer
            else set_rdma N get_buf (set_db s1 d) qp entry headers buffer)
         (\<lambda>s2. Inr (0, s2))))"

text \<open>
  \<open>value\<close> and \<open>size\<close> are read before the buffer is acquired; the copy finds the buffer of the
  entry at the address read, or it is dangling. The total size is an \<open>int\<close>.
\<close>

definition get_eager ::
  "nic \<Rightarrow> server \<Rightarrow> ibv_qp \<Rightarrow> ptr option \<Rightarrow> ptr \<Rightarrow> 32 word \<Rightarrow> client_request_headers_t \<Rightarrow> int \<Rightarrow> stop + server" where
  "get_eager N s qp entry addr sz headers buff_id =
     (let resp = response_headers GET_RESPONSE (tid headers) (keylen headers) (ucast sz) 0 0
      in bnd (put_out s buff_id 0 (enc_server_headers resp)) (\<lambda>s1.
         bnd (load (q_db (rqs s1)) entry) (\<lambda>e.
         bnd (not_null (e_value e)) (\<lambda>vb.
         if b_addr vb \<noteq> addr then Inl (UB Dangling)
         else
           bnd (mem_read (b_data vb) 0 (unat (sz + 1))) (\<lambda>bs.
           bnd (put_out s1 buff_id SERVER_HEADER_LEN bs) (\<lambda>s2.
           bnd (server_post_send N s2 qp (of_nat (SERVER_HEADER_LEN + unat sz + 1)) buff_id) (\<lambda>s3.
           bnd (db_entry_unlock (q_db (rqs s3)) entry) (\<lambda>(_, d).
           lift_rqs (remove_server_pending_request ((rqs s3)\<lparr>q_db := d\<rparr>) (tid headers)) s3))))))))"

definition get_rdma ::
  "nic \<Rightarrow> server \<Rightarrow> ibv_qp \<Rightarrow> ptr option \<Rightarrow> 32 word \<Rightarrow> client_request_headers_t \<Rightarrow> int \<Rightarrow> stop + server" where
  "get_rdma N s qp entry sz headers buff_id =
     bnd (load (q_db (rqs s)) entry) (\<lambda>e.
     let d = q_db (rqs s); r = db_regs (dmem d);
         s1 = (if e_mr e \<noteq> None then s
               else set_db s ((store d (the entry) (e\<lparr>e_mr := reg_mr (host N) r (map_option b_addr (e_value e))\<rparr>))
                      \<lparr>dmem := (dmem (store d (the entry) (e\<lparr>e_mr := reg_mr (host N) r (map_option b_addr (e_value e))\<rparr>)))
                         \<lparr>db_regs := Suc r\<rparr>\<rparr>))
     in bnd (load (q_db (rqs s1)) entry) (\<lambda>e1.
        bnd (not_null (e_mr e1)) (\<lambda>mr.
        let resp = response_headers RDMA_RKEY_GET (tid headers) (keylen headers) (ucast sz) (mr_rkey mr)
              (case mr_addr mr of None \<Rightarrow> 0 | Some a \<Rightarrow> of_nat a)
        in bnd (put_out s1 buff_id 0 (enc_server_headers resp)) (\<lambda>s2.
           bnd (server_post_send N s2 qp (of_nat SERVER_HEADER_LEN) buff_id) (\<lambda>s3.
           bnd (lift_rqs (remove_server_pending_request (rqs s3) (tid headers)) s3) (\<lambda>s4.
           bnd (load (q_db (rqs s4)) entry) (\<lambda>e2.
           bnd (not_null (e_key e2)) (\<lambda>kb.
           lift_rqs (mark_rdma_fin_required (host N) (rqs s4) (tid headers) kb (qp_num qp)) s4))))))))"

definition handle_get_request ::
  "nic \<Rightarrow> get_buffer \<Rightarrow> server \<Rightarrow> ibv_qp \<Rightarrow> client_request_headers_t \<Rightarrow> byte list \<Rightarrow> 64 word \<Rightarrow>
     stop + int \<times> server" where
  "handle_get_request N get_buf s qp headers buffer info =
     bnd (find_or_create (host N) s buffer (empty_value (host N) s)) (\<lambda>(entry, s1).
     bnd (db_entry_lock_rd (q_db (rqs s1)) entry) (\<lambda>(locked, d).
     if \<not> locked then
       bnd (lift_rqs (push_pending_request (host N) (rqs s1) (tid headers) info headers buffer qp) s1)
         (\<lambda>s2. Inr (1, s2))
     else
       bnd (load d entry) (\<lambda>e.
       bnd (not_null (e_value e)) (\<lambda>vb.
       let sz = e_size e; total_size = sint (of_nat (SERVER_HEADER_LEN + unat sz + 1) :: 32 word)
       in bnd (get_buf (set_db s1 d)) (\<lambda>(buff_id, s2).
          bnd (if total_size \<le> int SERVER_RESPONSE_PAYLOAD_LEN
               then get_eager N s2 qp entry (b_addr vb) sz headers buff_id
               else get_rdma N s2 qp entry sz headers buff_id)
            (\<lambda>s3. Inr (0, s3)))))))"

section \<open>Shutdown\<close>

definition send_server_shutdown_message :: "nic \<Rightarrow> get_buffer \<Rightarrow> server \<Rightarrow> ibv_qp \<Rightarrow> stop + server" where
  "send_server_shutdown_message N get_buf s qp =
     bnd (get_buf s) (\<lambda>(buff_id, s1).
     bnd (put_out s1 buff_id 0 (enc_server_headers (response_headers SERVER_SHUTDOWN 0 0 0 0 0))) (\<lambda>s2.
     server_post_send N s2 qp (of_nat SERVER_HEADER_LEN) buff_id))"

text \<open>
  The loop over the connections: the shutdown message goes to those whose queue pair is ready to
  send, and the connection is removed by its index, where a queue pair number is expected.
\<close>

fun close_connections :: "nic \<Rightarrow> get_buffer \<Rightarrow> nat list \<Rightarrow> server \<Rightarrow> stop + server" where
  "close_connections N get_buf [] s = Inr s"
| "close_connections N get_buf (j # js) s =
     (case c_qp (conns s ! j) of
        None \<Rightarrow> close_connections N get_buf js s
      | Some qp \<Rightarrow>
          bnd (if qp_state N (verbs s) = Some True
               then send_server_shutdown_message N get_buf (tick s) qp
               else Inr (tick s)) (\<lambda>s1.
          bnd (remove_connection N s1 (of_nat j)) (\<lambda>(_, s2).
          close_connections N get_buf js s2)))"

text \<open>The server's context has no queue pair of its own.\<close>

definition server_close_ctx :: "nic \<Rightarrow> get_buffer \<Rightarrow> server \<Rightarrow> stop + server" where
  "server_close_ctx N get_buf s =
     (case ctx_qp (sctx s) of
        Some qp \<Rightarrow>
          if qp_ptr qp \<notin> set (live_qps s) then Inl (UB Dangling)
          else if \<not> destroy_ok N (verbs s) then Inr (tick s)
          else close_connections N get_buf [0..<MAX_CLIENTS_SUPPORTED]
                 ((tick s)\<lparr>live_qps := removeAll (qp_ptr qp) (live_qps s)\<rparr>)
      | None \<Rightarrow> close_connections N get_buf [0..<MAX_CLIENTS_SUPPORTED] s)"

definition destroy_tables :: "requests \<Rightarrow> stop + requests" where
  "destroy_tables q =
     bnd (server_pending_requests_destroy q) (\<lambda>q1.
     bnd (db_destroy (q_db q1)) (\<lambda>d. Inr (q1\<lparr>q_db := d\<rparr>)))"

definition teardown_run :: "nic \<Rightarrow> get_buffer \<Rightarrow> server \<Rightarrow> stop + server" where
  "teardown_run N get_buf s =
     bnd (destroy_tables (rqs s)) (\<lambda>q. server_close_ctx N get_buf (s\<lparr>rqs := q\<rparr>))"

definition teardown_server_connection :: "nic \<Rightarrow> get_buffer \<Rightarrow> server \<Rightarrow> int \<Rightarrow> stop + 'a" where
  "teardown_server_connection N get_buf s retcode =
     bnd (teardown_run N get_buf s) (\<lambda>_. Inl (Exit retcode))"

section \<open>Messages\<close>

text \<open>The receive queue is refilled when few buffers are left in it.\<close>

definition refill_recv :: "nic \<Rightarrow> get_buffer \<Rightarrow> server \<Rightarrow> nat \<Rightarrow> stop + server" where
  "refill_recv N get_buf s j =
     (let c = conns s ! j; left = c_curr c - 1;
          s1 = s\<lparr>conns := (conns s)[j := c\<lparr>c_curr := left\<rparr>]\<rparr>
      in if left \<le> 100 then
           bnd (server_post_recv_buffers N s1 j) (\<lambda>(n, s2).
           let c2 = conns s2 ! j;
               s3 = s2\<lparr>conns := (conns s2)[j := c2\<lparr>c_curr := c_curr c2 + n\<rparr>]\<rparr>
           in if c_curr c2 + n < c_max c2 - 1 then teardown_server_connection N get_buf s3 1
              else Inr s3)
         else Inr s1)"

text \<open>
  \<open>RDMA_FIN_CLIENT\<close>: the key in the buffer gets its NUL, \<open>off\<close> is the offset of the message
  data.
\<close>

definition handle_fin ::
  "nic \<Rightarrow> get_buffer \<Rightarrow> server \<Rightarrow> ibv_qp \<Rightarrow> client_request_headers_t \<Rightarrow> nat \<Rightarrow> stop + int \<times> server" where
  "handle_fin N get_buf s qp headers off =
     bnd (mem_write (in_buf (sctx s)) (off + unat (keylen headers)) [NUL]) (\<lambda>m.
     let s1 = s\<lparr>sctx := (sctx s)\<lparr>in_buf := m\<rparr>\<rparr>
     in bnd (db_get (q_db (rqs s1)) (drop off m)) (\<lambda>entry.
        case entry of
          Some p \<Rightarrow>
            bnd (mark_rdma_fin_received (rqs s1) (tid headers)) (\<lambda>(r, q).
            if r \<noteq> 0 then teardown_server_connection N get_buf (s1\<lparr>rqs := q\<rparr>) 1
            else bnd (lift_rqs (remove_server_pending_request q (tid headers)) s1) (\<lambda>s2. Inr (0, s2)))
        | None \<Rightarrow>
            bnd (lift_rqs (invalidate_requests_by_qp (rqs s1) qp) s1) (\<lambda>s2.
            bnd (remove_connection N s2 (qp_num qp)) (\<lambda>(_, s3). Inr (- 1, s3)))))"

definition handle_recv_request ::
  "nic \<Rightarrow> get_buffer \<Rightarrow> server \<Rightarrow> 64 word \<Rightarrow> 32 word \<Rightarrow> stop + int \<times> server" where
  "handle_recv_request N get_buf s info n =
     (let buff_id = sint (wr_id (wr_info info))
      in case get_connection s n of
           None \<Rightarrow> Inr (1, s)
         | Some j \<Rightarrow>
             bnd (not_null (c_qp (conns s ! j))) (\<lambda>qp.
             bnd (refill_recv N get_buf s j) (\<lambda>s1.
             if buff_id < 0 then Inl (UB Out_of_bounds)
             else
               let base = get_recv_buffer (nat buff_id); off = base + CLIENT_HEADER_LEN
               in bnd (mem_read (in_buf (sctx s1)) base CLIENT_HEADER_LEN) (\<lambda>hb.
                  let headers = dec_client_headers hb; data = drop off (in_buf (sctx s1))
                  in case opcode_of (opcode headers) of
                       Some SET_REQUEST_OPCODE \<Rightarrow>
                         bnd (handle_set_request N get_buf s1 qp headers data info) (\<lambda>(_, s2). Inr (0, s2))
                     | Some GET_REQUEST_OPCODE \<Rightarrow>
                         bnd (handle_get_request N get_buf s1 qp headers data info) (\<lambda>(_, s2). Inr (0, s2))
                     | Some RDMA_FIN_CLIENT \<Rightarrow> handle_fin N get_buf s1 qp headers off
                     | _ \<Rightarrow> bnd (remove_connection N s1 n) (\<lambda>(_, s2). Inr (0, s2))))))"

section \<open>The completion loop\<close>

definition handle_completion :: "nic \<Rightarrow> get_buffer \<Rightarrow> ibv_wc \<Rightarrow> server \<Rightarrow> stop + server" where
  "handle_completion N get_buf wc s =
     bnd (if wc_success wc then Inr s
          else bnd (remove_connection N s (wc_qp_num wc)) (\<lambda>(_, s1). Inr s1)) (\<lambda>s1.
     let info = wr_info (wc_id wc)
     in case wrid_of (wr_type info) of
          Some SEND_WRID \<Rightarrow> lift_ctx (free_send_buffer (sctx s1) (sint (wr_id info))) s1
        | Some RECV_WRID \<Rightarrow>
            bnd (handle_recv_request N get_buf s1 (wc_id wc) (wc_qp_num wc)) (\<lambda>(_, s2).
            lift_ctx (release_receive_buffer (sctx s2) (sint (wr_id info))) s2)
        | _ \<Rightarrow> teardown_server_connection N get_buf s1 1)"

fun handle_completions :: "nic \<Rightarrow> get_buffer \<Rightarrow> ibv_wc list \<Rightarrow> server \<Rightarrow> stop + server" where
  "handle_completions N get_buf [] s = Inr s"
| "handle_completions N get_buf (wc # wcs) s =
     bnd (handle_completion N get_buf wc s) (handle_completions N get_buf wcs)"

text \<open>\<open>ibv_poll_cq\<close> returns at most \<open>SERVER_WC_BATCH\<close> completions.\<close>

definition ibv_poll_cq :: "server \<Rightarrow> poll \<times> server" where
  "ibv_poll_cq s =
     (case polls s of
        [] \<Rightarrow> (Some ([], []), s)
      | r # rs \<Rightarrow> (map_option (\<lambda>(wcs, ms). (take SERVER_WC_BATCH wcs, ms)) r, s\<lparr>polls := rs\<rparr>))"

fun server_wait_completions :: "nat \<Rightarrow> nic \<Rightarrow> server \<Rightarrow> stop + server" where
  "server_wait_completions 0 N s = Inl (UB Endless)"
| "server_wait_completions (Suc n) N s =
     (let get_buf = get_free_send_buffer (Suc n) (server_wait_completions n N);
          (r, s1) = ibv_poll_cq s
      in case r of
           None \<Rightarrow> teardown_server_connection N get_buf s1 1
         | Some (wcs, ms) \<Rightarrow>
             handle_completions N get_buf wcs
               (s1\<lparr>sctx := (sctx s1)\<lparr>in_buf := arrive ms (in_buf (sctx s1))\<rparr>\<rparr>))"

section \<open>Pending requests\<close>

text \<open>The check of the queue pairs, at most once a second.\<close>

fun check_states :: "nic \<Rightarrow> nat list \<Rightarrow> server \<Rightarrow> stop + server" where
  "check_states N [] s = Inr s"
| "check_states N (j # js) s =
     (case c_qp (conns s ! j) of
        None \<Rightarrow> check_states N js s
      | Some qp \<Rightarrow>
          if qp_state N (verbs s) = Some False then
            bnd (lift_rqs (invalidate_requests_by_qp (rqs s) qp) (tick s)) (\<lambda>s1.
            bnd (remove_connection N s1 (qp_num qp)) (\<lambda>(_, s2). check_states N js s2))
          else check_states N js (tick s))"

definition retry_request :: "nic \<Rightarrow> get_buffer \<Rightarrow> server \<Rightarrow> ptr option \<Rightarrow> stop + server" where
  "retry_request N get_buf s p =
     bnd (rload (rqs s) p) (\<lambda>r.
     case opcode_of (opcode (r_headers r)) of
       Some SET_REQUEST_OPCODE \<Rightarrow>
         bnd (not_null (r_buffer r)) (\<lambda>b.
         bnd (not_null (r_qp r)) (\<lambda>qp.
         bnd (handle_set_request N get_buf s qp (r_headers r) b (r_info r)) (\<lambda>(_, s1). Inr s1)))
     | Some GET_REQUEST_OPCODE \<Rightarrow>
         bnd (not_null (r_buffer r)) (\<lambda>b.
         bnd (not_null (r_qp r)) (\<lambda>qp.
         bnd (handle_get_request N get_buf s qp (r_headers r) b (r_info r)) (\<lambda>(_, s1). Inr s1)))
     | _ \<Rightarrow> Inr s)"

text \<open>\<open>k\<close> rounds are left, \<open>i\<close> is the loop variable.\<close>

fun retry_loop :: "nat \<Rightarrow> nat \<Rightarrow> nic \<Rightarrow> get_buffer \<Rightarrow> server \<Rightarrow> stop + server" where
  "retry_loop 0 i N get_buf s = Inr s"
| "retry_loop (Suc k) i N get_buf s =
     (if SERVER_WC_BATCH < i then Inr s
      else
        bnd (pop_pending_request (rqs s)) (\<lambda>(p, q).
        bnd (retry_request N get_buf (s\<lparr>rqs := q\<rparr>) p) (retry_loop k (Suc i) N get_buf)))"

definition handle_pending_request :: "nic \<Rightarrow> get_buffer \<Rightarrow> server \<Rightarrow> stop + server" where
  "handle_pending_request N get_buf s =
     bnd (pending_req_count (rqs s)) (\<lambda>n0.
     let s0 = tick s
     in bnd (if recheck N (verbs s)
             then bnd (check_states N [0..<MAX_CLIENTS_SUPPORTED] s0) (\<lambda>s1.
                  bnd (pending_req_count (rqs s1)) (\<lambda>n. Inr (n, s1)))
             else Inr (n0, s0)) (\<lambda>(n, s1).
        retry_loop n 0 N get_buf s1))"

end
