(* ===== verification/Handlers.thy ===== *)
theory Handlers
  imports Server
begin

text \<open>
  What the handlers of \<open>Server\<close> do: the invariant of the server, and for SET and GET, on every
  branch (value in the message or by RDMA, entry locked or free), what is stored, what is sent
  and which lock is held afterwards.
\<close>

section \<open>The invariant\<close>

definition conns_ok :: "server \<Rightarrow> bool" where
  "conns_ok s \<longleftrightarrow>
     length (conns s) = MAX_CLIENTS_SUPPORTED \<and>
     (\<forall>c \<in> set (conns s). length (c_in_use c) = SERVER_NUM_RECV_BUFFS) \<and>
     (\<forall>i < MAX_CLIENTS_SUPPORTED. \<forall>qp. c_qp (conns s ! i) = Some qp \<longrightarrow>
        qp_ptr qp \<in> set (live_qps s) \<and> qp_num qp \<noteq> 0) \<and>
     (\<forall>i < MAX_CLIENTS_SUPPORTED. \<forall>j < MAX_CLIENTS_SUPPORTED. \<forall>qp qp'.
        c_qp (conns s ! i) = Some qp \<longrightarrow> c_qp (conns s ! j) = Some qp' \<longrightarrow> i \<noteq> j \<longrightarrow>
        qp_ptr qp \<noteq> qp_ptr qp')"

definition server_inv :: "nic \<Rightarrow> server \<Rightarrow> ptr list \<Rightarrow> bool" where
  "server_inv N s xs \<longleftrightarrow>
     req_inv (host N) (\<lambda>_. 0) (rqs s) xs \<and> ctx_wf (sctx s) \<and> conns_ok s"

text \<open>An entry is busy when a transfer on it is awaited.\<close>

definition busy :: "requests \<Rightarrow> byte list \<Rightarrow> bool" where
  "busy q k \<longleftrightarrow> (\<exists>p \<in> set (internal_db (q_db q)). db_key (q_db q) p = Some k \<and> 0 < fins q p)"

text \<open>The key of the entry on which the transfer that \<open>w\<close> stands for is awaited.\<close>

definition transfer_key :: "requests \<Rightarrow> ptr \<Rightarrow> byte list option" where
  "transfer_key q w = (case r_target q w of None \<Rightarrow> None | Some p \<Rightarrow> db_key (q_db q) p)"

text \<open>Entries stay in the table, under their keys.\<close>

definition keeps_keys :: "db \<Rightarrow> db \<Rightarrow> bool" where
  "keeps_keys d d' \<longleftrightarrow> (\<forall>a \<in> set (internal_db d). a \<in> set (internal_db d') \<and> db_key d' a = db_key d a)"

lemma keeps_keys_refl [simp]: "keeps_keys d d"
  by (simp add: keeps_keys_def)

lemma keeps_keys_trans: "keeps_keys d d1 \<Longrightarrow> keeps_keys d1 d' \<Longrightarrow> keeps_keys d d'"
  by (simp add: keeps_keys_def)

lemma db_same_keeps: "db_same d d' \<Longrightarrow> keeps_keys d d'"
  by (simp add: keeps_keys_def db_same_key) (simp add: db_same_def)

lemma set_db_simps [simp]:
  "rqs (set_db s d) = (rqs s)\<lparr>q_db := d\<rparr>" "sctx (set_db s d) = sctx s" "conns (set_db s d) = conns s"
  "sent (set_db s d) = sent s" "live_qps (set_db s d) = live_qps s" "verbs (set_db s d) = verbs s"
  "polls (set_db s d) = polls s" "num_conns (set_db s d) = num_conns s"
  by (simp_all add: set_db_def)

lemma tick_simps [simp]:
  "rqs (tick s) = rqs s" "sctx (tick s) = sctx s" "conns (tick s) = conns s" "sent (tick s) = sent s"
  "live_qps (tick s) = live_qps s" "polls (tick s) = polls s" "num_conns (tick s) = num_conns s"
  by (simp_all add: tick_def)

lemma conns_ok_cong: "conns s' = conns s \<Longrightarrow> live_qps s' = live_qps s \<Longrightarrow> conns_ok s' = conns_ok s"
  by (simp add: conns_ok_def)

lemma req_inv_db: "req_inv W x q xs \<Longrightarrow> db_inv W (q_db q)"
  by (simp add: req_inv_def req_locks_def)

section \<open>Lookup or creation\<close>

lemma empty_value_ok: "plentiful W \<Longrightarrow> empty_value W s = Some [NUL]"
  by (simp add: empty_value_def plentiful_def)

text \<open>
  The entry of a key after the lookup: there it is, unchanged, or it is new, with the empty
  value and a free lock.
\<close>

lemma find_or_create_ok:
  assumes inv: "req_inv (host N) (\<lambda>_. 0) (rqs s) xs" and W: "plentiful (host N)"
    and k: "storable (db_page_size (q_db (rqs s))) k []"
  obtains p e d where "find_or_create (host N) s (k @ NUL # r) (Some [NUL]) = Inr (Some p, set_db s d)"
    "req_inv (host N) (\<lambda>_. 0) ((rqs s)\<lparr>q_db := d\<rparr>) xs"
    "p \<in> set (internal_db d)" "db_heap (dmem d) p = Some e" "entry_key e = Some k"
    "db_abs d = (case db_abs (q_db (rqs s)) k of None \<Rightarrow> (db_abs (q_db (rqs s)))(k \<mapsto> []) | Some v \<Rightarrow> db_abs (q_db (rqs s)))"
    "db_page_size d = db_page_size (q_db (rqs s))"
    "0 < fins (rqs s) p \<longleftrightarrow> busy (rqs s) k"
    "db_abs (q_db (rqs s)) k \<noteq> None \<longrightarrow> d = q_db (rqs s)"
    "db_abs (q_db (rqs s)) k = None \<longrightarrow> e_size e = 0 \<and> e_lock e = Free" "keeps_keys (q_db (rqs s)) d"
proof -
  let ?d = "q_db (rqs s)"
  have dinv: "db_inv (host N) ?d" and shape: "req_shape (host N) {} (rqs s) xs"
    and locks: "req_locks (host N) (\<lambda>_. 0) (rqs s)"
    using inv by (simp_all add: req_inv_def req_locks_def)
  have k0: "NUL \<notin> set k" "k \<noteq> []" using k by (simp_all add: storable_def)
  have tab: "table_ok (db_key ?d) (internal_db ?d)" using dinv by (simp add: db_inv_def)
  from dinv k0(1) show ?thesis
  proof (cases rule: db_get_cases [where k = k])
    case (there p e)
    have "\<And>a. a \<in> set (internal_db ?d) \<Longrightarrow> db_key ?d a = Some k \<Longrightarrow> a = p"
      using ht.ok_inj [OF tab _ there(2)] there(6) by simp
    then have "0 < fins (rqs s) p \<longleftrightarrow> busy (rqs s) k"
      unfolding busy_def using there(2,6) by blast
    then show ?thesis
      using that [of p ?d e] there inv
      by (simp add: find_or_create_def set_db_def)
  next
    case absent
    have st: "NUL \<notin> set k" "k \<noteq> []" "length k < key_room (db_page_size ?d)" "length k + 1 < 2 ^ 32"
      "NUL \<notin> set []" "length [] < 2 * key_room (db_page_size ?d)" "length [] < 2 ^ 32"
      using k by (auto simp: storable_def)
    obtain p e d where
      ins: "db_insert (host N) ?d (k @ NUL # r) ([] @ NUL # []) = Inr d"
        "p \<notin> set (internal_db ?d)" "internal_db d = internal_db ?d @ [p]"
        "db_heap (dmem d) p = Some e" "entry_ok e" "entry_key e = Some k" "entry_val e = []"
        "e_lock e = Free" "unat (e_size e) = length ([] :: byte list)"
        "\<forall>q \<in> set (internal_db ?d). db_heap (dmem d) q = db_heap (dmem ?d) q"
        "db_page_size d = db_page_size ?d" "db_inv (host N) d"
      by (rule db_insert_fresh [OF dinv W absent(2) st, where r = r and r' = "[]"])
    have p: "p \<in> set (internal_db d)" using ins(3) by simp
    have "db_get d (k @ NUL # r) = Inr (Some p)"
      using db_get_there [OF ins(12) k0(1) p] ins(4,6) by (simp add: db_key_def)
    then have run: "find_or_create (host N) s (k @ NUL # r) (Some [NUL]) = Inr (Some p, set_db s d)"
      using absent(1) ins(1) by (simp add: find_or_create_def insert_value_def set_db_def)
    have "req_locks (host N) (\<lambda>_. 0) ((rqs s)\<lparr>q_db := d\<rparr>)" and z: "fins (rqs s) p = 0"
      using locks_fresh [OF locks ins(12,3,2,4,8) _ ins(10)] by simp_all
    then have inv': "req_inv (host N) (\<lambda>_. 0) ((rqs s)\<lparr>q_db := d\<rparr>) xs"
      using shape by (simp add: req_inv_def)
    have "db_abs d = (db_abs ?d)(k \<mapsto> [])"
      using db_abs_add [OF dinv ins(12,3,4,6,10)] ins(7) by simp
    moreover have "keeps_keys ?d d" using ins(3,10) by (simp add: keeps_keys_def db_key_def)
    moreover have "\<not> busy (rqs s) k" using absent(2) by (auto simp: busy_def)
    ultimately show ?thesis
      using that [OF run inv' p ins(4,6)] absent(3) ins(8,9,11) z by (simp add: unat_eq_zero)
  qed
qed

lemma busy_fins:
  assumes "req_inv W x q xs" and "p \<in> set (internal_db (q_db q))" and "db_key (q_db q) p = Some k"
  shows "busy q k \<longleftrightarrow> 0 < fins q p"
proof -
  have tab: "table_ok (db_key (q_db q)) (internal_db (q_db q))"
    using req_inv_db [OF assms(1)] by (simp add: db_inv_def)
  have "\<And>a. a \<in> set (internal_db (q_db q)) \<Longrightarrow> db_key (q_db q) a = Some k \<Longrightarrow> a = p"
    using ht.ok_inj [OF tab _ assms(2)] assms(3) by simp
  then show ?thesis unfolding busy_def using assms(2,3) by blast
qed

lemma fins_db [simp]: "fins (q\<lparr>q_db := d\<rparr>) p = fins q p"
  by (simp add: fins_def)

text \<open>The recorded size of the value of a key.\<close>

definition stored_size :: "db \<Rightarrow> byte list \<Rightarrow> nat" where
  "stored_size d k =
     (case find (\<lambda>p. db_key d p = Some k) (internal_db d) of
        None \<Rightarrow> 0
      | Some p \<Rightarrow> (case db_heap (dmem d) p of None \<Rightarrow> 0 | Some e \<Rightarrow> unat (e_size e)))"

lemma find_key:
  assumes inv: "db_inv W d" and p: "p \<in> set (internal_db d)" "db_key d p = Some k"
  shows "find (\<lambda>p. db_key d p = Some k) (internal_db d) = Some p"
proof -
  have tab: "table_ok (db_key d) (internal_db d)" using inv by (simp add: db_inv_def)
  show ?thesis
  proof (cases "find (\<lambda>p. db_key d p = Some k) (internal_db d)")
    case None
    then show ?thesis using p by (simp add: find_None_iff)
  next
    case (Some a)
    then have "a \<in> set (internal_db d)" "db_key d a = Some k" by (auto simp: find_Some_iff)
    then show ?thesis using ht.ok_inj [OF tab _ p(1)] p(2) Some by simp
  qed
qed

lemma fins_removed:
  assumes "removed q t q'" and "fins q p = 0"
  shows "fins q' p = 0"
proof -
  have "r_target q' w \<noteq> Some p" if "w \<in> set (waiting_fin_q q')" for w
  proof -
    have "w \<in> set (waiting_fin_q q)" "r_target q' w = r_target q w"
      using assms(1) that by (auto simp: removed_def r_target_def)
    then show ?thesis using assms(2) by (force simp: fins_def count_list_0_iff image_iff)
  qed
  then show ?thesis by (force simp: fins_def count_list_0_iff)
qed

section \<open>SET with the value in the message\<close>

text \<open>The handler holds the write lock of \<open>p\<close>.\<close>

lemma set_eager_ok:
  assumes inv: "req_inv (host N) ((\<lambda>_. 0)(p := Suc 0)) (rqs s) xs" and W: "plentiful (host N)"
    and p: "p \<in> set (internal_db (q_db (rqs s)))" "db_heap (dmem (q_db (rqs s))) p = Some e" "entry_key e = Some k"
    and k: "NUL \<notin> set k" "unat (keylen h) = length k"
    and v: "NUL \<notin> set v" "length v + 1 < 2 ^ 32"
  obtains q' where "set_eager N s (Some p) h (k @ NUL # v @ NUL # r) = Inr (s\<lparr>rqs := q'\<rparr>)"
    "req_inv (host N) (\<lambda>_. 0) q' (without (rqs s) (tid h) xs)"
    "db_abs (q_db q') = (db_abs (q_db (rqs s)))(k \<mapsto> v)"
    "db_page_size (q_db q') = db_page_size (q_db (rqs s))"
    "\<exists>d. removed ((rqs s)\<lparr>q_db := d\<rparr>) (tid h) q'"
    "stored_size (q_db q') k = Suc (length v)" "fins (rqs s) p = 0 \<longrightarrow> \<not> busy q' k"
    "keeps_keys (q_db (rqs s)) (q_db q')"
proof -
  let ?q = "rqs s" and ?d = "q_db (rqs s)"
  have dinv: "db_inv (host N) ?d" and shape: "req_shape (host N) {} ?q xs"
    and locks: "req_locks (host N) ((\<lambda>_. 0)(p := Suc 0)) ?q"
    using inv by (simp_all add: req_inv_def req_locks_def)
  obtain e' d' where
    ins: "db_insert (host N) ?d (k @ NUL # (v @ NUL # r)) (v @ NUL # r) = Inr d'"
      "updates_entry ?d d' p e'" "entry_ok e'" "entry_key e' = Some k" "entry_val e' = v"
      "e_lock e' = e_lock e" "e_readers e' = e_readers e" "e_writers e' = e_writers e"
      "unat (e_size e') = length v + 1" "db_inv (host N) d'"
    by (rule db_insert_old [OF dinv W p k(1) v, where r = "v @ NUL # r" and r' = r])
  have holds: "holds e' = holds e" using ins(7,8) by (simp add: holds_def)
  have l1: "req_locks (host N) ((\<lambda>_. 0)(p := Suc 0)) (?q\<lparr>q_db := d'\<rparr>)"
    by (rule locks_updates [OF locks ins(2,10) p(2) holds])
  have p1: "p \<in> set (internal_db (q_db (?q\<lparr>q_db := d'\<rparr>)))"
    using p(1) ins(2) by (simp add: updates_entry_def)
  from locks_unlock [OF l1 p1, of 0] obtain e2 where
    un: "db_entry_unlock d' (Some p) = Inr (True, store d' p e2)"
      "req_locks (host N) (((\<lambda>_. 0)(p := Suc 0))(p := 0)) (?q\<lparr>q_db := d'\<rparr>\<lparr>q_db := store d' p e2\<rparr>)"
      "db_same d' (store d' p e2)"
    by auto
  have zero: "((\<lambda>_. 0)(p := Suc 0))(p := 0) = (\<lambda>_. 0 :: nat)" by auto
  let ?q2 = "?q\<lparr>q_db := store d' p e2\<rparr>"
  have inv2: "req_inv (host N) (\<lambda>_. 0) ?q2 xs"
    using un(2) shape unfolding zero by (simp add: req_inv_def)
  obtain q' where q': "remove_server_pending_request ?q2 (tid h) = Inr q'"
    "req_inv (host N) (\<lambda>_. 0) q' (without ?q2 (tid h) xs)" "removed ?q2 (tid h) q'"
    by (rule remove_ok [OF inv2])
  have same: "db_same d' (q_db q')"
    using db_same_trans [OF un(3)] q'(3) by (simp add: removed_def)
  have "db_abs d' = (db_abs ?d)(k \<mapsto> v)"
    using db_abs_updates [OF dinv p(1,2) ins(3,4) p(3) ins(2)] ins(5) by simp
  then have abs: "db_abs (q_db q') = (db_abs ?d)(k \<mapsto> v)" using db_same_abs [OF same] by simp
  have "drop (unat (keylen h) + 1) (k @ NUL # v @ NUL # r) = v @ NUL # r"
    using k(2) by simp
  then have "set_eager N s (Some p) h (k @ NUL # v @ NUL # r) = Inr (s\<lparr>rqs := q'\<rparr>)"
    using ins(1) un(1) q'(1) by (simp add: set_eager_def Let_def lift_rqs_def)
  moreover have "without ?q2 (tid h) xs = without ?q (tid h) xs" by (simp add: without_def)
  moreover have "db_page_size (q_db q') = db_page_size ?d"
    using same ins(2) by (simp add: db_same_def updates_entry_def)
  moreover have there: "p \<in> set (internal_db (q_db q'))" "db_key (q_db q') p = Some k"
  proof -
    have "db_key d' p = Some k" using ins(2,4) by (simp add: updates_entry_def db_key_def)
    then show "db_key (q_db q') p = Some k" using db_same_key [OF same] by simp
    show "p \<in> set (internal_db (q_db q'))" using same ins(2) p(1) by (simp add: db_same_def updates_entry_def)
  qed
  moreover have "stored_size (q_db q') k = Suc (length v)"
  proof -
    obtain e3 where "db_heap (dmem (q_db q')) p = Some e3" "same_but_lock e' e3"
      using same ins(2) by (force simp: db_same_def updates_entry_def)
    then show ?thesis
      using find_key [OF req_inv_db [OF q'(2)] there] same_but_lock_simps(3) ins(9) by (simp add: stored_size_def)
  qed
  moreover have "keeps_keys ?d d'"
    using ins(2,4) p(2,3) by (auto simp: keeps_keys_def updates_entry_def db_key_def)
  then have "keeps_keys ?d (q_db q')" using keeps_keys_trans db_same_keeps [OF same] by blast
  moreover have "\<not> busy q' k" if "fins ?q p = 0"
    using busy_fins [OF q'(2) there] fins_removed [OF q'(3), of p] that by simp
  ultimately show ?thesis using q'(2,3) abs by (intro that [of q']) auto
qed

text \<open>
  The lengths of a message whose value is in it: the sum is computed in 32 bits.
\<close>

lemma eager_lengths:
  assumes "length k + length v + 2 \<le> CLIENT_REQUEST_PAYLOAD_LEN"
  shows "(ucast (of_nat (length v) :: 64 word) :: 32 word) + of_nat (length k) + 2
    \<le> of_nat CLIENT_REQUEST_PAYLOAD_LEN"
    and "unat (of_nat (length k) :: 32 word) = length k"
proof -
  have v: "(ucast (of_nat (length v) :: 64 word) :: 32 word) = of_nat (length v)"
    using assms by (subst of_nat_unat [symmetric]) (simp add: unat_of_nat64)
  have sum: "(of_nat (length v) :: 32 word) + of_nat (length k) + 2 = of_nat (length v + length k + 2)" by simp
  have un: "unat (of_nat (length v + length k + 2) :: 32 word) = length v + length k + 2"
    "unat (of_nat CLIENT_REQUEST_PAYLOAD_LEN :: 32 word) = CLIENT_REQUEST_PAYLOAD_LEN"
    using assms by (intro unat_of_nat32; simp)+
  show "(ucast (of_nat (length v) :: 64 word) :: 32 word) + of_nat (length k) + 2
      \<le> of_nat CLIENT_REQUEST_PAYLOAD_LEN"
    unfolding v sum word_le_nat_alt un using assms by simp
  show "unat (of_nat (length k) :: 32 word) = length k"
    using assms by (intro unat_of_nat32) simp
qed

lemma storable_Nil: "storable page k v \<Longrightarrow> storable page k []"
  by (auto simp: storable_def)

lemma abs_upd_created:
  "(case m k of None \<Rightarrow> m(k \<mapsto> a) | Some v \<Rightarrow> m)(k \<mapsto> b) = m(k \<mapsto> b)"
  by (simp split: option.split)

lemma set_stores:
  assumes inv: "req_inv (host N) (\<lambda>_. 0) (rqs s) xs" and W: "plentiful (host N)"
    and kv: "storable (db_page_size (q_db (rqs s))) k v"
    and fit: "length k + length v + 2 \<le> CLIENT_REQUEST_PAYLOAD_LEN"
    and free: "\<not> busy (rqs s) k"
    and h: "keylen h = of_nat (length k)" "buflen h = of_nat (length v)"
  obtains q' where "handle_set_request N gb s qp h (k @ NUL # v @ NUL # r) info = Inr (0, s\<lparr>rqs := q'\<rparr>)"
    "req_inv (host N) (\<lambda>_. 0) q' (without (rqs s) (tid h) xs)"
    "db_abs (q_db q') = (db_abs (q_db (rqs s)))(k \<mapsto> v)"
    "db_page_size (q_db q') = db_page_size (q_db (rqs s))"
    "\<exists>d. removed ((rqs s)\<lparr>q_db := d\<rparr>) (tid h) q'"
    "stored_size (q_db q') k = Suc (length v)" "\<not> busy q' k" "keeps_keys (q_db (rqs s)) (q_db q')"
proof -
  have v: "NUL \<notin> set k" "NUL \<notin> set v" "length v + 1 < 2 ^ 32" using kv by (auto simp: storable_def)
  obtain p e d where
    fc: "find_or_create (host N) s (k @ NUL # v @ NUL # r) (Some [NUL]) = Inr (Some p, set_db s d)"
      "req_inv (host N) (\<lambda>_. 0) ((rqs s)\<lparr>q_db := d\<rparr>) xs"
      "p \<in> set (internal_db d)" "db_heap (dmem d) p = Some e" "entry_key e = Some k"
      "db_abs d = (case db_abs (q_db (rqs s)) k of None \<Rightarrow> (db_abs (q_db (rqs s)))(k \<mapsto> []) | Some v \<Rightarrow> db_abs (q_db (rqs s)))"
      "db_page_size d = db_page_size (q_db (rqs s))" "0 < fins (rqs s) p \<longleftrightarrow> busy (rqs s) k"
      "keeps_keys (q_db (rqs s)) d"
    by (rule find_or_create_ok [OF inv W storable_Nil [OF kv], where r = "v @ NUL # r"])
  have locks: "req_locks (host N) (\<lambda>_. 0) ((rqs s)\<lparr>q_db := d\<rparr>)" and shape: "req_shape (host N) {} (rqs s) xs"
    using fc(2) by (simp_all add: req_inv_def)
  have p1: "p \<in> set (internal_db (q_db ((rqs s)\<lparr>q_db := d\<rparr>)))" using fc(3) by simp
  from locks p1 show ?thesis
  proof (cases rule: locks_wr)
    case refused
    then show ?thesis using fc(8) free by simp
  next
    case (taken e')
    let ?s2 = "set_db s (store d p e')"
    have same: "same_but_lock e e'"
      using taken(4) fc(4) by (auto simp: db_same_def split: if_splits)
    have inv2: "req_inv (host N) ((\<lambda>_. 0)(p := Suc 0)) (rqs ?s2) xs"
      using taken(3) shape by (simp add: req_inv_def)
    have e2: "p \<in> set (internal_db (q_db (rqs ?s2)))" "db_heap (dmem (q_db (rqs ?s2))) p = Some e'"
      "entry_key e' = Some k"
      using fc(3,5) same_but_lock_simps(1) [OF same] by simp_all
    obtain q' where
      q': "set_eager N ?s2 (Some p) h (k @ NUL # v @ NUL # r) = Inr (?s2\<lparr>rqs := q'\<rparr>)"
        "req_inv (host N) (\<lambda>_. 0) q' (without (rqs ?s2) (tid h) xs)"
        "db_abs (q_db q') = (db_abs (q_db (rqs ?s2)))(k \<mapsto> v)"
        "db_page_size (q_db q') = db_page_size (q_db (rqs ?s2))"
        "\<exists>d. removed ((rqs ?s2)\<lparr>q_db := d\<rparr>) (tid h) q'"
        "stored_size (q_db q') k = Suc (length v)" "fins (rqs ?s2) p = 0 \<longrightarrow> \<not> busy q' k"
        "keeps_keys (q_db (rqs ?s2)) (q_db q')"
      using set_eager_ok [OF inv2 W e2 v(1) _ v(2,3), where h = h and r = r] h(1) eager_lengths(2) [OF fit]
      by metis
    have abs: "db_abs (store d p e') = db_abs d" using db_same_abs [OF taken(4)] by simp
    have "db_abs (q_db q') = (db_abs (q_db (rqs s)))(k \<mapsto> v)"
      using q'(3) by (simp add: abs fc(6) abs_upd_created)
    moreover have "set_db (set_db s d) (store d p e') = ?s2" by (simp add: set_db_def)
    then have "handle_set_request N gb s qp h (k @ NUL # v @ NUL # r) info = Inr (0, s\<lparr>rqs := q'\<rparr>)"
      using fc(1) taken(2) q'(1) eager_lengths(1) [OF fit] h
      by (simp add: handle_set_request_def Let_def set_db_def)
    moreover have "without (rqs ?s2) (tid h) xs = without (rqs s) (tid h) xs"
      by (simp add: without_def)
    moreover have "db_page_size (q_db q') = db_page_size (q_db (rqs s))" using q'(4) fc(7) by simp
    moreover have "\<not> busy q' k" using q'(7) fc(8) free by simp
    moreover have "keeps_keys d (q_db (rqs ?s2))" using db_same_keeps [OF taken(4)] by simp
    then have "keeps_keys (q_db (rqs s)) (q_db q')" using fc(9) q'(8) keeps_keys_trans by blast
    ultimately show ?thesis using q'(2,5,6) by (intro that [of q']) auto
  qed
qed

text \<open>Which keys are busy after a request has left the collections.\<close>

lemma busy_iff:
  assumes "req_inv W x q xs"
  shows "busy q k \<longleftrightarrow> (\<exists>w \<in> set (waiting_fin_q q). transfer_key q w = Some k)"
proof -
  have "\<exists>p \<in> set (internal_db (q_db q)). r_target q w = Some p" if "w \<in> set (waiting_fin_q q)" for w
    using assms that by (auto simp: req_inv_def req_locks_def)
  moreover have "0 < fins q p \<longleftrightarrow> (\<exists>w \<in> set (waiting_fin_q q). r_target q w = Some p)" for p
    by (force simp: fins_def count_list_0_iff neq0_conv [symmetric] simp del: neq0_conv)
  ultimately show ?thesis by (fastforce simp: busy_def transfer_key_def split: option.splits)
qed

lemma busy_removed:
  assumes inv: "req_inv W x q xs" and inv': "req_inv W x' q' ys" and rem: "removed (q\<lparr>q_db := d\<rparr>) t q'"
    and keys: "keeps_keys (q_db q) (q_db q')"
  shows "busy q' k \<longleftrightarrow> (\<exists>w \<in> set (waiting_fin_q q). req_key q w \<noteq> Some (uint t) \<and> transfer_key q w = Some k)"
proof -
  have "transfer_key q' w = transfer_key q w" if w: "w \<in> set (waiting_fin_q q')" for w
  proof -
    have "w \<in> set (waiting_fin_q q)" "r_target q' w = r_target q w"
      using rem w by (auto simp: removed_def r_target_def)
    moreover obtain p where "p \<in> set (internal_db (q_db q))" "r_target q w = Some p"
      using inv calculation(1) by (auto simp: req_inv_def req_locks_def)
    ultimately show ?thesis using keys by (simp add: transfer_key_def keeps_keys_def)
  qed
  moreover have "set (waiting_fin_q q') = {w \<in> set (waiting_fin_q q). req_key q w \<noteq> Some (uint t)}"
    using rem by (auto simp: removed_def req_key_def)
  ultimately show ?thesis unfolding busy_iff [OF inv'] by auto
qed

text \<open>A request on a busy key goes to the queue; this is the same for SET and GET.\<close>

lemma busy_key:
  assumes inv: "req_inv W (\<lambda>_. 0) q xs" and b: "busy q k" and k: "NUL \<notin> set k"
  obtains p where "p \<in> set (internal_db (q_db q))" "db_key (q_db q) p = Some k" "0 < fins q p"
    "\<And>r. db_get (q_db q) (k @ NUL # r) = Inr (Some p)"
    "db_entry_lock_wr (q_db q) (Some p) = Inr (False, q_db q)"
proof -
  obtain p where p: "p \<in> set (internal_db (q_db q))" "db_key (q_db q) p = Some k" "0 < fins q p"
    using b by (auto simp: busy_def)
  have get: "db_get (q_db q) (k @ NUL # r) = Inr (Some p)" for r
    by (rule db_get_there [OF req_inv_db [OF inv] k p(1,2)])
  have locks: "req_locks W (\<lambda>_. 0) q" using inv by (simp add: req_inv_def)
  from locks p(1) have "db_entry_lock_wr (q_db q) (Some p) = Inr (False, q_db q)"
    by (cases rule: locks_wr) (use p(3) in auto)
  from that [OF p get this] show ?thesis .
qed

lemma set_waits:
  assumes inv: "req_inv (host N) (\<lambda>_. 0) (rqs s) xs" and b: "busy (rqs s) k" and k: "NUL \<notin> set k"
  shows "handle_set_request N gb s qp h (k @ NUL # r) info =
    bnd (push_pending_request (host N) (rqs s) (tid h) info h (k @ NUL # r) qp)
      (\<lambda>q. Inr (1, s\<lparr>rqs := q\<rparr>))"
proof (rule busy_key [OF inv b k])
  fix p
  assume "\<And>r. db_get (q_db (rqs s)) (k @ NUL # r) = Inr (Some p)"
    "db_entry_lock_wr (q_db (rqs s)) (Some p) = Inr (False, q_db (rqs s))"
  then show ?thesis
    by (cases "push_pending_request (host N) (rqs s) (tid h) info h (k @ NUL # r) qp")
      (simp_all add: handle_set_request_def find_or_create_def lift_rqs_def)
qed

section \<open>Sending\<close>

definition transmitted :: "nic \<Rightarrow> server \<Rightarrow> ibv_qp \<Rightarrow> byte list \<Rightarrow> (32 word \<times> byte list) list" where
  "transmitted N s qp bs = (if send_ok N (verbs s) then [(qp_num qp, bs)] else [])"

definition msg_sent :: "nic \<Rightarrow> server \<Rightarrow> ibv_qp \<Rightarrow> nat \<Rightarrow> byte list \<Rightarrow> server" where
  "msg_sent N s qp i bs =
     (tick s)\<lparr>sctx := (sctx s)\<lparr>out_buf := splice (out_buf (sctx s)) (get_send_buffer i) bs\<rparr>,
              sent := sent s @ transmitted N s qp bs\<rparr>"

lemma msg_sent_simps [simp]:
  "rqs (msg_sent N s qp i bs) = rqs s" "conns (msg_sent N s qp i bs) = conns s"
  "live_qps (msg_sent N s qp i bs) = live_qps s"
  "sent (msg_sent N s qp i bs) = sent s @ transmitted N s qp bs"
  "in_use_send (sctx (msg_sent N s qp i bs)) = in_use_send (sctx s)"
  "in_buf (sctx (msg_sent N s qp i bs)) = in_buf (sctx s)"
  by (simp_all add: msg_sent_def)

lemma buffer_room:
  "ctx_wf c \<Longrightarrow> i < SERVER_NUM_SEND_BUFFS \<Longrightarrow> n \<le> BUFFER_SIZE \<Longrightarrow>
   get_send_buffer i + n \<le> length (out_buf c)"
  by (simp add: ctx_wf_def get_send_buffer_def)

lemma msg_sent_wf:
  "ctx_wf (sctx s) \<Longrightarrow> i < SERVER_NUM_SEND_BUFFS \<Longrightarrow> length bs \<le> BUFFER_SIZE \<Longrightarrow>
   ctx_wf (sctx (msg_sent N s qp i bs))"
  using buffer_room [of "sctx s" i "length bs"] by (simp add: msg_sent_def ctx_wf_def)

lemma post_message:
  assumes wf: "ctx_wf (sctx s)" and i: "i < SERVER_NUM_SEND_BUFFS" and len: "length a + length b \<le> BUFFER_SIZE"
    and live: "qp_ptr qp \<in> set (live_qps s)"
  shows "bnd (put_out s (int i) 0 a) (\<lambda>s1. bnd (put_out s1 (int i) (length a) b) (\<lambda>s2.
    server_post_send N s2 qp (of_nat (length a + length b)) (int i))) = Inr (msg_sent N s qp i (a @ b))"
proof -
  have room: "get_send_buffer i + length a + length b \<le> length (out_buf (sctx s))"
    using buffer_room [OF wf i len] by simp
  have n: "unat (of_nat (length a + length b) :: 32 word) = length a + length b"
    using len by (intro unat_of_nat32) simp
  have read: "take (length a + length b) (drop (get_send_buffer i) (splice (out_buf (sctx s)) (get_send_buffer i) (a @ b)))
      = a @ b"
    using room take_splice_same [of "get_send_buffer i" "a @ b" "out_buf (sctx s)"] by simp
  show ?thesis
    using room live read
    by (simp add: put_out_def server_post_send_def mem_write_def mem_read_def splice_append n
        msg_sent_def transmitted_def tick_def add.assoc del: of_nat_add)
qed

lemma post_message_at:
  assumes "ctx_wf (sctx s)" and "i < SERVER_NUM_SEND_BUFFS" and "length a + length b \<le> BUFFER_SIZE"
    and "qp_ptr qp \<in> set (live_qps s)" and "length a = m" and "length a + length b = n"
  shows "bnd (put_out s (int i) 0 a) (\<lambda>s1. bnd (put_out s1 (int i) m b) (\<lambda>s2.
    server_post_send N s2 qp (of_nat n) (int i))) = Inr (msg_sent N s qp i (a @ b))"
  using post_message [OF assms(1-4)] assms(5,6) by auto

lemma post_header:
  assumes "ctx_wf (sctx s)" and "i < SERVER_NUM_SEND_BUFFS" and "length a \<le> BUFFER_SIZE"
    and "qp_ptr qp \<in> set (live_qps s)"
  shows "bnd (put_out s (int i) 0 a) (\<lambda>s1. server_post_send N s1 qp (of_nat (length a)) (int i)) =
    Inr (msg_sent N s qp i a)"
proof -
  have room: "get_send_buffer i + length a \<le> length (out_buf (sctx s))"
    by (rule buffer_room [OF assms(1-3)])
  have n: "unat (of_nat (length a) :: 32 word) = length a"
    using assms(3) by (intro unat_of_nat32) simp
  show ?thesis
    using room assms(4) take_splice_same [OF room]
    by (simp add: put_out_def server_post_send_def mem_write_def mem_read_def n msg_sent_def
        transmitted_def tick_def)
qed

text \<open>With a free send buffer, acquiring one does not wait.\<close>

lemma get_free_ok:
  assumes wf: "ctx_wf (sctx s)" and free: "\<exists>i < SERVER_NUM_SEND_BUFFS. \<not> in_use_send (sctx s) ! i"
  obtains i c where "get_free_send_buffer (Suc n) wait s = Inr (int i, s\<lparr>sctx := c\<rparr>)"
    "i < SERVER_NUM_SEND_BUFFS" "\<not> in_use_send (sctx s) ! i" "ctx_wf c" "in_buf c = in_buf (sctx s)"
    "out_buf c = out_buf (sctx s)" "in_use_send c = (in_use_send (sctx s))[i := True]"
    "in_use_recv c = in_use_recv (sctx s)"
proof -
  let ?u = "in_use_send (sctx s)" and ?l = "last_used_send_buff (sctx s)"
  have len: "length ?u = SERVER_NUM_SEND_BUFFS" "?l < length ?u" using wf by (simp_all add: ctx_wf_def)
  obtain i where i: "first_free ?u ?l = Some i"
    using first_free_None [OF len(2)] free len(1) by (cases "first_free ?u ?l") auto
  have ib: "i < SERVER_NUM_SEND_BUFFS" "\<not> ?u ! i" using first_free_Some [OF i] len(1) by auto
  let ?c = "(sctx s)\<lparr>last_used_send_buff := i, in_use_send := ?u[i := True]\<rparr>"
  have "get_free_send_buffer (Suc n) wait s = Inr (int i, s\<lparr>sctx := ?c\<rparr>)"
    using i ib len(1)
    by (simp add: get_free_send_buffer.simps get_free_send_idx_eq [OF wf] lift_ctx_def flag_ops)
  moreover have "ctx_wf ?c" using wf ib by (simp add: ctx_wf_def)
  ultimately show ?thesis using ib by (intro that [of i ?c]) simp_all
qed

section \<open>SET by RDMA\<close>

text \<open>
  The entry has its region over its value buffer, and room for \<open>n\<close> bytes.
\<close>

definition announces :: "db \<Rightarrow> ptr \<Rightarrow> 32 word \<Rightarrow> 64 word \<Rightarrow> nat \<Rightarrow> bool" where
  "announces d p rk ra n \<longleftrightarrow>
     (\<exists>e mr vb. db_heap (dmem d) p = Some e \<and> e_mr e = Some mr \<and> e_value e = Some vb \<and>
        mr_rkey mr = rk \<and> mr_addr mr = Some (b_addr vb) \<and> ra = of_nat (b_addr vb) \<and>
        unat (e_size e) = n \<and> n < length (b_data vb))"

lemma announces_same:
  assumes "announces d p rk ra n" and "db_same d d'"
  shows "announces d' p rk ra n"
proof -
  obtain e mr vb where e: "db_heap (dmem d) p = Some e" "e_mr e = Some mr" "e_value e = Some vb"
    "mr_rkey mr = rk" "mr_addr mr = Some (b_addr vb)" "ra = of_nat (b_addr vb)"
    "unat (e_size e) = n" "n < length (b_data vb)" using assms(1) by (auto simp: announces_def)
  obtain e' where e': "db_heap (dmem d') p = Some e'" "same_but_lock e e'"
    using assms(2) e(1) unfolding db_same_def by blast
  show ?thesis
    unfolding announces_def using e e'(1) same_but_lock_simps [OF e'(2)] by auto
qed

lemma entry_key_string:
  assumes "entry_ok e" and "entry_key e = Some k"
  obtains kb r where "e_key e = Some kb" "kb = k @ NUL # r" "NUL \<notin> set k"
proof -
  obtain kb where kb: "e_key e = Some kb" "unat (e_keylen e) < length kb"
    "NUL \<notin> set (take (unat (e_keylen e)) kb)" "kb ! unat (e_keylen e) = NUL"
    using assms(1) by (auto elim: entry_okE)
  then have k: "k = take (unat (e_keylen e)) kb" using assms(2) by (simp add: entry_key_def)
  have "kb = k @ NUL # drop (Suc (unat (e_keylen e))) kb"
    using id_take_nth_drop [OF kb(2)] k kb(4) by simp
  with that kb k show ?thesis by blast
qed

lemma mark_entry:
  assumes inv: "req_inv W ((\<lambda>_. 0)(p := Suc 0)) q xs" and W: "plentiful W"
    and p: "p \<in> set (internal_db (q_db q))" "db_heap (dmem (q_db q)) p = Some e" "entry_key e = Some k"
  obtains kb q' where "e_key e = Some kb" "mark_rdma_fin_required W q t kb n = Inr q'"
    "req_inv W (\<lambda>_. 0) q' (if \<exists>w \<in> set (waiting_fin_q q). req_key q w = Some (uint t) then without q t xs else xs)"
    "busy q' k" "db_same (q_db q) (q_db q')"
    "\<exists>w \<in> set (waiting_fin_q q'). req_key q' w = Some (uint t) \<and> r_target q' w = Some p"
    "set (internal_q q') \<subseteq> set (internal_q q)" "\<forall>a \<in> set (internal_q q'). req_key q' a = req_key q a"
    "(\<forall>w \<in> set (waiting_fin_q q). req_key q w \<noteq> Some (uint t)) \<longrightarrow> fins q' p = Suc (fins q p)"
proof -
  have dinv: "db_inv W (q_db q)" and s: "req_shape W {} q xs"
    and l: "req_locks W ((\<lambda>_. 0)(p := Suc ((\<lambda>_. 0) p))) q"
    using inv by (simp_all add: req_inv_def req_locks_def)
  have eok: "entry_ok e" using entry_ok_live [OF dinv p(1)] p(2) by simp
  obtain kb r where kb: "e_key e = Some kb" "kb = k @ NUL # r" "NUL \<notin> set k"
    by (rule entry_key_string [OF eok p(3)])
  have key: "db_key (q_db q) p = Some k" using p by (simp add: db_key_def)
  have get: "db_get (q_db q) kb = Inr (Some p)"
    unfolding kb(2) by (rule db_get_there [OF dinv kb(3) p(1) key])
  show ?thesis
  proof (rule mark_required_ok [OF s l W p(1) get, of t n])
    fix q' w r'
    assume m: "mark_rdma_fin_required W q t kb n = Inr q'"
      "req_inv W (\<lambda>_. 0) q' (if \<exists>w \<in> set (waiting_fin_q q). req_key q w = Some (uint t) then without q t xs else xs)"
      "w \<in> set (waiting_fin_q q')" "req_heap (q_mem q') w = Some r'" "r_tid r' = uint t" "r_entry r' = Some p"
      "db_same (q_db q) (q_db q')"
      "set (internal_q q') \<subseteq> set (internal_q q)" "\<forall>a \<in> set (internal_q q'). req_key q' a = req_key q a"
      "(\<forall>w \<in> set (waiting_fin_q q). req_key q w \<noteq> Some (uint t)) \<longrightarrow> q_db q' = q_db q"
    have "fins q' p = Suc (fins q p)" if "\<forall>w \<in> set (waiting_fin_q q). req_key q w \<noteq> Some (uint t)"
    proof -
      have "q_db q' = q_db q" using m(10) that by blast
      then have "holds e = int (fins q' p)" using m(2) p(1,2) by (simp add: req_inv_def req_locks_def)
      moreover have "holds e = int (Suc (fins q p))" using l p(1,2) by (simp add: req_locks_def)
      ultimately show ?thesis by simp
    qed
    then have count: "(\<forall>w \<in> set (waiting_fin_q q). req_key q w \<noteq> Some (uint t)) \<longrightarrow> fins q' p = Suc (fins q p)" by blast
    have "0 < fins q' p"
      using count_map_remove1 [OF m(3), of "r_target q'" "Some p"] m(4,6) by (simp add: fins_def r_target_def)
    then have "busy q' k"
      using p(1) key db_same_key [OF m(7)] m(7) unfolding busy_def by (auto simp: db_same_def)
    moreover have "\<exists>w \<in> set (waiting_fin_q q'). req_key q' w = Some (uint t) \<and> r_target q' w = Some p"
      using m(3-6) by (intro bexI [of _ w]) (simp_all add: req_key_def r_target_def)
    ultimately show ?thesis using that [OF kb(1) m(1,2) _ m(7) _ m(8,9) count] by blast
  qed
qed

definition set_reply :: "client_request_headers_t \<Rightarrow> 32 word \<Rightarrow> 32 word \<Rightarrow> 64 word \<Rightarrow> byte list" where
  "set_reply h bl rk ra = enc_server_headers (response_headers RDMA_RKEY_SET (tid h) (keylen h) (ucast bl) rk ra)"

lemma length_set_reply [simp]: "length (set_reply h bl rk ra) = 40"
  by (simp add: set_reply_def)

lemma set_rdma_ok:
  assumes inv: "req_inv (host N) ((\<lambda>_. 0)(p := Suc 0)) (rqs s) xs" and W: "plentiful (host N)"
    and p: "p \<in> set (internal_db (q_db (rqs s)))" "db_heap (dmem (q_db (rqs s))) p = Some e" "entry_key e = Some k"
    and wf: "ctx_wf (sctx s)" and free: "\<exists>i < SERVER_NUM_SEND_BUFFS. \<not> in_use_send (sctx s) ! i"
    and live: "qp_ptr qp \<in> set (live_qps s)"
  obtains s' rk ra where
    "set_rdma N (get_free_send_buffer (Suc n) wait) s qp (Some p) h (k @ NUL # r) = Inr s'"
    "req_inv (host N) (\<lambda>_. 0) (rqs s')
       (if \<exists>w \<in> set (waiting_fin_q (rqs s)). req_key (rqs s) w = Some (uint (tid h))
        then without (rqs s) (tid h) xs else xs)"
    "sent s' = sent s @ transmitted N s qp (set_reply h (ucast (buflen h)) rk ra)"
    "ctx_wf (sctx s')" "conns s' = conns s" "live_qps s' = live_qps s"
    "busy (rqs s') k" "announces (q_db (rqs s')) p rk ra (unat (ucast (buflen h) :: 32 word))"
    "db_key (q_db (rqs s')) p = Some k"
    "\<exists>w \<in> set (waiting_fin_q (rqs s')). req_key (rqs s') w = Some (uint (tid h)) \<and> r_target (rqs s') w = Some p"
    "\<exists>v. db_abs (q_db (rqs s')) = (db_abs (q_db (rqs s)))(k \<mapsto> v)"
    "(\<forall>w \<in> set (waiting_fin_q (rqs s)). req_key (rqs s) w \<noteq> Some (uint (tid h))) \<longrightarrow> fins (rqs s') p = Suc (fins (rqs s) p)"
    "p \<in> set (internal_db (q_db (rqs s')))"
proof -
  let ?q = "rqs s" and ?d = "q_db (rqs s)" and ?bl = "ucast (buflen h) :: 32 word"
  have dinv: "db_inv (host N) ?d" and shape: "req_shape (host N) {} ?q xs"
    and locks: "req_locks (host N) ((\<lambda>_. 0)(p := Suc 0)) ?q"
    using inv by (simp_all add: req_inv_def req_locks_def)
  have n: "unat ?bl < 2 ^ 32" using unsigned_less [of ?bl] by simp
  have eok: "entry_ok e" using entry_ok_live [OF dinv p(1)] p(2) by simp
  have k: "NUL \<notin> set k" using entry_ok_key [OF eok] p(3) by auto
  have get: "db_get ?d (k @ NUL # r) = Inr (Some p)"
    using p by (intro db_get_there [OF dinv k p(1)]) (simp add: db_key_def)
  obtain e' d' where
    re: "reallocate_entry (host N) ?d p (unat ?bl) = Inr d'" "updates_entry ?d d' p e'" "entry_ok e'"
      "entry_key e' = entry_key e" "unat (e_size e') = unat ?bl" "unat ?bl < e_alloc e'"
      "e_readers e' = e_readers e" "e_writers e' = e_writers e" "db_inv (host N) d'"
    using reallocate_entry_ok [OF dinv W p(1,2) n] by metis
  obtain vb mr where vb: "e_value e' = Some vb" "e_mr e' = Some mr" "mr_addr mr = Some (b_addr vb)"
    "length (b_data vb) = e_alloc e'" using re(3) by (auto elim: entry_okE)
  let ?rk = "mr_rkey mr" and ?ra = "of_nat (b_addr vb) :: 64 word"
  have e1: "p \<in> set (internal_db d')" "db_heap (dmem d') p = Some e'" "entry_key e' = Some k"
    using re(2,4) p by (simp_all add: updates_entry_def)
  let ?s1 = "set_db s d'"
  have l1: "req_locks (host N) ((\<lambda>_. 0)(p := Suc 0)) (rqs ?s1)"
    using locks_updates [OF locks re(2,9) p(2)] re(7,8) by (simp add: holds_def)
  obtain i c where
    gb: "get_free_send_buffer (Suc n) wait ?s1 = Inr (int i, ?s1\<lparr>sctx := c\<rparr>)"
      "i < SERVER_NUM_SEND_BUFFS" "ctx_wf c"
    using get_free_ok [of ?s1 n wait] wf free by (metis set_db_simps(2))
  let ?bs = "set_reply h ?bl ?rk ?ra" and ?s2 = "?s1\<lparr>sctx := c\<rparr>"
  let ?s3 = "msg_sent N ?s2 qp i ?bs"
  have post: "bnd (put_out ?s2 (int i) 0 ?bs) (\<lambda>s1. server_post_send N s1 qp (of_nat (length ?bs)) (int i)) = Inr ?s3"
    using gb(2,3) live by (intro post_header) simp_all
  have inv3: "req_inv (host N) ((\<lambda>_. 0)(p := Suc 0)) (rqs ?s3) xs"
    using l1 shape by (simp add: req_inv_def)
  have e3: "p \<in> set (internal_db (q_db (rqs ?s3)))" "db_heap (dmem (q_db (rqs ?s3))) p = Some e'"
    using e1 by simp_all
  obtain kb q' where
    mk: "e_key e' = Some kb" "mark_rdma_fin_required (host N) (rqs ?s3) (tid h) kb (qp_num qp) = Inr q'"
      "req_inv (host N) (\<lambda>_. 0) q' (if \<exists>w \<in> set (waiting_fin_q (rqs ?s3)). req_key (rqs ?s3) w = Some (uint (tid h))
        then without (rqs ?s3) (tid h) xs else xs)"
      "busy q' k" "db_same (q_db (rqs ?s3)) (q_db q')" "\<exists>w \<in> set (waiting_fin_q q'). req_key q' w = Some (uint (tid h)) \<and> r_target q' w = Some p"
      "(\<forall>w \<in> set (waiting_fin_q (rqs ?s3)). req_key (rqs ?s3) w \<noteq> Some (uint (tid h))) \<longrightarrow> fins q' p = Suc (fins (rqs ?s3) p)"
    by (rule mark_entry [OF inv3 W e3 e1(3)])
  have "announces d' p ?rk ?ra (unat ?bl)"
    using e1(2) vb re(5,6) by (simp add: announces_def)
  then have ann: "announces (q_db q') p ?rk ?ra (unat ?bl)" using announces_same mk(5) by simp
  have "db_reallocate_item (host N) ?d (k @ NUL # r) (unat ?bl) = Inr d'"
    using get re(1) by (simp add: db_reallocate_item_def)
  moreover have "length ?bs = SERVER_HEADER_LEN" by simp
  ultimately have "set_rdma N (get_free_send_buffer (Suc n) wait) s qp (Some p) h (k @ NUL # r) = Inr (?s3\<lparr>rqs := q'\<rparr>)"
    using e1(2) vb gb(1) post mk(1,2)
    by (auto simp: set_rdma_def Let_def load_Some set_reply_def [symmetric] lift_rqs_def bnd_eq_Inr
        simp del: SERVER_HEADER_LEN_def)
  moreover have "db_key (q_db q') p = Some k"
    using db_same_key [OF mk(5)] e1 by (simp add: db_key_def)
  moreover have "(if \<exists>w \<in> set (waiting_fin_q (rqs ?s3)). req_key (rqs ?s3) w = Some (uint (tid h))
        then without (rqs ?s3) (tid h) xs else xs) = (if \<exists>w \<in> set (waiting_fin_q ?q). req_key ?q w = Some (uint (tid h))
        then without ?q (tid h) xs else xs)" by (simp add: without_def)
  moreover have "ctx_wf (sctx ?s3)" using gb by (intro msg_sent_wf) simp_all
  moreover have "transmitted N ?s2 qp ?bs = transmitted N s qp ?bs" by (simp add: transmitted_def)
  moreover have "db_abs (q_db q') = (db_abs ?d)(k \<mapsto> entry_val e')"
    using db_same_abs [OF mk(5)] db_abs_updates [OF dinv p(1,2) re(3) e1(3) p(3) re(2)] by simp
  moreover have "(\<forall>w \<in> set (waiting_fin_q ?q). req_key ?q w \<noteq> Some (uint (tid h))) \<longrightarrow> fins q' p = Suc (fins ?q p)"
    using mk(7) by simp
  moreover have "p \<in> set (internal_db (q_db q'))" using mk(5) e3(1) by (simp add: db_same_def)
  ultimately show ?thesis using mk(3,4,6) ann by (intro that [of "?s3\<lparr>rqs := q'\<rparr>" ?rk ?ra]) auto
qed

section \<open>A server with one client\<close>

definition linux_nic :: nic where
  "linux_nic =
     \<lparr>host = linux_world, send_ok = (\<lambda>_. True), recv_ok = (\<lambda>_. True), destroy_ok = (\<lambda>_. True),
      qp_state = (\<lambda>_. Some True), new_qp = (\<lambda>n. Some \<lparr>qp_ptr = n + 2, qp_num = of_nat (n + 10)\<rparr>),
      inline_cap = (\<lambda>_. 0), to_init = (\<lambda>_. True), to_rtr = (\<lambda>_ _. True), to_rts = (\<lambda>_ _. True),
      lrand48 = (\<lambda>n. of_nat n), recheck = (\<lambda>_. False),
      listen_call = (\<lambda>_. \<lparr>service_ok = True, print_ok = True, addr_ok = True, single_addr = True, sock = 3,
        opt_ok = True, ioctl_ok = True, bind_ok = True, listen_ok = True\<rparr>),
      stack_gid = zeros 33, stack_word = 0\<rparr>"

lemma linux_nic_simps [simp]:
  "host linux_nic = linux_world" "send_ok linux_nic n" "recv_ok linux_nic n" "destroy_ok linux_nic n"
  "qp_state linux_nic n = Some True" "\<not> recheck linux_nic n"
  by (simp_all add: linux_nic_def)

definition one_client :: "requests \<Rightarrow> server" where
  "one_client q =
     (server_start q)\<lparr>conns := (replicate MAX_CLIENTS_SUPPORTED empty_connection)
                        [0 := empty_connection\<lparr>c_qp := Some qp9, c_max := MAX_RECV_BUFFS\<rparr>],
                      num_conns := 1, live_qps := [qp_ptr qp9]\<rparr>"

lemma server_start_simps [simp]:
  "rqs (server_start q) = q" "sctx (server_start q) = blank_context" "num_conns (server_start q) = 0"
  "conns (server_start q) = replicate MAX_CLIENTS_SUPPORTED empty_connection"
  "live_qps (server_start q) = []" "polls (server_start q) = []" "sent (server_start q) = []"
  by (simp_all add: server_start_def)

lemma one_client_simps [simp]:
  "rqs (one_client q) = q" "sctx (one_client q) = blank_context"
  "live_qps (one_client q) = [qp_ptr qp9]" "polls (one_client q) = []" "sent (one_client q) = []"
  by (simp_all add: one_client_def)

lemma conns_ok_start: "conns_ok (server_start q)"
  by (simp add: conns_ok_def empty_connection_def)

lemma set_update_all: "(\<forall>c \<in> set xs. P c) \<Longrightarrow> P x \<Longrightarrow> (\<forall>c \<in> set (xs[i := x]). P c)"
  using set_update_subset_insert [of xs i x] by blast

lemma conns_ok_one: "conns_ok (one_client q)"
proof -
  have qp: "c_qp (conns (one_client q) ! i) = (if i = 0 then Some qp9 else None)"
    if "i < MAX_CLIENTS_SUPPORTED" for i
    using that by (simp add: one_client_def empty_connection_def nth_list_update)
  have "\<forall>c \<in> set (conns (one_client q)). length (c_in_use c) = SERVER_NUM_RECV_BUFFS"
    unfolding one_client_def by (simp add: empty_connection_def) (rule set_update_all; simp)
  moreover have "length (conns (one_client q)) = MAX_CLIENTS_SUPPORTED" by (simp add: one_client_def)
  ultimately show ?thesis using qp by (auto simp: conns_ok_def)
qed

lemma server_inv_one: "req_inv linux_world (\<lambda>_. 0) q xs \<Longrightarrow> server_inv linux_nic (one_client q) xs"
  by (simp add: server_inv_def conns_ok_one)

lemma not_busy: "waiting_fin_q q = [] \<Longrightarrow> \<not> busy q k"
  by (simp add: busy_def fins_def)

lemma free_blank: "\<exists>i < SERVER_NUM_SEND_BUFFS. \<not> in_use_send blank_context ! i"
  by (rule exI [of _ 0]) (simp add: blank_context_def)

section \<open>Properties of SET\<close>

text \<open>
  C6: a SET whose value is in the message, on an entry on which no transfer is awaited, is
  carried out at once: the table maps the key to the value, nothing else changes in it, and nothing
  is sent. The awaited transfers are those from before without one that has the id of the request:
  the lock of the key is free again, and every other lock is held as before, except that such a
  transfer gives its lock back, because the handler removes whatever request has this id.
\<close>

theorem handle_set_request_stores:
  assumes "server_inv N s xs" and "plentiful (host N)"
    and "storable (db_page_size (q_db (rqs s))) k v"
    and "length k + length v + 2 \<le> CLIENT_REQUEST_PAYLOAD_LEN" and "\<not> busy (rqs s) k"
    and "keylen h = of_nat (length k)" and "buflen h = of_nat (length v)"
  shows "\<exists>q'. handle_set_request N gb s qp h (k @ NUL # v @ NUL # r) info = Inr (0, s\<lparr>rqs := q'\<rparr>) \<and>
     server_inv N (s\<lparr>rqs := q'\<rparr>) (without (rqs s) (tid h) xs) \<and>
     db_abs (q_db q') = (db_abs (q_db (rqs s)))(k \<mapsto> v) \<and>
     set (waiting_fin_q q') = {w \<in> set (waiting_fin_q (rqs s)). req_key (rqs s) w \<noteq> Some (uint (tid h))} \<and>
     \<not> busy q' k \<and>
     (\<forall>k'. busy q' k' \<longleftrightarrow>
        (\<exists>w \<in> set (waiting_fin_q (rqs s)). req_key (rqs s) w \<noteq> Some (uint (tid h)) \<and> transfer_key (rqs s) w = Some k')) \<and>
     (\<forall>p \<in> set (internal_q q'). req_key q' p \<noteq> Some (uint (tid h)))"
proof -
  have inv: "req_inv (host N) (\<lambda>_. 0) (rqs s) xs" and rest: "ctx_wf (sctx s)" "conns_ok s"
    using assms(1) by (simp_all add: server_inv_def)
  obtain q' d where
    q': "handle_set_request N gb s qp h (k @ NUL # v @ NUL # r) info = Inr (0, s\<lparr>rqs := q'\<rparr>)"
      "req_inv (host N) (\<lambda>_. 0) q' (without (rqs s) (tid h) xs)"
      "db_abs (q_db q') = (db_abs (q_db (rqs s)))(k \<mapsto> v)"
      "removed ((rqs s)\<lparr>q_db := d\<rparr>) (tid h) q'" "\<not> busy q' k" "keeps_keys (q_db (rqs s)) (q_db q')"
    using set_stores [OF inv assms(2-7), where r = r and gb = gb and qp = qp and info = info] by metis
  have "conns_ok (s\<lparr>rqs := q'\<rparr>)" using rest(2) conns_ok_cong [of "s\<lparr>rqs := q'\<rparr>" s] by simp
  then have "server_inv N (s\<lparr>rqs := q'\<rparr>) (without (rqs s) (tid h) xs)"
    using q'(2) rest(1) by (simp add: server_inv_def)
  moreover have "\<forall>p \<in> set (internal_q q'). req_key q' p \<noteq> Some (uint (tid h))"
    "set (waiting_fin_q q') = {w \<in> set (waiting_fin_q (rqs s)). req_key (rqs s) w \<noteq> Some (uint (tid h))}"
    using q'(4) by (auto simp: removed_def req_key_def)
  moreover have "\<forall>k'. busy q' k' \<longleftrightarrow> (\<exists>w \<in> set (waiting_fin_q (rqs s)). req_key (rqs s) w \<noteq> Some (uint (tid h)) \<and>
      transfer_key (rqs s) w = Some k')"
    using busy_removed [OF inv q'(2,4,6)] by blast
  ultimately show ?thesis using q'(1,3,5) by blast
qed

theorem handle_set_request_stores_witness:
  "\<exists>q q'. server_inv linux_nic (one_client q) [] \<and>
     handle_set_request linux_nic (\<lambda>s. Inl (Exit 7)) (one_client q) qp9 (set_headers 9 3 5)
       (''key'' @ NUL # ''value'' @ NUL # zeros 100) 0 = Inr (0, (one_client q)\<lparr>rqs := q'\<rparr>) \<and>
     db_abs (q_db q') = [''bla'' \<mapsto> [], ''key'' \<mapsto> ''value'']"
proof (rule linux_requests)
  fix q
  assume q: "req_inv linux_world (\<lambda>_. 0) q []" "waiting_fin_q q = []"
    "db_abs (q_db q) = [''bla'' \<mapsto> []]" "db_page_size (q_db q) = 4096"
  note inv = server_inv_one [OF q(1)]
  have "storable (db_page_size (q_db (rqs (one_client q)))) ''key'' ''value''"
    by (simp add: storable_def q(4))
  from handle_set_request_stores [OF inv _ this, of "set_headers 9 3 5" "\<lambda>s. Inl (Exit 7)" qp9 "zeros 100" 0]
  show ?thesis using inv not_busy [OF q(2)] by (auto simp: q(3))
qed

lemma rdma_lengths:
  assumes "CLIENT_REQUEST_PAYLOAD_LEN < unat (bl :: 32 word) + length k + 2" and "unat bl + length k + 2 < 2 ^ 32"
  shows "\<not> bl + of_nat (length k) + 2 \<le> of_nat CLIENT_REQUEST_PAYLOAD_LEN"
proof -
  have "bl + of_nat (length k) + 2 = of_nat (unat bl + length k + 2)" by simp
  also have "unat (of_nat (unat bl + length k + 2) :: 32 word) = unat bl + length k + 2"
    using assms(2) by (rule unat_of_nat32)
  finally show ?thesis using assms(1) by (simp add: word_le_nat_alt)
qed

lemma set_announces:
  assumes inv: "server_inv N s xs" and W: "plentiful (host N)"
    and k: "storable (db_page_size (q_db (rqs s))) k []" and nb: "\<not> busy (rqs s) k"
    and h: "keylen h = of_nat (length k)"
    and len: "CLIENT_REQUEST_PAYLOAD_LEN < unat (ucast (buflen h) :: 32 word) + length k + 2"
      "unat (ucast (buflen h) :: 32 word) + length k + 2 < 2 ^ 32"
    and free: "\<exists>i < SERVER_NUM_SEND_BUFFS. \<not> in_use_send (sctx s) ! i"
    and live: "qp_ptr qp \<in> set (live_qps s)"
  obtains s' p rk ra ys where
    "handle_set_request N (get_free_send_buffer (Suc n) wait) s qp h (k @ NUL # r) info = Inr (0, s')"
    "server_inv N s' ys"
    "sent s' = sent s @ transmitted N s qp (set_reply h (ucast (buflen h)) rk ra)"
    "busy (rqs s') k" "announces (q_db (rqs s')) p rk ra (unat (ucast (buflen h) :: 32 word))"
    "db_key (q_db (rqs s')) p = Some k"
    "\<exists>w \<in> set (waiting_fin_q (rqs s')). req_key (rqs s') w = Some (uint (tid h)) \<and> r_target (rqs s') w = Some p"
    "\<exists>v. db_abs (q_db (rqs s')) = (db_abs (q_db (rqs s)))(k \<mapsto> v)"
    "(\<forall>w \<in> set (waiting_fin_q (rqs s)). req_key (rqs s) w \<noteq> Some (uint (tid h))) \<longrightarrow> fins (rqs s') p = 1"
    "conns s' = conns s" "live_qps s' = live_qps s" "p \<in> set (internal_db (q_db (rqs s')))"
proof -
  have rinv: "req_inv (host N) (\<lambda>_. 0) (rqs s) xs" and wf: "ctx_wf (sctx s)" and co: "conns_ok s"
    using inv by (simp_all add: server_inv_def)
  obtain p e d where
    fc: "find_or_create (host N) s (k @ NUL # r) (Some [NUL]) = Inr (Some p, set_db s d)"
      "req_inv (host N) (\<lambda>_. 0) ((rqs s)\<lparr>q_db := d\<rparr>) xs"
      "p \<in> set (internal_db d)" "db_heap (dmem d) p = Some e" "entry_key e = Some k"
      "db_abs d = (case db_abs (q_db (rqs s)) k of None \<Rightarrow> (db_abs (q_db (rqs s)))(k \<mapsto> []) | Some v \<Rightarrow> db_abs (q_db (rqs s)))"
      "0 < fins (rqs s) p \<longleftrightarrow> busy (rqs s) k"
    by (rule find_or_create_ok [OF rinv W k, where r = r])
  have locks: "req_locks (host N) (\<lambda>_. 0) ((rqs s)\<lparr>q_db := d\<rparr>)" and shape: "req_shape (host N) {} (rqs s) xs"
    using fc(2) by (simp_all add: req_inv_def)
  have p1: "p \<in> set (internal_db (q_db ((rqs s)\<lparr>q_db := d\<rparr>)))" using fc(3) by simp
  from locks p1 show ?thesis
  proof (cases rule: locks_wr)
    case refused
    then show ?thesis using fc(7) nb by simp
  next
    case (taken e')
    let ?s2 = "set_db s (store d p e')"
    have same: "same_but_lock e e'" using taken(4) fc(4) by (auto simp: db_same_def split: if_splits)
    have inv2: "req_inv (host N) ((\<lambda>_. 0)(p := Suc 0)) (rqs ?s2) xs"
      using taken(3) shape by (simp add: req_inv_def)
    have e2: "p \<in> set (internal_db (q_db (rqs ?s2)))" "db_heap (dmem (q_db (rqs ?s2))) p = Some e'"
      "entry_key e' = Some k" using fc(3,5) same_but_lock_simps(1) [OF same] by simp_all
    have wf2: "ctx_wf (sctx ?s2)" "\<exists>i < SERVER_NUM_SEND_BUFFS. \<not> in_use_send (sctx ?s2) ! i"
      "qp_ptr qp \<in> set (live_qps ?s2)" using wf free live by simp_all
    obtain s' rk ra where
      s': "set_rdma N (get_free_send_buffer (Suc n) wait) ?s2 qp (Some p) h (k @ NUL # r) = Inr s'"
        "req_inv (host N) (\<lambda>_. 0) (rqs s') (if \<exists>w \<in> set (waiting_fin_q (rqs ?s2)).
           req_key (rqs ?s2) w = Some (uint (tid h)) then without (rqs ?s2) (tid h) xs else xs)"
        "sent s' = sent ?s2 @ transmitted N ?s2 qp (set_reply h (ucast (buflen h)) rk ra)"
        "ctx_wf (sctx s')" "conns s' = conns ?s2" "live_qps s' = live_qps ?s2"
        "busy (rqs s') k" "announces (q_db (rqs s')) p rk ra (unat (ucast (buflen h) :: 32 word))"
        "db_key (q_db (rqs s')) p = Some k"
        "\<exists>w \<in> set (waiting_fin_q (rqs s')). req_key (rqs s') w = Some (uint (tid h)) \<and> r_target (rqs s') w = Some p"
        "\<exists>v. db_abs (q_db (rqs s')) = (db_abs (q_db (rqs ?s2)))(k \<mapsto> v)"
        "(\<forall>w \<in> set (waiting_fin_q (rqs ?s2)). req_key (rqs ?s2) w \<noteq> Some (uint (tid h))) \<longrightarrow> fins (rqs s') p = Suc (fins (rqs ?s2) p)"
        "p \<in> set (internal_db (q_db (rqs s')))"
      by (rule set_rdma_ok [OF inv2 W e2 wf2, where n = n and wait = wait and h = h and r = r])
    have abs: "db_abs (store d p e') = db_abs d" using db_same_abs [OF taken(4)] by simp
    have "handle_set_request N (get_free_send_buffer (Suc n) wait) s qp h (k @ NUL # r) info = Inr (0, s')"
      using fc(1) taken(2) s'(1) rdma_lengths [OF len] h
      by (simp add: handle_set_request_def Let_def set_db_def)
    moreover have "conns_ok s'" using conns_ok_cong [of s' s] s'(5,6) co by simp
    then have "\<exists>ys. server_inv N s' ys" using s'(2,4) by (auto simp only: server_inv_def)
    then obtain ys where "server_inv N s' ys" by blast
    moreover have "transmitted N ?s2 qp b = transmitted N s qp b" for b by (simp add: transmitted_def)
    then have "sent s' = sent s @ transmitted N s qp (set_reply h (ucast (buflen h)) rk ra)"
      using s'(3) by simp
    moreover have "\<exists>v. db_abs (q_db (rqs s')) = (db_abs (q_db (rqs s)))(k \<mapsto> v)"
      using s'(11) by (simp add: abs fc(6) abs_upd_created)
    moreover have "(\<forall>w \<in> set (waiting_fin_q (rqs s)). req_key (rqs s) w \<noteq> Some (uint (tid h))) \<longrightarrow> fins (rqs s') p = 1"
      using s'(12) fc(7) nb by simp
    moreover have "conns s' = conns s" "live_qps s' = live_qps s" using s'(5,6) by simp_all
    ultimately show ?thesis using s'(7-10,13) by (intro that)
  qed
qed

text \<open>
  C7: a SET whose value does not fit in the message reserves room for it in the entry and
  announces it: the client is sent the remote key and the address of the entry's buffer, which
  has room for the announced number of bytes; the entry stays locked until the FIN message of this
  transaction, and no other key of the table is touched.
\<close>

theorem handle_set_request_announces:
  assumes "server_inv N s xs" and "plentiful (host N)"
    and "storable (db_page_size (q_db (rqs s))) k []" and "\<not> busy (rqs s) k"
    and "keylen h = of_nat (length k)"
    and "CLIENT_REQUEST_PAYLOAD_LEN < unat (ucast (buflen h) :: 32 word) + length k + 2"
    and "unat (ucast (buflen h) :: 32 word) + length k + 2 < 2 ^ 32"
    and "\<exists>i < SERVER_NUM_SEND_BUFFS. \<not> in_use_send (sctx s) ! i"
    and "qp_ptr qp \<in> set (live_qps s)"
  shows "\<exists>s' p rk ra ys v.
     handle_set_request N (get_free_send_buffer (Suc n) wait) s qp h (k @ NUL # r) info = Inr (0, s') \<and>
     server_inv N s' ys \<and>
     sent s' = sent s @ transmitted N s qp (set_reply h (ucast (buflen h)) rk ra) \<and>
     announces (q_db (rqs s')) p rk ra (unat (ucast (buflen h) :: 32 word)) \<and>
     db_key (q_db (rqs s')) p = Some k \<and> busy (rqs s') k \<and>
     (\<exists>w \<in> set (waiting_fin_q (rqs s')). req_key (rqs s') w = Some (uint (tid h))) \<and>
     db_abs (q_db (rqs s')) = (db_abs (q_db (rqs s)))(k \<mapsto> v)"
  by (rule set_announces [OF assms, where n = n and wait = wait and r = r and info = info]) blast

theorem handle_set_request_announces_witness:
  "\<exists>q s' p rk ra. server_inv linux_nic (one_client q) [] \<and>
     handle_set_request linux_nic (get_free_send_buffer 1 Inr) (one_client q) qp9 (set_headers 9 3 100000)
       (''key'' @ NUL # zeros 100) 0 = Inr (0, s') \<and>
     sent s' = [(9, set_reply (set_headers 9 3 100000) 100000 rk ra)] \<and>
     announces (q_db (rqs s')) p rk ra 100000 \<and> busy (rqs s') ''key''"
proof (rule linux_requests)
  fix q
  assume q: "req_inv linux_world (\<lambda>_. 0) q []" "waiting_fin_q q = []"
    "db_abs (q_db q) = [''bla'' \<mapsto> []]" "db_page_size (q_db q) = 4096"
  note inv = server_inv_one [OF q(1)]
  have st: "storable (db_page_size (q_db (rqs (one_client q)))) ''key'' []"
    by (simp add: storable_def q(4))
  have nb: "\<not> busy (rqs (one_client q)) ''key''" using not_busy [OF q(2)] by simp
  from handle_set_request_announces [OF inv _ st nb, of "set_headers 9 3 100000" qp9 0 Inr "zeros 100" 0] free_blank
  have "\<exists>s' p rk ra. handle_set_request linux_nic (get_free_send_buffer 1 Inr) (one_client q) qp9 (set_headers 9 3 100000)
       (''key'' @ NUL # zeros 100) 0 = Inr (0, s') \<and>
     sent s' = [(9, set_reply (set_headers 9 3 100000) 100000 rk ra)] \<and>
     announces (q_db (rqs s')) p rk ra 100000 \<and> busy (rqs s') ''key''"
    by (auto simp: transmitted_def)
  then show ?thesis using inv by blast
qed

section \<open>GET with the value in the reply\<close>

definition get_reply :: "client_request_headers_t \<Rightarrow> 32 word \<Rightarrow> byte list" where
  "get_reply h sz = enc_server_headers (response_headers GET_RESPONSE (tid h) (keylen h) (ucast sz) 0 0)"

definition get_rdma_reply :: "client_request_headers_t \<Rightarrow> 32 word \<Rightarrow> 32 word \<Rightarrow> 64 word \<Rightarrow> byte list" where
  "get_rdma_reply h sz rk ra =
     enc_server_headers (response_headers RDMA_RKEY_GET (tid h) (keylen h) (ucast sz) rk ra)"

lemma length_get_reply [simp]: "length (get_reply h sz) = 40" "length (get_rdma_reply h sz rk ra) = 40"
  by (simp_all add: get_reply_def get_rdma_reply_def)

lemma unat_Suc32: "unat (w :: 32 word) + 1 < 2 ^ 32 \<Longrightarrow> unat (w + 1) = Suc (unat w)"
  using unat_of_nat32 [of "Suc (unat w)"] by (simp add: add.commute)

text \<open>The handler holds the lock of \<open>p\<close> and has acquired buffer \<open>i\<close>.\<close>

lemma get_eager_ok:
  assumes inv: "req_inv (host N) ((\<lambda>_. 0)(p := Suc 0)) (rqs s) xs"
    and p: "p \<in> set (internal_db (q_db (rqs s)))" "db_heap (dmem (q_db (rqs s))) p = Some e"
    and vb: "e_value e = Some vb"
    and sz: "unat (e_size e) + 1 + SERVER_HEADER_LEN \<le> SERVER_RESPONSE_PAYLOAD_LEN"
    and wf: "ctx_wf (sctx s)" and i: "i < SERVER_NUM_SEND_BUFFS" and live: "qp_ptr qp \<in> set (live_qps s)"
  obtains q' where
    "get_eager N s qp (Some p) (b_addr vb) (e_size e) h (int i) =
       Inr ((msg_sent N s qp i (get_reply h (e_size e) @ take (Suc (unat (e_size e))) (b_data vb)))\<lparr>rqs := q'\<rparr>)"
    "req_inv (host N) (\<lambda>_. 0) q' (without (rqs s) (tid h) xs)"
    "db_same (q_db (rqs s)) (q_db q')" "\<exists>d. removed ((rqs s)\<lparr>q_db := d\<rparr>) (tid h) q'"
proof -
  let ?q = "rqs s" and ?d = "q_db (rqs s)" and ?n = "unat (e_size e)"
  have dinv: "db_inv (host N) ?d" and shape: "req_shape (host N) {} ?q xs"
    and locks: "req_locks (host N) ((\<lambda>_. 0)(p := Suc 0)) ?q"
    using inv by (simp_all add: req_inv_def req_locks_def)
  have "entry_ok e" using entry_ok_live [OF dinv p(1)] p(2) by simp
  then have room: "?n < length (b_data vb)" using vb by (auto elim: entry_okE)
  let ?a = "get_reply h (e_size e)" and ?b = "take (Suc ?n) (b_data vb)"
  have lb: "length ?b = Suc ?n" using room by simp
  have sz1: "unat (e_size e + 1) = Suc ?n" using sz by (intro unat_Suc32) simp
  let ?s3 = "msg_sent N s qp i (?a @ ?b)"
  have len: "length ?a + length ?b = SERVER_HEADER_LEN + ?n + 1" "length ?a = SERVER_HEADER_LEN"
    using lb by simp_all
  have post: "bnd (put_out s (int i) 0 ?a) (\<lambda>s1. bnd (put_out s1 (int i) SERVER_HEADER_LEN ?b) (\<lambda>s2.
      server_post_send N s2 qp (of_nat (SERVER_HEADER_LEN + ?n + 1)) (int i))) = Inr ?s3"
    using post_message_at [OF wf i _ live len(2,1)] sz lb by simp
  from locks_unlock [OF locks p(1), of 0] obtain e2 where
    un: "db_entry_unlock ?d (Some p) = Inr (True, store ?d p e2)"
      "req_locks (host N) (((\<lambda>_. 0)(p := Suc 0))(p := 0)) (?q\<lparr>q_db := store ?d p e2\<rparr>)"
      "db_same ?d (store ?d p e2)" by auto
  have zero: "((\<lambda>_. 0)(p := Suc 0))(p := 0) = (\<lambda>_. 0 :: nat)" by auto
  let ?q2 = "?q\<lparr>q_db := store ?d p e2\<rparr>"
  have inv2: "req_inv (host N) (\<lambda>_. 0) ?q2 xs" using un(2) shape unfolding zero by (simp add: req_inv_def)
  obtain q' where q': "remove_server_pending_request ?q2 (tid h) = Inr q'"
    "req_inv (host N) (\<lambda>_. 0) q' (without ?q2 (tid h) xs)" "removed ?q2 (tid h) q'"
    by (rule remove_ok [OF inv2])
  have same: "db_same ?d (q_db q')" using db_same_trans [OF un(3)] q'(3) by (simp add: removed_def)
  obtain s1 s2 where puts: "put_out s (int i) 0 ?a = Inr s1"
    "put_out s1 (int i) SERVER_HEADER_LEN ?b = Inr s2"
    "server_post_send N s2 qp (of_nat (SERVER_HEADER_LEN + ?n + 1)) (int i) = Inr ?s3"
    using post unfolding bnd_eq_Inr by (elim exE conjE) (rule that)
  have r1: "rqs s1 = rqs s" using puts(1) by (auto simp: put_out_def)
  have read: "mem_read (b_data vb) 0 (unat (e_size e + 1)) = Inr ?b"
    using room by (simp add: mem_read_def sz1)
  have "get_eager N s qp (Some p) (b_addr vb) (e_size e) h (int i) = Inr (?s3\<lparr>rqs := q'\<rparr>)"
    using puts r1 p(2) vb read un(1) q'(1)
    by (simp add: get_eager_def Let_def load_Some get_reply_def lift_rqs_def
        del: SERVER_HEADER_LEN_def of_nat_add)
  moreover have "without ?q2 (tid h) xs = without ?q (tid h) xs" by (simp add: without_def)
  ultimately show ?thesis using that q'(2,3) same by auto
qed

section \<open>GET by RDMA\<close>

lemma get_rdma_ok:
  assumes inv: "req_inv (host N) ((\<lambda>_. 0)(p := Suc 0)) (rqs s) xs" and W: "plentiful (host N)"
    and p: "p \<in> set (internal_db (q_db (rqs s)))" "db_heap (dmem (q_db (rqs s))) p = Some e" "entry_key e = Some k"
    and wf: "ctx_wf (sctx s)" and i: "i < SERVER_NUM_SEND_BUFFS" and live: "qp_ptr qp \<in> set (live_qps s)"
  obtains s' rk ra where
    "get_rdma N s qp (Some p) (e_size e) h (int i) = Inr s'"
    "\<exists>ys. req_inv (host N) (\<lambda>_. 0) (rqs s') ys"
    "sent s' = sent s @ transmitted N s qp (get_rdma_reply h (e_size e) rk ra)"
    "ctx_wf (sctx s')" "conns s' = conns s" "live_qps s' = live_qps s"
    "busy (rqs s') k" "announces (q_db (rqs s')) p rk ra (unat (e_size e))"
    "db_key (q_db (rqs s')) p = Some k" "db_abs (q_db (rqs s')) = db_abs (q_db (rqs s))"
    "\<exists>w \<in> set (waiting_fin_q (rqs s')). req_key (rqs s') w = Some (uint (tid h)) \<and> r_target (rqs s') w = Some p"
    "fins (rqs s) p = 0 \<longrightarrow> fins (rqs s') p = 1" "db_same (q_db (rqs s)) (q_db (rqs s'))"
proof -
  let ?q = "rqs s" and ?d = "q_db (rqs s)"
  have dinv: "db_inv (host N) ?d" using inv by (simp add: req_inv_def req_locks_def)
  have "entry_ok e" using entry_ok_live [OF dinv p(1)] p(2) by simp
  then obtain vb mr where vb: "e_value e = Some vb" "e_mr e = Some mr" "mr_addr mr = Some (b_addr vb)"
    "unat (e_size e) < length (b_data vb)" by (auto elim: entry_okE)
  let ?rk = "mr_rkey mr" and ?ra = "of_nat (b_addr vb) :: 64 word"
  let ?bs = "get_rdma_reply h (e_size e) ?rk ?ra"
  let ?s3 = "msg_sent N s qp i ?bs"
  have "bnd (put_out s (int i) 0 ?bs) (\<lambda>s1. server_post_send N s1 qp (of_nat (length ?bs)) (int i)) = Inr ?s3"
    using wf i live by (intro post_header) simp_all
  then obtain s1 where post: "put_out s (int i) 0 ?bs = Inr s1"
    "server_post_send N s1 qp (of_nat SERVER_HEADER_LEN) (int i) = Inr ?s3"
    by auto
  obtain q1 where q1: "remove_server_pending_request ?q (tid h) = Inr q1"
    "req_inv (host N) ((\<lambda>_. 0)(p := Suc 0)) q1 (without ?q (tid h) xs)" "removed ?q (tid h) q1"
    by (rule remove_ok [OF inv])
  have same1: "db_same ?d (q_db q1)" using q1(3) by (simp add: removed_def)
  then obtain e1 where e1: "p \<in> set (internal_db (q_db q1))" "db_heap (dmem (q_db q1)) p = Some e1"
    "same_but_lock e e1" using p(1,2) unfolding db_same_def by metis
  have k1: "entry_key e1 = Some k" using same_but_lock_simps(1) [OF e1(3)] p(3) by simp
  obtain kb q' where
    mk: "e_key e1 = Some kb" "mark_rdma_fin_required (host N) q1 (tid h) kb (qp_num qp) = Inr q'"
      "req_inv (host N) (\<lambda>_. 0) q' (if \<exists>w \<in> set (waiting_fin_q q1). req_key q1 w = Some (uint (tid h))
        then without q1 (tid h) (without ?q (tid h) xs) else without ?q (tid h) xs)"
      "busy q' k" "db_same (q_db q1) (q_db q')" "\<exists>w \<in> set (waiting_fin_q q'). req_key q' w = Some (uint (tid h)) \<and> r_target q' w = Some p"
      "(\<forall>w \<in> set (waiting_fin_q q1). req_key q1 w \<noteq> Some (uint (tid h))) \<longrightarrow> fins q' p = Suc (fins q1 p)"
    by (rule mark_entry [OF q1(2) W e1(1,2) k1])
  have "req_key q1 w \<noteq> Some (uint (tid h))" if "w \<in> set (waiting_fin_q q1)" for w
    using that q1(3) by (auto simp: removed_def req_key_def)
  then have count: "fins ?q p = 0 \<longrightarrow> fins q' p = 1" using mk(7) fins_removed [OF q1(3)] by simp
  have same: "db_same ?d (q_db q')" by (rule db_same_trans [OF same1 mk(5)])
  have "announces ?d p ?rk ?ra (unat (e_size e))" using p(2) vb by (simp add: announces_def)
  then have ann: "announces (q_db q') p ?rk ?ra (unat (e_size e))" using announces_same same by blast
  have r1: "rqs s1 = ?q" using post(1) by (auto simp: put_out_def)
  have "get_rdma N s qp (Some p) (e_size e) h (int i) = Inr (?s3\<lparr>rqs := q'\<rparr>)"
    using p(2) vb post q1(1) e1(2) mk(1,2)
    by (simp add: get_rdma_def Let_def load_Some get_rdma_reply_def lift_rqs_def
        del: SERVER_HEADER_LEN_def)
  moreover have "db_key (q_db q') p = Some k"
    using db_same_key [OF same] p by (simp add: db_key_def)
  moreover have "\<exists>ys. req_inv (host N) (\<lambda>_. 0) q' ys" using mk(3) by blast
  moreover have "ctx_wf (sctx ?s3)" using wf i by (intro msg_sent_wf) simp_all
  ultimately show ?thesis
    using mk(4,6) ann db_same_abs [OF same] count same by (intro that [of "?s3\<lparr>rqs := q'\<rparr>" ?rk ?ra]) simp_all
qed

section \<open>The whole GET handler\<close>

text \<open>Up to the branch on the size: the read lock is taken and a buffer acquired.\<close>

lemma get_prefix:
  assumes fc: "find_or_create (host N) s (k @ NUL # r) (empty_value (host N) s) = Inr (Some p, set_db s d)"
    and inv: "req_inv (host N) (\<lambda>_. 0) ((rqs s)\<lparr>q_db := d\<rparr>) xs"
    and p: "p \<in> set (internal_db d)" "db_heap (dmem d) p = Some e" "entry_key e = Some k" "e_lock e \<noteq> Writer"
    and wf: "ctx_wf (sctx s)" and free: "\<exists>i < SERVER_NUM_SEND_BUFFS. \<not> in_use_send (sctx s) ! i"
  obtains e' c i vb s2 where
    "handle_get_request N (get_free_send_buffer (Suc n) wait) s qp h (k @ NUL # r) info =
       bnd (if sint (of_nat (SERVER_HEADER_LEN + unat (e_size e) + 1) :: 32 word) \<le> int SERVER_RESPONSE_PAYLOAD_LEN
            then get_eager N s2 qp (Some p) (b_addr vb) (e_size e') h (int i)
            else get_rdma N s2 qp (Some p) (e_size e') h (int i)) (\<lambda>s3. Inr (0, s3))"
    "s2 = (set_db s (store d p e'))\<lparr>sctx := c\<rparr>" "i < SERVER_NUM_SEND_BUFFS" "ctx_wf c"
    "req_inv (host N) ((\<lambda>_. 0)(p := Suc 0)) (rqs s2) xs" "db_same d (q_db (rqs s2))"
    "p \<in> set (internal_db (q_db (rqs s2)))" "db_heap (dmem (q_db (rqs s2))) p = Some e'"
    "entry_key e' = Some k" "e_value e' = Some vb" "e_value e = Some vb" "e_size e' = e_size e"
proof -
  have locks: "req_locks (host N) (\<lambda>_. 0) ((rqs s)\<lparr>q_db := d\<rparr>)" and shape: "req_shape (host N) {} (rqs s) xs"
    using inv by (simp_all add: req_inv_def)
  have p1: "p \<in> set (internal_db (q_db ((rqs s)\<lparr>q_db := d\<rparr>)))" "db_heap (dmem (q_db ((rqs s)\<lparr>q_db := d\<rparr>))) p = Some e"
    using p by simp_all
  from locks p1 show ?thesis
  proof (cases rule: locks_rd)
    case refused
    then show ?thesis using p(4) by simp
  next
    case (taken e')
    note same = same_but_lock_simps [OF taken(4)]
    have "entry_ok e" using entry_ok_live [OF req_inv_db [OF inv], of p] p(1,2) by simp
    then obtain vb where vb: "e_value e = Some vb" by (auto elim: entry_okE)
    let ?s1 = "set_db s (store d p e')"
    obtain i c where gb: "get_free_send_buffer (Suc n) wait ?s1 = Inr (int i, ?s1\<lparr>sctx := c\<rparr>)"
      "i < SERVER_NUM_SEND_BUFFS" "ctx_wf c"
      using get_free_ok [of ?s1 n wait] wf free by (metis set_db_simps(2))
    have inv1: "req_inv (host N) ((\<lambda>_. 0)(p := Suc 0)) (rqs (?s1\<lparr>sctx := c\<rparr>)) xs"
      using taken(3) shape by (simp add: req_inv_def)
    have lock: "db_entry_lock_rd d (Some p) = Inr (True, store d p e')" using taken(2) by simp
    have two: "set_db (set_db s d) (store d p e') = ?s1" by (simp add: set_db_def)
    have run: "handle_get_request N (get_free_send_buffer (Suc n) wait) s qp h (k @ NUL # r) info =
       bnd (if sint (of_nat (SERVER_HEADER_LEN + unat (e_size e) + 1) :: 32 word) \<le> int SERVER_RESPONSE_PAYLOAD_LEN
            then get_eager N (?s1\<lparr>sctx := c\<rparr>) qp (Some p) (b_addr vb) (e_size e') h (int i)
            else get_rdma N (?s1\<lparr>sctx := c\<rparr>) qp (Some p) (e_size e') h (int i)) (\<lambda>s3. Inr (0, s3))"
      using fc lock vb gb(1) same
      by (simp add: handle_get_request_def load_Some two Let_def del: SERVER_HEADER_LEN_def SERVER_RESPONSE_PAYLOAD_LEN_def of_nat_add)
    have rest: "db_same d (q_db (rqs (?s1\<lparr>sctx := c\<rparr>)))" "p \<in> set (internal_db (q_db (rqs (?s1\<lparr>sctx := c\<rparr>))))"
      "db_heap (dmem (q_db (rqs (?s1\<lparr>sctx := c\<rparr>)))) p = Some e'" "entry_key e' = Some k"
      "e_value e' = Some vb" "e_size e' = e_size e"
      using taken(5) p(1,3) same vb by simp_all
    show ?thesis by (rule that [OF run refl gb(2,3) inv1 rest(1-5) vb rest(6)])
  qed
qed

text \<open>Whether a SET transfer on a key is awaited, and the value of a key.\<close>

definition being_written :: "db \<Rightarrow> byte list \<Rightarrow> bool" where
  "being_written d k \<longleftrightarrow>
     (\<exists>p \<in> set (internal_db d). db_key d p = Some k \<and> map_option e_lock (db_heap (dmem d) p) = Some Writer)"

definition value_of :: "db \<Rightarrow> byte list \<Rightarrow> byte list" where
  "value_of d k = (case db_abs d k of None \<Rightarrow> [] | Some v \<Rightarrow> v)"

lemma get_lookup:
  assumes inv: "req_inv (host N) (\<lambda>_. 0) (rqs s) xs" and W: "plentiful (host N)"
    and k: "storable (db_page_size (q_db (rqs s))) k []" and nw: "\<not> being_written (q_db (rqs s)) k"
  obtains p e d where "find_or_create (host N) s (k @ NUL # r) (empty_value (host N) s) = Inr (Some p, set_db s d)"
    "req_inv (host N) (\<lambda>_. 0) ((rqs s)\<lparr>q_db := d\<rparr>) xs"
    "p \<in> set (internal_db d)" "db_heap (dmem d) p = Some e" "entry_key e = Some k" "e_lock e \<noteq> Writer"
    "db_abs d = (db_abs (q_db (rqs s)))(k \<mapsto> value_of (q_db (rqs s)) k)"
    "unat (e_size e) = stored_size (q_db (rqs s)) k" "entry_val e = value_of (q_db (rqs s)) k"
    "0 < fins (rqs s) p \<longleftrightarrow> busy (rqs s) k"
proof -
  let ?d = "q_db (rqs s)"
  have dinv: "db_inv (host N) ?d" by (rule req_inv_db [OF inv])
  obtain p e d where
    fc: "find_or_create (host N) s (k @ NUL # r) (empty_value (host N) s) = Inr (Some p, set_db s d)"
      "req_inv (host N) (\<lambda>_. 0) ((rqs s)\<lparr>q_db := d\<rparr>) xs"
      "p \<in> set (internal_db d)" "db_heap (dmem d) p = Some e" "entry_key e = Some k"
      "db_abs d = (case db_abs ?d k of None \<Rightarrow> (db_abs ?d)(k \<mapsto> []) | Some v \<Rightarrow> db_abs ?d)"
      "db_abs ?d k \<noteq> None \<longrightarrow> d = ?d" "db_abs ?d k = None \<longrightarrow> e_size e = 0 \<and> e_lock e = Free"
      "0 < fins (rqs s) p \<longleftrightarrow> busy (rqs s) k"
    by (rule find_or_create_ok [OF inv W k, where r = r, folded empty_value_ok [OF W, of s]])
  have val: "db_abs d k = Some (entry_val e)"
    using db_abs_Some [OF req_inv_db [OF fc(2), simplified] fc(3-5)] by simp
  show ?thesis
  proof (cases "db_abs ?d k")
    case None
    then have "\<forall>p \<in> set (internal_db ?d). db_key ?d p \<noteq> Some k"
      by - (rule db_abs_cases [OF dinv, where k = k], simp_all)
    then have "find (\<lambda>p. db_key ?d p = Some k) (internal_db ?d) = None" by (simp add: find_None_iff)
    then have "stored_size ?d k = 0" by (simp add: stored_size_def)
    then show ?thesis using that [OF fc(1-5)] fc(6,8,9) None val by (simp add: value_of_def)
  next
    case (Some v)
    then have d: "d = ?d" using fc(7) by simp
    have key: "db_key ?d p = Some k" using fc(4,5) d by (simp add: db_key_def)
    have "stored_size ?d k = unat (e_size e)"
      using find_key [OF dinv _ key] fc(3,4) d by (simp add: stored_size_def)
    moreover have "e_lock e \<noteq> Writer" using nw key fc(3,4) d by (auto simp: being_written_def)
    ultimately show ?thesis using that [OF fc(1-5)] fc(6,9) Some val d by (simp add: value_of_def fun_upd_idem)
  qed
qed

lemma get_sends:
  assumes inv: "server_inv N s xs" and W: "plentiful (host N)"
    and k: "storable (db_page_size (q_db (rqs s))) k []" and nw: "\<not> being_written (q_db (rqs s)) k"
    and sz: "stored_size (q_db (rqs s)) k + 1 + SERVER_HEADER_LEN \<le> SERVER_RESPONSE_PAYLOAD_LEN"
    and free: "\<exists>i < SERVER_NUM_SEND_BUFFS. \<not> in_use_send (sctx s) ! i" and live: "qp_ptr qp \<in> set (live_qps s)"
  obtains s' n bs where
    "handle_get_request N (get_free_send_buffer (Suc m) wait) s qp h (k @ NUL # r) info = Inr (0, s')"
    "server_inv N s' (without (rqs s) (tid h) xs)"
    "sent s' = sent s @ transmitted N s qp (get_reply h n @ bs)"
    "unat n = stored_size (q_db (rqs s)) k" "length bs = Suc (unat n)"
    "cstr (take (unat n) bs) = value_of (q_db (rqs s)) k"
    "db_abs (q_db (rqs s')) = (db_abs (q_db (rqs s)))(k \<mapsto> value_of (q_db (rqs s)) k)"
    "set (waiting_fin_q (rqs s')) \<subseteq> set (waiting_fin_q (rqs s))"
proof -
  have rinv: "req_inv (host N) (\<lambda>_. 0) (rqs s) xs" and wf: "ctx_wf (sctx s)" and co: "conns_ok s"
    using inv by (simp_all add: server_inv_def)
  let ?d = "q_db (rqs s)"
  obtain p e d where
    fc: "find_or_create (host N) s (k @ NUL # r) (empty_value (host N) s) = Inr (Some p, set_db s d)"
      "req_inv (host N) (\<lambda>_. 0) ((rqs s)\<lparr>q_db := d\<rparr>) xs"
      "p \<in> set (internal_db d)" "db_heap (dmem d) p = Some e" "entry_key e = Some k" "e_lock e \<noteq> Writer"
      "db_abs d = (db_abs ?d)(k \<mapsto> value_of ?d k)"
      "unat (e_size e) = stored_size ?d k" "entry_val e = value_of ?d k"
    by (rule get_lookup [OF rinv W k nw, where r = r])
  obtain e' c i vb s2 where
    pre: "handle_get_request N (get_free_send_buffer (Suc m) wait) s qp h (k @ NUL # r) info =
       bnd (if sint (of_nat (SERVER_HEADER_LEN + unat (e_size e) + 1) :: 32 word) \<le> int SERVER_RESPONSE_PAYLOAD_LEN
            then get_eager N s2 qp (Some p) (b_addr vb) (e_size e') h (int i)
            else get_rdma N s2 qp (Some p) (e_size e') h (int i)) (\<lambda>s3. Inr (0, s3))"
    and s2: "s2 = (set_db s (store d p e'))\<lparr>sctx := c\<rparr>" and i: "i < SERVER_NUM_SEND_BUFFS" "ctx_wf c"
    and st: "req_inv (host N) ((\<lambda>_. 0)(p := Suc 0)) (rqs s2) xs" "db_same d (q_db (rqs s2))"
    "p \<in> set (internal_db (q_db (rqs s2)))" "db_heap (dmem (q_db (rqs s2))) p = Some e'"
    and e': "entry_key e' = Some k" "e_value e' = Some vb" "e_value e = Some vb" "e_size e' = e_size e"
    by (rule get_prefix [OF fc(1-6) wf free])
  have small: "sint (of_nat (SERVER_HEADER_LEN + unat (e_size e) + 1) :: 32 word) \<le> int SERVER_RESPONSE_PAYLOAD_LEN"
    using sz fc(8) by (subst sint_small) simp_all
  have sz': "unat (e_size e') + 1 + SERVER_HEADER_LEN \<le> SERVER_RESPONSE_PAYLOAD_LEN"
    using sz fc(8) e'(4) by simp
  have s2': "ctx_wf (sctx s2)" "qp_ptr qp \<in> set (live_qps s2)" "conns s2 = conns s" "live_qps s2 = live_qps s"
    "sent s2 = sent s" "\<And>b. transmitted N s2 qp b = transmitted N s qp b" "rqs s2 = (rqs s)\<lparr>q_db := store d p e'\<rparr>"
    using i(2) live by (simp_all add: s2 transmitted_def)
  let ?bs = "take (Suc (unat (e_size e))) (b_data vb)"
  obtain q' d' where
    q': "get_eager N s2 qp (Some p) (b_addr vb) (e_size e') h (int i) =
       Inr ((msg_sent N s2 qp i (get_reply h (e_size e') @ take (Suc (unat (e_size e'))) (b_data vb)))\<lparr>rqs := q'\<rparr>)"
    "req_inv (host N) (\<lambda>_. 0) q' (without (rqs s2) (tid h) xs)"
    "db_same (q_db (rqs s2)) (q_db q')" "removed ((rqs s2)\<lparr>q_db := d'\<rparr>) (tid h) q'"
    by (rule get_eager_ok [OF st(1,3,4) e'(2) sz' s2'(1) i(1) s2'(2)]) blast
  let ?s' = "(msg_sent N s2 qp i (get_reply h (e_size e) @ ?bs))\<lparr>rqs := q'\<rparr>"
  have run: "handle_get_request N (get_free_send_buffer (Suc m) wait) s qp h (k @ NUL # r) info = Inr (0, ?s')"
    using small q'(1) e'(4) by (simp add: pre)
  have room: "unat (e_size e) < length (b_data vb)"
    using entry_ok_live [OF req_inv_db [OF fc(2)], of p] fc(3,4) e'(3) by (auto elim: entry_okE)
  have lb: "length ?bs = Suc (unat (e_size e))" using room by simp
  have "ctx_wf (sctx ?s')" using s2'(1) i(1) sz' e'(4) lb
    msg_sent_wf [of s2 i "get_reply h (e_size e) @ ?bs" N qp] by simp
  moreover have "conns_ok ?s'" using conns_ok_cong [of ?s' s] s2'(3,4) co by simp
  moreover have "without (rqs s2) (tid h) xs = without (rqs s) (tid h) xs" by (simp add: s2' without_def)
  ultimately have inv': "server_inv N ?s' (without (rqs s) (tid h) xs)"
    using q'(2) by (simp add: server_inv_def)
  have "db_same d (q_db q')" using db_same_trans [OF st(2) q'(3)] .
  then have abs: "db_abs (q_db (rqs ?s')) = (db_abs ?d)(k \<mapsto> value_of ?d k)"
    using db_same_abs fc(7) by auto
  have val: "cstr (take (unat (e_size e)) ?bs) = value_of ?d k"
    using fc(9) e'(3) by (simp add: entry_val_def min_def)
  have "set (waiting_fin_q q') \<subseteq> set (waiting_fin_q (rqs s))"
    using q'(4) by (auto simp: removed_def s2')
  then show ?thesis using s2'(5,6) by (intro that [OF run inv' _ fc(8) lb val abs]) simp_all
qed

lemma get_announces:
  assumes inv: "server_inv N s xs" and W: "plentiful (host N)"
    and k: "storable (db_page_size (q_db (rqs s))) k []" and nw: "\<not> being_written (q_db (rqs s)) k"
    and sz: "SERVER_RESPONSE_PAYLOAD_LEN < stored_size (q_db (rqs s)) k + 1 + SERVER_HEADER_LEN"
      "stored_size (q_db (rqs s)) k + 1 + SERVER_HEADER_LEN < 2 ^ 31"
    and free: "\<exists>i < SERVER_NUM_SEND_BUFFS. \<not> in_use_send (sctx s) ! i" and live: "qp_ptr qp \<in> set (live_qps s)"
  obtains s' n rk ra p ys where
    "handle_get_request N (get_free_send_buffer (Suc m) wait) s qp h (k @ NUL # r) info = Inr (0, s')"
    "server_inv N s' ys" "sent s' = sent s @ transmitted N s qp (get_rdma_reply h n rk ra)"
    "unat n = stored_size (q_db (rqs s)) k" "announces (q_db (rqs s')) p rk ra (unat n)"
    "db_key (q_db (rqs s')) p = Some k" "busy (rqs s') k"
    "db_abs (q_db (rqs s')) = (db_abs (q_db (rqs s)))(k \<mapsto> value_of (q_db (rqs s)) k)"
    "\<exists>w \<in> set (waiting_fin_q (rqs s')). req_key (rqs s') w = Some (uint (tid h)) \<and> r_target (rqs s') w = Some p"
    "\<not> busy (rqs s) k \<longrightarrow> fins (rqs s') p = 1" "p \<in> set (internal_db (q_db (rqs s')))"
    "conns s' = conns s" "live_qps s' = live_qps s"
proof -
  have rinv: "req_inv (host N) (\<lambda>_. 0) (rqs s) xs" and wf: "ctx_wf (sctx s)" and co: "conns_ok s"
    using inv by (simp_all add: server_inv_def)
  let ?d = "q_db (rqs s)"
  obtain p e d where
    fc: "find_or_create (host N) s (k @ NUL # r) (empty_value (host N) s) = Inr (Some p, set_db s d)"
      "req_inv (host N) (\<lambda>_. 0) ((rqs s)\<lparr>q_db := d\<rparr>) xs"
      "p \<in> set (internal_db d)" "db_heap (dmem d) p = Some e" "entry_key e = Some k" "e_lock e \<noteq> Writer"
      "db_abs d = (db_abs ?d)(k \<mapsto> value_of ?d k)"
      "unat (e_size e) = stored_size ?d k" "entry_val e = value_of ?d k" "0 < fins (rqs s) p \<longleftrightarrow> busy (rqs s) k"
    by (rule get_lookup [OF rinv W k nw, where r = r])
  obtain e' c i vb s2 where
    pre: "handle_get_request N (get_free_send_buffer (Suc m) wait) s qp h (k @ NUL # r) info =
       bnd (if sint (of_nat (SERVER_HEADER_LEN + unat (e_size e) + 1) :: 32 word) \<le> int SERVER_RESPONSE_PAYLOAD_LEN
            then get_eager N s2 qp (Some p) (b_addr vb) (e_size e') h (int i)
            else get_rdma N s2 qp (Some p) (e_size e') h (int i)) (\<lambda>s3. Inr (0, s3))"
    and s2: "s2 = (set_db s (store d p e'))\<lparr>sctx := c\<rparr>" and i: "i < SERVER_NUM_SEND_BUFFS" "ctx_wf c"
    and st: "req_inv (host N) ((\<lambda>_. 0)(p := Suc 0)) (rqs s2) xs" "db_same d (q_db (rqs s2))"
    "p \<in> set (internal_db (q_db (rqs s2)))" "db_heap (dmem (q_db (rqs s2))) p = Some e'"
    and e': "entry_key e' = Some k" "e_value e' = Some vb" "e_value e = Some vb" "e_size e' = e_size e"
    by (rule get_prefix [OF fc(1-6) wf free])
  have large: "\<not> sint (of_nat (SERVER_HEADER_LEN + unat (e_size e) + 1) :: 32 word) \<le> int SERVER_RESPONSE_PAYLOAD_LEN"
    using sz fc(8) by (subst sint_small) simp_all
  have s2': "ctx_wf (sctx s2)" "qp_ptr qp \<in> set (live_qps s2)" "conns s2 = conns s" "live_qps s2 = live_qps s"
    "sent s2 = sent s" "\<And>b. transmitted N s2 qp b = transmitted N s qp b"
    using i(2) live by (simp_all add: s2 transmitted_def)
  obtain s' rk ra where
    s': "get_rdma N s2 qp (Some p) (e_size e') h (int i) = Inr s'"
    "\<exists>ys. req_inv (host N) (\<lambda>_. 0) (rqs s') ys"
    "sent s' = sent s2 @ transmitted N s2 qp (get_rdma_reply h (e_size e') rk ra)"
    "ctx_wf (sctx s')" "conns s' = conns s2" "live_qps s' = live_qps s2"
    "busy (rqs s') k" "announces (q_db (rqs s')) p rk ra (unat (e_size e'))"
    "db_key (q_db (rqs s')) p = Some k" "db_abs (q_db (rqs s')) = db_abs (q_db (rqs s2))"
    "\<exists>w \<in> set (waiting_fin_q (rqs s')). req_key (rqs s') w = Some (uint (tid h)) \<and> r_target (rqs s') w = Some p"
    "fins (rqs s2) p = 0 \<longrightarrow> fins (rqs s') p = 1" "db_same (q_db (rqs s2)) (q_db (rqs s'))"
    by (rule get_rdma_ok [OF st(1) W st(3,4) e'(1) s2'(1) i(1) s2'(2)])
  have run: "handle_get_request N (get_free_send_buffer (Suc m) wait) s qp h (k @ NUL # r) info = Inr (0, s')"
    using large s'(1) by (simp add: pre)
  have "conns_ok s'" using conns_ok_cong [of s' s] s'(5,6) s2'(3,4) co by simp
  then obtain ys where inv': "server_inv N s' ys" using s'(2,4) by (auto simp only: server_inv_def)
  have snd: "sent s' = sent s @ transmitted N s qp (get_rdma_reply h (e_size e) rk ra)"
    using s'(3) s2'(5,6) e'(4) by simp
  have abs: "db_abs (q_db (rqs s')) = (db_abs ?d)(k \<mapsto> value_of ?d k)"
    using s'(10) db_same_abs [OF st(2)] fc(7) by simp
  have one: "\<not> busy (rqs s) k \<longrightarrow> fins (rqs s') p = 1" using s'(12) fc(10) by (auto simp: s2 fins_def r_target_def)
  have mem: "p \<in> set (internal_db (q_db (rqs s')))" using s'(13) st(3) by (simp add: db_same_def)
  have same: "conns s' = conns s" "live_qps s' = live_qps s" using s'(5,6) s2'(3,4) by simp_all
  show ?thesis by (rule that [OF run inv' snd fc(8) s'(8) [unfolded e'(4)] s'(9,7) abs s'(11) one mem same])
qed

lemma get_waits:
  assumes inv: "req_inv (host N) (\<lambda>_. 0) (rqs s) xs" and b: "being_written (q_db (rqs s)) k" and k: "NUL \<notin> set k"
  shows "handle_get_request N gb s qp h (k @ NUL # r) info =
    bnd (push_pending_request (host N) (rqs s) (tid h) info h (k @ NUL # r) qp)
      (\<lambda>q. Inr (1, s\<lparr>rqs := q\<rparr>))"
proof -
  obtain p e where p: "p \<in> set (internal_db (q_db (rqs s)))" "db_key (q_db (rqs s)) p = Some k"
    "db_heap (dmem (q_db (rqs s))) p = Some e" "e_lock e = Writer"
    using b by (auto simp: being_written_def)
  have get: "db_get (q_db (rqs s)) (k @ NUL # r) = Inr (Some p)"
    by (rule db_get_there [OF req_inv_db [OF inv] k p(1,2)])
  have locks: "req_locks (host N) (\<lambda>_. 0) (rqs s)" using inv by (simp add: req_inv_def)
  have "db_entry_lock_rd (q_db (rqs s)) (Some p) = Inr (False, q_db (rqs s))"
    by (rule locks_rd [OF locks p(1,3)]) (use p(4) in simp_all)
  then show ?thesis
    using get by (cases "push_pending_request (host N) (rqs s) (tid h) info h (k @ NUL # r) qp")
      (simp_all add: handle_get_request_def find_or_create_def lift_rqs_def)
qed

text \<open>A request that is not yet known, on a busy key: it waits with its headers and payload.\<close>

definition waits :: "server \<Rightarrow> server \<Rightarrow> ptr \<Rightarrow> client_request_headers_t \<Rightarrow> byte list \<Rightarrow> ibv_qp \<Rightarrow> bool" where
  "waits s s' p h buf qp \<longleftrightarrow>
     (\<exists>r b. req_heap (q_mem (rqs s')) p = Some r \<and> r_tid r = uint (tid h) \<and> r_headers r = h \<and>
        r_qp r = Some qp \<and> r_buffer r = Some b \<and> take (kept h) b = take (kept h) buf) \<and>
     q_db (rqs s') = q_db (rqs s) \<and> waiting_fin_q (rqs s') = waiting_fin_q (rqs s) \<and> sent s' = sent s"

lemma push_waits:
  assumes inv: "server_inv N s xs" and W: "plentiful (host N)"
    and new: "\<forall>p \<in> set (internal_q (rqs s)). req_key (rqs s) p \<noteq> Some (uint (tid h))"
    and fit: "kept h \<le> length buf" "kept h \<le> key_room (q_page_size (rqs s))"
  obtains q p where "push_pending_request (host N) (rqs s) (tid h) info h buf qp = Inr q"
    "server_inv N (s\<lparr>rqs := q\<rparr>) (xs @ [p])" "waits s (s\<lparr>rqs := q\<rparr>) p h buf qp"
proof -
  have rinv: "req_inv (host N) (\<lambda>_. 0) (rqs s) xs" and wf: "ctx_wf (sctx s)" and co: "conns_ok s"
    using inv by (simp_all add: server_inv_def)
  obtain q p r where q: "push_pending_request (host N) (rqs s) (tid h) info h buf qp = Inr q"
    "req_inv (host N) (\<lambda>_. 0) q (xs @ [p])" "req_heap (q_mem q) p = Some r" "r_tid r = uint (tid h)"
    "r_headers r = h" "r_qp r = Some qp"
    "r_buffer r = Some (take (kept h) buf @ zeros (key_room (q_page_size (rqs s)) - kept h))"
    "waiting_fin_q q = waiting_fin_q (rqs s)" "q_db q = q_db (rqs s)"
    using push_new_ok [OF rinv W new fit, where info = info and qp = qp] by metis
  have "conns_ok (s\<lparr>rqs := q\<rparr>)" using conns_ok_cong [of "s\<lparr>rqs := q\<rparr>" s] co by simp
  then have "server_inv N (s\<lparr>rqs := q\<rparr>) (xs @ [p])" using q(2) wf by (simp add: server_inv_def)
  then show ?thesis using that q fit by (simp add: waits_def)
qed

section \<open>Properties of GET and of waiting requests\<close>

text \<open>
  C8: a GET of a value that fits in the reply, on an entry that is not being written, is answered
  at once: one message with the header of the reply and the value goes to the client, no lock is
  left behind and the request leaves the collections. A missing key gets the empty value, in
  the reply and in the table.
\<close>

theorem handle_get_request_replies:
  assumes "server_inv N s xs" and "plentiful (host N)"
    and "storable (db_page_size (q_db (rqs s))) k []" and "\<not> being_written (q_db (rqs s)) k"
    and "stored_size (q_db (rqs s)) k + 1 + SERVER_HEADER_LEN \<le> SERVER_RESPONSE_PAYLOAD_LEN"
    and "\<exists>i < SERVER_NUM_SEND_BUFFS. \<not> in_use_send (sctx s) ! i" and "qp_ptr qp \<in> set (live_qps s)"
  shows "\<exists>s' n bs.
     handle_get_request N (get_free_send_buffer (Suc m) wait) s qp h (k @ NUL # r) info = Inr (0, s') \<and>
     server_inv N s' (without (rqs s) (tid h) xs) \<and>
     sent s' = sent s @ transmitted N s qp (get_reply h n @ bs) \<and>
     unat n = stored_size (q_db (rqs s)) k \<and> length bs = Suc (unat n) \<and>
     cstr (take (unat n) bs) = value_of (q_db (rqs s)) k \<and>
     db_abs (q_db (rqs s')) = (db_abs (q_db (rqs s)))(k \<mapsto> value_of (q_db (rqs s)) k) \<and>
     set (waiting_fin_q (rqs s')) \<subseteq> set (waiting_fin_q (rqs s))"
  by (rule get_sends [OF assms, where m = m and wait = wait and r = r and info = info and h = h]) blast

lemma not_busy_not_written:
  assumes "req_inv W (\<lambda>_. 0) q xs" and "\<not> busy q k"
  shows "\<not> being_written (q_db q) k"
proof
  assume "being_written (q_db q) k"
  then obtain p e where p: "p \<in> set (internal_db (q_db q))" "db_key (q_db q) p = Some k"
    "db_heap (dmem (q_db q)) p = Some e" "e_lock e = Writer"
    by (auto simp: being_written_def)
  then have "lock_ok (e_lock e) (e_readers e) (e_writers e)"
    using entry_ok_live [OF req_inv_db [OF assms(1)] p(1)] by (auto elim: entry_okE)
  moreover have "fins q p = 0" using assms(2) p(1,2) by (auto simp: busy_def)
  then have "holds e = 0" using assms(1) p(1,3) by (simp add: req_inv_def req_locks_def)
  ultimately show False using p(4) by (simp add: holds_def)
qed

lemma not_written: "req_inv W (\<lambda>_. 0) q xs \<Longrightarrow> waiting_fin_q q = [] \<Longrightarrow> \<not> being_written (q_db q) k"
  by (rule not_busy_not_written [OF _ not_busy])

theorem handle_get_request_replies_witness:
  "\<exists>q s' bs. server_inv linux_nic (one_client q) [] \<and>
     handle_get_request linux_nic (get_free_send_buffer 1 Inr) (one_client q) qp9 (get_headers 9 3)
       (''key'' @ NUL # zeros 100) 0 = Inr (0, s') \<and>
     sent s' = [(9, get_reply (get_headers 9 3) 0 @ bs)] \<and> length bs = 1 \<and>
     db_abs (q_db (rqs s')) = [''bla'' \<mapsto> [], ''key'' \<mapsto> []]"
proof (rule linux_requests)
  fix q
  assume q: "req_inv linux_world (\<lambda>_. 0) q []" "waiting_fin_q q = []"
    "db_abs (q_db q) = [''bla'' \<mapsto> []]" "db_page_size (q_db q) = 4096"
  note inv = server_inv_one [OF q(1)]
  have st: "storable (db_page_size (q_db (rqs (one_client q)))) ''key'' []"
    by (simp add: storable_def q(4))
  have nw: "\<not> being_written (q_db (rqs (one_client q))) ''key''" using not_written [OF q(1,2)] by simp
  have val: "value_of (q_db q) ''key'' = []" by (simp add: value_of_def q(3))
  have "\<forall>p \<in> set (internal_db (q_db q)). db_key (q_db q) p \<noteq> Some ''key''"
    by (rule db_abs_cases [OF req_inv_db [OF q(1)], where k = "''key''"]) (simp_all add: q(3))
  then have "find (\<lambda>p. db_key (q_db q) p = Some ''key'') (internal_db (q_db q)) = None"
    by (simp add: find_None_iff)
  then have sz: "stored_size (q_db q) ''key'' = 0" by (simp add: stored_size_def)
  from handle_get_request_replies [OF inv _ st nw, of qp9 0 Inr "get_headers 9 3" "zeros 100" 0] free_blank
  have "\<exists>s' n bs. handle_get_request linux_nic (get_free_send_buffer 1 Inr) (one_client q) qp9 (get_headers 9 3)
       (''key'' @ NUL # zeros 100) 0 = Inr (0, s') \<and>
     sent s' = [(9, get_reply (get_headers 9 3) n @ bs)] \<and> unat n = 0 \<and> length bs = Suc (unat n) \<and>
     db_abs (q_db (rqs s')) = [''bla'' \<mapsto> [], ''key'' \<mapsto> []]"
    by (fastforce simp: transmitted_def sz val q(3))
  then obtain s' n bs where run: "handle_get_request linux_nic (get_free_send_buffer 1 Inr) (one_client q) qp9 (get_headers 9 3)
       (''key'' @ NUL # zeros 100) 0 = Inr (0, s')" "sent s' = [(9, get_reply (get_headers 9 3) n @ bs)]"
     "unat n = 0" "length bs = Suc (unat n)" "db_abs (q_db (rqs s')) = [''bla'' \<mapsto> [], ''key'' \<mapsto> []]" by blast
  have "n = 0" using run(3) by (simp add: unat_eq_zero)
  then show ?thesis using inv run by auto
qed

text \<open>
  C9: a GET of a value that is too long for the reply announces the entry's buffer: the client is
  sent its remote key, its address and the size of the value, the table keeps its contents, and
  the entry stays locked for reading until the FIN message of this transaction.
\<close>

theorem handle_get_request_announces:
  assumes "server_inv N s xs" and "plentiful (host N)"
    and "storable (db_page_size (q_db (rqs s))) k []" and "\<not> being_written (q_db (rqs s)) k"
    and "SERVER_RESPONSE_PAYLOAD_LEN < stored_size (q_db (rqs s)) k + 1 + SERVER_HEADER_LEN"
    and "stored_size (q_db (rqs s)) k + 1 + SERVER_HEADER_LEN < 2 ^ 31"
    and "\<exists>i < SERVER_NUM_SEND_BUFFS. \<not> in_use_send (sctx s) ! i" and "qp_ptr qp \<in> set (live_qps s)"
  shows "\<exists>s' n rk ra p ys.
     handle_get_request N (get_free_send_buffer (Suc m) wait) s qp h (k @ NUL # r) info = Inr (0, s') \<and>
     server_inv N s' ys \<and> sent s' = sent s @ transmitted N s qp (get_rdma_reply h n rk ra) \<and>
     unat n = stored_size (q_db (rqs s)) k \<and> announces (q_db (rqs s')) p rk ra (unat n) \<and>
     db_key (q_db (rqs s')) p = Some k \<and> busy (rqs s') k \<and>
     db_abs (q_db (rqs s')) = (db_abs (q_db (rqs s)))(k \<mapsto> value_of (q_db (rqs s)) k) \<and>
     (\<exists>w \<in> set (waiting_fin_q (rqs s')). req_key (rqs s') w = Some (uint (tid h)))"
  by (rule get_announces [OF assms, where m = m and wait = wait and r = r and info = info and h = h]) blast

text \<open>A state in which \<open>bla\<close> has a long value.\<close>

lemma linux_large:
  obtains q where "req_inv linux_world (\<lambda>_. 0) q []" "waiting_fin_q q = []"
    "db_abs (q_db q) = [''bla'' \<mapsto> replicate 5000 CHR ''v'']" "stored_size (q_db q) ''bla'' = 5001"
    "db_page_size (q_db q) = 4096"
proof (rule linux_requests)
  fix q
  assume q: "req_inv linux_world (\<lambda>_. 0) q []" "waiting_fin_q q = []"
    "db_abs (q_db q) = [''bla'' \<mapsto> []]" "db_page_size (q_db q) = 4096"
  have dinv: "db_inv linux_world (q_db q)" and shape: "req_shape linux_world {} q []"
    and locks: "req_locks linux_world (\<lambda>_. 0) q" using q(1) by (simp_all add: req_inv_def req_locks_def)
  obtain p e where p: "p \<in> set (internal_db (q_db q))" "db_heap (dmem (q_db q)) p = Some e"
    "entry_key e = Some ''bla''" by (rule bla_entry [OF dinv q(3)])
  let ?v = "replicate 5000 CHR ''v''"
  have v: "NUL \<notin> set ?v" "length ?v + 1 < 2 ^ 32" by simp_all
  obtain e' d' where ins:
      "updates_entry (q_db q) d' p e'" "entry_ok e'" "entry_key e' = Some ''bla''" "entry_val e' = ?v"
      "e_readers e' = e_readers e" "e_writers e' = e_writers e" "unat (e_size e') = length ?v + 1"
      "db_inv linux_world d'"
    by (rule db_insert_old [OF dinv plentiful_linux p _ v, where r = "[]" and r' = "[]"]) simp
  have l: "req_locks linux_world (\<lambda>_. 0) (q\<lparr>q_db := d'\<rparr>)"
    using ins(5,6) by (intro locks_updates [OF locks ins(1,8) p(2)]) (simp add: holds_def)
  have abs: "db_abs d' = [''bla'' \<mapsto> ?v]"
    using db_abs_updates [OF dinv p(1,2) ins(2,3) p(3) ins(1)] ins(4) q(3) by simp
  have e': "p \<in> set (internal_db d')" "db_heap (dmem d') p = Some e'" "db_page_size d' = 4096"
    using ins(1) p(1) q(4) by (simp_all add: updates_entry_def)
  have "stored_size d' ''bla'' = 5001"
    using find_key [OF ins(8) e'(1)] e'(2) ins(3,7) by (simp add: stored_size_def db_key_def)
  then show ?thesis
    using that [of "q\<lparr>q_db := d'\<rparr>"] l shape q(2) abs e'(3) by (simp add: req_inv_def)
qed

theorem handle_get_request_announces_witness:
  "\<exists>q s' n rk ra p. server_inv linux_nic (one_client q) [] \<and>
     handle_get_request linux_nic (get_free_send_buffer 1 Inr) (one_client q) qp9 (get_headers 9 3)
       (''bla'' @ NUL # zeros 100) 0 = Inr (0, s') \<and>
     sent s' = [(9, get_rdma_reply (get_headers 9 3) n rk ra)] \<and> unat n = 5001 \<and>
     announces (q_db (rqs s')) p rk ra 5001"
proof (rule linux_large)
  fix q
  assume q: "req_inv linux_world (\<lambda>_. 0) q []" "waiting_fin_q q = []"
    "stored_size (q_db q) ''bla'' = 5001" "db_page_size (q_db q) = 4096"
  note inv = server_inv_one [OF q(1)]
  have st: "storable (db_page_size (q_db (rqs (one_client q)))) ''bla'' []"
    by (simp add: storable_def q(4))
  have nw: "\<not> being_written (q_db (rqs (one_client q))) ''bla''" using not_written [OF q(1,2)] by simp
  from handle_get_request_announces [OF inv _ st nw, of qp9 0 Inr "get_headers 9 3" "zeros 100" 0] free_blank
  have "\<exists>s' n rk ra p. handle_get_request linux_nic (get_free_send_buffer 1 Inr) (one_client q) qp9 (get_headers 9 3)
       (''bla'' @ NUL # zeros 100) 0 = Inr (0, s') \<and>
     sent s' = [(9, get_rdma_reply (get_headers 9 3) n rk ra)] \<and> unat n = 5001 \<and>
     announces (q_db (rqs s')) p rk ra (unat n)"
    by (fastforce simp: transmitted_def q(3))
  then show ?thesis using inv by metis
qed

text \<open>
  C10: a request on an entry that it cannot lock waits: a SET while any transfer on the key is
  awaited, a GET while a SET transfer is. It joins the end of the queue with its headers, its queue
  pair and the part of its payload that is kept; nothing is stored in the table and nothing sent.
\<close>

theorem handle_request_waits:
  assumes inv: "server_inv N s xs" and W: "plentiful (host N)" and k: "NUL \<notin> set k"
    and new: "\<forall>p \<in> set (internal_q (rqs s)). req_key (rqs s) p \<noteq> Some (uint (tid h))"
    and fit: "kept h \<le> length (k @ NUL # r)" "kept h \<le> key_room (q_page_size (rqs s))"
  shows "\<exists>q p. server_inv N (s\<lparr>rqs := q\<rparr>) (xs @ [p]) \<and> waits s (s\<lparr>rqs := q\<rparr>) p h (k @ NUL # r) qp \<and>
     (busy (rqs s) k \<longrightarrow>
        handle_set_request N gb s qp h (k @ NUL # r) info = Inr (1, s\<lparr>rqs := q\<rparr>)) \<and>
     (being_written (q_db (rqs s)) k \<longrightarrow>
        handle_get_request N gb s qp h (k @ NUL # r) info = Inr (1, s\<lparr>rqs := q\<rparr>))"
proof -
  have rinv: "req_inv (host N) (\<lambda>_. 0) (rqs s) xs" using inv by (simp add: server_inv_def)
  obtain q p where q: "push_pending_request (host N) (rqs s) (tid h) info h (k @ NUL # r) qp = Inr q"
    "server_inv N (s\<lparr>rqs := q\<rparr>) (xs @ [p])" "waits s (s\<lparr>rqs := q\<rparr>) p h (k @ NUL # r) qp"
    by (rule push_waits [OF inv W new fit])
  then show ?thesis using set_waits [OF rinv _ k] get_waits [OF rinv _ k] by auto
qed

theorem handle_request_waits_witness:
  "\<exists>q q' p. server_inv linux_nic (one_client q) [] \<and>
     handle_get_request linux_nic (\<lambda>s. Inl (Exit 7)) (one_client q) qp9 (get_headers 17 3) (''bla'' @ NUL # zeros 100) 0 =
       Inr (1, (one_client q)\<lparr>rqs := q'\<rparr>) \<and> server_inv linux_nic ((one_client q)\<lparr>rqs := q'\<rparr>) [p]"
proof (rule linux_transfer)
  fix q w p
  assume q: "req_inv linux_world (\<lambda>_. 0) q []" "p \<in> set (internal_db (q_db q))" "db_key (q_db q) p = Some ''bla''"
    "\<And>t. \<forall>p \<in> set (internal_q q). req_key q p \<noteq> Some (uint (t :: 16 word))"
    "map_option e_lock (db_heap (dmem (q_db q)) p) = Some Writer" "q_page_size q = 4096"
  note inv = server_inv_one [OF q(1)]
  have bw: "being_written (q_db (rqs (one_client q))) ''bla''" using q(2,3,5) by (auto simp: being_written_def)
  have new: "\<forall>p \<in> set (internal_q (rqs (one_client q))). req_key (rqs (one_client q)) p \<noteq> Some (uint (tid (get_headers 17 3)))"
    using q(4) [of "tid (get_headers 17 3)"] by simp
  have fit: "kept (get_headers 17 3) \<le> length (''bla'' @ NUL # zeros 100)"
    "kept (get_headers 17 3) \<le> key_room (q_page_size (rqs (one_client q)))"
    by (simp_all add: kept_def q(6))
  from handle_request_waits [OF inv _ _ new fit] bw inv show ?thesis by fastforce
qed

end
