(* ===== verification/Contexts.thy ===== *)
theory Contexts
  imports Buffers
begin

text \<open>
  \<open>common/connection.c\<close>, the two functions that make a context: each step may fail, and a failure
  returns NULL and keeps what the steps before have acquired. Shown: the contexts made are those
  the model starts from, and what a failure leaks.
\<close>

text \<open>What is acquired, in order.\<close>

datatype resource =
    Context_block | In_block | Out_block | Device | Channel | Protection_domain | Mr_in | Mr_out
  | Completion_queue | Queue_pair

text \<open>
  The calls: \<open>acquired r\<close> tells whether the step that acquires \<open>r\<close> succeeds, \<open>the_qp\<close> is the queue
  pair made, \<open>qp_inline\<close> the limit that \<open>ibv_query_qp\<close> reports, \<open>qp_init\<close> whether it takes the
  state INIT.
\<close>

record init_calls =
  acquired :: "resource \<Rightarrow> bool"
  the_qp :: ibv_qp
  qp_inline :: "32 word"
  qp_init :: bool

text \<open>The steps in order, until the first that fails; the result is what has been acquired.\<close>

fun acquire_all :: "init_calls \<Rightarrow> resource list \<Rightarrow> bool \<times> resource list" where
  "acquire_all C [] = (True, [])"
| "acquire_all C (r # rs) =
     (if acquired C r then (let (ok, got) = acquire_all C rs in (ok, r # got)) else (False, []))"

definition server_steps :: "resource list" where
  "server_steps =
     [Context_block, In_block, Out_block, Device, Protection_domain, Mr_in, Mr_out, Completion_queue]"

definition new_context :: "nat \<Rightarrow> nat \<Rightarrow> nat \<Rightarrow> int \<Rightarrow> int \<Rightarrow> kv_context" where
  "new_context page in_size out_size max_recv curr_recv =
     \<lparr>in_buf = zeros (roundup in_size page), out_buf = zeros (roundup out_size page),
      max_recv_buff = max_recv, curr_recv_buff = curr_recv, max_inline_data = 0,
      last_used_recv_buff = 0, last_used_send_buff = 0,
      in_use_recv = replicate SERVER_NUM_RECV_BUFFS False,
      in_use_send = replicate SERVER_NUM_SEND_BUFFS False, ctx_qp = None\<rparr>"

definition server_init_ctx :: "init_calls \<Rightarrow> nat \<Rightarrow> nat \<Rightarrow> nat \<Rightarrow> int \<Rightarrow> kv_context option \<times> resource list" where
  "server_init_ctx C page in_size out_size max_recv_buf =
     (let (ok, got) = acquire_all C server_steps
      in (if ok then Some (new_context page in_size out_size max_recv_buf 0) else None, got))"

text \<open>The client's context has a queue pair of its own, and an event channel on demand.\<close>

definition client_steps :: "bool \<Rightarrow> resource list" where
  "client_steps use_event =
     [Context_block, In_block, Out_block, Device] @ (if use_event then [Channel] else []) @
     [Protection_domain, Mr_in, Mr_out, Completion_queue, Queue_pair]"

definition client_init_ctx ::
  "init_calls \<Rightarrow> nat \<Rightarrow> nat \<Rightarrow> nat \<Rightarrow> int \<Rightarrow> bool \<Rightarrow> kv_context option \<times> resource list" where
  "client_init_ctx C page in_size out_size rx_depth use_event =
     (let (ok, got) = acquire_all C (client_steps use_event)
      in (if ok \<and> qp_init C
          then Some ((new_context page in_size out_size rx_depth rx_depth)
                 \<lparr>ctx_qp := Some (the_qp C), max_inline_data := qp_inline C\<rparr>)
          else None, got))"

section \<open>Facts\<close>

lemma acquire_all_eq:
  "acquire_all C rs = (list_all (acquired C) rs, takeWhile (acquired C) rs)"
  by (induction rs) simp_all

definition all_acquired :: "init_calls \<Rightarrow> bool" where
  "all_acquired C \<longleftrightarrow> (\<forall>r. acquired C r) \<and> qp_init C"

lemma roundup_4096 [simp]: "roundup 16384000 4096 = 16384000" "roundup 4096000 4096 = 4096000"
  by (simp_all add: roundup_def)

lemma server_init_ctx_blank:
  assumes "\<forall>r. acquired C r" and "page = 4096"
  shows "fst (server_init_ctx C page (SERVER_NUM_RECV_BUFFS * BUFFER_SIZE) (SERVER_NUM_SEND_BUFFS * BUFFER_SIZE)
     (int SERVER_NUM_RECV_BUFFS)) = Some blank_context"
  using assms by (simp add: server_init_ctx_def acquire_all_eq list_all_iff new_context_def blank_context_def)

lemma client_init_ctx_blank:
  assumes "all_acquired C" and "page = 4096"
  shows "fst (client_init_ctx C page (SERVER_NUM_RECV_BUFFS * BUFFER_SIZE) (SERVER_NUM_SEND_BUFFS * BUFFER_SIZE)
     (int SERVER_NUM_RECV_BUFFS) ev) =
     Some (blank_context\<lparr>curr_recv_buff := int SERVER_NUM_RECV_BUFFS, ctx_qp := Some (the_qp C),
       max_inline_data := qp_inline C\<rparr>)"
  using assms by (simp add: client_init_ctx_def acquire_all_eq list_all_iff new_context_def blank_context_def all_acquired_def)

text \<open>
  A context that cannot be completed is not given back: the function returns NULL, and what it
  had acquired by then, exactly the steps before the failing one, has no owner any more.
\<close>

theorem failed_context_leaks:
  assumes "fst (client_init_ctx C page in_size out_size rx ev) = None" and "qp_init C"
  shows "\<exists>r rest. client_steps ev = snd (client_init_ctx C page in_size out_size rx ev) @ r # rest \<and> \<not> acquired C r"
proof -
  let ?steps = "client_steps ev"
  have eq: "fst (client_init_ctx C page in_size out_size rx ev) =
      (if list_all (acquired C) ?steps \<and> qp_init C
       then Some ((new_context page in_size out_size rx rx)\<lparr>ctx_qp := Some (the_qp C), max_inline_data := qp_inline C\<rparr>)
       else None)" "snd (client_init_ctx C page in_size out_size rx ev) = takeWhile (acquired C) ?steps"
    by (simp_all add: client_init_ctx_def acquire_all_eq)
  then have "\<not> list_all (acquired C) ?steps" using assms by auto
  then have ne: "dropWhile (acquired C) ?steps \<noteq> []" by (simp add: list_all_iff dropWhile_eq_Nil_conv)
  have "?steps = takeWhile (acquired C) ?steps @ hd (dropWhile (acquired C) ?steps) # tl (dropWhile (acquired C) ?steps)"
    using ne by simp
  moreover have "\<not> acquired C (hd (dropWhile (acquired C) ?steps))" by (rule hd_dropWhile [OF ne])
  ultimately show ?thesis using eq(2) by metis
qed

definition sample_calls :: init_calls where
  "sample_calls = \<lparr>acquired = (\<lambda>_. True), the_qp = \<lparr>qp_ptr = 1, qp_num = 17\<rparr>, qp_inline = 0, qp_init = True\<rparr>"

theorem failed_context_leaks_witness:
  "\<exists>rest. client_steps False = [Context_block, In_block, Out_block, Device, Protection_domain] @ Mr_in # rest \<and>
     client_init_ctx (sample_calls\<lparr>acquired := (\<lambda>r. r \<noteq> Mr_in)\<rparr>) 4096 0 0 0 False =
       (None, [Context_block, In_block, Out_block, Device, Protection_domain])"
proof -
  let ?C = "sample_calls\<lparr>acquired := (\<lambda>r. r \<noteq> Mr_in)\<rparr>"
  have run: "client_init_ctx ?C 4096 0 0 0 False = (None, [Context_block, In_block, Out_block, Device, Protection_domain])"
    by (simp add: client_init_ctx_def client_steps_def sample_calls_def)
  have "fst (client_init_ctx ?C 4096 0 0 0 False) = None" "qp_init ?C" using run by (simp_all add: sample_calls_def)
  from failed_context_leaks [OF this] run show ?thesis by (auto simp: client_steps_def)
qed

end
