(* ===== verification/Accept.thy ===== *)
theory Accept
  imports Server Contexts
begin

text \<open>
  \<open>server.c\<close>, third part: the listening socket, the \<open>select\<close> loop that accepts clients and
  reads their addresses, the exchange with one client, initialisation and the main loop. Shown in
  \<open>Slots\<close>: which sockets and slots survive a round of the loop.
\<close>

section \<open>Listening\<close>

definition close_fd :: "int \<Rightarrow> server \<Rightarrow> server" where
  "close_fd fd s = s\<lparr>open_fds := removeAll fd (open_fds s)\<rparr>"

text \<open>
  \<open>listen_sd\<close> is assigned before the later steps are tried, and keeps its value when they fail.
\<close>

definition create_listen_socket :: "nic \<Rightarrow> server \<Rightarrow> int \<times> server" where
  "create_listen_socket N s =
     (let l = listen_call N (verbs s); s0 = tick s
      in if \<not> service_ok l \<or> \<not> print_ok l \<or> \<not> addr_ok l \<or> \<not> single_addr l then (1, s0)
         else
           let s1 = s0\<lparr>listen_sd := sock l\<rparr>
           in if sock l < 0 then (1, s1)
              else
                let s2 = s1\<lparr>open_fds := sock l # open_fds s1\<rparr>
                in if \<not> opt_ok l \<or> \<not> ioctl_ok l \<or> \<not> bind_ok l \<or> \<not> listen_ok l
                   then (1, close_fd (sock l) s2)
                   else (0, s2))"

section \<open>Exchange of addresses with one client\<close>

text \<open>
  What a client's socket delivers: the result of \<open>recv\<close>, whether the answer is sent whole, and
  the results of the reads of the final "done".
\<close>

record client_sock =
  s_msg :: "byte list"
  s_send_ok :: bool
  s_reads :: "int list"

definition create_new_qp :: "nic \<Rightarrow> server \<Rightarrow> ibv_qp option \<times> server" where
  "create_new_qp N s =
     (case new_qp N (verbs s) of
        None \<Rightarrow> (None, tick s)
      | Some qp \<Rightarrow>
          let s1 = (tick s)\<lparr>live_qps := qp_ptr qp # live_qps s,
                           sctx := (sctx s)\<lparr>max_inline_data := inline_cap N (verbs s)\<rparr>\<rparr>
          in (if to_init N (verbs s) then Some qp else None, s1))"

text \<open>The reads end after the five bytes of "done"; a list that ends before is a read that blocks.\<close>

fun read_done :: "int list \<Rightarrow> int \<Rightarrow> stop + bool" where
  "read_done js got =
     (if 5 \<le> got then Inr True
      else case js of
             [] \<Rightarrow> Inl (UB Endless)
           | j # ks \<Rightarrow> if j < 0 \<or> j = 0 then Inr False else read_done ks (got + j))"

declare read_done.simps [simp del]

definition send_address_back_to_client ::
  "client_sock \<Rightarrow> byte list \<Rightarrow> int \<Rightarrow> server \<Rightarrow> stop + int \<times> server" where
  "send_address_back_to_client c wgid fd s =
     bnd (server_msg [] (word_of_int (last_client s + 1)) (my_dest s) wgid) (\<lambda>_.
     if \<not> s_send_ok c then Inr (1, s)
     else bnd (read_done (s_reads c) 0) (\<lambda>ok. Inr (if ok then 0 else 1, close_fd fd s)))"

definition handle_received_connection_data ::
  "nic \<Rightarrow> get_buffer \<Rightarrow> client_sock \<Rightarrow> int \<Rightarrow> server \<Rightarrow> stop + int \<times> server" where
  "handle_received_connection_data N get_buf c fd s =
     (let (new, s1) = create_new_qp N s
      in case new of
           None \<Rightarrow> Inr (1, s1)
         | Some qp \<Rightarrow>
             let s2 = (tick s1)\<lparr>my_dest := (my_dest s1)\<lparr>qpn := qp_num qp, psn := lrand48 N (verbs s1) AND 0xffffff\<rparr>\<rparr>
             in bnd (scan_client_msg (stack_gid N) (stack_word N) (s_msg c)) (\<lambda>rem_dest.
                if connect_ctx (to_rtr N) (to_rts N) qp (psn (my_dest s2)) rem_dest \<noteq> 0 then Inr (1, s2)
                else
                  bnd (add_new_connection s2 qp MAX_RECV_BUFFS 0) (\<lambda>(j, s3).
                  bnd (send_address_back_to_client c (gid_to_wire_gid (gid (my_dest s3))) fd s3) (\<lambda>(rc, s4).
                  if rc = 1 then Inl (Exit 1)
                  else
                    bnd (server_post_recv_buffers N s4 j) (\<lambda>(n, s5).
                    let x = conns s5 ! j;
                        s6 = s5\<lparr>conns := (conns s5)[j := x\<lparr>c_curr := n\<rparr>]\<rparr>
                    in if n < c_max x then teardown_server_connection N get_buf s6 1
                       else Inr (0, s6))))))"

section \<open>The select loop\<close>

text \<open>
  One return of \<open>select\<close> with sockets that are ready: the descriptors, the results of the calls of
  \<open>accept\<close> before the one that fails, and what the clients' sockets deliver.
\<close>

record select_round =
  ready :: "int list"
  accepts :: "int list"
  socks :: "int \<Rightarrow> client_sock"

text \<open>\<open>master\<close> is the set of descriptors that are waited on.\<close>

fun accept_loop :: "int list \<Rightarrow> int list \<Rightarrow> server \<Rightarrow> int list \<times> server" where
  "accept_loop [] master s = (master, s)"
| "accept_loop (new_sd # fds) master s =
     (let s1 = s\<lparr>open_fds := new_sd # open_fds s\<rparr>
      in if num_conns s1 = int MAX_CLIENTS_SUPPORTED then (master, close_fd new_sd s1)
         else accept_loop fds (new_sd # master) (s1\<lparr>num_conns := num_conns s1 + 1\<rparr>))"

fun serve_ready ::
  "nic \<Rightarrow> get_buffer \<Rightarrow> select_round \<Rightarrow> int list \<Rightarrow> int list \<Rightarrow> server \<Rightarrow> stop + int list \<times> server" where
  "serve_ready N get_buf r [] master s = Inr (master, s)"
| "serve_ready N get_buf r (i # is) master s =
     (if i = listen_sd s
      then (let (master1, s1) = accept_loop (accepts r) master s in serve_ready N get_buf r is master1 s1)
      else
        bnd (if length (s_msg (socks r i)) = EXCHANGE_MSG_SIZE
             then bnd (handle_received_connection_data N get_buf (socks r i) i s) (\<lambda>(_, s1). Inr s1)
             else Inr s) (\<lambda>s1.
        serve_ready N get_buf r is (removeAll i master) s1))"

text \<open>
  \<open>select\<close> reports members of the set, and the loop visits them in ascending order. The list
  of its returns ends with the timeout or the error that ends the loop; then the sockets still
  waited on are closed, the listening one excepted.
\<close>

fun query_for_connections ::
  "nic \<Rightarrow> get_buffer \<Rightarrow> select_round list \<Rightarrow> int list \<Rightarrow> server \<Rightarrow> stop + server" where
  "query_for_connections N get_buf [] master s =
     Inr (fold close_fd (filter (\<lambda>i. i \<noteq> listen_sd s) master) s)"
| "query_for_connections N get_buf (r # rs) master s =
     bnd (serve_ready N get_buf r (filter (\<lambda>i. i \<in> set master) (sort (remdups (ready r)))) master s)
       (\<lambda>(master1, s1). query_for_connections N get_buf rs master1 s1)"

definition accept_new_connection :: "nic \<Rightarrow> get_buffer \<Rightarrow> select_round list \<Rightarrow> server \<Rightarrow> stop + int \<times> server" where
  "accept_new_connection N get_buf rs s =
     (if \<not> check_available_connection_slots s then Inr (1, s)
      else
        let (rc, s1) = (if listen_sd s = NOT_CONNECTED then create_listen_socket N s else (0, s))
        in if rc \<noteq> 0 then Inr (1, s1)
           else bnd (query_for_connections N get_buf rs [listen_sd s1] s1) (\<lambda>s2. Inr (0, s2)))"

section \<open>Initialisation\<close>

text \<open>
  The steps that can fail: the device list, a device, the context (\<open>server_init_ctx\<close>), the port
  query, and a port that has an address (\<open>port_lid\<close> is not zero on an InfiniBand link). On each
  failure the teardown runs with what exists so far; before the context exists, its pointer is
  NULL.
\<close>

record startup =
  has_devices :: bool
  has_device :: bool
  ctx_calls :: init_calls
  has_port :: bool
  is_infiniband :: bool
  port_lid :: "16 word"
  ctx_pd :: ptr

definition init_ctx :: "nic \<Rightarrow> startup \<Rightarrow> kv_context option" where
  "init_ctx N u =
     fst (server_init_ctx (ctx_calls u) (page_size (host N)) (SERVER_NUM_RECV_BUFFS * BUFFER_SIZE)
            (SERVER_NUM_SEND_BUFFS * BUFFER_SIZE) (int SERVER_NUM_RECV_BUFFS))"

definition init_server_connection :: "nic \<Rightarrow> get_buffer \<Rightarrow> startup \<Rightarrow> stop + server" where
  "init_server_connection N get_buf u =
     (let q0 = requests_start db_start
      in if \<not> has_devices u then bnd (destroy_tables q0) (\<lambda>_. Inl (Exit 1))
         else if \<not> has_device u then bnd (destroy_tables q0) (\<lambda>_. Inl (Exit 1))
         else
           bnd (server_pending_requests_init (host N) q0) (\<lambda>q.
           case init_ctx N u of
             None \<Rightarrow> bnd (destroy_tables q) (\<lambda>_. Inl (Exit 1))
           | Some c \<Rightarrow>
             bnd (db_init (host N) (ctx_pd u) (q_db q)) (\<lambda>d.
             let s = (server_start (q\<lparr>q_db := d\<rparr>))\<lparr>sctx := c\<rparr>
             in if \<not> has_port u then teardown_server_connection N get_buf s 1
                else
                  let s1 = s\<lparr>my_dest := (my_dest s)\<lparr>lid := ucast (port_lid u)\<rparr>\<rparr>
                  in if is_infiniband u \<and> lid (my_dest s1) = 0 then teardown_server_connection N get_buf s1 1
                     else Inr (s1\<lparr>my_dest := (my_dest s1)\<lparr>gid := zeros 16\<rparr>\<rparr>))))"

section \<open>The main loop\<close>

text \<open>
  One round, and the loop over the rounds until \<open>immediate_shutdown\<close>; each round comes with what
  the sockets hold. \<open>n\<close> is the fuel of the completion loop.
\<close>

definition server_round :: "nat \<Rightarrow> nic \<Rightarrow> select_round list \<Rightarrow> server \<Rightarrow> stop + server" where
  "server_round n N rs s =
     (let get_buf = get_free_send_buffer n (server_wait_completions n N)
      in bnd (accept_new_connection N get_buf rs s) (\<lambda>(_, s1).
         bnd (server_wait_completions n N s1) (handle_pending_request N get_buf)))"

fun server_loop :: "nat \<Rightarrow> nic \<Rightarrow> select_round list list \<Rightarrow> server \<Rightarrow> stop + 'a" where
  "server_loop n N [] s =
     teardown_server_connection N (get_free_send_buffer n (server_wait_completions n N)) s 0"
| "server_loop n N (rs # rounds) s = bnd (server_round n N rs s) (server_loop n N rounds)"

end
