(* ===== verification/Slots.thy ===== *)
theory Slots
  imports Handlers Accept
begin

text \<open>
  The four slots of the connection table and what they own: posting receive buffers up to the
  quota, taking a slot, removing a connection with everything it owns; then initialisation, the
  listening socket, the slots that are lost when a client does not finish its handshake, and
  what the teardown leaves behind.
\<close>

section \<open>Posting receive buffers\<close>

lemma set_flag_nat: "i < length u \<Longrightarrow> set_flag u (int i) b = Inr (u[i := b])"
  by (simp add: set_flag_def)

lemma set_flag_length: "set_flag u i b = Inr u' \<Longrightarrow> length u' = length u"
  by (auto simp: set_flag_def split: if_splits)

text \<open>One buffer: the first free one in cyclic order is cleared, handed to the adapter and marked.\<close>

lemma post_recv_ok:
  assumes wf: "ctx_wf (sctx s)" and i: "i < SERVER_NUM_RECV_BUFFS"
    and live: "qp_ptr qp \<in> set (live_qps s)" and ok: "recv_ok N (verbs s)"
  shows "server_post_recv N s qp (int i) =
    Inr (True, (tick s)\<lparr>sctx := (sctx s)\<lparr>in_buf := splice (in_buf (sctx s)) (get_recv_buffer i) (zeros BUFFER_SIZE),
      in_use_recv := (in_use_recv (sctx s))[i := True]\<rparr>\<rparr>)"
proof -
  have room: "get_recv_buffer i + BUFFER_SIZE \<le> length (in_buf (sctx s))"
    using wf i by (simp add: ctx_wf_def get_recv_buffer_def)
  show ?thesis
    using room i wf live ok
    by (simp add: server_post_recv_def mem_write_def tick_def lift_ctx_def flag_ops ctx_wf_def)
qed

text \<open>A change of the flags of one connection.\<close>

lemma conns_ok_same_qps:
  assumes "conns_ok s" and "live_qps s' = live_qps s" and "length (conns s') = length (conns s)"
    and "\<forall>i < MAX_CLIENTS_SUPPORTED. c_qp (conns s' ! i) = c_qp (conns s ! i)"
    and "\<forall>c \<in> set (conns s'). length (c_in_use c) = SERVER_NUM_RECV_BUFFS"
  shows "conns_ok s'"
  using assms unfolding conns_ok_def by simp

lemma list_update_conns:
  assumes "j < length (conns s)" and "conns_ok s" and "length u = SERVER_NUM_RECV_BUFFS"
  shows "conns_ok (s\<lparr>conns := (conns s)[j := (conns s ! j)\<lparr>c_in_use := u\<rparr>]\<rparr>)"
proof (rule conns_ok_same_qps [OF assms(2)])
  have "\<forall>c \<in> set (conns s). length (c_in_use c) = SERVER_NUM_RECV_BUFFS"
    using assms(2) unfolding conns_ok_def by blast
  then show "\<forall>c \<in> set (conns (s\<lparr>conns := (conns s)[j := (conns s ! j)\<lparr>c_in_use := u\<rparr>]\<rparr>)).
      length (c_in_use c) = SERVER_NUM_RECV_BUFFS"
    using set_update_all [of "conns s" "\<lambda>c. length (c_in_use c) = SERVER_NUM_RECV_BUFFS" "(conns s ! j)\<lparr>c_in_use := u\<rparr>" j] assms(3) by simp
  show "\<forall>i < MAX_CLIENTS_SUPPORTED.
      c_qp (conns (s\<lparr>conns := (conns s)[j := (conns s ! j)\<lparr>c_in_use := u\<rparr>]\<rparr>) ! i) = c_qp (conns s ! i)"
    using assms(1) by (simp add: nth_list_update)
qed simp_all

text \<open>
  The loop posts as many buffers as asked for, or all that are free: its result counts them.
\<close>

lemma post_recv_loop_ok:
  assumes "ctx_wf (sctx s)" and "conns_ok s" and "j < MAX_CLIENTS_SUPPORTED"
    and "qp_ptr qp \<in> set (live_qps s)" and "\<forall>m. recv_ok N m"
  obtains s' where
    "post_recv_loop n N s j qp k = Inr (k + int (min n (recv_ring.spare (sctx s))), s')"
    "ctx_wf (sctx s')" "conns_ok s'" "rqs s' = rqs s" "live_qps s' = live_qps s"
    "recv_ring.spare (sctx s') = recv_ring.spare (sctx s) - min n (recv_ring.spare (sctx s))"
    "in_use_send (sctx s') = in_use_send (sctx s)" "c_qp (conns s' ! j) = c_qp (conns s ! j)"
    "c_max (conns s' ! j) = c_max (conns s ! j)"
  using assms
proof (induction n arbitrary: s k thesis)
  case 0
  then show ?case by simp
next
  case (Suc n)
  note wf = Suc.prems(2) and co = Suc.prems(3) and j = Suc.prems(4) and live = Suc.prems(5) and ok = Suc.prems(6)
  have jl: "j < length (conns s)" using co j by (simp add: conns_ok_def)
  from wf show ?case
  proof (cases rule: recv_ring.pick_cases)
    case full
    then show ?thesis using Suc.prems(1) [of s] wf co by simp
  next
    case (slot i c)
    have i: "i < SERVER_NUM_RECV_BUFFS" using slot(3) wf by (simp add: ctx_wf_def)
    let ?s1 = "s\<lparr>sctx := c\<rparr>"
    let ?s2 = "(tick ?s1)\<lparr>sctx := c\<lparr>in_buf := splice (in_buf c) (get_recv_buffer i) (zeros BUFFER_SIZE),
      in_use_recv := (in_use_recv c)[i := True]\<rparr>\<rparr>"
    let ?u = "(c_in_use (conns s ! j))[i := True]"
    let ?s3 = "?s2\<lparr>conns := (conns s)[j := (conns s ! j)\<lparr>c_in_use := ?u\<rparr>]\<rparr>"
    have post: "server_post_recv N ?s1 qp (int i) = Inr (True, ?s2)"
      using post_recv_ok [of ?s1 i qp N] slot(6) i live ok by simp
    have lu: "length (c_in_use (conns s ! j)) = SERVER_NUM_RECV_BUFFS"
      using co jl by (simp add: conns_ok_def)
    have wf3: "ctx_wf (sctx ?s3)"
      using slot(6) i by (auto simp: ctx_wf_def get_recv_buffer_def)
    have "conns_ok (?s2\<lparr>conns := (conns ?s2)[j := (conns ?s2 ! j)\<lparr>c_in_use := ?u\<rparr>]\<rparr>)"
      using jl lu conns_ok_cong [of ?s2 s] co by (intro list_update_conns) simp_all
    then have co3: "conns_ok ?s3" by simp
    have spare: "recv_ring.spare (sctx s) = Suc (recv_ring.spare (sctx ?s3))"
      using count_list_update [of i "in_use_recv c" True False] slot(3-5) by simp
    obtain s' where s':
      "post_recv_loop n N ?s3 j qp (k + 1) = Inr (k + 1 + int (min n (recv_ring.spare (sctx ?s3))), s')"
      "ctx_wf (sctx s')" "conns_ok s'" "rqs s' = rqs ?s3" "live_qps s' = live_qps ?s3"
      "recv_ring.spare (sctx s') = recv_ring.spare (sctx ?s3) - min n (recv_ring.spare (sctx ?s3))"
      "in_use_send (sctx s') = in_use_send (sctx ?s3)" "c_qp (conns s' ! j) = c_qp (conns ?s3 ! j)"
      "c_max (conns s' ! j) = c_max (conns ?s3 ! j)"
      by (rule Suc.IH [OF _ wf3 co3 j]) (use live ok in simp_all)
    have "post_recv_loop (Suc n) N s j qp k = post_recv_loop n N ?s3 j qp (k + 1)"
      using slot(2) post i lu by (simp add: set_flag_nat)
    moreover have "in_use_send c = in_use_send (sctx s)"
      using slot(2) wf by (auto simp: get_free_recv_idx_eq split: option.splits)
    ultimately show ?thesis
      using Suc.prems(1) [of s'] s' spare jl by simp
  qed
qed

text \<open>
  \<open>server_post_recv_buffers\<close> gives a connection the receive buffers it is short of, or
  all the free ones when there are fewer; the result is their number, and each of them is taken
  from the free ones exactly once.
\<close>

theorem server_post_recv_buffers_quota:
  assumes "ctx_wf (sctx s)" and "conns_ok s" and "j < MAX_CLIENTS_SUPPORTED"
    and "c_qp (conns s ! j) = Some qp" and "\<forall>m. recv_ok N m"
  shows "\<exists>s' n. server_post_recv_buffers N s j = Inr (int n, s') \<and>
     n = min (nat (c_max (conns s ! j) - c_curr (conns s ! j))) (count_list (in_use_recv (sctx s)) False) \<and>
     count_list (in_use_recv (sctx s')) False = count_list (in_use_recv (sctx s)) False - n \<and>
     ctx_wf (sctx s') \<and> conns_ok s' \<and> rqs s' = rqs s"
proof -
  have live: "qp_ptr qp \<in> set (live_qps s)" using assms(2-4) by (simp add: conns_ok_def)
  let ?n = "nat (c_max (conns s ! j) - c_curr (conns s ! j))"
  obtain s' where s': "post_recv_loop ?n N s j qp 0 = Inr (0 + int (min ?n (recv_ring.spare (sctx s))), s')"
    "ctx_wf (sctx s')" "conns_ok s'" "rqs s' = rqs s"
    "recv_ring.spare (sctx s') = recv_ring.spare (sctx s) - min ?n (recv_ring.spare (sctx s))"
    by (rule post_recv_loop_ok [OF assms(1-3) live assms(5)])
  then show ?thesis using assms(4) by (simp add: server_post_recv_buffers_def)
qed

theorem server_post_recv_buffers_quota_witness:
  "\<exists>s'. server_post_recv_buffers linux_nic (one_client (requests_start db_start)) 0 = Inr (1000, s') \<and>
     count_list (in_use_recv (sctx s')) False = 3000 \<and> ctx_wf (sctx s')"
proof -
  let ?s = "one_client (requests_start db_start)"
  have c: "c_qp (conns ?s ! 0) = Some qp9" "nat (c_max (conns ?s ! 0) - c_curr (conns ?s ! 0)) = 1000"
    by (simp_all add: one_client_def empty_connection_def)
  from server_post_recv_buffers_quota [OF _ conns_ok_one _ c(1), of linux_nic] show ?thesis
    using spare_blank unfolding c(2) by fastforce
qed

section \<open>Removing a connection\<close>

lemma release_owned_ok:
  "ctx_wf c \<Longrightarrow> i + length us \<le> SERVER_NUM_RECV_BUFFS \<Longrightarrow>
   \<exists>u. release_owned us i c = Inr (c\<lparr>in_use_recv := u\<rparr>) \<and> length u = length (in_use_recv c) \<and>
    (\<forall>k. k < length u \<longrightarrow> u ! k \<longleftrightarrow> in_use_recv c ! k \<and> \<not> (i \<le> k \<and> k < i + length us \<and> us ! (k - i)))"
proof (induction us arbitrary: i c)
  case Nil
  show ?case by (rule exI [of _ "in_use_recv c"]) simp
next
  case (Cons b us)
  let ?c = "c\<lparr>in_use_recv := (if b then (in_use_recv c)[i := False] else in_use_recv c)\<rparr>"
  have il: "i < length (in_use_recv c)" using Cons.prems by (simp add: ctx_wf_def)
  have step: "release_owned (b # us) i c = release_owned us (Suc i) ?c"
    using il by (cases b) (simp_all add: release_receive_buffer_def set_flag_nat)
  have wf: "ctx_wf ?c" using Cons.prems(1) by (simp add: ctx_wf_def)
  have "Suc i + length us \<le> SERVER_NUM_RECV_BUFFS" using Cons.prems(2) by simp
  from Cons.IH [OF wf this] obtain u where
    u: "release_owned us (Suc i) ?c = Inr (?c\<lparr>in_use_recv := u\<rparr>)" "length u = length (in_use_recv ?c)"
    "\<forall>k. k < length u \<longrightarrow> u ! k \<longleftrightarrow> in_use_recv ?c ! k \<and> \<not> (Suc i \<le> k \<and> k < Suc i + length us \<and> us ! (k - Suc i))"
    by blast
  have "u ! k \<longleftrightarrow> in_use_recv c ! k \<and> \<not> (i \<le> k \<and> k < i + length (b # us) \<and> (b # us) ! (k - i))"
    if k: "k < length u" for k
  proof (cases "k = i")
    case True
    then show ?thesis using u(2,3) k il by (cases b) simp_all
  next
    case False
    then show ?thesis using u(2,3) k il by (cases b) (auto simp: nth_Cons' le_Suc_eq)
  qed
  moreover have "length u = length (in_use_recv c)" using u(2) by simp
  ultimately show ?case using step u(1) by (intro exI [of _ u]) simp
qed

lemma conns_okD:
  assumes "conns_ok s"
  shows "length (conns s) = MAX_CLIENTS_SUPPORTED"
    and "\<forall>c \<in> set (conns s). length (c_in_use c) = SERVER_NUM_RECV_BUFFS"
    and "\<forall>i < MAX_CLIENTS_SUPPORTED. \<forall>qp. c_qp (conns s ! i) = Some qp \<longrightarrow>
        qp_ptr qp \<in> set (live_qps s) \<and> qp_num qp \<noteq> 0"
    and "\<forall>i < MAX_CLIENTS_SUPPORTED. \<forall>j < MAX_CLIENTS_SUPPORTED. \<forall>qp qp'.
        c_qp (conns s ! i) = Some qp \<longrightarrow> c_qp (conns s ! j) = Some qp' \<longrightarrow> i \<noteq> j \<longrightarrow>
        qp_ptr qp \<noteq> qp_ptr qp'"
  by (insert assms [unfolded conns_ok_def]) (elim conjE, assumption)+

lemma get_connection_Some:
  assumes "get_connection s n = Some j"
  obtains qp where "j < MAX_CLIENTS_SUPPORTED" "c_qp (conns s ! j) = Some qp" "qp_num qp = n"
proof -
  obtain i where "i < length [0..<MAX_CLIENTS_SUPPORTED]" "has_qp n (conns s ! ([0..<MAX_CLIENTS_SUPPORTED] ! i))"
    "j = [0..<MAX_CLIENTS_SUPPORTED] ! i"
    using assms unfolding get_connection_def find_Some_iff by blast
  then have "j < MAX_CLIENTS_SUPPORTED" "has_qp n (conns s ! j)" by simp_all
  then show ?thesis using that by (simp add: has_qp_def split: option.splits)
qed

lemma conns_ok_remove:
  assumes co: "conns_ok s" and j: "j < MAX_CLIENTS_SUPPORTED" "c_qp (conns s ! j) = Some qp"
    and s': "conns s' = (conns s)[j := x]" "c_qp x = None" "length (c_in_use x) = SERVER_NUM_RECV_BUFFS"
      "live_qps s' = removeAll (qp_ptr qp) (live_qps s)"
  shows "conns_ok s'"
proof -
  note len = conns_okD(1) [OF co] and own = conns_okD(2) [OF co] and live = conns_okD(3) [OF co]
    and dist = conns_okD(4) [OF co]
  have qp: "c_qp (conns s' ! i) = (if i = j then None else c_qp (conns s ! i))" if "i < MAX_CLIENTS_SUPPORTED" for i
    using that len j(1) s'(1,2) by (simp add: nth_list_update)
  have "\<forall>c \<in> set (conns s'). length (c_in_use c) = SERVER_NUM_RECV_BUFFS"
    unfolding s'(1) by (rule set_update_all [OF own s'(3)])
  moreover have "length (conns s') = MAX_CLIENTS_SUPPORTED" using len s'(1) by simp
  moreover have "\<forall>i < MAX_CLIENTS_SUPPORTED. \<forall>q. c_qp (conns s' ! i) = Some q \<longrightarrow>
      qp_ptr q \<in> set (live_qps s') \<and> qp_num q \<noteq> 0"
  proof (intro allI impI)
    fix i q
    assume i: "i < MAX_CLIENTS_SUPPORTED" "c_qp (conns s' ! i) = Some q"
    then have "i \<noteq> j" "c_qp (conns s ! i) = Some q" using qp [OF i(1)] by (auto split: if_splits)
    then show "qp_ptr q \<in> set (live_qps s') \<and> qp_num q \<noteq> 0"
      using live dist i(1) j s'(4) by auto
  qed
  moreover have "\<forall>i < MAX_CLIENTS_SUPPORTED. \<forall>k < MAX_CLIENTS_SUPPORTED. \<forall>q q'.
      c_qp (conns s' ! i) = Some q \<longrightarrow> c_qp (conns s' ! k) = Some q' \<longrightarrow> i \<noteq> k \<longrightarrow> qp_ptr q \<noteq> qp_ptr q'"
  proof (intro allI impI)
    fix i k q q'
    assume i: "i < MAX_CLIENTS_SUPPORTED" "k < MAX_CLIENTS_SUPPORTED" "c_qp (conns s' ! i) = Some q"
      "c_qp (conns s' ! k) = Some q'" "i \<noteq> k"
    then have "c_qp (conns s ! i) = Some q" "c_qp (conns s ! k) = Some q'"
      using qp [OF i(1)] qp [OF i(2)] by (auto split: if_splits)
    then show "qp_ptr q \<noteq> qp_ptr q'" using dist i(1,2,5) by blast
  qed
  ultimately show ?thesis by (simp only: conns_ok_def)
qed

lemma remove_ok_connection:
  assumes inv: "server_inv N s xs" and n: "get_connection s n = Some j" "c_qp (conns s ! j) = Some qp"
    and destroy: "\<forall>m. destroy_ok N m"
  obtains s' where "remove_connection N s n = Inr (0, s')"
    "server_inv N s' (filter (\<lambda>p. req_qp (rqs s) p \<noteq> Some n) xs)"
    "c_qp (conns s' ! j) = None" "qp_ptr qp \<notin> set (live_qps s')" "num_conns s' = num_conns s - 1"
    "\<forall>k < SERVER_NUM_RECV_BUFFS. in_use_recv (sctx s') ! k \<longleftrightarrow>
       in_use_recv (sctx s) ! k \<and> \<not> c_in_use (conns s ! j) ! k"
    "removed_all (rqs s) {p \<in> set (internal_q (rqs s)). req_qp (rqs s) p = Some n} (rqs s')"
proof -
  have rinv: "req_inv (host N) (\<lambda>_. 0) (rqs s) xs" and wf: "ctx_wf (sctx s)" and co: "conns_ok s"
    using inv by (simp_all add: server_inv_def)
  have j: "j < MAX_CLIENTS_SUPPORTED" and num: "qp_num qp = n"
    using n by (auto elim: get_connection_Some)
  have live: "qp_ptr qp \<in> set (live_qps s)" "qp_num qp \<noteq> 0" using conns_okD(3) [OF co] j n(2) by blast+
  obtain q where q: "invalidate_requests_by_qp (rqs s) qp = Inr q"
    "req_inv (host N) (\<lambda>_. 0) q (filter (\<lambda>p. req_qp (rqs s) p \<noteq> Some (qp_num qp)) xs)"
    "removed_all (rqs s) {p \<in> set (internal_q (rqs s)). req_qp (rqs s) p = Some (qp_num qp)} q"
    by (rule invalidate_ok [OF rinv live(2)])
  let ?c = "conns s ! j"
  let ?x = "?c\<lparr>c_qp := None, c_max := 0, c_curr := 0, c_in_use := map (\<lambda>_. False) (c_in_use ?c)\<rparr>"
  let ?s2 = "(tick (s\<lparr>rqs := q\<rparr>))\<lparr>live_qps := removeAll (qp_ptr qp) (live_qps s),
      conns := (conns s)[j := ?x], num_conns := num_conns s - 1\<rparr>"
  have len: "length (c_in_use ?c) = SERVER_NUM_RECV_BUFFS" "j < length (conns s)"
    using conns_okD(1,2) [OF co] j by simp_all
  obtain u where u: "release_owned (c_in_use ?c) 0 (sctx ?s2) = Inr ((sctx ?s2)\<lparr>in_use_recv := u\<rparr>)"
    "length u = length (in_use_recv (sctx ?s2))"
    "\<forall>k. k < length u \<longrightarrow> u ! k \<longleftrightarrow> in_use_recv (sctx ?s2) ! k \<and>
      \<not> (0 \<le> k \<and> k < 0 + length (c_in_use ?c) \<and> c_in_use ?c ! (k - 0))"
    using release_owned_ok [of "sctx ?s2" 0 "c_in_use ?c"] wf len(1) by auto
  let ?s = "?s2\<lparr>sctx := (sctx ?s2)\<lparr>in_use_recv := u\<rparr>\<rparr>"
  have run: "remove_connection N s n = Inr (0, ?s)"
    using n q(1) live(1) destroy u(1) by (simp add: remove_connection_def lift_rqs_def lift_ctx_def Let_def)
  have "conns_ok ?s" by (rule conns_ok_remove [OF co j n(2), where x = ?x]) (use len in simp_all)
  moreover have "ctx_wf (sctx ?s)" using wf u(2) by (simp add: ctx_wf_def)
  ultimately have "server_inv N ?s (filter (\<lambda>p. req_qp (rqs s) p \<noteq> Some n) xs)"
    using q(2) num by (simp add: server_inv_def)
  moreover have "\<forall>k < SERVER_NUM_RECV_BUFFS. in_use_recv (sctx ?s) ! k \<longleftrightarrow> in_use_recv (sctx s) ! k \<and> \<not> c_in_use ?c ! k"
    using u(2,3) wf len(1) by (simp add: ctx_wf_def)
  ultimately show ?thesis using that [OF run] q(3) num len(2) by simp
qed

text \<open>
  C32: removing a connection frees its slot and destroys its queue pair, drops its waiting
  requests, releases exactly the receive buffers it is marked to own, makes the slot available
  and keeps the invariant.
\<close>

theorem remove_connection_ok:
  assumes "server_inv N s xs" and "get_connection s n = Some j" and "c_qp (conns s ! j) = Some qp"
    and "\<forall>m. destroy_ok N m"
  shows "\<exists>s'. remove_connection N s n = Inr (0, s') \<and>
    server_inv N s' (filter (\<lambda>p. req_qp (rqs s) p \<noteq> Some n) xs) \<and>
    c_qp (conns s' ! j) = None \<and> qp_ptr qp \<notin> set (live_qps s') \<and> num_conns s' = num_conns s - 1 \<and>
    (\<forall>k < SERVER_NUM_RECV_BUFFS. in_use_recv (sctx s') ! k \<longleftrightarrow>
       in_use_recv (sctx s) ! k \<and> \<not> c_in_use (conns s ! j) ! k) \<and>
    (\<forall>p \<in> set (internal_q (rqs s')). req_qp (rqs s') p \<noteq> Some n)"
proof -
  obtain s' where s': "remove_connection N s n = Inr (0, s')"
    "server_inv N s' (filter (\<lambda>p. req_qp (rqs s) p \<noteq> Some n) xs)"
    "c_qp (conns s' ! j) = None" "qp_ptr qp \<notin> set (live_qps s')" "num_conns s' = num_conns s - 1"
    "\<forall>k < SERVER_NUM_RECV_BUFFS. in_use_recv (sctx s') ! k \<longleftrightarrow>
       in_use_recv (sctx s) ! k \<and> \<not> c_in_use (conns s ! j) ! k"
    "removed_all (rqs s) {p \<in> set (internal_q (rqs s)). req_qp (rqs s) p = Some n} (rqs s')"
    by (rule remove_ok_connection [OF assms])
  have "\<forall>p \<in> set (internal_q (rqs s')). req_qp (rqs s') p \<noteq> Some n"
    using s'(7) by (auto simp: removed_all_def req_qp_def)
  with s'(1-6) show ?thesis by blast
qed

lemma get_one_client: "get_connection (one_client q) 9 = Some 0" "c_qp (conns (one_client q) ! 0) = Some qp9"
  by (simp_all add: get_connection_def one_client_def empty_connection_def has_qp_def upt_rec)

theorem remove_connection_ok_witness:
  "\<exists>q s'. server_inv linux_nic (one_client q) [] \<and> remove_connection linux_nic (one_client q) 9 = Inr (0, s') \<and>
     server_inv linux_nic s' [] \<and> c_qp (conns s' ! 0) = None \<and> qp_ptr qp9 \<notin> set (live_qps s')"
proof (rule linux_requests)
  fix q
  assume q: "req_inv linux_world (\<lambda>_. 0) q []"
  from remove_connection_ok [OF server_inv_one [OF q] get_one_client] server_inv_one [OF q] show ?thesis
    by fastforce
qed

section \<open>Slots that are lost\<close>

lemma close_fd_simps [simp]:
  "open_fds (close_fd fd s) = removeAll fd (open_fds s)" "conns (close_fd fd s) = conns s"
  "num_conns (close_fd fd s) = num_conns s" "listen_sd (close_fd fd s) = listen_sd s"
  "rqs (close_fd fd s) = rqs s" "sctx (close_fd fd s) = sctx s" "live_qps (close_fd fd s) = live_qps s"
  by (simp_all add: close_fd_def)

lemma tick_socks [simp]: "listen_sd (tick s) = listen_sd s" "open_fds (tick s) = open_fds s" "my_dest (tick s) = my_dest s"
  by (simp_all add: tick_def)

lemma fold_close_fd:
  "fold close_fd fds s = s\<lparr>open_fds := filter (\<lambda>i. i \<notin> set fds) (open_fds s)\<rparr>"
proof (induction fds arbitrary: s)
  case (Cons fd fds)
  have "filter (\<lambda>i. i \<notin> set fds) (removeAll fd (open_fds s)) = filter (\<lambda>i. i \<notin> set (fd # fds)) (open_fds s)"
    by (simp add: removeAll_filter_not_eq eq_commute [of fd])
  then show ?case using Cons.IH [of "close_fd fd s"] by (simp add: close_fd_def [of fd s])
qed simp

lemma accept_loop_all:
  "num_conns s + int (length fds) \<le> int MAX_CLIENTS_SUPPORTED \<Longrightarrow>
   accept_loop fds master s =
     (rev fds @ master, s\<lparr>open_fds := rev fds @ open_fds s, num_conns := num_conns s + int (length fds)\<rparr>)"
  by (induction fds arbitrary: master s) (simp_all add: Let_def)

text \<open>
  C34: four clients that connect and send nothing before \<open>select\<close> times out take all the slots
  for good: their sockets are closed, no connection exists, but from then on no client is
  accepted any more, whatever happens on the sockets.
\<close>

theorem silent_clients_take_all_slots:
  assumes "num_conns s = 0" and "listen_sd s \<noteq> NOT_CONNECTED" and "length fds = MAX_CLIENTS_SUPPORTED"
  shows "\<exists>s'. accept_new_connection N gb [\<lparr>ready = [listen_sd s], accepts = fds, socks = f\<rparr>] s = Inr (0, s') \<and>
     conns s' = conns s \<and> live_qps s' = live_qps s \<and>
     (\<forall>fd \<in> set fds - {listen_sd s}. fd \<notin> set (open_fds s')) \<and>
     (\<forall>gb' rs. accept_new_connection N gb' rs s' = Inr (1, s'))"
proof -
  let ?r = "\<lparr>ready = [listen_sd s], accepts = fds, socks = f\<rparr>"
  let ?s1 = "s\<lparr>open_fds := rev fds @ open_fds s, num_conns := 4\<rparr>"
  let ?l = "filter (\<lambda>i. i \<noteq> listen_sd s) (rev fds @ [listen_sd s])"
  let ?s2 = "fold close_fd ?l ?s1"
  have loop: "accept_loop fds [listen_sd s] s = (rev fds @ [listen_sd s], ?s1)"
    using accept_loop_all [of s fds "[listen_sd s]"] assms(1,3) by simp
  then have "serve_ready N gb ?r [listen_sd s] [listen_sd s] s = Inr (rev fds @ [listen_sd s], ?s1)"
    by simp
  then have "query_for_connections N gb [?r] [listen_sd s] s = Inr ?s2"
    by simp
  then have "accept_new_connection N gb [?r] s = Inr (0, ?s2)"
    using assms(1,2) by (simp add: accept_new_connection_def check_available_connection_slots_def)
  moreover have "conns ?s2 = conns s" "live_qps ?s2 = live_qps s" "num_conns ?s2 = 4"
    by (simp_all add: fold_close_fd)
  moreover have "\<forall>fd \<in> set fds - {listen_sd s}. fd \<notin> set (open_fds ?s2)" by (auto simp: fold_close_fd)
  moreover have "accept_new_connection N gb' rs ?s2 = Inr (1, ?s2)" for gb' rs
    using \<open>num_conns ?s2 = 4\<close> by (simp add: accept_new_connection_def check_available_connection_slots_def)
  ultimately show ?thesis by blast
qed

theorem silent_clients_take_all_slots_witness:
  "\<exists>s s'. listen_sd s = 3 \<and> accept_new_connection linux_nic (\<lambda>s. Inl (Exit 7))
      [\<lparr>ready = [3], accepts = [4, 5, 6, 7], socks = (\<lambda>_. \<lparr>s_msg = [], s_send_ok = True, s_reads = []\<rparr>)\<rparr>] s = Inr (0, s') \<and>
     4 \<notin> set (open_fds s') \<and> accept_new_connection linux_nic (\<lambda>s. Inl (Exit 7)) [] s' = Inr (1, s')"
proof -
  let ?s = "(server_start (requests_start db_start))\<lparr>listen_sd := 3, open_fds := [3]\<rparr>"
  show ?thesis
    by (rule exI [of _ ?s])
      (use silent_clients_take_all_slots [of ?s "[4, 5, 6, 7]" linux_nic "\<lambda>s. Inl (Exit 7)"
         "\<lambda>_. \<lparr>s_msg = [], s_send_ok = True, s_reads = []\<rparr>"] in auto)
qed

text \<open>
  When \<open>bind\<close> (or a later step) fails, the socket is closed but \<open>listen_sd\<close> keeps its number:
  the next call takes the server to be listening, creates no socket, and reports success.
\<close>

theorem failed_bind_is_final:
  assumes "listen_sd s = NOT_CONNECTED" and "check_available_connection_slots s"
    and "l = listen_call N (verbs s)" and "service_ok l" "print_ok l" "addr_ok l" "single_addr l"
    and "0 \<le> sock l" and "\<not> bind_ok l"
  shows "\<exists>s'. accept_new_connection N gb rs s = Inr (1, s') \<and> listen_sd s' = sock l \<and>
     sock l \<notin> set (open_fds s') \<and> (\<forall>N' gb'. accept_new_connection N' gb' [] s' = Inr (0, s'))"
proof -
  obtain s' where s': "create_listen_socket N s = (1, s')" "listen_sd s' = sock l" "sock l \<notin> set (open_fds s')"
    "num_conns s' = num_conns s"
    using assms(3-9) by (simp add: create_listen_socket_def Let_def)
  have "accept_new_connection N gb rs s = Inr (1, s')"
    using assms(1,2) s'(1) by (simp add: accept_new_connection_def)
  moreover have "accept_new_connection N' gb' [] s' = Inr (0, s')" for N' gb'
    using assms(2,8) s'(2,4) by (simp add: accept_new_connection_def check_available_connection_slots_def)
  ultimately show ?thesis using s'(2,3) by blast
qed

theorem failed_bind_is_final_witness:
  "\<exists>N s s'. accept_new_connection N (\<lambda>s. Inl (Exit 7)) [] s = Inr (1, s') \<and> listen_sd s' = 3 \<and>
     3 \<notin> set (open_fds s')"
proof -
  let ?l = "\<lparr>service_ok = True, print_ok = True, addr_ok = True, single_addr = True, sock = 3,
        opt_ok = True, ioctl_ok = True, bind_ok = False, listen_ok = True\<rparr>"
  let ?s = "server_start (requests_start db_start)" and ?N = "linux_nic\<lparr>listen_call := (\<lambda>_. ?l)\<rparr>"
  have "listen_sd ?s = NOT_CONNECTED" "check_available_connection_slots ?s"
    by (simp_all add: server_start_def check_available_connection_slots_def)
  from failed_bind_is_final [OF this, of ?l ?N "\<lambda>s. Inl (Exit 7)" "[]"] show ?thesis by auto
qed

end
