(* ===== verification/Admission.thy ===== *)
theory Admission
  imports Slots
begin

text \<open>
  Admission of clients: at every point of a call of \<open>accept_new_connection\<close> the sockets that wait and
  the connections that exist need no more slots than there are, what a client loses that is
  refused, and the messages that overflow the server's buffer.
\<close>

section \<open>Slots suffice\<close>

text \<open>\<open>used\<close> counts the connections, \<open>pending\<close> the accepted sockets whose address is awaited.\<close>

definition used :: "server \<Rightarrow> nat" where
  "used s = length (filter (\<lambda>i. c_qp (conns s ! i) \<noteq> None) [0..<MAX_CLIENTS_SUPPORTED])"

definition pending :: "server \<Rightarrow> int list \<Rightarrow> nat" where
  "pending s fds = length (filter (\<lambda>i. i \<noteq> listen_sd s) fds)"

definition slots_ok :: "server \<Rightarrow> int list \<Rightarrow> bool" where
  "slots_ok s fds \<longleftrightarrow> length (conns s) = MAX_CLIENTS_SUPPORTED \<and>
     int (used s + pending s fds) \<le> num_conns s \<and> num_conns s \<le> int MAX_CLIENTS_SUPPORTED"

lemma used_upd_le:
  assumes "length (conns s) = MAX_CLIENTS_SUPPORTED" and "c_qp c = None \<longleftrightarrow> c_qp (conns s ! j) = None"
  shows "used (s\<lparr>conns := (conns s)[j := c]\<rparr>) = used s"
proof -
  have "c_qp ((conns s)[j := c] ! i) = None \<longleftrightarrow> c_qp (conns s ! i) = None" for i
    using assms(2) by (cases "j < length (conns s)") (auto simp: nth_list_update list_update_beyond)
  then show ?thesis by (simp add: used_def)
qed

lemma used_add:
  assumes "length (conns s) = MAX_CLIENTS_SUPPORTED" and "c_qp (conns s ! j) = None" and "c_qp c \<noteq> None"
    and "j < MAX_CLIENTS_SUPPORTED"
  shows "used (s\<lparr>conns := (conns s)[j := c]\<rparr>) = Suc (used s)"
proof -
  let ?P = "\<lambda>i. c_qp (conns s ! i) \<noteq> None" and ?Q = "\<lambda>i. c_qp ((conns s)[j := c] ! i) \<noteq> None"
  have eq: "used t = card {i. i < MAX_CLIENTS_SUPPORTED \<and> c_qp (conns t ! i) \<noteq> None}" for t
    using distinct_card [of "filter (\<lambda>i. c_qp (conns t ! i) \<noteq> None) [0..<MAX_CLIENTS_SUPPORTED]"]
    by (simp add: used_def conj_commute)
  have "{i. i < MAX_CLIENTS_SUPPORTED \<and> ?Q i} = insert j {i. i < MAX_CLIENTS_SUPPORTED \<and> ?P i}"
    using assms by (auto simp: nth_list_update split: if_splits)
  moreover have "card (insert j {i. i < MAX_CLIENTS_SUPPORTED \<and> ?P i}) = Suc (card {i. i < MAX_CLIENTS_SUPPORTED \<and> ?P i})"
    using assms(2) by (intro card_insert_disjoint) auto
  ultimately show ?thesis by (simp add: eq)
qed

lemma free_slot:
  assumes "length (conns s) = MAX_CLIENTS_SUPPORTED" and "used s < MAX_CLIENTS_SUPPORTED"
  obtains j where "find (\<lambda>i. c_qp (conns s ! i) = None) [0..<MAX_CLIENTS_SUPPORTED] = Some j"
    "j < MAX_CLIENTS_SUPPORTED" "c_qp (conns s ! j) = None"
proof (cases "find (\<lambda>i. c_qp (conns s ! i) = None) [0..<MAX_CLIENTS_SUPPORTED]")
  case None
  then have "filter (\<lambda>i. c_qp (conns s ! i) \<noteq> None) [0..<MAX_CLIENTS_SUPPORTED] = [0..<MAX_CLIENTS_SUPPORTED]"
    by (auto simp: find_None_iff intro!: filter_True)
  then show ?thesis using assms(2) by (simp add: used_def)
next
  case (Some j)
  then show ?thesis using that by (fastforce simp: find_Some_iff)
qed

text \<open>A socket that waits has a slot reserved: adding its connection stays within the table.\<close>

lemma add_new_connection_slot:
  assumes "slots_ok s master" and "i \<in> set master" and "i \<noteq> listen_sd s"
  obtains j s' where "add_new_connection s qp mx c = Inr (j, s')" "slots_ok s' (removeAll i master)"
    "listen_sd s' = listen_sd s" "j < MAX_CLIENTS_SUPPORTED" "c_qp (conns s' ! j) = Some qp"
proof -
  note ok = assms(1) [unfolded slots_ok_def]
  have less: "pending s (removeAll i master) < pending s master"
  proof -
    have "filter (\<lambda>x. x \<noteq> listen_sd s) (removeAll i master) = removeAll i (filter (\<lambda>x. x \<noteq> listen_sd s) master)"
      by (simp add: removeAll_filter_not_eq conj_commute)
    moreover have "i \<in> set (filter (\<lambda>x. x \<noteq> listen_sd s) master)" using assms(2,3) by simp
    ultimately show ?thesis using length_removeAll_less [of i] by (simp add: pending_def)
  qed
  then have small: "used s < MAX_CLIENTS_SUPPORTED" using ok by simp
  obtain j where j: "find (\<lambda>i. c_qp (conns s ! i) = None) [0..<MAX_CLIENTS_SUPPORTED] = Some j"
    "j < MAX_CLIENTS_SUPPORTED" "c_qp (conns s ! j) = None" by (rule free_slot [of s]) (use ok small in auto)
  let ?c = "(conns s ! j)\<lparr>c_qp := Some qp, c_curr := (if c_curr (conns s ! j) = 0 then c else c_curr (conns s ! j)),
      c_max := mx\<rparr>"
  let ?s = "s\<lparr>conns := (conns s)[j := ?c], last_client := int j\<rparr>"
  have "used ?s = Suc (used s)" using used_add [of s j ?c] ok j by (simp add: used_def)
  moreover have "pending ?s (removeAll i master) = pending s (removeAll i master)" by (simp add: pending_def)
  ultimately have "slots_ok ?s (removeAll i master)" using ok less by (simp add: slots_ok_def)
  moreover have "add_new_connection s qp mx c = Inr (j, ?s)" using j(1) by (simp add: add_new_connection_def Let_def)
  moreover have "c_qp (conns ?s ! j) = Some qp" using j(2) ok by simp
  ultimately show ?thesis using that [of j ?s] j(2) by simp
qed

section \<open>Through the handlers\<close>

text \<open>What posting receives and the exchange of addresses leave as it is.\<close>

definition same_slots :: "server \<Rightarrow> server \<Rightarrow> bool" where
  "same_slots s t \<longleftrightarrow> num_conns t = num_conns s \<and> listen_sd t = listen_sd s \<and>
     length (conns t) = length (conns s) \<and> (\<forall>i. c_qp (conns t ! i) = c_qp (conns s ! i))"

lemma same_slotsI [intro]:
  "num_conns t = num_conns s \<Longrightarrow> listen_sd t = listen_sd s \<Longrightarrow> conns t = conns s \<Longrightarrow> same_slots s t"
  by (simp add: same_slots_def)

lemma same_slots_trans [trans]: "same_slots r s \<Longrightarrow> same_slots s t \<Longrightarrow> same_slots r t"
  by (simp add: same_slots_def)

lemma same_slots_ok: "same_slots s t \<Longrightarrow> slots_ok t fds = slots_ok s fds"
  by (simp add: same_slots_def slots_ok_def used_def pending_def)

lemma same_slots_upd:
  "c_qp c = c_qp (conns s ! j) \<Longrightarrow> same_slots s (s\<lparr>conns := (conns s)[j := c]\<rparr>)"
  by (cases "j < length (conns s)") (auto simp: same_slots_def nth_list_update list_update_beyond)

lemma post_recv_same:
  "server_post_recv N s qp b = Inr (ok, s') \<Longrightarrow> same_slots s s'"
  by (auto simp: server_post_recv_def lift_ctx_def tick_def Let_def split: if_splits)

lemma post_recv_loop_same:
  "post_recv_loop n N s j qp k = Inr (m, s') \<Longrightarrow> same_slots s s'"
proof (induction n arbitrary: s k)
  case (Suc n)
  obtain b c where b: "get_free_recv_idx (sctx s) = Inr (b, c)" using Suc.prems by auto
  let ?s1 = "s\<lparr>sctx := c\<rparr>"
  have s1: "same_slots s ?s1" by auto
  show ?case
  proof (cases "b < 0")
    case True
    then show ?thesis using Suc.prems b s1 by simp
  next
    case False
    obtain ok s2 where s2: "server_post_recv N ?s1 qp b = Inr (ok, s2)" using Suc.prems b False by auto
    note s12 = same_slots_trans [OF s1 post_recv_same [OF s2]]
    show ?thesis
    proof (cases ok)
      case False
      then show ?thesis using Suc.prems b \<open>\<not> b < 0\<close> s2 same_slots_trans [OF s12 Suc.IH] by simp
    next
      case True
      then obtain u where u: "set_flag (c_in_use (conns s2 ! j)) b True = Inr u"
        using Suc.prems b False s2 by auto
      let ?s3 = "s2\<lparr>conns := (conns s2)[j := (conns s2 ! j)\<lparr>c_in_use := u\<rparr>]\<rparr>"
      have "same_slots s2 ?s3" by (rule same_slots_upd) simp
      moreover have "same_slots ?s3 s'" by (rule Suc.IH) (use Suc.prems b False s2 u True in simp)
      ultimately show ?thesis using same_slots_trans s12 by blast
    qed
  qed
qed auto

lemma post_recv_buffers_same:
  "server_post_recv_buffers N s j = Inr (n, s') \<Longrightarrow> same_slots s s'"
  by (auto simp: server_post_recv_buffers_def split: option.splits if_splits dest: post_recv_loop_same)

lemma send_address_same:
  "send_address_back_to_client c g fd s = Inr (rc, s') \<Longrightarrow> same_slots s s'"
  by (auto simp: send_address_back_to_client_def split: if_splits)

lemma teardown_not_Inr [simp]: "teardown_server_connection N gb s rc \<noteq> Inr s'"
  by (simp add: teardown_server_connection_def)

lemma create_new_qp_same: "same_slots s (snd (create_new_qp N s))"
  by (auto simp: create_new_qp_def Let_def tick_def split: option.split)

lemma pending_remove_le: "pending s (removeAll i master) \<le> pending s master"
  unfolding pending_def by (induction master) auto

lemma slots_ok_remove: "slots_ok s master \<Longrightarrow> slots_ok s (removeAll i master)"
  using pending_remove_le [of s i master] by (simp add: slots_ok_def)

lemma handle_received_slots:
  assumes ok: "slots_ok s master" and i: "i \<in> set master" "i \<noteq> listen_sd s"
    and run: "handle_received_connection_data N gb c i s = Inr (rc, s')"
  shows "slots_ok s' (removeAll i master)" and "listen_sd s' = listen_sd s"
proof -
  obtain new s1 where new: "create_new_qp N s = (new, s1)" by (cases "create_new_qp N s")
  have s1: "same_slots s s1" using create_new_qp_same [of s N] new by simp
  have "slots_ok s' (removeAll i master) \<and> listen_sd s' = listen_sd s"
  proof (cases new)
    case None
    then have "s' = s1" using run new by (simp add: handle_received_connection_data_def)
    then show ?thesis using slots_ok_remove [OF ok] same_slots_ok [OF s1] s1 by (simp add: same_slots_def)
  next
    case (Some qp)
    let ?s2 = "(tick s1)\<lparr>my_dest := (my_dest s1)\<lparr>qpn := qp_num qp, psn := lrand48 N (verbs s1) AND 0xffffff\<rparr>\<rparr>"
    have "same_slots s1 ?s2" by (auto simp: tick_def)
    then have s2: "same_slots s ?s2" by (rule same_slots_trans [OF s1])
    then have ok2: "slots_ok ?s2 master" "i \<noteq> listen_sd ?s2"
      using ok i(2) same_slots_ok [OF s2] by (simp_all add: same_slots_def)
    obtain d where d: "scan_client_msg (stack_gid N) (stack_word N) (s_msg c) = Inr d"
      using run new Some by (auto simp: handle_received_connection_data_def Let_def)
    show ?thesis
    proof (cases "connect_ctx (to_rtr N) (to_rts N) qp (psn (my_dest ?s2)) d = 0")
      case False
      then have "s' = ?s2" using run new Some d by (auto simp: handle_received_connection_data_def Let_def)
      then show ?thesis using slots_ok_remove [OF ok2(1)] s2 by (simp add: same_slots_def)
    next
      case True
      obtain j s3 where s3: "add_new_connection ?s2 qp MAX_RECV_BUFFS 0 = Inr (j, s3)"
        "slots_ok s3 (removeAll i master)" "listen_sd s3 = listen_sd ?s2"
        by (rule add_new_connection_slot [OF ok2(1) i(1) ok2(2)])
      obtain r s4 where s4: "send_address_back_to_client c (gid_to_wire_gid (gid (my_dest s3))) i s3 = Inr (r, s4)" "r \<noteq> 1"
        using run new Some d True s3(1)
        by (auto simp: handle_received_connection_data_def Let_def split: if_splits)
      obtain n s5 where s5: "server_post_recv_buffers N s4 j = Inr (n, s5)"
        "s' = s5\<lparr>conns := (conns s5)[j := (conns s5 ! j)\<lparr>c_curr := n\<rparr>]\<rparr>"
        using run new Some d True s3(1) s4
        by (auto simp: handle_received_connection_data_def Let_def split: if_splits)
      have "same_slots s5 s'" unfolding s5(2) by (rule same_slots_upd) simp
      then have e: "same_slots s3 s'"
        using same_slots_trans send_address_same [OF s4(1)] post_recv_buffers_same [OF s5(1)] by blast
      then show ?thesis using s3(2,3) same_slots_ok [OF e] e s2 by (simp add: same_slots_def)
    qed
  qed
  then show "slots_ok s' (removeAll i master)" and "listen_sd s' = listen_sd s" by simp_all
qed

lemma accept_loop_slots:
  "slots_ok s master \<Longrightarrow> accept_loop fds master s = (master', s') \<Longrightarrow>
   slots_ok s' master' \<and> listen_sd s' = listen_sd s \<and> set master \<subseteq> set master'"
proof (induction fds arbitrary: master s)
  case (Cons fd fds)
  let ?s1 = "s\<lparr>open_fds := fd # open_fds s\<rparr>"
  show ?case
  proof (cases "num_conns s = int MAX_CLIENTS_SUPPORTED")
    case True
    then have "s' = close_fd fd ?s1" "master' = master" using Cons.prems(2) by simp_all
    then show ?thesis using Cons.prems(1) by (simp add: slots_ok_def used_def pending_def)
  next
    case False
    let ?s2 = "?s1\<lparr>num_conns := num_conns s + 1\<rparr>"
    have "slots_ok ?s2 (fd # master)"
      using Cons.prems(1) False by (auto simp: slots_ok_def used_def pending_def)
    then show ?thesis using Cons.IH [of ?s2 "fd # master"] Cons.prems(2) False by simp
  qed
qed simp

lemma serve_ready_slots:
  "slots_ok s master \<Longrightarrow> distinct is \<Longrightarrow> set is \<subseteq> set master \<Longrightarrow> serve_ready N gb r is master s = Inr (master', s') \<Longrightarrow>
   slots_ok s' master' \<and> listen_sd s' = listen_sd s"
proof (induction "is" arbitrary: master s)
  case (Cons i "is")
  have sub: "set is \<subseteq> set (removeAll i master)" using Cons.prems(2,3) by auto
  show ?case
  proof (cases "i = listen_sd s")
    case True
    obtain m1 s1 where m1: "accept_loop (accepts r) master s = (m1, s1)" by (cases "accept_loop (accepts r) master s")
    note a = accept_loop_slots [OF Cons.prems(1) m1]
    have "serve_ready N gb r is m1 s1 = Inr (master', s')" using Cons.prems(4) True m1 by simp
    moreover have "set is \<subseteq> set m1" using a Cons.prems(3) by auto
    ultimately show ?thesis using Cons.IH [of s1 m1] a Cons.prems(2) by simp
  next
    case False
    show ?thesis
    proof (cases "length (s_msg (socks r i)) = EXCHANGE_MSG_SIZE")
      case False
      then show ?thesis
        using Cons.IH [OF slots_ok_remove [OF Cons.prems(1)] _ sub] Cons.prems(2,4) \<open>i \<noteq> listen_sd s\<close> by simp
    next
      case True
      then obtain rc s1 where s1: "handle_received_connection_data N gb (socks r i) i s = Inr (rc, s1)"
        "serve_ready N gb r is (removeAll i master) s1 = Inr (master', s')"
        using Cons.prems(4) False by auto
      have "i \<in> set master" using Cons.prems(3) by simp
      note h = handle_received_slots [OF Cons.prems(1) this False s1(1)]
      show ?thesis using Cons.IH [OF h(1) _ sub s1(2)] h(2) Cons.prems(2) by simp
    qed
  qed
qed simp

lemma query_for_connections_slots:
  "slots_ok s master \<Longrightarrow> query_for_connections N gb rs master s = Inr s' \<Longrightarrow> slots_ok s' [listen_sd s']"
proof (induction rs arbitrary: master s)
  case Nil
  have "pending s [listen_sd s] \<le> pending s master" by (simp add: pending_def)
  then show ?case using Nil by (auto simp: fold_close_fd slots_ok_def used_def pending_def)
next
  case (Cons r rs)
  obtain m1 s1 where m1: "serve_ready N gb r (filter (\<lambda>i. i \<in> set master) (sort (remdups (ready r)))) master s = Inr (m1, s1)"
    "query_for_connections N gb rs m1 s1 = Inr s'" using Cons.prems(2) by auto
  have "slots_ok s1 m1" using serve_ready_slots [OF Cons.prems(1) _ _ m1(1)] by auto
  then show ?case using Cons.IH m1(2) by simp
qed

text \<open>Every point of the loop at which a socket that is ready is taken up.\<close>

definition to_serve :: "select_round \<Rightarrow> int list \<Rightarrow> int list" where
  "to_serve r master = filter (\<lambda>i. i \<in> set master) (sort (remdups (ready r)))"

fun rounds_done ::
  "nic \<Rightarrow> get_buffer \<Rightarrow> select_round list \<Rightarrow> int list \<Rightarrow> server \<Rightarrow> stop + int list \<times> server" where
  "rounds_done N gb [] master s = Inr (master, s)"
| "rounds_done N gb (r # rs) master s =
     bnd (serve_ready N gb r (to_serve r master) master s) (\<lambda>(master1, s1). rounds_done N gb rs master1 s1)"

text \<open>The loop is these rounds, and a round is the sockets before one, this one and those after it.\<close>

lemma query_rounds:
  "query_for_connections N gb (rs @ rs') master s =
   bnd (rounds_done N gb rs master s) (\<lambda>(master1, s1). query_for_connections N gb rs' master1 s1)"
proof (induction rs arbitrary: master s)
  case (Cons r rs)
  show ?case
    by (cases "serve_ready N gb r (to_serve r master) master s") (auto simp: to_serve_def Cons.IH)
qed simp

lemma serve_ready_append:
  "serve_ready N gb r (is @ js) master s =
   bnd (serve_ready N gb r is master s) (\<lambda>(master1, s1). serve_ready N gb r js master1 s1)"
  by (induction "is" arbitrary: master s) (simp_all add: Let_def bnd_bnd split_beta)

lemma rounds_done_slots:
  "slots_ok s master \<Longrightarrow> rounds_done N gb rs master s = Inr (master', s') \<Longrightarrow>
   slots_ok s' master' \<and> listen_sd s' = listen_sd s"
proof (induction rs arbitrary: master s)
  case (Cons r rs)
  obtain m1 s1 where m1: "serve_ready N gb r (to_serve r master) master s = Inr (m1, s1)"
    "rounds_done N gb rs m1 s1 = Inr (master', s')" using Cons.prems(2) by auto
  have "slots_ok s1 m1 \<and> listen_sd s1 = listen_sd s"
    using serve_ready_slots [OF Cons.prems(1) _ _ m1(1)] by (auto simp: to_serve_def)
  then show ?case using Cons.IH [of s1 m1] m1(2) by simp
qed simp

text \<open>A socket stays in the set until it is taken up.\<close>

lemma serve_ready_keeps:
  "serve_ready N gb r is master s = Inr (master', s') \<Longrightarrow> i \<in> set master \<Longrightarrow> i \<notin> set is \<Longrightarrow> i \<in> set master'"
proof (induction "is" arbitrary: master s)
  case (Cons a "is")
  show ?case
  proof (cases "a = listen_sd s")
    case True
    have "i \<in> set (fst (accept_loop fds m t))" if "i \<in> set m" for fds m t
      using that by (induction fds arbitrary: m t) (simp_all add: Let_def)
    then show ?thesis using Cons.IH Cons.prems True by (auto simp: split_beta)
  next
    case False
    then obtain s1 where "serve_ready N gb r is (removeAll a master) s1 = Inr (master', s')"
      using Cons.prems(1) by (auto split: if_splits)
    then show ?thesis using Cons.IH Cons.prems(2,3) by simp
  qed
qed simp

text \<open>Opening the listening socket changes nothing of the slots.\<close>

definition listening :: "nic \<Rightarrow> server \<Rightarrow> int \<times> server" where
  "listening N s = (if listen_sd s = NOT_CONNECTED then create_listen_socket N s else (0, s))"

lemma listening_slots:
  assumes "listening N s = (rc, t)"
  shows "used t = used s" and "num_conns t = num_conns s" and "conns t = conns s"
  using assms
  by (auto simp: listening_def create_listen_socket_def Let_def used_def close_fd_def tick_def split: if_splits)

text \<open>
  C37: the slots suffice. From a state with no more connections than the count of admitted clients,
  which is at most four, a call of \<open>accept_new_connection\<close>, with any number of clients that connect,
  send, misbehave or are refused, ends in such a state. Moreover, at every point of the call at which
  a socket that is ready is taken up, even when the call stops later, the connections together with
  the accepted sockets whose addresses are still awaited are at most as many as the count, so that
  for the client behind the socket there is a free slot in the table of connections:
  \<open>add_new_connection\<close> never runs over its end.
\<close>

theorem accept_new_connection_slots:
  assumes "length (conns s) = MAX_CLIENTS_SUPPORTED" and "int (used s) \<le> num_conns s"
    and "num_conns s \<le> int MAX_CLIENTS_SUPPORTED"
  shows "(\<forall>rc s'. accept_new_connection N gb rs s = Inr (rc, s') \<longrightarrow>
       int (used s') \<le> num_conns s' \<and> num_conns s' \<le> int MAX_CLIENTS_SUPPORTED) \<and>
    (\<forall>t rs1 r rs2 m u is1 i is2 m' v.
       listening N s = (0, t) \<and> rs = rs1 @ r # rs2 \<and> rounds_done N gb rs1 [listen_sd t] t = Inr (m, u) \<and>
       to_serve r m = is1 @ i # is2 \<and> serve_ready N gb r is1 m u = Inr (m', v) \<longrightarrow>
       int (used v + pending v m') \<le> num_conns v \<and> num_conns v \<le> int MAX_CLIENTS_SUPPORTED \<and>
       (i \<noteq> listen_sd v \<longrightarrow>
          0 < pending v m' \<and>
          (\<forall>w qp mx c. conns w = conns v \<longrightarrow>
             (\<exists>j w'. add_new_connection w qp mx c = Inr (j, w') \<and> j < MAX_CLIENTS_SUPPORTED \<and> c_qp (conns v ! j) = None))))"
proof (intro conjI allI impI)
  have start: "slots_ok t [listen_sd t]" if "listening N s = (rc, t)" for rc t
    using assms listening_slots [OF that] by (simp add: slots_ok_def pending_def)
  {
    fix rc s'
    assume run: "accept_new_connection N gb rs s = Inr (rc, s')"
    obtain k t where t: "listening N s = (k, t)" by (cases "listening N s")
    have "s' = s \<or> s' = t \<or> query_for_connections N gb rs [listen_sd t] t = Inr s'"
      using run t by (auto simp: accept_new_connection_def listening_def Let_def split: if_splits)
    then have "slots_ok s' [listen_sd s']"
      using query_for_connections_slots [OF start [OF t]] start [OF t] assms by (auto simp: slots_ok_def pending_def)
    then show "int (used s') \<le> num_conns s'" and "num_conns s' \<le> int MAX_CLIENTS_SUPPORTED"
      by (simp_all add: slots_ok_def)
  }
  fix t rs1 r rs2 m u is1 i is2 m' v
  assume "listening N s = (0, t) \<and> rs = rs1 @ r # rs2 \<and> rounds_done N gb rs1 [listen_sd t] t = Inr (m, u) \<and>
    to_serve r m = is1 @ i # is2 \<and> serve_ready N gb r is1 m u = Inr (m', v)"
  then have pt: "listening N s = (0, t)" "rounds_done N gb rs1 [listen_sd t] t = Inr (m, u)"
    "to_serve r m = is1 @ i # is2" "serve_ready N gb r is1 m u = Inr (m', v)" by simp_all
  have u: "slots_ok u m" using rounds_done_slots [OF start [OF pt(1)] pt(2)] by simp
  have "distinct (to_serve r m)" "set (to_serve r m) \<subseteq> set m" by (auto simp: to_serve_def)
  then have sub: "distinct is1" "set is1 \<subseteq> set m" "i \<in> set m" "i \<notin> set is1" unfolding pt(3) by auto
  have v: "slots_ok v m'" using serve_ready_slots [OF u sub(1,2) pt(4)] by simp
  then show "int (used v + pending v m') \<le> num_conns v" and "num_conns v \<le> int MAX_CLIENTS_SUPPORTED"
    by (simp_all add: slots_ok_def)
  have i: "i \<in> set m'" by (rule serve_ready_keeps [OF pt(4) sub(3,4)])
  assume new: "i \<noteq> listen_sd v"
  show pos: "0 < pending v m'" using i new by (auto simp: pending_def filter_empty_conv)
  fix w :: server and qp mx c
  assume w: "conns w = conns v"
  have "used v < MAX_CLIENTS_SUPPORTED" using v pos by (simp add: slots_ok_def)
  moreover have "length (conns v) = MAX_CLIENTS_SUPPORTED" using v by (simp add: slots_ok_def)
  ultimately obtain j where "find (\<lambda>i. c_qp (conns v ! i) = None) [0..<MAX_CLIENTS_SUPPORTED] = Some j"
    "j < MAX_CLIENTS_SUPPORTED" "c_qp (conns v ! j) = None" using free_slot [of v] by blast
  then show "\<exists>j w'. add_new_connection w qp mx c = Inr (j, w') \<and> j < MAX_CLIENTS_SUPPORTED \<and> c_qp (conns v ! j) = None"
    using w by (simp add: add_new_connection_def Let_def)
qed

theorem accept_new_connection_slots_witness:
  "\<exists>r1 r2 s v m'. rounds_done linux_nic (\<lambda>s. Inl (Exit 7)) [r1] [3] s = Inr (m', v) \<and> to_serve r2 m' = [4] \<and>
     pending v m' = 2 \<and> int (used v + pending v m') \<le> num_conns v \<and>
     (\<exists>j w'. add_new_connection v qp9 1 0 = Inr (j, w') \<and> j < MAX_CLIENTS_SUPPORTED)"
proof -
  let ?s = "(server_start (requests_start db_start))\<lparr>listen_sd := 3, open_fds := [3]\<rparr>"
  let ?r1 = "\<lparr>ready = [3], accepts = [4, 5], socks = (\<lambda>_. \<lparr>s_msg = [], s_send_ok = True, s_reads = []\<rparr>)\<rparr>"
  let ?r2 = "\<lparr>ready = [4], accepts = [], socks = (\<lambda>_. \<lparr>s_msg = [], s_send_ok = True, s_reads = []\<rparr>)\<rparr>"
  let ?gb = "\<lambda>s. Inl (Exit 7)"
  have pre: "length (conns ?s) = MAX_CLIENTS_SUPPORTED" "int (used ?s) \<le> num_conns ?s" "num_conns ?s \<le> int MAX_CLIENTS_SUPPORTED"
    by (simp_all add: used_def empty_connection_def upt_rec)
  obtain v m' where v: "rounds_done linux_nic ?gb [?r1] [3] ?s = Inr (m', v)" "m' = [5, 4, 3]" "listen_sd v = 3"
    by (simp add: to_serve_def)
  have l: "listening linux_nic ?s = (0, ?s)" by (simp add: listening_def)
  have sd: "listen_sd ?s = 3" by simp
  have r2: "to_serve ?r2 m' = [] @ 4 # []" using v(2) by (simp add: to_serve_def)
  have pt: "listening linux_nic ?s = (0, ?s) \<and> [?r1, ?r2] = [?r1] @ ?r2 # [] \<and>
      rounds_done linux_nic ?gb [?r1] [listen_sd ?s] ?s = Inr (m', v) \<and> to_serve ?r2 m' = [] @ 4 # [] \<and>
      serve_ready linux_nic ?gb ?r2 [] m' v = Inr (m', v)"
    unfolding sd using l v(1) r2 by simp
  have all: "int (used v + pending v m') \<le> num_conns v \<and> num_conns v \<le> int MAX_CLIENTS_SUPPORTED \<and>
      (4 \<noteq> listen_sd v \<longrightarrow> 0 < pending v m' \<and> (\<forall>w qp mx c. conns w = conns v \<longrightarrow>
         (\<exists>j w'. add_new_connection w qp mx c = Inr (j, w') \<and> j < MAX_CLIENTS_SUPPORTED \<and> c_qp (conns v ! j) = None)))"
    using accept_new_connection_slots [OF pre, of linux_nic ?gb "[?r1, ?r2]", THEN conjunct2, rule_format, OF pt] by blast
  have "\<exists>j w'. add_new_connection v qp9 1 0 = Inr (j, w') \<and> j < MAX_CLIENTS_SUPPORTED" using all v(3) by fastforce
  moreover have "pending v m' = 2" using v(2,3) by (simp add: pending_def)
  ultimately show ?thesis using all v(1) r2 by (intro exI [of _ ?r1] exI [of _ ?r2] exI [of _ ?s] exI [of _ v] exI [of _ m']) simp
qed

section \<open>Refused clients\<close>

text \<open>
  A client whose queue pair cannot be connected is forgotten but not released: its queue pair
  lives on without a connection, its socket stays open without being waited on, and the slot
  reserved for it is not returned.
\<close>

theorem refused_client_leaks:
  assumes "new_qp N (verbs s) = Some qp" and "to_init N (verbs s)" and "fd \<noteq> listen_sd s"
    and "length (s_msg (socks r fd)) = EXCHANGE_MSG_SIZE"
    and "scan_client_msg (stack_gid N) (stack_word N) (s_msg (socks r fd)) = Inr d" and "\<not> to_rtr N qp (rtr_of d)"
  shows "\<exists>s'. serve_ready N gb r [fd] master s = Inr (removeAll fd master, s') \<and>
     live_qps s' = qp_ptr qp # live_qps s \<and> conns s' = conns s \<and> open_fds s' = open_fds s \<and>
     num_conns s' = num_conns s"
  using assms by (simp add: handle_received_connection_data_def create_new_qp_def connect_ctx_def tick_def Let_def)

lemma linux_nic_qps [simp]:
  "new_qp linux_nic n = Some \<lparr>qp_ptr = n + 2, qp_num = of_nat (n + 10)\<rparr>" "to_init linux_nic n"
  "stack_gid linux_nic = zeros 33"
  by (simp_all add: linux_nic_def)

theorem refused_client_leaks_witness:
  "\<exists>N s s' r. serve_ready N (\<lambda>s. Inl (Exit 7)) r [4] [3, 4] s = Inr ([3], s') \<and>
     live_qps s' = [2] \<and> (\<forall>j < MAX_CLIENTS_SUPPORTED. c_qp (conns s' ! j) = None) \<and> 4 \<in> set (open_fds s') \<and> num_conns s' = 1"
proof -
  let ?s = "(server_start (requests_start db_start))\<lparr>listen_sd := 3, open_fds := [4, 3], num_conns := 1\<rparr>"
  let ?N = "linux_nic\<lparr>to_rtr := (\<lambda>_ _. False)\<rparr>"
  obtain m where m: "client_msg [] sample_dest = Inr m" "length m = EXCHANGE_MSG_SIZE"
    "scan_client_msg (stack_gid ?N) (stack_word ?N) m = Inr sample_dest"
    by (rule client_msg_scanned [of sample_dest "stack_gid ?N" "[]" "stack_word ?N"])
      (simp_all add: dest_ok_def sample_dest_def)
  let ?r = "\<lparr>ready = [4], accepts = [], socks = (\<lambda>_. \<lparr>s_msg = m, s_send_ok = True, s_reads = []\<rparr>)\<rparr>"
  have "verbs ?s = 0" by (simp add: server_start_def)
  with refused_client_leaks [of ?N ?s "\<lparr>qp_ptr = 2, qp_num = 10\<rparr>" 4 ?r sample_dest "\<lambda>s. Inl (Exit 7)" "[3, 4]"] m(2,3)
  obtain s' where "serve_ready ?N (\<lambda>s. Inl (Exit 7)) ?r [4] [3, 4] ?s = Inr ([3], s')" "live_qps s' = [2]"
    "conns s' = conns ?s" "open_fds s' = [4, 3]" "num_conns s' = 1" by auto
  then show ?thesis by (intro exI [of _ ?N] exI [of _ ?s] exI [of _ s'] exI [of _ ?r]) (simp add: empty_connection_def)
qed

text \<open>
  A message of the expected length whose GID field is longer than 32 characters overflows the
  server's stack buffer, before anything is known of the client.
\<close>

theorem long_gid_overflows:
  assumes "new_qp N (verbs s) = Some qp" and "to_init N (verbs s)" and "length (stack_gid N) = 33"
    and "\<forall>c \<in> set w. \<not> is_space c \<and> c \<noteq> NUL" and "32 < length w"
    and "s_msg c = print_x 1 l @ CHR '':'' # print_x 1 q @ CHR '':'' # print_x 1 p @ CHR '':'' # w @ [NUL]"
  shows "handle_received_connection_data N gb c fd s = Inl (UB Out_of_bounds)"
proof -
  have "w \<noteq> []" "length (stack_gid N) \<le> length w" using assms(3,5) by auto
  from scan_client_msg_long [OF assms(4) this(2,1), of "stack_word N" 1 l 1 q 1 p "[]"]
  have "scan_client_msg (stack_gid N) (stack_word N) (s_msg c) = Inl (UB Out_of_bounds)"
    using assms(6) by simp
  then show ?thesis using assms(1,2)
    by (simp add: handle_received_connection_data_def create_new_qp_def Let_def)
qed

theorem long_gid_overflows_witness:
  "\<exists>c. length (s_msg c) = EXCHANGE_MSG_SIZE \<and>
     handle_received_connection_data linux_nic (\<lambda>s. Inl (Exit 7)) c 4 (server_start (requests_start db_start)) = Inl (UB Out_of_bounds)"
proof -
  let ?m = "print_x 1 1 @ CHR '':'' # print_x 1 1 @ CHR '':'' # print_x 1 1 @ CHR '':'' # replicate 45 CHR ''a'' @ [NUL]"
  let ?c = "\<lparr>s_msg = ?m, s_send_ok = True, s_reads = []\<rparr>"
  have "handle_received_connection_data linux_nic (\<lambda>s. Inl (Exit 7)) ?c 4 (server_start (requests_start db_start)) = Inl (UB Out_of_bounds)"
    by (rule long_gid_overflows [of _ _ _ "replicate 45 CHR ''a''" _ 1 1 1]) (simp_all add: is_space_def)
  moreover have "length (s_msg ?c) = EXCHANGE_MSG_SIZE" by (simp add: length_print_x)
  ultimately show ?thesis by blast
qed

end
