(* ===== verification/Teardown.thy ===== *)
theory Teardown
  imports Admission
begin

text \<open>
  The two ends of a server's life: initialisation establishes the invariant, and its early
  failures run into the teardown of a table that does not exist; the teardown frees the pending
  requests and the table, and what it fails to free.
\<close>

section \<open>The pending requests are freed\<close>

lemma destroy_step_ok:
  assumes inv: "req_inv W x q xs" and p: "p \<in> set (internal_q q)"
    and xs: "\<forall>a \<in> set xs. req_key q a \<noteq> Some (- 1)"
  obtains q' ys where "destroy_step p q = Inr q'" "req_inv W x q' ys" "set ys \<subseteq> set xs" "removed_all q {p} q'"
proof -
  have shape: "req_shape W {} q xs" and locks: "req_locks W x q" using inv by (simp_all add: req_inv_def)
  note D = req_shapeD [OF shape]
  obtain r where r: "req_heap (q_mem q) p = Some r" "- 1 \<le> r_tid r" "r_tid r < 2 ^ 16"
    using D(8) [OF p] by blast
  show ?thesis
  proof (cases "r_tid r = - 1")
    case False
    let ?t = "word_of_int (r_tid r) :: 16 word"
    have t: "uint ?t = r_tid r" by (rule tid_word [OF r(2,3) False])
    have key: "req_key q p = Some (uint ?t)" using r(1) t by (simp add: req_key_def)
    obtain q' where q': "remove_server_pending_request q ?t = Inr q'" "req_inv W x q' (without q ?t xs)"
      "removed q ?t q'" by (rule remove_ok [OF inv])
    have "set (without q ?t xs) \<subseteq> set xs" by (auto simp: without_def)
    then show ?thesis
      using that [of q' "without q ?t xs"] q' removed_one(1) [OF shape p key q'(3)] r(1) False
      by (simp add: destroy_step_def rload_Some)
  next
    case True
    let ?q1 = "q\<lparr>internal_q := HASH_DEL (internal_q q) p\<rparr>"
    have "p \<notin> set xs" using xs r(1) True by (auto simp: req_key_def)
    then have s1: "req_shape W {p} ?q1 xs" by (rule shape_del_internal [OF shape p])
    then have s2: "req_shape W ({p} - {p}) (rfree ?q1 p) xs" by (rule shape_free) simp
    have out: "p \<notin> set (waiting_fin_q q)" using D(7) p by blast
    then have l2: "req_locks W x (rfree ?q1 p)" by (intro locks_heap [OF locks]) auto
    have dist: "distinct (internal_q q)" using D(3) by (simp add: table_ok_def)
    have "req_key q w \<noteq> Some (- 1)" if "w \<in> set (waiting_fin_q q)" for w
      using D(9) [OF that] by (auto simp: req_key_def)
    then have "removed_all q {p} (rfree ?q1 p)"
      using r(1) True out dist
      by (auto simp: removed_all_def HASH_DEL_def req_key_def distinct_remove1_removeAll removeAll_filter_not_eq
          intro!: filter_cong)
    then show ?thesis
      using that [of "rfree ?q1 p" xs] s2 l2 r(1) True
      by (simp add: destroy_step_def rload_Some req_inv_def)
  qed
qed

lemma run_on_destroy:
  "req_inv W x q xs \<Longrightarrow> \<forall>a \<in> set xs. req_key q a \<noteq> Some (- 1) \<Longrightarrow> distinct ps \<Longrightarrow> set ps \<subseteq> set (internal_q q) \<Longrightarrow>
   \<exists>q' ys. run_on destroy_step ps q = Inr q' \<and> req_inv W x q' ys \<and> removed_all q (set ps) q'"
proof (induction ps arbitrary: q xs)
  case (Cons p ps)
  have p: "p \<in> set (internal_q q)" using Cons.prems(4) by simp
  obtain q1 ys where q1: "destroy_step p q = Inr q1" "req_inv W x q1 ys" "set ys \<subseteq> set xs" "removed_all q {p} q1"
    by (rule destroy_step_ok [OF Cons.prems(1) p Cons.prems(2)])
  have sub: "set ps \<subseteq> set (internal_q q1)"
    using q1(4) Cons.prems(3,4) by (auto simp: removed_all_def)
  have "set ys \<subseteq> set (internal_q q1)" using req_shapeD(6) [of W "{}" q1 ys] q1(2) by (simp add: req_inv_def)
  moreover have "\<forall>a \<in> set (internal_q q1). req_key q1 a = req_key q a"
    using q1(4) by (simp add: removed_all_def req_key_def)
  ultimately have "\<forall>a \<in> set ys. req_key q1 a \<noteq> Some (- 1)"
    using q1(3) Cons.prems(2) by (metis subsetD)
  from Cons.IH [OF q1(2) this _ sub] Cons.prems(3) obtain q2 zs where
    q2: "run_on destroy_step ps q1 = Inr q2" "req_inv W x q2 zs" "removed_all q1 (set ps) q2" by auto
  have "removed_all q ({p} \<union> set ps) q2" by (rule removed_all_trans [OF q1(4) q2(3) sub])
  then show ?case using q1(1) q2(1,2) by auto
qed auto

lemma req_free_slots_run:
  "distinct ps \<Longrightarrow> \<forall>p \<in> set ps. req_heap (q_mem q) p \<noteq> None \<Longrightarrow>
   \<exists>q'. req_free_slots (replicate k None @ map Some ps) q = Inr q' \<and> internal_q q' = internal_q q \<and>
     q_db q' = q_db q \<and> waiting_fin_q q' = waiting_fin_q q \<and>
     req_heap (q_mem q') = (\<lambda>a. if a \<in> set ps then None else req_heap (q_mem q) a)"
proof (induction k)
  case 0
  then show ?case
  proof (induction ps arbitrary: q)
    case (Cons p ps)
    then obtain e where e: "req_heap (q_mem q) p = Some e" by auto
    have "\<forall>a \<in> set ps. req_heap (q_mem (rfree q p)) a \<noteq> None" using Cons.prems by auto
    moreover have "distinct ps" using Cons.prems(1) by simp
    ultimately obtain q' where "req_free_slots (map Some ps) (rfree q p) = Inr q'"
      "internal_q q' = internal_q (rfree q p)" "q_db q' = q_db (rfree q p)"
      "waiting_fin_q q' = waiting_fin_q (rfree q p)"
      "req_heap (q_mem q') = (\<lambda>a. if a \<in> set ps then None else req_heap (q_mem (rfree q p)) a)"
      using Cons.IH [of "rfree q p"] by (simp only: replicate.simps append_Nil) blast
    with e show ?case by (simp add: rload_Some fun_eq_iff)
  qed (simp add: fun_eq_iff)
qed simp

text \<open>After the loop over the table: the queue is counted, the pool freed.\<close>

lemma destroy_rest:
  assumes it: "HASH_ITER internal_q destroy_step q = Inr q1" and shape: "req_shape W {} q1 ys"
    and none: "internal_q q1 = []"
  obtains q' where "server_pending_requests_destroy q = Inr q'" "internal_q q' = []"
    "waiting_fin_q q' = waiting_fin_q q1" "\<forall>p. req_heap (q_mem q') p \<noteq> None \<longleftrightarrow> p \<in> set (waiting_fin_q q')"
    "slots (q_pool q') = None" "q_db q' = q_db q1"
proof -
  note D = req_shapeD [OF shape]
  have cnt: "DL_COUNT (rlive q1) (sorted_q q1) = Inr (length ys)"
    using utl.count_repr [OF D(5)] D(11) by blast
  let ?q2 = "q1\<lparr>sorted_q := (sorted_q q1)\<lparr>head := None\<rparr>\<rparr>"
  let ?ps = "pool_ptrs (q_pool q1)"
  have run: "server_pending_requests_destroy q = req_clear_preallocated_buffers ?q2"
    using it cnt none by (simp add: server_pending_requests_destroy_def Let_def)
  show ?thesis
  proof (cases "slots (q_pool q1)")
    case None
    then have "?ps = []" by (simp add: pool_ptrs_def)
    then have "\<forall>p. req_heap (q_mem q1) p \<noteq> None \<longleftrightarrow> p \<in> set (waiting_fin_q q1)"
      using shape none by (simp add: req_shape_def)
    then show ?thesis using that [of ?q2] run None none by (simp add: req_clear_preallocated_buffers_def)
  next
    case (Some xs)
    have p: "xs = replicate (fidx (q_pool q1)) None @ map Some ?ps" "distinct ?ps"
      using D(2) Some by (simp_all add: rpool.pool_ok_def pool_shape_def)
    have heap: "\<forall>p. req_heap (q_mem q1) p \<noteq> None \<longleftrightarrow> p \<in> set (waiting_fin_q q1) \<union> set ?ps"
      and disj: "set (waiting_fin_q q1) \<inter> set ?ps = {}"
      using shape none by (simp_all add: req_shape_def)
    have "\<forall>a \<in> set ?ps. req_heap (q_mem ?q2) a \<noteq> None" using heap by simp
    from req_free_slots_run [OF p(2) this, of "fidx (q_pool q1)"] obtain q3 where
      q3: "req_free_slots xs ?q2 = Inr q3" "internal_q q3 = []" "q_db q3 = q_db q1"
        "waiting_fin_q q3 = waiting_fin_q q1"
        "req_heap (q_mem q3) = (\<lambda>a. if a \<in> set ?ps then None else req_heap (q_mem q1) a)"
      unfolding p(1) using none by (auto cong: if_cong)
    have "\<forall>a. req_heap (q_mem q3) a \<noteq> None \<longleftrightarrow> a \<in> set (waiting_fin_q q3)"
      using heap disj q3(4,5) by auto
    then show ?thesis
      using that [of "q3\<lparr>q_pool := (q_pool q3)\<lparr>slots := None\<rparr>\<rparr>"] run Some q3(1-4)
      by (simp add: req_clear_preallocated_buffers_def)
  qed
qed

text \<open>
  The teardown frees every request of the table, with the holds on entries that they have, and
  every one in the pool. What it does not free are the transfers still awaited, whose table is
  not visited.
\<close>

theorem pending_requests_destroy_frees:
  assumes inv: "req_inv W x q xs" and xs: "\<forall>a \<in> set xs. req_key q a \<noteq> Some (- 1)"
  shows "\<exists>q'. server_pending_requests_destroy q = Inr q' \<and> internal_q q' = [] \<and>
    set (waiting_fin_q q') = {w \<in> set (waiting_fin_q q). \<forall>p \<in> set (internal_q q). req_key q w \<noteq> req_key q p} \<and>
    (\<forall>p. req_heap (q_mem q') p \<noteq> None \<longleftrightarrow> p \<in> set (waiting_fin_q q')) \<and>
    slots (q_pool q') = None \<and> db_same (q_db q) (q_db q')"
proof -
  have dist: "distinct (internal_q s)" if "req_inv W x s ys" for s ys
    using that req_shapeD(3) [of W "{}" s ys] by (simp add: req_inv_def table_ok_def)
  let ?I = "\<lambda>s. \<exists>ys. req_inv W x s ys \<and> (\<forall>a \<in> set ys. req_key s a \<noteq> Some (- 1))"
  have "HASH_ITER internal_q destroy_step q = run_on destroy_step (internal_q q) q"
  proof (rule HASH_ITER_run_on [where I = ?I])
    fix p s s'
    assume I: "?I s" and p: "p \<in> set (internal_q s)" and run: "destroy_step p s = Inr s'"
    then obtain ys where ys: "req_inv W x s ys" "\<forall>a \<in> set ys. req_key s a \<noteq> Some (- 1)" by blast
    obtain zs where zs: "req_inv W x s' zs" "set zs \<subseteq> set ys" "removed_all s {p} s'"
      using destroy_step_ok [OF ys(1) p ys(2)] run by auto
    have "set zs \<subseteq> set (internal_q s')" using req_shapeD(6) [of W "{}" s' zs] zs(1) by (simp add: req_inv_def)
    moreover have "\<forall>a \<in> set (internal_q s'). req_key s' a = req_key s a"
      using zs(3) by (simp add: removed_all_def req_key_def)
    ultimately have "?I s'" using zs(1,2) ys(2) by (metis subsetD)
    moreover have "internal_q s' = remove1 p (internal_q s)"
      using zs(3) distinct_remove1_removeAll [OF dist [OF ys(1)]]
      by (simp add: removed_all_def removeAll_filter_not_eq eq_commute)
    ultimately show "?I s' \<and> (internal_q s' = internal_q s \<or> internal_q s' = remove1 p (internal_q s))" by blast
  qed (use inv xs dist in blast)+
  moreover obtain q1 ys where q1: "run_on destroy_step (internal_q q) q = Inr q1" "req_inv W x q1 ys"
    "removed_all q (set (internal_q q)) q1"
    using run_on_destroy [OF inv xs dist [OF inv]] by blast
  ultimately have it: "HASH_ITER internal_q destroy_step q = Inr q1" by simp
  have shape: "req_shape W {} q1 ys" using q1(2) by (simp add: req_inv_def)
  have none: "internal_q q1 = []" using q1(3) by (simp add: removed_all_def)
  have w: "set (waiting_fin_q q1) = {w \<in> set (waiting_fin_q q). \<forall>p \<in> set (internal_q q). req_key q w \<noteq> req_key q p}"
    "db_same (q_db q) (q_db q1)" using q1(3) by (simp_all add: removed_all_def)
  obtain q' where "server_pending_requests_destroy q = Inr q'" "internal_q q' = []"
    "waiting_fin_q q' = waiting_fin_q q1" "\<forall>p. req_heap (q_mem q') p \<noteq> None \<longleftrightarrow> p \<in> set (waiting_fin_q q')"
    "slots (q_pool q') = None" "q_db q' = q_db q1" by (rule destroy_rest [OF it shape none])
  then show ?thesis using w by auto
qed

theorem pending_requests_destroy_frees_witness:
  "\<exists>q q' w. req_inv linux_world (\<lambda>_. 0) q [] \<and> server_pending_requests_destroy q = Inr q' \<and>
     internal_q q' = [] \<and> w \<in> set (waiting_fin_q q') \<and> req_heap (q_mem q') w \<noteq> None"
proof (rule linux_transfer)
  fix q w
  assume q: "req_inv linux_world (\<lambda>_. 0) q []" "w \<in> set (waiting_fin_q q)" "req_key q w = Some 9"
    "\<And>t. \<forall>p \<in> set (internal_q q). req_key q p \<noteq> Some (uint (t :: 16 word))"
  have "\<forall>p \<in> set (internal_q q). req_key q w \<noteq> req_key q p" using q(3) q(4) [of 9] by auto
  with pending_requests_destroy_frees [OF q(1)] q(1,2) show ?thesis by fastforce
qed

section \<open>Initialisation\<close>

text \<open>
  C33: a successful initialisation establishes the invariant of the server: the table holds its
  one bogus entry, nothing waits, no client is connected and four can be accepted.
\<close>

theorem init_server_connection_ok:
  assumes "plentiful (host N)" and "has_devices u" "has_device u" "\<forall>r. acquired (ctx_calls u) r" "has_port u"
    and "page_size (host N) = 4096" and "is_infiniband u \<longrightarrow> port_lid u \<noteq> 0"
  shows "\<exists>s. init_server_connection N gb u = Inr s \<and> server_inv N s [] \<and>
    db_abs (q_db (rqs s)) = [''bla'' \<mapsto> []] \<and> waiting_fin_q (rqs s) = [] \<and>
    (\<forall>n. get_connection s n = None) \<and> num_conns s = 0"
proof -
  obtain q where q: "server_pending_requests_init (host N) (requests_start db_start) = Inr q"
    "req_shape (host N) {} q []" "q_db q = db_start" "waiting_fin_q q = []"
    by (rule requests_init_shape [OF assms(1)])
  obtain d where d: "db_init (host N) (ctx_pd u) db_start = Inr d" "db_inv (host N) d" "db_abs d = [''bla'' \<mapsto> []]"
    "\<forall>p \<in> set (internal_db d). \<forall>e. db_heap (dmem d) p = Some e \<longrightarrow> e_lock e = Free"
    by (rule db_init_ok [OF assms(1)])
  let ?s = "(server_start (q\<lparr>q_db := d\<rparr>))\<lparr>my_dest := \<lparr>lid = ucast (port_lid u), qpn = 0, psn = 0, gid = zeros 16\<rparr>\<rparr>"
  have "req_locks (host N) (\<lambda>_. 0) (q\<lparr>q_db := d\<rparr>)" by (rule locks_none) (use d(2,4) q(4) in simp_all)
  then have inv: "server_inv N ?s []"
    using q(2) conns_ok_start conns_ok_cong [of ?s "server_start (q\<lparr>q_db := d\<rparr>)"]
    by (simp add: server_inv_def req_inv_def)
  have lid: "(ucast (port_lid u) :: 32 word) = 0 \<longleftrightarrow> port_lid u = 0"
  proof -
    have "unat (ucast (port_lid u) :: 32 word) = unat (port_lid u)"
      using unsigned_less [of "port_lid u", where 'a = nat] by (simp add: unsigned_ucast_eq take_bit_nat_eq_self)
    then show ?thesis by (metis unat_eq_zero)
  qed
  have "init_ctx N u = Some blank_context" unfolding init_ctx_def by (rule server_init_ctx_blank [OF assms(4,6)])
  then have run: "init_server_connection N gb u = Inr ?s"
    by (cases "is_infiniband u")
      (use assms(2-5,7) q(1,3) d(1) lid in \<open>simp_all add: init_server_connection_def Let_def server_start_def\<close>)
  have "get_connection ?s n = None" for n
    by (simp add: get_connection_def find_None_iff has_qp_def empty_connection_def)
  then show ?thesis using run inv d(3) q(4) by (intro exI [of _ ?s]) simp
qed

definition linux_port :: startup where
  "linux_port = \<lparr>has_devices = True, has_device = True, ctx_calls = sample_calls, has_port = True,
     is_infiniband = True, port_lid = 1, ctx_pd = 0\<rparr>"

theorem init_server_connection_ok_witness:
  "\<exists>s. init_server_connection linux_nic (\<lambda>s. Inl (Exit 7)) linux_port = Inr s \<and> server_inv linux_nic s [] \<and>
     num_conns s = 0"
proof -
  have "has_devices linux_port" "has_device linux_port" "\<forall>r. acquired (ctx_calls linux_port) r" "has_port linux_port"
    "port_lid linux_port \<noteq> 0" by (simp_all add: linux_port_def sample_calls_def)
  moreover have "page_size (host linux_nic) = 4096" "plentiful (host linux_nic)"
    by (simp add: linux_world_def, simp)
  ultimately show ?thesis
    using init_server_connection_ok [of linux_nic linux_port "\<lambda>s. Inl (Exit 7)"] by blast
qed

lemma db_destroy_start: "db_destroy db_start = Inl (UB Null_deref)"
  by (simp add: db_destroy_def HASH_ITER_def db_start_def db_clear_preallocated_buffers_def empty_pool_def)

lemma fresh_destroy:
  assumes W: "plentiful W"
  obtains q q' where "server_pending_requests_init W (requests_start db_start) = Inr q"
    "server_pending_requests_destroy q = Inr q'" "q_db q' = db_start"
proof (rule requests_init_shape [OF W, of db_start])
  fix q p r
  assume q: "server_pending_requests_init W (requests_start db_start) = Inr q" "req_shape W {} q []"
    "q_db q = db_start" "internal_q q = [p]" "req_heap (q_mem q) p = Some r" "r_tid r = - 1"
  let ?q1 = "q\<lparr>internal_q := HASH_DEL (internal_q q) p\<rparr>"
  have it: "HASH_ITER internal_q destroy_step q = Inr (rfree ?q1 p)"
    using q(4-6) by (simp add: HASH_ITER_def destroy_step_def rload_Some)
  have "req_shape W {p} ?q1 []" using shape_del_internal [OF q(2), of p] q(4) by simp
  then have "req_shape W ({p} - {p}) (rfree ?q1 p) []" by (rule shape_free) simp
  then have s1: "req_shape W {} (rfree ?q1 p) []" by simp
  have none: "internal_q (rfree ?q1 p) = []" using q(4) by (simp add: HASH_DEL_def)
  obtain q' where "server_pending_requests_destroy q = Inr q'" "q_db q' = q_db (rfree ?q1 p)"
    by (rule destroy_rest [OF it s1 none])
  then show ?thesis using that q(1,3) by simp
qed

text \<open>
  When there is no device, or the context cannot be created, the server does not exit with
  status 1: the teardown destroys a table whose pool was never allocated, which dereferences NULL.
\<close>

theorem init_failure_crashes:
  assumes "plentiful (host N)" and "\<not> has_devices u \<or> \<not> has_device u \<or> init_ctx N u = None"
  shows "init_server_connection N gb u = Inl (UB Null_deref)"
proof (cases "has_devices u \<and> has_device u")
  case False
  have empty: "server_pending_requests_destroy (requests_start db_start) = Inr (requests_start db_start)"
    by (simp add: server_pending_requests_destroy_def HASH_ITER_def requests_start_def DL_COUNT_def
        empty_dlist_def dl_walk.simps [of _ _ "(None, 0)"] req_clear_preallocated_buffers_def empty_pool_def Let_def)
  have "q_db (requests_start db_start) = db_start" by (simp add: requests_start_def)
  then have "destroy_tables (requests_start db_start) = Inl (UB Null_deref)"
    using empty by (simp add: destroy_tables_def db_destroy_start)
  then show ?thesis using False by (simp add: init_server_connection_def Let_def)
next
  case True
  obtain q where q: "server_pending_requests_init (host N) (requests_start db_start) = Inr q"
    "req_shape (host N) {} q []" "q_db q = db_start" "waiting_fin_q q = []"
    by (rule requests_init_shape [OF assms(1)])
  show ?thesis
    by (rule fresh_destroy [OF assms(1)]) (use True assms(2) in \<open>simp add: init_server_connection_def Let_def destroy_tables_def db_destroy_start\<close>)
qed

theorem init_failure_crashes_witness:
  "init_server_connection linux_nic (\<lambda>s. Inl (Exit 7)) (linux_port\<lparr>has_device := False\<rparr>) = Inl (UB Null_deref)"
  by (rule init_failure_crashes) simp_all

section \<open>Closing the connections\<close>

definition high_numbers :: "server \<Rightarrow> bool" where
  "high_numbers s \<longleftrightarrow>
     (\<forall>i < MAX_CLIENTS_SUPPORTED. \<forall>qp. c_qp (conns s ! i) = Some qp \<longrightarrow> int MAX_CLIENTS_SUPPORTED \<le> uint (qp_num qp))"

lemma high_none:
  assumes "high_numbers s" and "j < MAX_CLIENTS_SUPPORTED"
  shows "get_connection s (of_nat j) = None"
proof -
  have "uint (of_nat j :: 32 word) < 4" using assms(2) by (simp add: unsigned_of_nat take_bit_nat_eq_self)
  then have "\<not> has_qp (of_nat j) (conns s ! i)" if "i < MAX_CLIENTS_SUPPORTED" for i
    using assms(1) that by (fastforce simp: high_numbers_def has_qp_def split: option.splits)
  then show ?thesis unfolding get_connection_def find_None_iff by simp
qed

text \<open>The message for one client, with a free send buffer.\<close>

lemma shutdown_message_ok:
  assumes wf: "ctx_wf (sctx s)" and free: "0 < send_ring.spare (sctx s)" and live: "qp_ptr qp \<in> set (live_qps s)"
  obtains s' where "send_server_shutdown_message N (get_free_send_buffer (Suc n) wait) s qp = Inr s'"
    "ctx_wf (sctx s')" "send_ring.spare (sctx s) = Suc (send_ring.spare (sctx s'))"
    "conns s' = conns s" "live_qps s' = live_qps s"
    "sent s' = sent s @ transmitted N s qp (enc_server_headers (response_headers SERVER_SHUTDOWN 0 0 0 0 0))"
proof -
  have "\<exists>i < SERVER_NUM_SEND_BUFFS. \<not> in_use_send (sctx s) ! i"
    using free count_False_pos [of "in_use_send (sctx s)"] wf by (auto simp: ctx_wf_def)
  then obtain i c where gb: "get_free_send_buffer (Suc n) wait s = Inr (int i, s\<lparr>sctx := c\<rparr>)"
    "i < SERVER_NUM_SEND_BUFFS" "\<not> in_use_send (sctx s) ! i" "ctx_wf c"
    "in_use_send c = (in_use_send (sctx s))[i := True]"
    using get_free_ok [OF wf] by metis
  let ?h = "enc_server_headers (response_headers SERVER_SHUTDOWN 0 0 0 0 0)"
  let ?s1 = "s\<lparr>sctx := c\<rparr>"
  have "bnd (put_out ?s1 (int i) 0 ?h) (\<lambda>s1. server_post_send N s1 qp (of_nat (length ?h)) (int i)) = Inr (msg_sent N ?s1 qp i ?h)"
    using gb(2,4) live by (intro post_header) simp_all
  then have "send_server_shutdown_message N (get_free_send_buffer (Suc n) wait) s qp = Inr (msg_sent N ?s1 qp i ?h)"
    using gb(1) by (simp add: send_server_shutdown_message_def)
  moreover have "ctx_wf (sctx (msg_sent N ?s1 qp i ?h))" using gb(2,4) by (intro msg_sent_wf) simp_all
  moreover have "send_ring.spare (sctx s) = Suc (send_ring.spare c)"
    using count_list_update [of i "in_use_send (sctx s)" True False] gb(2,3,5) wf by (simp add: ctx_wf_def)
  ultimately show ?thesis by (intro that [of "msg_sent N ?s1 qp i ?h"]) (simp_all add: transmitted_def)
qed

lemma close_connections_ok:
  "ctx_wf (sctx s) \<Longrightarrow> conns_ok s \<Longrightarrow> high_numbers s \<Longrightarrow> length js \<le> send_ring.spare (sctx s) \<Longrightarrow>
   set js \<subseteq> {..<MAX_CLIENTS_SUPPORTED} \<Longrightarrow>
   \<exists>s'. close_connections N (get_free_send_buffer (Suc n) wait) js s = Inr s' \<and>
     conns s' = conns s \<and> live_qps s' = live_qps s"
proof (induction js arbitrary: s)
  case (Cons j js)
  have j: "j < MAX_CLIENTS_SUPPORTED" using Cons.prems(5) by simp
  show ?case
  proof (cases "c_qp (conns s ! j)")
    case None
    then show ?thesis using Cons.IH [of s] Cons.prems by auto
  next
    case (Some qp)
    have live: "qp_ptr qp \<in> set (live_qps (tick s))"
      using conns_okD(3) [OF Cons.prems(2)] j Some by auto
    let ?gb = "get_free_send_buffer (Suc n) wait"
    have "\<exists>s1. (if qp_state N (verbs s) = Some True then send_server_shutdown_message N ?gb (tick s) qp
        else Inr (tick s)) = Inr s1 \<and> ctx_wf (sctx s1) \<and> length js \<le> send_ring.spare (sctx s1) \<and>
        conns s1 = conns s \<and> live_qps s1 = live_qps s"
    proof (cases "qp_state N (verbs s) = Some True")
      case True
      have "ctx_wf (sctx (tick s))" "0 < send_ring.spare (sctx (tick s))" using Cons.prems(1,4) by simp_all
      from shutdown_message_ok [OF this live, of N n wait] obtain s1 where
        "send_server_shutdown_message N ?gb (tick s) qp = Inr s1" "ctx_wf (sctx s1)"
        "send_ring.spare (sctx (tick s)) = Suc (send_ring.spare (sctx s1))"
        "conns s1 = conns (tick s)" "live_qps s1 = live_qps (tick s)" by metis
      then show ?thesis using True Cons.prems(4) by simp
    next
      case False
      then show ?thesis using Cons.prems(1,4) by simp
    qed
    then obtain s1 where s1: "(if qp_state N (verbs s) = Some True then send_server_shutdown_message N ?gb (tick s) qp
        else Inr (tick s)) = Inr s1" "ctx_wf (sctx s1)" "length js \<le> send_ring.spare (sctx s1)"
        "conns s1 = conns s" "live_qps s1 = live_qps s" by blast
    have high: "high_numbers s1" using Cons.prems(3) s1(4) by (simp add: high_numbers_def)
    have "remove_connection N s1 (of_nat j) = Inr (1, s1)"
      using high_none [OF high j] by (simp add: remove_connection_def)
    moreover have "conns_ok s1" using conns_ok_cong [OF s1(4,5)] Cons.prems(2) by simp
    then obtain s' where "close_connections N ?gb js s1 = Inr s'" "conns s' = conns s1" "live_qps s' = live_qps s1"
      using Cons.IH [OF s1(2) _ high s1(3)] Cons.prems(5) by auto
    ultimately show ?thesis using Some s1(1,4,5) by simp
  qed
qed simp

text \<open>
  Closing the server's context destroys no queue pair: the loop passes the index of a
  connection where \<open>remove_connection\<close> expects a queue pair number, so that unless a queue pair
  has a number below 4, no connection is found and every one stays.
\<close>

theorem server_close_ctx_keeps_connections:
  assumes "server_inv N s xs" and "high_numbers s" and "ctx_qp (sctx s) = None"
    and "MAX_CLIENTS_SUPPORTED \<le> count_list (in_use_send (sctx s)) False"
  shows "\<exists>s'. server_close_ctx N (get_free_send_buffer (Suc n) wait) s = Inr s' \<and>
     conns s' = conns s \<and> live_qps s' = live_qps s"
proof -
  have "ctx_wf (sctx s)" "conns_ok s" using assms(1) by (simp_all add: server_inv_def)
  moreover have "set [0..<MAX_CLIENTS_SUPPORTED] \<subseteq> {..<MAX_CLIENTS_SUPPORTED}"
    "length [0..<MAX_CLIENTS_SUPPORTED] \<le> send_ring.spare (sctx s)" using assms(4) by auto
  ultimately obtain s' where
    "close_connections N (get_free_send_buffer (Suc n) wait) [0..<MAX_CLIENTS_SUPPORTED] s = Inr s'"
    "conns s' = conns s" "live_qps s' = live_qps s"
    using close_connections_ok assms(2) by blast
  then show ?thesis using assms(3) by (simp add: server_close_ctx_def)
qed

lemma spare_send_blank [simp]: "send_ring.spare blank_context = SERVER_NUM_SEND_BUFFS"
proof -
  have "count_list (replicate n False) False = n" for n by (induction n) simp_all
  then show ?thesis by (simp add: blank_context_def)
qed

theorem server_close_ctx_keeps_connections_witness:
  "\<exists>q s'. server_inv linux_nic (one_client q) [] \<and>
     server_close_ctx linux_nic (get_free_send_buffer 1 Inr) (one_client q) = Inr s' \<and>
     qp_ptr qp9 \<in> set (live_qps s')"
proof (rule linux_requests)
  fix q
  assume q: "req_inv linux_world (\<lambda>_. 0) q []"
  note inv = server_inv_one [OF q]
  have "c_qp (conns (one_client q) ! i) = (if i = 0 then Some qp9 else None)" if "i < MAX_CLIENTS_SUPPORTED" for i
    using that by (simp add: one_client_def empty_connection_def nth_list_update)
  then have "high_numbers (one_client q)" by (simp add: high_numbers_def)
  moreover have "ctx_qp (sctx (one_client q)) = None" by (simp add: blank_context_def)
  moreover have "MAX_CLIENTS_SUPPORTED \<le> count_list (in_use_send (sctx (one_client q))) False"
    using spare_send_blank by simp
  ultimately have "\<exists>s'. server_close_ctx linux_nic (get_free_send_buffer (Suc 0) Inr) (one_client q) = Inr s' \<and>
     conns s' = conns (one_client q) \<and> live_qps s' = live_qps (one_client q)"
    by (rule server_close_ctx_keeps_connections [OF inv])
  then show ?thesis using inv by auto
qed

end
