(* ===== verification/Client_Requests.thy ===== *)
theory Client_Requests
  imports Constants Uthash
begin

text \<open>
  \<open>client_internals/client_requests_management.c\<close>: the table of the client's requests that wait
  for the server, by transaction id. Shown: the invariant of the table, that the operations are
  those of a map from transaction ids to requests, and what the destruction leaves behind.
\<close>

section \<open>State\<close>

text \<open>
  A registered memory region of the client: the block, the length, the local key. \<open>p_out_buf\<close>
  points to the caller's value, \<open>p_in_buf\<close> to the block for the answer.
\<close>

record client_mr =
  m_addr :: "ptr option"
  m_len :: "64 word"
  m_lkey :: "32 word"

record client_pending_request =
  p_tid :: int
  p_pending :: bool
  p_opcode :: "32 word"
  p_out_size :: "64 word"
  p_out_buf :: "ptr option"
  p_in_buf :: "ptr option"
  p_mr :: "client_mr option"
  p_key :: "byte list option"

text \<open>The table, the allocated requests, the number of allocations so far.\<close>

record client_reqs =
  creq_q :: "ptr list"
  creq_heap :: "ptr \<Rightarrow> client_pending_request option"
  creq_next :: nat

definition zero_request :: client_pending_request where
  "zero_request = \<lparr>p_tid = 0, p_pending = False, p_opcode = 0, p_out_size = 0, p_out_buf = None,
     p_in_buf = None, p_mr = None, p_key = None\<rparr>"

definition creq_key :: "client_reqs \<Rightarrow> ptr \<Rightarrow> int option" where
  "creq_key q p = map_option p_tid (creq_heap q p)"

definition cload :: "client_reqs \<Rightarrow> ptr option \<Rightarrow> stop + client_pending_request" where
  "cload q s =
     (case s of
        None \<Rightarrow> Inl (UB Null_deref)
      | Some p \<Rightarrow> (case creq_heap q p of None \<Rightarrow> Inl (UB Dangling) | Some r \<Rightarrow> Inr r))"

definition cstore :: "client_reqs \<Rightarrow> ptr \<Rightarrow> client_pending_request \<Rightarrow> client_reqs" where
  "cstore q p r = q\<lparr>creq_heap := (creq_heap q)(p \<mapsto> r)\<rparr>"

section \<open>Operations\<close>

text \<open>\<open>ok n\<close> tells whether the allocation number \<open>n\<close> of the table succeeds.\<close>

definition client_pending_requests_init :: "(nat \<Rightarrow> bool) \<Rightarrow> client_reqs \<Rightarrow> stop + client_reqs" where
  "client_pending_requests_init ok q =
     (let p = creq_next q
      in if \<not> ok p then Inl (Exit (- 1))
         else Inr (q\<lparr>creq_q := HASH_ADD [] p, creq_heap := (creq_heap q)(p \<mapsto> zero_request\<lparr>p_tid := - 1\<rparr>),
                     creq_next := p + 1\<rparr>))"

definition get_client_pending_request :: "client_reqs \<Rightarrow> 16 word \<Rightarrow> stop + ptr option" where
  "get_client_pending_request q t = HASH_FIND (creq_key q) (creq_q q) (uint t)"

text \<open>The result of the first \<open>calloc\<close> is used unchecked; the key has room for a payload.\<close>

definition add_client_pending_request :: "(nat \<Rightarrow> bool) \<Rightarrow> client_reqs \<Rightarrow> 16 word \<Rightarrow> stop + client_reqs" where
  "add_client_pending_request ok q t =
     bnd (HASH_FIND (creq_key q) (creq_q q) (uint t)) (\<lambda>s.
     case s of
       Some _ \<Rightarrow> Inl (Exit (- 1))
     | None \<Rightarrow>
         let p = creq_next q
         in if \<not> ok p then Inl (UB Null_deref)
            else
              let r = zero_request\<lparr>p_tid := uint t,
                        p_key := (if ok (p + 1) then Some (zeros CLIENT_REQUEST_PAYLOAD_LEN) else None)\<rparr>
              in Inr (q\<lparr>creq_q := HASH_ADD (creq_q q) p, creq_heap := (creq_heap q)(p \<mapsto> r),
                        creq_next := p + 2\<rparr>))"

definition remove_client_pending_request :: "client_reqs \<Rightarrow> 16 word \<Rightarrow> stop + client_reqs" where
  "remove_client_pending_request q t =
     bnd (HASH_FIND (creq_key q) (creq_q q) (uint t)) (\<lambda>s.
     case s of
       None \<Rightarrow> Inr q
     | Some p \<Rightarrow>
         bnd (cload q s) (\<lambda>_.
         Inr (q\<lparr>creq_q := HASH_DEL (creq_q q) p, creq_heap := (creq_heap q)(p := None)\<rparr>)))"

definition num_pending_requests :: "client_reqs \<Rightarrow> nat" where
  "num_pending_requests q = HASH_COUNT (creq_q q)"

text \<open>The transaction id is cast to 16 bits on the way to the removal.\<close>

definition destroy_client_step :: "ptr \<Rightarrow> client_reqs \<Rightarrow> stop + client_reqs" where
  "destroy_client_step p q =
     bnd (cload q (Some p)) (\<lambda>r. remove_client_pending_request q (word_of_int (p_tid r)))"

definition destroy_pending_request_queue :: "client_reqs \<Rightarrow> stop + client_reqs" where
  "destroy_pending_request_queue q = HASH_ITER creq_q destroy_client_step q"

section \<open>Invariant\<close>

text \<open>
  The table holds the node with the id \<open>- 1\<close> that the initialisation puts there, and nodes with
  different ids of 16 bits; it owns exactly the allocated requests.
\<close>

definition creq_inv :: "client_reqs \<Rightarrow> bool" where
  "creq_inv q \<longleftrightarrow> table_ok (creq_key q) (creq_q q) \<and>
     (\<forall>p. creq_heap q p \<noteq> None \<longleftrightarrow> p \<in> set (creq_q q)) \<and> (\<forall>p \<in> set (creq_q q). p < creq_next q) \<and>
     (\<exists>p. p \<in> set (creq_q q) \<and> creq_key q p = Some (- 1)) \<and>
     (\<forall>p r. creq_heap q p = Some r \<longrightarrow> - 1 \<le> p_tid r \<and> p_tid r < 2 ^ 16)"

text \<open>The abstraction: the map from transaction ids to requests.\<close>

definition creq_abs :: "client_reqs \<Rightarrow> 16 word \<Rightarrow> client_pending_request option" where
  "creq_abs q t = (case get_client_pending_request q t of Inr (Some p) \<Rightarrow> creq_heap q p | _ \<Rightarrow> None)"

lemma creq_invD:
  assumes "creq_inv q"
  shows "table_ok (creq_key q) (creq_q q)" and "p \<in> set (creq_q q) \<Longrightarrow> \<exists>r. creq_heap q p = Some r"
    and "creq_heap q p = Some r \<Longrightarrow> p \<in> set (creq_q q)" and "creq_heap q (creq_next q) = None"
    and "creq_heap q p = Some r \<Longrightarrow> - 1 \<le> p_tid r \<and> p_tid r < 2 ^ 16"
    and "(creq_heap q p \<noteq> None) = (p \<in> set (creq_q q))" and "p \<in> set (creq_q q) \<Longrightarrow> p < creq_next q"
    and "\<exists>p. p \<in> set (creq_q q) \<and> creq_key q p = Some (- 1)"
  using assms by (auto simp: creq_inv_def)

lemma creq_invI:
  assumes "table_ok (creq_key q) (creq_q q)" and "\<exists>p. p \<in> set (creq_q q) \<and> creq_key q p = Some (- 1)"
    and "\<And>p. (creq_heap q p \<noteq> None) = (p \<in> set (creq_q q))" and "\<And>p. p \<in> set (creq_q q) \<Longrightarrow> p < creq_next q"
    and "\<And>p r. creq_heap q p = Some r \<Longrightarrow> - 1 \<le> p_tid r \<and> p_tid r < 2 ^ 16"
  shows "creq_inv q"
  unfolding creq_inv_def using assms by blast

lemma get_client_cases:
  assumes "creq_inv q"
  obtains (hit) p r where "get_client_pending_request q t = Inr (Some p)" "p \<in> set (creq_q q)"
      "creq_heap q p = Some r" "p_tid r = uint t" "creq_abs q t = Some r"
  | (miss) "get_client_pending_request q t = Inr None" "\<forall>p \<in> set (creq_q q). creq_key q p \<noteq> Some (uint t)"
      "creq_abs q t = None"
proof (cases rule: ht.find_cases [OF creq_invD(1) [OF assms], of "uint t"])
  case (1 p)
  then show ?thesis using hit [of p]
    by (auto simp: get_client_pending_request_def creq_abs_def creq_key_def)
next
  case 2
  then show ?thesis using miss by (simp add: get_client_pending_request_def creq_abs_def)
qed

lemma creq_abs_Some:
  assumes "creq_inv q"
  shows "creq_abs q t = Some r \<longleftrightarrow> (\<exists>p. creq_heap q p = Some r \<and> p_tid r = uint t)"
proof
  assume "creq_abs q t = Some r"
  then show "\<exists>p. creq_heap q p = Some r \<and> p_tid r = uint t"
    by (cases rule: get_client_cases [OF assms, of t]) auto
next
  assume "\<exists>p. creq_heap q p = Some r \<and> p_tid r = uint t"
  then obtain p where p: "creq_heap q p = Some r" "p_tid r = uint t" by blast
  have "p \<in> set (creq_q q)" using creq_invD(3) [OF assms] p(1) by blast
  moreover have "creq_key q p = Some (uint t)" using p by (simp add: creq_key_def)
  ultimately have "get_client_pending_request q t = Inr (Some p)"
    using ht.find_hit [OF creq_invD(1) [OF assms]] by (simp add: get_client_pending_request_def)
  then show "creq_abs q t = Some r" using p(1) by (simp add: creq_abs_def)
qed

lemma creq_abs_None:
  assumes "creq_inv q"
  shows "creq_abs q t = None \<longleftrightarrow> (\<forall>p r. creq_heap q p = Some r \<longrightarrow> p_tid r \<noteq> uint t)"
  using creq_abs_Some [OF assms, of t] by (metis not_None_eq)

text \<open>Two states with the same requests up to pointers have the same map.\<close>

lemma creq_abs_upd:
  assumes "creq_inv q" and "creq_inv q'" and "creq_heap q' = (creq_heap q)(p \<mapsto> r)" and "p_tid r = uint t"
    and "creq_heap q p = None \<and> creq_abs q t = None \<or> (\<exists>r0. creq_heap q p = Some r0 \<and> p_tid r0 = uint t)"
  shows "creq_abs q' = (creq_abs q)(t \<mapsto> r)"
proof (rule ext)
  fix u
  show "creq_abs q' u = ((creq_abs q)(t \<mapsto> r)) u"
  proof (cases "u = t")
    case True
    have "creq_abs q' t = Some r" unfolding creq_abs_Some [OF assms(2)] using assms(3,4) by auto
    then show ?thesis using True by simp
  next
    case False
    then have ne: "uint u \<noteq> uint t" using word_uint_eq_iff by blast
    have "((creq_heap q)(p \<mapsto> r)) a = Some x \<and> p_tid x = uint u \<longleftrightarrow> creq_heap q a = Some x \<and> p_tid x = uint u" for a x
      using assms(4,5) ne by (cases "a = p") auto
    then have "creq_abs q' u = Some x \<longleftrightarrow> creq_abs q u = Some x" for x
      unfolding creq_abs_Some [OF assms(1)] creq_abs_Some [OF assms(2)] assms(3) by simp
    then show ?thesis using False by (metis fun_upd_other option.exhaust)
  qed
qed

text \<open>A new request under an id that no request has, whatever else it holds.\<close>

lemma new_request_inv:
  assumes inv: "creq_inv q" and miss: "\<forall>p \<in> set (creq_q q). creq_key q p \<noteq> Some (uint t)"
    and r: "p_tid r = uint (t :: 16 word)"
    and q': "q' = q\<lparr>creq_q := HASH_ADD (creq_q q) (creq_next q), creq_heap := (creq_heap q)(creq_next q \<mapsto> r),
      creq_next := creq_next q + 2\<rparr>"
  shows "creq_inv q'" and "get_client_pending_request q' t = Inr (Some (creq_next q))"
proof -
  let ?p = "creq_next q"
  note D = creq_invD [OF inv]
  have fresh: "?p \<notin> set (creq_q q)" using D(2,4) by force
  have keys: "\<forall>a \<in> set (creq_q q). creq_key q' a = creq_key q a" using fresh by (auto simp: creq_key_def q')
  have tab0: "table_ok (creq_key q') (creq_q q)" using D(1) keys by (rule ht.ok_frame)
  have key: "creq_key q' ?p = Some (uint t)" using r by (simp add: creq_key_def q')
  have none: "\<forall>a \<in> set (creq_q q). creq_key q' a \<noteq> Some (uint t)" using miss keys by simp
  have tab: "table_ok (creq_key q') (creq_q q')" using ht.add_ok [OF tab0 fresh key none] by (simp add: q')
  have t: "uint t < 2 ^ 16" "- 1 \<le> uint t" using uint_lt2p [of t] uint_ge_0 [of t] by (simp, linarith)
  have elems: "set (creq_q q') = insert ?p (set (creq_q q))" by (simp add: ht.add_elems q')
  have "\<exists>a. a \<in> set (creq_q q') \<and> creq_key q' a = Some (- 1)"
    using D(8) keys unfolding elems by (metis insertCI)
  then show "creq_inv q'"
  proof (rule creq_invI [OF tab])
    show "(creq_heap q' a \<noteq> None) = (a \<in> set (creq_q q'))" for a
      unfolding elems using D(6) [of a] by (simp add: q')
    show "a < creq_next q'" if "a \<in> set (creq_q q')" for a
      using that D(7) [of a] unfolding elems by (auto simp: q')
    show "- 1 \<le> p_tid x \<and> p_tid x < 2 ^ 16" if "creq_heap q' a = Some x" for a x
      using that D(5) [of a x] t r by (auto simp: q' split: if_splits)
  qed
  show "get_client_pending_request q' t = Inr (Some ?p)"
    unfolding get_client_pending_request_def by (rule ht.find_hit [OF tab _ key]) (simp add: elems)
qed

lemma add_client_ok:
  assumes inv: "creq_inv q" and new: "creq_abs q t = None" and ok: "\<forall>n. ok n"
  obtains q' p where "add_client_pending_request ok q t = Inr q'" "creq_inv q'"
    "get_client_pending_request q' t = Inr (Some p)"
    "creq_heap q' p = Some (zero_request\<lparr>p_tid := uint t, p_key := Some (zeros CLIENT_REQUEST_PAYLOAD_LEN)\<rparr>)"
    "creq_abs q' = (creq_abs q)(t \<mapsto> zero_request\<lparr>p_tid := uint t, p_key := Some (zeros CLIENT_REQUEST_PAYLOAD_LEN)\<rparr>)"
    "num_pending_requests q' = Suc (num_pending_requests q)"
proof -
  let ?p = "creq_next q" and ?r = "zero_request\<lparr>p_tid := uint t, p_key := Some (zeros CLIENT_REQUEST_PAYLOAD_LEN)\<rparr>"
  let ?q = "q\<lparr>creq_q := HASH_ADD (creq_q q) ?p, creq_heap := (creq_heap q)(?p \<mapsto> ?r), creq_next := ?p + 2\<rparr>"
  have miss: "get_client_pending_request q t = Inr None" "\<forall>p \<in> set (creq_q q). creq_key q p \<noteq> Some (uint t)"
    using new by (cases rule: get_client_cases [OF inv, of t]; simp)+
  note inv' = new_request_inv [OF inv miss(2), of ?r ?q]
  have "creq_abs ?q = (creq_abs q)(t \<mapsto> ?r)"
    by (rule creq_abs_upd [OF inv inv'(1), of ?p]) (use creq_invD(4) [OF inv] new in simp_all)
  moreover have "add_client_pending_request ok q t = Inr ?q"
    using miss(1) ok by (simp add: add_client_pending_request_def get_client_pending_request_def Let_def)
  ultimately show ?thesis using inv'
    by (intro that [of ?q ?p]) (simp_all add: num_pending_requests_def HASH_COUNT_def ht.add_elems)
qed

text \<open>An addition that returns keeps the invariant, also when there is no room for the key.\<close>

lemma add_client_inv:
  assumes inv: "creq_inv q" and add: "add_client_pending_request ok q t = Inr q'"
  shows "creq_inv q'"
proof (cases rule: get_client_cases [OF inv, of t])
  case (1 p r)
  then show ?thesis using add by (simp add: add_client_pending_request_def get_client_pending_request_def)
next
  case miss: 2
  let ?r = "zero_request\<lparr>p_tid := uint t,
    p_key := (if ok (creq_next q + 1) then Some (zeros CLIENT_REQUEST_PAYLOAD_LEN) else None)\<rparr>"
  have "q' = q\<lparr>creq_q := HASH_ADD (creq_q q) (creq_next q), creq_heap := (creq_heap q)(creq_next q \<mapsto> ?r),
      creq_next := creq_next q + 2\<rparr>"
    using add miss(1) by (simp add: add_client_pending_request_def get_client_pending_request_def Let_def split: if_splits)
  from new_request_inv(1) [OF inv miss(2) _ this] show ?thesis by simp
qed

lemma add_client_duplicate:
  "creq_inv q \<Longrightarrow> creq_abs q t = Some r \<Longrightarrow> add_client_pending_request ok q t = Inl (Exit (- 1))"
  by (cases rule: get_client_cases [of q t])
    (auto simp: add_client_pending_request_def get_client_pending_request_def)

lemma remove_client_ok:
  assumes inv: "creq_inv q"
  obtains q' where "remove_client_pending_request q t = Inr q'" "creq_inv q'" "creq_abs q' = (creq_abs q)(t := None)"
    "num_pending_requests q' = num_pending_requests q - (if creq_abs q t = None then 0 else 1)"
proof (cases rule: get_client_cases [OF inv, of t])
  case miss: 2
  then show ?thesis using that [of q] inv fun_upd_idem [of "creq_abs q" t None]
    by (simp add: remove_client_pending_request_def get_client_pending_request_def)
next
  case hit: (1 p r)
  let ?q = "q\<lparr>creq_q := HASH_DEL (creq_q q) p, creq_heap := (creq_heap q)(p := None)\<rparr>"
  note D = creq_invD [OF inv]
  have set: "set (creq_q ?q) = set (creq_q q) - {p}" using ht.del_set [OF D(1), of p] by simp
  have keys: "\<forall>a \<in> set (creq_q ?q). creq_key ?q a = creq_key q a" using set by (auto simp: creq_key_def)
  have "table_ok (creq_key q) (HASH_DEL (creq_q q) p)" by (rule ht.del_ok [OF D(1)])
  then have tab: "table_ok (creq_key ?q) (creq_q ?q)" using keys ht.ok_frame by simp
  have "creq_key q p \<noteq> Some (- 1)" using hit(3,4) by (simp add: creq_key_def)
  then have "\<exists>a. a \<in> set (creq_q ?q) \<and> creq_key ?q a = Some (- 1)"
    using D(8) keys unfolding set by (metis Diff_iff singletonD)
  then have inv': "creq_inv ?q"
  proof (rule creq_invI [OF tab])
    show "(creq_heap ?q a \<noteq> None) = (a \<in> set (creq_q ?q))" for a
      unfolding set using D(6) [of a] by simp
    show "a < creq_next ?q" if "a \<in> set (creq_q ?q)" for a
      using that D(7) [of a] unfolding set by simp
    show "- 1 \<le> p_tid r \<and> p_tid r < 2 ^ 16" if "creq_heap ?q a = Some r" for a r
      using that D(5) [of a r] by (simp split: if_splits)
  qed
  have "creq_abs ?q u = ((creq_abs q)(t := None)) u" for u
  proof (cases "u = t")
    case True
    have "p_tid x \<noteq> uint t" if "creq_heap ?q a = Some x" for a x
    proof
      assume x: "p_tid x = uint t"
      have a: "a \<noteq> p" "creq_heap q a = Some x" using that by (auto split: if_splits)
      then have "creq_key q a = creq_key q p" "a \<in> set (creq_q q)" using x hit(3,4) D(3) by (auto simp: creq_key_def)
      then show False using ht.ok_inj [OF D(1), of a p] hit(2) a(1) by simp
    qed
    then show ?thesis using creq_abs_None [OF inv', of t] True by (simp del: fun_upd_apply) (simp)
  next
    case False
    then have ne: "uint u \<noteq> uint t" using word_uint_eq_iff by blast
    have "creq_abs ?q u = Some x \<longleftrightarrow> creq_abs q u = Some x" for x
    proof -
      have "(if a = p then None else creq_heap q a) = Some x \<and> p_tid x = uint u \<longleftrightarrow>
          creq_heap q a = Some x \<and> p_tid x = uint u" for a
        using hit(3,4) ne by (cases "a = p") auto
      then show ?thesis unfolding creq_abs_Some [OF inv] creq_abs_Some [OF inv'] by (simp add: fun_upd_def)
    qed
    then show ?thesis using False by (metis fun_upd_other option.exhaust)
  qed
  then have "creq_abs ?q = (creq_abs q)(t := None)" by blast
  moreover have "remove_client_pending_request q t = Inr ?q"
    using hit by (simp add: remove_client_pending_request_def get_client_pending_request_def cload_def)
  ultimately show ?thesis using that [of ?q] inv' hit(2,5)
    by (simp add: num_pending_requests_def HASH_COUNT_def ht.del_elems length_remove1)
qed

section \<open>Initialisation and destruction\<close>

lemma client_init_ok:
  assumes "\<forall>n. ok n" and "\<forall>p. creq_heap q p = None"
  obtains q' where "client_pending_requests_init ok q = Inr q'" "creq_inv q'" "creq_abs q' = Map.empty"
    "num_pending_requests q' = 1"
proof -
  let ?p = "creq_next q"
  let ?q = "q\<lparr>creq_q := HASH_ADD [] ?p, creq_heap := (creq_heap q)(?p \<mapsto> zero_request\<lparr>p_tid := - 1\<rparr>), creq_next := ?p + 1\<rparr>"
  have inv: "creq_inv ?q"
    by (rule creq_invI) (use assms(2) in \<open>auto simp: table_ok_def HASH_ADD_def creq_key_def split: if_splits\<close>)
  have "creq_abs ?q t = None" for t
    unfolding creq_abs_None [OF inv] using assms(2) by auto
  then have "creq_abs ?q = Map.empty" by blast
  then show ?thesis using that [of ?q] inv assms(1)
    by (simp add: client_pending_requests_init_def Let_def num_pending_requests_def HASH_COUNT_def HASH_ADD_def)
qed

text \<open>The cast of a transaction id to 16 bits and back.\<close>

lemma client_tid_word:
  assumes "creq_inv q" and "creq_heap q p = Some r" and "p_tid r \<noteq> - 1"
  shows "uint (word_of_int (p_tid r) :: 16 word) = p_tid r"
  using creq_invD(5) [OF assms(1,2)] assms(3) by (simp add: uint_word_of_int)

lemma destroy_client_step_ok:
  assumes inv: "creq_inv q" and p: "p \<in> set (creq_q q)" and none: "creq_abs q (- 1) = None"
  obtains q' where "destroy_client_step p q = Inr q'" "creq_inv q'" "creq_abs q' (- 1) = None"
    "creq_q q' = (if creq_key q p = Some (- 1) then creq_q q else remove1 p (creq_q q))"
    "\<forall>a \<in> set (creq_q q'). creq_key q' a = creq_key q a"
proof -
  note D = creq_invD [OF inv]
  obtain r where r: "creq_heap q p = Some r" using D(2) [OF p] by blast
  show ?thesis
  proof (cases "p_tid r = - 1")
    case True
    have "HASH_FIND (creq_key q) (creq_q q) (uint (- 1 :: 16 word)) = Inr None"
      using none by (cases rule: get_client_cases [OF inv, of "- 1"]) (auto simp: get_client_pending_request_def)
    then have "destroy_client_step p q = Inr q"
      using r True by (simp add: destroy_client_step_def cload_def remove_client_pending_request_def)
    then show ?thesis using that [of q] inv none r True by (simp add: creq_key_def)
  next
    case False
    let ?t = "word_of_int (p_tid r) :: 16 word"
    have t: "uint ?t = p_tid r" by (rule client_tid_word [OF inv r False])
    have key: "creq_key q p = Some (uint ?t)" using r t by (simp add: creq_key_def)
    obtain q' where q': "remove_client_pending_request q ?t = Inr q'" "creq_inv q'" "creq_abs q' = (creq_abs q)(?t := None)"
      by (rule remove_client_ok [OF inv])
    have "HASH_FIND (creq_key q) (creq_q q) (uint ?t) = Inr (Some p)" by (rule ht.find_hit [OF D(1) p key])
    then have "q' = q\<lparr>creq_q := HASH_DEL (creq_q q) p, creq_heap := (creq_heap q)(p := None)\<rparr>"
      using q'(1) r by (simp add: remove_client_pending_request_def cload_def)
    then have keys: "\<forall>a \<in> set (creq_q q'). creq_key q' a = creq_key q a" "creq_q q' = remove1 p (creq_q q)"
      using ht.ok_distinct [OF D(1)] by (auto simp: set_remove1_eq creq_key_def ht.del_elems)
    have "destroy_client_step p q = Inr q'" "creq_abs q' (- 1) = None" "creq_key q p \<noteq> Some (- 1)"
      using q'(1,3) none r key False by (simp_all add: destroy_client_step_def cload_def creq_key_def)
    then show ?thesis using that [of q'] q'(2) keys by simp
  qed
qed

lemma run_on_destroy_client:
  "creq_inv q \<Longrightarrow> creq_abs q (- 1) = None \<Longrightarrow> distinct ps \<Longrightarrow> set ps \<subseteq> set (creq_q q) \<Longrightarrow>
   \<exists>q'. run_on destroy_client_step ps q = Inr q' \<and> creq_inv q' \<and>
     set (creq_q q') = {a \<in> set (creq_q q). a \<in> set ps \<longrightarrow> creq_key q a = Some (- 1)} \<and>
     (\<forall>a \<in> set (creq_q q'). creq_key q' a = creq_key q a)"
proof (induction ps arbitrary: q)
  case (Cons p ps)
  have p: "p \<in> set (creq_q q)" using Cons.prems(4) by simp
  obtain q1 where q1: "destroy_client_step p q = Inr q1" "creq_inv q1" "creq_abs q1 (- 1) = None"
    "creq_q q1 = (if creq_key q p = Some (- 1) then creq_q q else remove1 p (creq_q q))"
    "\<forall>a \<in> set (creq_q q1). creq_key q1 a = creq_key q a"
    by (rule destroy_client_step_ok [OF Cons.prems(1) p Cons.prems(2)])
  have dist: "distinct (creq_q q)" using ht.ok_distinct [OF creq_invD(1) [OF Cons.prems(1)]] .
  have set1: "set (creq_q q1) = {a \<in> set (creq_q q). a = p \<longrightarrow> creq_key q a = Some (- 1)}"
    using q1(4) p dist by (auto simp: set_remove1_eq)
  have "set ps \<subseteq> set (creq_q q1)" using Cons.prems(3,4) unfolding set1 by auto
  moreover have "distinct ps" using Cons.prems(3) by simp
  ultimately obtain q2 where q2: "run_on destroy_client_step ps q1 = Inr q2" "creq_inv q2"
    "set (creq_q q2) = {a \<in> set (creq_q q1). a \<in> set ps \<longrightarrow> creq_key q1 a = Some (- 1)}"
    "\<forall>a \<in> set (creq_q q2). creq_key q2 a = creq_key q1 a"
    using Cons.IH [OF q1(2,3)] by blast
  have "set (creq_q q2) = {a \<in> set (creq_q q). a \<in> set (p # ps) \<longrightarrow> creq_key q a = Some (- 1)}"
    unfolding q2(3) using q1(5) set1 by auto
  moreover have "\<forall>a \<in> set (creq_q q2). creq_key q2 a = creq_key q a" using q1(5) q2(3,4) by auto
  ultimately show ?case using q1(1) q2(1,2) by simp
qed auto

lemma destroy_client_queue_ok:
  assumes inv: "creq_inv q" and none: "creq_abs q (- 1) = None"
  obtains q' p where "destroy_pending_request_queue q = Inr q'" "creq_inv q'" "creq_q q' = [p]"
    "creq_key q' p = Some (- 1)" "\<forall>a. creq_heap q' a \<noteq> None \<longleftrightarrow> a = p"
proof -
  have dist: "distinct (creq_q s)" if "creq_inv s" for s
    using ht.ok_distinct [OF creq_invD(1) [OF that]] .
  let ?I = "\<lambda>s. creq_inv s \<and> creq_abs s (- 1) = None"
  have it: "HASH_ITER creq_q destroy_client_step q = run_on destroy_client_step (creq_q q) q"
  proof (rule HASH_ITER_run_on [where I = ?I])
    fix p s s'
    assume s: "?I s" and p: "p \<in> set (creq_q s)" and run: "destroy_client_step p s = Inr s'"
    show "?I s' \<and> (creq_q s' = creq_q s \<or> creq_q s' = remove1 p (creq_q s))"
      by (rule destroy_client_step_ok [OF conjunct1 [OF s] p conjunct2 [OF s]]) (use run in \<open>simp split: if_splits\<close>)
  qed (use inv none dist in auto)
  obtain q' where q': "run_on destroy_client_step (creq_q q) q = Inr q'" "creq_inv q'"
    "set (creq_q q') = {a \<in> set (creq_q q). a \<in> set (creq_q q) \<longrightarrow> creq_key q a = Some (- 1)}"
    "\<forall>a \<in> set (creq_q q'). creq_key q' a = creq_key q a"
    using run_on_destroy_client [OF inv none dist [OF inv] subset_refl] by blast
  obtain p where p: "p \<in> set (creq_q q)" "creq_key q p = Some (- 1)" using creq_invD(8) [OF inv] by blast
  have "set (creq_q q') = {p}"
    using q'(3) p ht.ok_inj [OF creq_invD(1) [OF inv]] by auto
  then have one: "creq_q q' = [p]" using dist [OF q'(2)]
    by (cases "creq_q q'"; cases "tl (creq_q q')") auto
  have "creq_key q' p = Some (- 1)" using q'(4) one p(2) by simp
  moreover have "\<forall>a. creq_heap q' a \<noteq> None \<longleftrightarrow> a = p" using creq_invD(6) [OF q'(2)] one by simp
  ultimately show ?thesis using that [of q' p] it q'(1,2) one by (simp add: destroy_pending_request_queue_def)
qed

text \<open>
  The destruction of the client's table frees every request that waits for an answer, but not
  the node that the initialisation puts in: its id \<open>- 1\<close> is cast to 16 bits before the lookup and
  not found.
\<close>

theorem client_queue_destroyed:
  assumes inv: "creq_inv q" and none: "creq_abs q (- 1) = None"
  shows "\<exists>q' p. destroy_pending_request_queue q = Inr q' \<and> creq_q q' = [p] \<and> creq_key q' p = Some (- 1) \<and>
    (\<forall>a. creq_heap q' a \<noteq> None \<longleftrightarrow> a = p)"
  by (rule destroy_client_queue_ok [OF inv none]) blast

text \<open>A table with one request, for the witnesses.\<close>

lemma one_request:
  obtains q r where "creq_inv q" "creq_abs q = [5 \<mapsto> r]" "num_pending_requests q = 2"
proof -
  let ?q0 = "\<lparr>creq_q = [], creq_heap = (\<lambda>_. None), creq_next = 0\<rparr>"
  obtain q1 where q1: "client_pending_requests_init (\<lambda>_. True) ?q0 = Inr q1" "creq_inv q1"
    "creq_abs q1 = Map.empty" "num_pending_requests q1 = 1"
    by (rule client_init_ok [of "\<lambda>_. True" ?q0]) simp_all
  obtain q2 p where "creq_inv q2" "num_pending_requests q2 = Suc (num_pending_requests q1)"
    "creq_abs q2 = (creq_abs q1)(5 \<mapsto> zero_request\<lparr>p_tid := uint (5 :: 16 word), p_key := Some (zeros CLIENT_REQUEST_PAYLOAD_LEN)\<rparr>)"
    by (rule add_client_ok [OF q1(2), of 5 "\<lambda>_. True"]) (use q1(3) in simp_all)
  then show ?thesis using that q1(3,4) by simp
qed

theorem client_queue_destroyed_witness:
  "\<exists>q q' p. creq_inv q \<and> num_pending_requests q = 2 \<and> destroy_pending_request_queue q = Inr q' \<and> creq_q q' = [p]"
proof (rule one_request)
  fix q r
  assume q: "creq_inv q" "creq_abs q = [5 \<mapsto> r]" "num_pending_requests q = 2"
  have "creq_abs q (- 1) = None" using q(2) by simp
  with client_queue_destroyed [OF q(1)] q(1,3) show ?thesis by metis
qed

text \<open>
  C16: the client's table is a map from transaction ids to requests: a new id is entered with a
  zeroed request that has room for a key, an id that is pending ends the process, and removing an
  id removes it and nothing else.
\<close>

theorem client_table_refines:
  assumes "creq_inv q" and "\<forall>n. ok n"
  shows "(case creq_abs q t of
      Some _ \<Rightarrow> add_client_pending_request ok q t = Inl (Exit (- 1))
    | None \<Rightarrow> \<exists>q'. add_client_pending_request ok q t = Inr q' \<and> creq_inv q' \<and>
        creq_abs q' = (creq_abs q)(t \<mapsto> zero_request\<lparr>p_tid := uint t, p_key := Some (zeros CLIENT_REQUEST_PAYLOAD_LEN)\<rparr>) \<and>
        num_pending_requests q' = Suc (num_pending_requests q)) \<and>
    (\<exists>q'. remove_client_pending_request q t = Inr q' \<and> creq_inv q' \<and> creq_abs q' = (creq_abs q)(t := None) \<and>
        num_pending_requests q' = num_pending_requests q - (if creq_abs q t = None then 0 else 1))"
proof
  show "case creq_abs q t of
      Some _ \<Rightarrow> add_client_pending_request ok q t = Inl (Exit (- 1))
    | None \<Rightarrow> \<exists>q'. add_client_pending_request ok q t = Inr q' \<and> creq_inv q' \<and>
        creq_abs q' = (creq_abs q)(t \<mapsto> zero_request\<lparr>p_tid := uint t, p_key := Some (zeros CLIENT_REQUEST_PAYLOAD_LEN)\<rparr>) \<and>
        num_pending_requests q' = Suc (num_pending_requests q)"
  proof (cases "creq_abs q t")
    case None
    show ?thesis by (rule add_client_ok [OF assms(1) None assms(2)]) (use None in simp)
  qed (simp add: add_client_duplicate [OF assms(1)])
  show "\<exists>q'. remove_client_pending_request q t = Inr q' \<and> creq_inv q' \<and> creq_abs q' = (creq_abs q)(t := None) \<and>
        num_pending_requests q' = num_pending_requests q - (if creq_abs q t = None then 0 else 1)"
    by (rule remove_client_ok [OF assms(1), of t]) blast
qed

theorem client_table_refines_witness:
  "\<exists>q r q1 q2. creq_abs q = [5 \<mapsto> r] \<and> add_client_pending_request (\<lambda>_. True) q 5 = Inl (Exit (- 1)) \<and>
     add_client_pending_request (\<lambda>_. True) q 6 = Inr q1 \<and> creq_abs q1 5 = Some r \<and>
     remove_client_pending_request q 5 = Inr q2 \<and> creq_abs q2 = Map.empty"
proof (rule one_request)
  fix q r
  assume q: "creq_inv q" "creq_abs q = [5 \<mapsto> r]"
  show ?thesis
    by (rule exI [of _ q], rule exI [of _ r])
      (use client_table_refines [OF q(1), of "\<lambda>_. True" 5] client_table_refines [OF q(1), of "\<lambda>_. True" 6] q(2) in auto)
qed

section \<open>Updating a request in place\<close>

lemma cstore_ok:
  assumes inv: "creq_inv q" and get: "get_client_pending_request q t = Inr (Some p)" and r: "p_tid r = uint t"
  shows "creq_inv (cstore q p r)" "creq_abs (cstore q p r) = (creq_abs q)(t \<mapsto> r)"
    "num_pending_requests (cstore q p r) = num_pending_requests q"
    "get_client_pending_request (cstore q p r) u = get_client_pending_request q u"
proof -
  note D = creq_invD [OF inv]
  obtain r0 where p: "p \<in> set (creq_q q)" "creq_heap q p = Some r0" "p_tid r0 = uint t"
    using get by (cases rule: get_client_cases [OF inv, of t]) auto
  let ?q = "cstore q p r"
  have keys: "creq_key ?q = creq_key q" using p(2,3) r by (auto simp: creq_key_def cstore_def)
  have heap: "creq_heap ?q = (creq_heap q)(p \<mapsto> r)" "creq_q ?q = creq_q q" "creq_next ?q = creq_next q"
    by (simp_all add: cstore_def)
  show inv': "creq_inv ?q"
  proof (rule creq_invI)
    show "table_ok (creq_key ?q) (creq_q ?q)" using D(1) by (simp only: keys heap)
    show "\<exists>p. p \<in> set (creq_q ?q) \<and> creq_key ?q p = Some (- 1)" using D(8) by (simp only: keys heap)
    show "(creq_heap ?q a \<noteq> None) = (a \<in> set (creq_q ?q))" for a using D(6) [of a] p(1) by (simp add: heap)
    show "a < creq_next ?q" if "a \<in> set (creq_q ?q)" for a using that D(7) by (simp add: heap)
    show "- 1 \<le> p_tid r' \<and> p_tid r' < 2 ^ 16" if "creq_heap ?q a = Some r'" for a r'
      using that D(5) [of a r'] D(5) [OF p(2)] p(3) r by (cases "a = p") (auto simp: heap)
  qed
  show "creq_abs ?q = (creq_abs q)(t \<mapsto> r)" by (rule creq_abs_upd [OF inv inv' heap(1) r]) (use p(2,3) in blast)
  show "num_pending_requests ?q = num_pending_requests q" by (simp add: num_pending_requests_def heap)
  show "get_client_pending_request ?q u = get_client_pending_request q u"
    by (simp only: get_client_pending_request_def keys heap)
qed

end
