(* ===== verification/Client.thy ===== *)
theory Client
  imports Connections Client_Requests
begin

text \<open>
  \<open>client.c\<close>, first part: the state of the client, transaction ids, posting of receives, sends
  and RDMA work, the handlers of the server's messages, the completion loop and the closing of
  the connection, which call each other. Every function takes what it calls back as arguments
  (\<open>close\<close> is \<open>kv_close\<close>, \<open>wait\<close> is \<open>client_wait_completions(ctx, 1)\<close>); the knot is tied at
  the end with fuel, one unit for each round of the completion loop and each nested call.
\<close>

section \<open>State\<close>

text \<open>
  Work handed to the adapter: the bytes of a send, or an RDMA transfer with the local block, its
  length and key, the remote address and key, and the transaction id.
\<close>

record transfer =
  t_laddr :: "ptr option"
  t_size :: "32 word"
  t_lkey :: "32 word"
  t_raddr :: "64 word"
  t_rkey :: "32 word"
  t_tid :: "16 word"

datatype work = Send "byte list" | Rdma_read transfer | Rdma_write transfer

text \<open>
  One call of \<open>ibv_poll_cq\<close>: the completions, the messages stored in receive buffers and the
  bytes that RDMA reads have stored in local blocks; \<open>None\<close> is a negative result.
\<close>

record client_poll =
  completions :: "ibv_wc list"
  messages :: "(nat \<times> byte list) list"
  stored :: "(ptr \<times> byte list) list"

text \<open>
  The static variables of \<open>client.c\<close>, the pending requests, the context, the blocks of memory of
  the process that hold bytes (keys, values and answers), the history of work accepted by the
  adapter, the number of calls of the verbs library and of reads of the shutdown flag, and the
  allocated blocks that hold something else (arrays, a line, an address), of which only the
  addresses are kept: their contents are values of the model.
\<close>

record client =
  reqs :: client_reqs
  cctx :: kv_context
  immediate_shutdown :: bool
  client_id :: int
  last_used_tid :: "16 word"
  sockfd_client :: int
  cfds :: "int list"
  blocks :: "ptr \<Rightarrow> byte list option"
  next_block :: nat
  cregs :: nat
  cpolls :: "client_poll option list"
  posted :: "work list"
  calls :: nat
  other_blocks :: "ptr set"

text \<open>
  The results of allocations, registrations and calls, by their numbers; \<open>e_ready\<close> is the state of
  the queue pair as \<open>qp_state\<close> of \<open>nic\<close>; \<open>e_signal\<close> tells that a signal arrived just before.
\<close>

record client_env =
  e_alloc :: "nat \<Rightarrow> bool"
  e_calloc :: "nat \<Rightarrow> bool"
  e_reg :: "nat \<Rightarrow> bool"
  e_lkey :: "nat \<Rightarrow> 32 word"
  e_send :: "nat \<Rightarrow> bool"
  e_recv :: "nat \<Rightarrow> bool"
  e_ready :: "nat \<Rightarrow> bool option"
  e_signal :: "nat \<Rightarrow> bool"

definition ctick :: "client \<Rightarrow> client" where
  "ctick s = s\<lparr>calls := Suc (calls s)\<rparr>"

definition clift_ctx :: "stop + kv_context \<Rightarrow> client \<Rightarrow> stop + client" where
  "clift_ctx r s = bnd r (\<lambda>c. Inr (s\<lparr>cctx := c\<rparr>))"

definition clift_reqs :: "stop + client_reqs \<Rightarrow> client \<Rightarrow> stop + client" where
  "clift_reqs r s = bnd r (\<lambda>q. Inr (s\<lparr>reqs := q\<rparr>))"

definition cupdate :: "client \<Rightarrow> ptr \<Rightarrow> client_pending_request \<Rightarrow> client" where
  "cupdate s p r = s\<lparr>reqs := cstore (reqs s) p r\<rparr>"

text \<open>\<open>calloc(1, n)\<close> of a block.\<close>

definition calloc_block :: "client_env \<Rightarrow> nat \<Rightarrow> client \<Rightarrow> ptr option \<times> client" where
  "calloc_block E n s =
     (let p = next_block s
      in if e_calloc E p then (Some p, s\<lparr>blocks := (blocks s)(p \<mapsto> zeros n), next_block := Suc p\<rparr>)
         else (None, s\<lparr>next_block := Suc p\<rparr>))"

text \<open>Allocation of a block of another kind, which cannot or can fail here, and \<open>free\<close>.\<close>

definition new_other :: "client \<Rightarrow> ptr \<times> client" where
  "new_other s =
     (next_block s, s\<lparr>next_block := Suc (next_block s), other_blocks := insert (next_block s) (other_blocks s)\<rparr>)"

definition calloc_other :: "client_env \<Rightarrow> client \<Rightarrow> ptr option \<times> client" where
  "calloc_other E s =
     (if e_calloc E (next_block s) then (let (p, s1) = new_other s in (Some p, s1))
      else (None, s\<lparr>next_block := Suc (next_block s)\<rparr>))"

definition free_other :: "ptr option \<Rightarrow> client \<Rightarrow> stop + client" where
  "free_other p s =
     (case p of
        None \<Rightarrow> Inr s
      | Some q \<Rightarrow> if q \<in> other_blocks s then Inr (s\<lparr>other_blocks := other_blocks s - {q}\<rparr>) else Inl (UB Dangling))"

text \<open>\<open>ibv_reg_mr\<close> of a block.\<close>

definition reg_block :: "client_env \<Rightarrow> ptr option \<Rightarrow> 64 word \<Rightarrow> client \<Rightarrow> client_mr option \<times> client" where
  "reg_block E p n s =
     (if e_reg E (cregs s) then Some \<lparr>m_addr = p, m_len = n, m_lkey = e_lkey E (cregs s)\<rparr> else None,
      s\<lparr>cregs := Suc (cregs s)\<rparr>)"

section \<open>Signals\<close>

definition client_signal_handler :: "client \<Rightarrow> client" where
  "client_signal_handler s =
     s\<lparr>immediate_shutdown := True,
       cfds := (if sockfd_client s \<noteq> 0 then removeAll (sockfd_client s) (cfds s) else cfds s)\<rparr>"

text \<open>A read of \<open>immediate_shutdown\<close>, before which a signal may have arrived.\<close>

definition check_shutdown :: "client_env \<Rightarrow> client \<Rightarrow> bool \<times> client" where
  "check_shutdown E s =
     (let s1 = (if e_signal E (calls s) then client_signal_handler (ctick s) else ctick s)
      in (immediate_shutdown s1, s1))"

section \<open>Transaction ids\<close>

text \<open>
  \<open>union tid\<close>: the client's number in the three low bits, a counter in the thirteen high bits.
\<close>

definition tid_meta :: "16 word \<Rightarrow> 16 word \<Rightarrow> 16 word" where
  "tid_meta number counter = (number AND 0x7) OR push_bit 3 (counter AND 0x1fff)"

definition tid_client :: "16 word \<Rightarrow> 16 word" where
  "tid_client v = v AND 0x7"

definition tid_counter :: "16 word \<Rightarrow> 16 word" where
  "tid_counter v = drop_bit 3 v"

definition get_new_tid :: "client \<Rightarrow> 16 word \<times> client" where
  "get_new_tid s =
     (let v = tid_meta (tid_client (last_used_tid s)) (tid_counter (last_used_tid s) + 1)
      in (v, s\<lparr>last_used_tid := v\<rparr>))"

definition set_client_id :: "int \<Rightarrow> client \<Rightarrow> client" where
  "set_client_id t s =
     s\<lparr>client_id := t, last_used_tid := tid_meta (word_of_int t) (tid_counter (last_used_tid s))\<rparr>"

section \<open>Posting\<close>

text \<open>The buffers of the client belong to the one queue pair of its context.\<close>

definition client_post_recv :: "client_env \<Rightarrow> client \<Rightarrow> int \<Rightarrow> stop + bool \<times> client" where
  "client_post_recv E s buff_id =
     (if buff_id < 0 then Inl (UB Out_of_bounds)
      else
        bnd (mem_write (in_buf (cctx s)) (get_recv_buffer (nat buff_id)) (zeros BUFFER_SIZE)) (\<lambda>m.
        bnd (not_null (ctx_qp (cctx s))) (\<lambda>_.
        Inr (e_recv E (calls s), ctick (s\<lparr>cctx := (cctx s)\<lparr>in_buf := m\<rparr>\<rparr>)))))"

fun client_post_recv_loop :: "nat \<Rightarrow> client_env \<Rightarrow> client \<Rightarrow> int \<Rightarrow> stop + int \<times> client" where
  "client_post_recv_loop 0 E s rx_outs = Inr (rx_outs, s)"
| "client_post_recv_loop (Suc n) E s rx_outs =
     bnd (get_free_recv_idx (cctx s)) (\<lambda>(buff_idx, c).
     let s1 = s\<lparr>cctx := c\<rparr>
     in if buff_idx < 0 then Inr (rx_outs, s1)
        else bnd (client_post_recv E s1 buff_idx) (\<lambda>(ok, s2).
          if ok then
            bnd (clift_ctx (acquire_receive_buffer (cctx s2) buff_idx) s2) (\<lambda>s3.
            client_post_recv_loop n E s3 (rx_outs + 1))
          else client_post_recv_loop n E s2 rx_outs))"

definition client_post_recv_buffers :: "client_env \<Rightarrow> client \<Rightarrow> int \<Rightarrow> stop + int \<times> client" where
  "client_post_recv_buffers E s num_buffers = client_post_recv_loop (nat num_buffers) E s 0"

definition close_exit :: "(client \<Rightarrow> stop + client) \<Rightarrow> int \<Rightarrow> client \<Rightarrow> stop + 'a" where
  "close_exit close rc s = bnd (close s) (\<lambda>_. Inl (Exit rc))"

text \<open>The result tells whether the adapter accepted the work.\<close>

definition post_work :: "client_env \<Rightarrow> client \<Rightarrow> work \<Rightarrow> stop + bool \<times> client" where
  "post_work E s w =
     bnd (not_null (ctx_qp (cctx s))) (\<lambda>_.
     Inr (if e_send E (calls s) then (True, (ctick s)\<lparr>posted := posted s @ [w]\<rparr>) else (False, ctick s)))"

definition client_post_send ::
  "client_env \<Rightarrow> (client \<Rightarrow> stop + client) \<Rightarrow> client \<Rightarrow> 32 word \<Rightarrow> int \<Rightarrow> stop + bool \<times> client" where
  "client_post_send E close s len buff_id =
     (let off = get_send_buffer (nat buff_id)
      in bnd (mem_read (out_buf (cctx s)) off CLIENT_HEADER_LEN) (\<lambda>hb.
         if opcode (dec_client_headers hb) = 0 then close_exit close 1 s
         else bnd (mem_read (out_buf (cctx s)) off (unat len)) (\<lambda>bs. post_work E s (Send bs))))"

definition client_post_rdma_read :: "client_env \<Rightarrow> client \<Rightarrow> transfer \<Rightarrow> stop + bool \<times> client" where
  "client_post_rdma_read E s t = post_work E s (Rdma_read t)"

definition client_post_rdma_write :: "client_env \<Rightarrow> client \<Rightarrow> transfer \<Rightarrow> stop + bool \<times> client" where
  "client_post_rdma_write E s t = post_work E s (Rdma_write t)"

text \<open>\<open>memcpy\<close> or \<open>strcpy\<close> into a send buffer, at an offset.\<close>

definition put_send :: "client \<Rightarrow> int \<Rightarrow> nat \<Rightarrow> byte list \<Rightarrow> stop + client" where
  "put_send s buff_id off bs =
     bnd (mem_write (out_buf (cctx s)) (get_send_buffer (nat buff_id) + off) bs) (\<lambda>m.
     Inr (s\<lparr>cctx := (cctx s)\<lparr>out_buf := m\<rparr>\<rparr>))"

definition client_headers :: "opcode_t \<Rightarrow> 16 word \<Rightarrow> 32 word \<Rightarrow> 64 word \<Rightarrow> client_request_headers_t" where
  "client_headers c t kl bl = \<lparr>opcode = opcode_val c, tid = t, keylen = kl, buflen = bl\<rparr>"

section \<open>Answers of the server\<close>

text \<open>The FIN of a transfer carries the key without its NUL.\<close>

definition client_send_rdma_fin ::
  "client_env \<Rightarrow> (client \<Rightarrow> stop + client) \<Rightarrow> client \<Rightarrow> 16 word \<Rightarrow> stop + client" where
  "client_send_rdma_fin E close s t =
     bnd (get_client_pending_request (reqs s) t) (\<lambda>pending_req.
     bnd (get_free_send_idx (cctx s)) (\<lambda>(buff_idx, c).
     let s1 = s\<lparr>cctx := c\<rparr>
     in if buff_idx < 0 then close_exit close 1 s1
        else
          bnd (clift_ctx (acquire_send_buffer c buff_idx) s1) (\<lambda>s2.
          bnd (cload (reqs s2) pending_req) (\<lambda>r.
          bnd (not_null (p_key r)) (\<lambda>key.
          bnd (c_strlen key) (\<lambda>n.
          let request = client_headers RDMA_FIN_CLIENT t (of_nat n) 0
          in bnd (put_send s2 buff_idx 0 (enc_client_headers request)) (\<lambda>s3.
             bnd (put_send s3 buff_idx CLIENT_HEADER_LEN (take n key)) (\<lambda>s4.
             bnd (client_post_send E close s4 (of_nat CLIENT_HEADER_LEN + keylen request) buff_idx)
               (\<lambda>(_, s5). Inr s5)))))))))"

text \<open>The length of the answer's block is computed in 64 bits.\<close>

definition client_handle_recv_rdma_rkey_get ::
  "client_env \<Rightarrow> client \<Rightarrow> server_response_headers_t \<Rightarrow> stop + client" where
  "client_handle_recv_rdma_rkey_get E s h =
     bnd (get_client_pending_request (reqs s) (rtid h)) (\<lambda>pending_req.
     let (b, s1) = calloc_block E (unat (rbuflen h + 1)) s
     in bnd (cload (reqs s1) pending_req) (\<lambda>r.
        let (mr, s2) = reg_block E b (rbuflen h + 1) s1;
            s3 = cupdate s2 (the pending_req) (r\<lparr>p_in_buf := b, p_mr := mr, p_opcode := opcode_val RDMA_GET_REQUEST_OPCODE\<rparr>)
        in bnd (not_null mr) (\<lambda>m.
           bnd (client_post_rdma_read E s3
                  \<lparr>t_laddr = m_addr m, t_size = ucast (rbuflen h), t_lkey = m_lkey m,
                   t_raddr = raddr (rkey_info h), t_rkey = rkey (rkey_info h), t_tid = rtid h\<rparr>) (\<lambda>(_, s4). Inr s4))))"

definition client_handle_recv_rdma_rkey_set ::
  "client_env \<Rightarrow> client \<Rightarrow> server_response_headers_t \<Rightarrow> stop + client" where
  "client_handle_recv_rdma_rkey_set E s h =
     bnd (get_client_pending_request (reqs s) (rtid h)) (\<lambda>pending_req.
     bnd (cload (reqs s) pending_req) (\<lambda>r.
     bnd (not_null (p_mr r)) (\<lambda>m.
     bnd (client_post_rdma_write E s
            \<lparr>t_laddr = m_addr m, t_size = ucast (p_out_size r), t_lkey = m_lkey m,
             t_raddr = raddr (rkey_info h), t_rkey = rkey (rkey_info h), t_tid = rtid h\<rparr>) (\<lambda>(_, s1). Inr s1))))"

text \<open>
  \<open>off\<close> is the offset of the answer's data in the receive area; its length, which the server
  sends, is not checked against the size of the buffer.
\<close>

definition client_handle_get_response ::
  "client_env \<Rightarrow> client \<Rightarrow> server_response_headers_t \<Rightarrow> nat \<Rightarrow> stop + client" where
  "client_handle_get_response E s h off =
     bnd (get_client_pending_request (reqs s) (rtid h)) (\<lambda>pending_req.
     bnd (if 0 < rbuflen h then
            (let (b, s1) = calloc_block E (unat (rbuflen h + 1)) s
             in bnd (not_null b) (\<lambda>p.
                bnd (mem_read (in_buf (cctx s1)) off (unat (rbuflen h + 1))) (\<lambda>bs.
                Inr (b, s1\<lparr>blocks := (blocks s1)(p \<mapsto> bs)\<rparr>))))
          else Inr (calloc_block E 1 s)) (\<lambda>(b, s2).
     bnd (cload (reqs s2) pending_req) (\<lambda>r.
     Inr (cupdate s2 (the pending_req) (r\<lparr>p_in_buf := b, p_pending := False\<rparr>)))))"

definition client_handle_recv ::
  "client_env \<Rightarrow> (client \<Rightarrow> stop + client) \<Rightarrow> client \<Rightarrow> int \<Rightarrow> stop + client" where
  "client_handle_recv E close s buff_id =
     (if buff_id < 0 then Inl (UB Out_of_bounds)
      else
        let base = get_recv_buffer (nat buff_id)
        in bnd (mem_read (in_buf (cctx s)) base SERVER_HEADER_LEN) (\<lambda>hb.
           let h = dec_server_headers hb
           in case response_of (response h) of
                Some GET_RESPONSE \<Rightarrow> client_handle_get_response E s h (base + SERVER_HEADER_LEN)
              | Some RDMA_RKEY_GET \<Rightarrow> client_handle_recv_rdma_rkey_get E s h
              | Some RDMA_RKEY_SET \<Rightarrow> client_handle_recv_rdma_rkey_set E s h
              | Some SERVER_SHUTDOWN \<Rightarrow> close_exit close 1 (s\<lparr>immediate_shutdown := True\<rparr>)
              | _ \<Rightarrow> Inr s))"

section \<open>Completions\<close>

text \<open>The receive queue is refilled when ten buffers are left in it; \<open>None\<close> is the return of 1.\<close>

definition client_refill :: "client_env \<Rightarrow> client \<Rightarrow> stop + bool \<times> client" where
  "client_refill E s =
     (let left = curr_recv_buff (cctx s) - 1; s1 = s\<lparr>cctx := (cctx s)\<lparr>curr_recv_buff := left\<rparr>\<rparr>
      in if left \<le> 10 then
           bnd (client_post_recv_buffers E s1 (max_recv_buff (cctx s1) - left - 1)) (\<lambda>(n, s2).
           let k = curr_recv_buff (cctx s2) + n; s3 = s2\<lparr>cctx := (cctx s2)\<lparr>curr_recv_buff := k\<rparr>\<rparr>
           in Inr (max_recv_buff (cctx s3) - 1 \<le> k, s3))
         else Inr (True, s1))"

definition client_completion ::
  "client_env \<Rightarrow> (client \<Rightarrow> stop + client) \<Rightarrow> ibv_wc \<Rightarrow> client \<Rightarrow> stop + bool \<times> client" where
  "client_completion E close wc s =
     (if \<not> wc_success wc then close_exit close 2 (s\<lparr>immediate_shutdown := True\<rparr>)
      else
        let info = wr_info (wc_id wc); t = ucast (wr_id info) :: 16 word
        in case wrid_of (wr_type info) of
             Some SEND_WRID \<Rightarrow> bnd (clift_ctx (free_send_buffer (cctx s) (sint (wr_id info))) s) (\<lambda>s1. Inr (True, s1))
           | Some RECV_WRID \<Rightarrow>
               bnd (client_refill E s) (\<lambda>(ok, s1).
               if \<not> ok then Inr (False, s1)
               else
                 bnd (client_handle_recv E close s1 (sint (wr_id info))) (\<lambda>s2.
                 bnd (clift_ctx (release_receive_buffer (cctx s2) (sint (wr_id info))) s2) (\<lambda>s3. Inr (True, s3))))
           | Some RDMA_READ_WRID \<Rightarrow>
               bnd (client_send_rdma_fin E close s t) (\<lambda>s1.
               bnd (get_client_pending_request (reqs s1) t) (\<lambda>p.
               bnd (cload (reqs s1) p) (\<lambda>r. Inr (True, cupdate s1 (the p) (r\<lparr>p_pending := False\<rparr>)))))
           | Some RDMA_WRITE_WRID \<Rightarrow>
               bnd (client_send_rdma_fin E close s t) (\<lambda>s1.
               bnd (get_client_pending_request (reqs s1) t) (\<lambda>p.
               bnd (cload (reqs s1) p) (\<lambda>r.
               bnd (clift_reqs (remove_client_pending_request
                     (cstore (reqs s1) (the p) (r\<lparr>p_out_buf := None\<rparr>)) t) s1) (\<lambda>s2. Inr (True, s2)))))
           | None \<Rightarrow> Inr (False, s))"

text \<open>The number of completions handled; \<open>False\<close> when the loop is left early.\<close>

fun client_completions ::
  "client_env \<Rightarrow> (client \<Rightarrow> stop + client) \<Rightarrow> ibv_wc list \<Rightarrow> nat \<Rightarrow> client \<Rightarrow> stop + (bool \<times> nat) \<times> client" where
  "client_completions E close [] cnt s = Inr ((True, cnt), s)"
| "client_completions E close (wc # wcs) cnt s =
     bnd (client_completion E close wc s) (\<lambda>(ok, s1).
     if ok then client_completions E close wcs (Suc cnt) s1 else Inr ((False, cnt), s1))"

fun store_reads :: "(ptr \<times> byte list) list \<Rightarrow> (ptr \<Rightarrow> byte list option) \<Rightarrow> ptr \<Rightarrow> byte list option" where
  "store_reads [] b = b"
| "store_reads ((p, bs) # rs) b =
     store_reads rs (case b p of None \<Rightarrow> b | Some m \<Rightarrow> b(p \<mapsto> splice m 0 (take (length m) bs)))"

definition client_poll_cq :: "client \<Rightarrow> ibv_wc list option \<times> client" where
  "client_poll_cq s =
     (case cpolls s of
        [] \<Rightarrow> (Some [], s)
      | None # rs \<Rightarrow> (None, s\<lparr>cpolls := rs\<rparr>)
      | Some r # rs \<Rightarrow>
          (Some (take WC_BATCH (completions r)),
           s\<lparr>cpolls := rs, cctx := (cctx s)\<lparr>in_buf := arrive (messages r) (in_buf (cctx s))\<rparr>,
             blocks := store_reads (stored r) (blocks s)\<rparr>))"

section \<open>Closing\<close>

text \<open>\<open>wait\<close> is the wait for one completion.\<close>

definition send_client_shutdown_message ::
  "client_env \<Rightarrow> (client \<Rightarrow> stop + client) \<Rightarrow> (client \<Rightarrow> stop + client) \<Rightarrow> client \<Rightarrow> stop + int \<times> client" where
  "send_client_shutdown_message E close wait s =
     bnd (get_free_send_idx (cctx s)) (\<lambda>(buff_id, c).
     let s1 = s\<lparr>cctx := c\<rparr>
     in if buff_id < 0 then Inr (- 1, s1)
        else
          bnd (clift_ctx (acquire_send_buffer c buff_id) s1) (\<lambda>s2.
          bnd (put_send s2 buff_id 0 (enc_client_headers (client_headers CLIENT_SHUTDOWN_OPCODE 0 0 0))) (\<lambda>s3.
          bnd (client_post_send E close s3 (of_nat CLIENT_HEADER_LEN) buff_id) (\<lambda>(ok, s4).
          if \<not> ok then Inr (- 1, s4)
          else let (b, s5) = check_shutdown E s4
               in bnd (if b then Inr s5 else wait s5) (\<lambda>s6. Inr (0, s6))))))"

text \<open>
  What is destroyed and freed after the message is not read any more; the queue pair is gone.
\<close>

definition client_close_ctx ::
  "client_env \<Rightarrow> (client \<Rightarrow> stop + client) \<Rightarrow> (client \<Rightarrow> stop + client) \<Rightarrow> client \<Rightarrow> stop + client" where
  "client_close_ctx E close wait s =
     (case ctx_qp (cctx s) of
        None \<Rightarrow> Inr s
      | Some _ \<Rightarrow>
          bnd (if e_ready E (calls s) = Some True
               then bnd (send_client_shutdown_message E close wait (ctick s)) (\<lambda>(_, s1). Inr s1)
               else Inr (ctick s)) (\<lambda>s1.
          Inr (s1\<lparr>cctx := (cctx s1)\<lparr>ctx_qp := None\<rparr>\<rparr>)))"

text \<open>The loop of \<open>kv_close\<close> over the requests that are left; one of them is the first node.\<close>

fun close_loop :: "nat \<Rightarrow> client_env \<Rightarrow> (client \<Rightarrow> stop + client) \<Rightarrow> client \<Rightarrow> stop + client" where
  "close_loop 0 E wait s = Inl (UB Endless)"
| "close_loop (Suc n) E wait s =
     (if num_pending_requests (reqs s) \<le> 1 then Inr s
      else let (b, s1) = check_shutdown E s
           in if b then Inr s1 else bnd (wait s1) (close_loop n E wait))"

definition close_socket :: "client \<Rightarrow> client" where
  "close_socket s =
     (if 0 \<le> sockfd_client s then s\<lparr>cfds := removeAll (sockfd_client s) (cfds s)\<rparr> else s)"

definition kv_close_body ::
  "nat \<Rightarrow> client_env \<Rightarrow> (client \<Rightarrow> stop + client) \<Rightarrow> (client \<Rightarrow> stop + client) \<Rightarrow> client \<Rightarrow> stop + client" where
  "kv_close_body n E close wait s =
     bnd (close_loop n E wait s) (\<lambda>s1.
     let s2 = close_socket s1
     in bnd (clift_reqs (destroy_pending_request_queue (reqs s2)) s2) (client_close_ctx E close wait))"

text \<open>
  The completion loop, with the number of completions wanted and handled so far, and \<open>kv_close\<close>.
  A failed poll sets the flag that the next round sees.
\<close>

fun client_wait_completions :: "nat \<Rightarrow> client_env \<Rightarrow> nat \<Rightarrow> nat \<Rightarrow> client \<Rightarrow> stop + int \<times> client"
and kv_close :: "nat \<Rightarrow> client_env \<Rightarrow> client \<Rightarrow> stop + client" where
  "client_wait_completions 0 E iters cnt s = Inl (UB Endless)"
| "client_wait_completions (Suc n) E iters cnt s =
     (if iters \<le> cnt then Inr (0, s)
      else
        let (b, s0) = check_shutdown E s
        in if b then close_exit (kv_close n E) 1 s0
           else
             let (r, s1) = client_poll_cq s0
             in case r of
                  None \<Rightarrow> client_wait_completions n E iters cnt (s1\<lparr>immediate_shutdown := True\<rparr>)
                | Some wcs \<Rightarrow>
                    bnd (client_completions E (kv_close n E) wcs cnt s1) (\<lambda>((ok, cnt1), s2).
                    if ok then client_wait_completions n E iters cnt1 s2 else Inr (1, s2)))"
| "kv_close 0 E s = Inl (UB Endless)"
| "kv_close (Suc n) E s =
     kv_close_body n E (kv_close n E) (\<lambda>t. bnd (client_wait_completions n E 1 0 t) (\<lambda>(_, u). Inr u)) s"

declare client_wait_completions.simps [simp del] and kv_close.simps [simp del]

definition wait_for :: "nat \<Rightarrow> client_env \<Rightarrow> nat \<Rightarrow> client \<Rightarrow> stop + client" where
  "wait_for n E iters s = bnd (client_wait_completions n E iters 0 s) (\<lambda>(_, s1). Inr s1)"

end
