(* ===== verification/Client_Api.thy ===== *)
theory Client_Api
  imports Client
begin

text \<open>
  \<open>client.c\<close>, second part: the interface of the client (\<open>kv_get\<close>, \<open>kv_set\<close>, \<open>kv_release\<close>) and
  the way it is opened: the context (\<open>client_init_ctx\<close> of \<open>common/connection.c\<close>), the exchange of
  addresses, \<open>kv_open\<close>. A key is the block of bytes from its pointer on; a value is the number of
  its block, which the client keeps while it is transferred. \<open>n\<close> is fuel.
\<close>

section \<open>Waiting for a send buffer\<close>

fun wait_send_idx :: "nat \<Rightarrow> client_env \<Rightarrow> client \<Rightarrow> stop + int \<times> client" where
  "wait_send_idx 0 E s = Inl (UB Endless)"
| "wait_send_idx (Suc n) E s =
     bnd (get_free_send_idx (cctx s)) (\<lambda>(buff_idx, c).
     let s1 = s\<lparr>cctx := c\<rparr>
     in if buff_idx < 0 then bnd (wait_for n E 1 s1) (wait_send_idx n E) else Inr (buff_idx, s1))"

declare wait_send_idx.simps [simp del]

section \<open>GET\<close>

text \<open>
  The first part of \<open>kv_get\<close>, up to the sending of the request; the result is the transaction id
  and the pending request, \<open>None\<close> when the request could not be sent.
\<close>

definition kv_get_request ::
  "nat \<Rightarrow> client_env \<Rightarrow> byte list \<Rightarrow> client \<Rightarrow> stop + (16 word \<times> ptr option) option \<times> client" where
  "kv_get_request n E key s =
     bnd (wait_send_idx n E s) (\<lambda>(buff_idx, s1).
     bnd (clift_ctx (acquire_send_buffer (cctx s1) buff_idx) s1) (\<lambda>s2.
     bnd (c_strlen key) (\<lambda>len.
     let (t, s3) = get_new_tid s2; request = client_headers GET_REQUEST_OPCODE t (of_nat len) 0
     in bnd (put_send s3 buff_idx 0 (enc_client_headers request)) (\<lambda>s4.
        bnd (put_send s4 buff_idx CLIENT_HEADER_LEN (take (Suc len) key)) (\<lambda>s5.
        bnd (clift_reqs (add_client_pending_request (e_alloc E) (reqs s5) t) s5) (\<lambda>s6.
        bnd (get_client_pending_request (reqs s6) t) (\<lambda>p.
        bnd (cload (reqs s6) p) (\<lambda>r.
        bnd (not_null (p_key r)) (\<lambda>kb.
        bnd (c_strncpy kb key (unat (keylen request))) (\<lambda>kb'.
        let s7 = cupdate s6 (the p) (r\<lparr>p_pending := True, p_key := Some kb', p_opcode := opcode_val GET_REQUEST_OPCODE\<rparr>)
        in bnd (client_post_send E (kv_close n E) s7 (of_nat (CLIENT_HEADER_LEN + len + 1)) buff_idx) (\<lambda>(ok, s8).
           Inr (if ok then Some (t, p) else None, s8))))))))))))"

fun wait_pending :: "nat \<Rightarrow> client_env \<Rightarrow> ptr option \<Rightarrow> client \<Rightarrow> stop + client" where
  "wait_pending 0 E p s = Inl (UB Endless)"
| "wait_pending (Suc n) E p s =
     bnd (cload (reqs s) p) (\<lambda>r.
     if p_pending r then bnd (wait_for n E 1 s) (wait_pending n E p) else Inr s)"

declare wait_pending.simps [simp del]

text \<open>The result is the return value and what is stored at \<open>value\<close>.\<close>

definition kv_get :: "nat \<Rightarrow> client_env \<Rightarrow> byte list \<Rightarrow> client \<Rightarrow> stop + (int \<times> ptr option) \<times> client" where
  "kv_get n E key s =
     bnd (kv_get_request n E key s) (\<lambda>(sent_req, s1).
     case sent_req of
       None \<Rightarrow> Inr ((- 1, None), s1)
     | Some (t, p) \<Rightarrow>
         bnd (wait_pending n E p s1) (\<lambda>s2.
         bnd (cload (reqs s2) p) (\<lambda>r.
         let s3 = cupdate s2 (the p) (r\<lparr>p_in_buf := None\<rparr>)
         in bnd (clift_reqs (remove_client_pending_request (reqs s3) t) s3) (\<lambda>s4.
            Inr ((0, p_in_buf r), s4)))))"

section \<open>SET\<close>

text \<open>The wait while 250 requests or more are pending.\<close>

fun wait_fewer :: "nat \<Rightarrow> client_env \<Rightarrow> client \<Rightarrow> stop + client" where
  "wait_fewer 0 E s = Inl (UB Endless)"
| "wait_fewer (Suc n) E s =
     (if 250 \<le> num_pending_requests (reqs s) then bnd (wait_for n E 200 s) (wait_fewer n E) else Inr s)"

declare wait_fewer.simps [simp del]

definition load_block :: "client \<Rightarrow> ptr option \<Rightarrow> stop + byte list" where
  "load_block s v =
     bnd (not_null v) (\<lambda>p. case blocks s p of None \<Rightarrow> Inl (UB Dangling) | Some b \<Rightarrow> Inr b)"

text \<open>
  The value goes with the request when it fits, else the request is entered into the table with
  the registered value. The lengths are \<open>int\<close>; their sum is taken in 32 bits.
\<close>

definition kv_set_rdma ::
  "client_env \<Rightarrow> byte list \<Rightarrow> ptr option \<Rightarrow> client_request_headers_t \<Rightarrow> client \<Rightarrow> stop + client" where
  "kv_set_rdma E key v request s =
     bnd (clift_reqs (add_client_pending_request (e_alloc E) (reqs s) (tid request)) s) (\<lambda>s1.
     bnd (get_client_pending_request (reqs s1) (tid request)) (\<lambda>p.
     bnd (cload (reqs s1) p) (\<lambda>r.
     bnd (not_null (p_key r)) (\<lambda>kb.
     bnd (c_strncpy kb key (unat (keylen request))) (\<lambda>kb'.
     let (mr, s2) = reg_block E v (buflen request + 1) s1
     in Inr (cupdate s2 (the p) (r\<lparr>p_pending := True, p_out_size := buflen request, p_out_buf := v,
               p_key := Some kb', p_mr := mr, p_opcode := opcode_val RDMA_SET_REQUEST_OPCODE\<rparr>)))))))"

text \<open>The test whether the value goes with the message.\<close>

definition sends_value :: "32 word \<Rightarrow> 32 word \<Rightarrow> bool" where
  [simp]: "sends_value kl bl \<longleftrightarrow> sint (kl + 1 + bl + 1) \<le> int CLIENT_REQUEST_PAYLOAD_LEN"

definition kv_set :: "nat \<Rightarrow> client_env \<Rightarrow> byte list \<Rightarrow> ptr option \<Rightarrow> client \<Rightarrow> stop + int \<times> client" where
  "kv_set n E key v s =
     bnd (c_strlen key) (\<lambda>klen.
     bnd (load_block s v) (\<lambda>value.
     bnd (c_strlen value) (\<lambda>vlen.
     let kl = of_nat klen :: 32 word; bl = of_nat vlen :: 32 word
     in bnd (wait_send_idx n E s) (\<lambda>(buff_idx, s1).
        bnd (wait_fewer n E s1) (\<lambda>s2.
        let (t, s3) = get_new_tid s2; request = client_headers SET_REQUEST_OPCODE t kl (scast bl)
        in bnd (clift_ctx (acquire_send_buffer (cctx s3) buff_idx) s3) (\<lambda>s4.
           bnd (put_send s4 buff_idx 0 (enc_client_headers request)) (\<lambda>s5.
           bnd (put_send s5 buff_idx CLIENT_HEADER_LEN (take (Suc klen) key)) (\<lambda>s6.
           bnd (if sends_value kl bl then
                  bnd (load_block s6 v) (\<lambda>value1.
                  bnd (c_strlen value1) (\<lambda>m.
                  bnd (put_send s6 buff_idx (CLIENT_HEADER_LEN + Suc klen) (take (Suc m) value1)) (\<lambda>s7.
                  Inr (kl + 1 + (bl + 1), s7))))
                else bnd (kv_set_rdma E key v request s6) (\<lambda>s7. Inr (kl + 1, s7))) (\<lambda>(buffer_size, s7).
           bnd (client_post_send E (kv_close n E) s7 (of_nat CLIENT_HEADER_LEN + buffer_size) buff_idx) (\<lambda>(ok, s8).
           Inr (if ok then 0 else - 1, s8)))))))))))"

text \<open>\<open>free\<close> of an answer.\<close>

definition kv_release :: "ptr option \<Rightarrow> client \<Rightarrow> stop + client" where
  "kv_release v s =
     (case v of
        None \<Rightarrow> Inr s
      | Some p \<Rightarrow> if blocks s p = None then Inl (UB Dangling) else Inr (s\<lparr>blocks := (blocks s)(p := None)\<rparr>))"

end
