(* ===== verification/Client_Open.thy ===== *)
theory Client_Open
  imports Client_Api Contexts
begin

text \<open>
  \<open>client.c\<close>, third part: the exchange of addresses with the server (\<open>client_exch_dest\<close>) and
  \<open>kv_open\<close>. What an opened client has is shown in \<open>Client_Start\<close>.
\<close>

section \<open>The exchange\<close>

text \<open>
  The results of the calls: the steps before the connection, the attempts to connect (the result
  of \<open>socket\<close> and whether \<open>connect\<close> succeeds), the sending, the reads and the bytes read, the
  last allocation; and what local variables hold that are not initialised.
\<close>

record exch_calls =
  x_service :: bool
  x_print :: bool
  x_addr :: bool
  x_single :: bool
  x_attempts :: "(int \<times> bool) list"
  x_write :: bool
  x_reads :: "int list"
  x_msg :: "byte list"
  x_calloc :: bool
  x_old :: "byte list"
  x_gid :: "byte list"
  x_word :: "32 word"
  x_number :: "32 word"

text \<open>The list of attempts ends where the client tries for ever.\<close>

fun connect_loop ::
  "client_env \<Rightarrow> (client \<Rightarrow> stop + client) \<Rightarrow> (int \<times> bool) list \<Rightarrow> client \<Rightarrow> stop + client" where
  "connect_loop E close as s =
     (if sockfd_client s \<noteq> - 1 then Inr s
      else
        let (b, s1) = check_shutdown E s
        in if b then close_exit close 1 s1
           else case as of
                  [] \<Rightarrow> Inl (UB Endless)
                | (fd, ok) # as1 \<Rightarrow>
                    if 0 \<le> fd \<and> ok then Inr (s1\<lparr>sockfd_client := fd, cfds := fd # cfds s1\<rparr>)
                    else connect_loop E close as1 (s1\<lparr>sockfd_client := - 1\<rparr>))"

declare connect_loop.simps [simp del]

text \<open>Reads until \<open>need\<close> bytes have come.\<close>

fun read_all :: "int \<Rightarrow> int list \<Rightarrow> int \<Rightarrow> stop + bool" where
  "read_all need js got =
     (if need \<le> got then Inr True
      else case js of
             [] \<Rightarrow> Inl (UB Endless)
           | j # ks \<Rightarrow> if j < 0 \<or> j = 0 then Inr False else read_all need ks (got + j))"

declare read_all.simps [simp del]

definition close_client_socket :: "client \<Rightarrow> client" where
  "close_client_socket s = s\<lparr>cfds := removeAll (sockfd_client s) (cfds s)\<rparr>"

text \<open>
  The address of the server is a block of its own, \<open>rem_dest\<close>. \<open>service\<close> and the list of addresses are
  freed again once the connection is made, and are not counted.
\<close>

definition client_exch_dest ::
  "client_env \<Rightarrow> (client \<Rightarrow> stop + client) \<Rightarrow> exch_calls \<Rightarrow> kv_dest \<Rightarrow> client \<Rightarrow>
     stop + (ptr \<times> kv_dest) option \<times> client" where
  "client_exch_dest E close X self_dest s =
     (if \<not> x_service X \<or> \<not> x_print X \<or> \<not> x_addr X \<or> \<not> x_single X then Inr (None, s)
      else
        bnd (connect_loop E close (x_attempts X) s) (\<lambda>s1.
        bnd (client_msg (x_old X) self_dest) (\<lambda>_.
        if \<not> x_write X then Inr (None, close_client_socket s1)
        else
          bnd (read_all 57 (x_reads X) 0) (\<lambda>ok.
          if \<not> ok then Inr (None, close_client_socket s1)
          else if \<not> x_calloc X then Inr (None, close_client_socket s1)
          else
            let (p, s2) = new_other s1
            in bnd (scan_server_msg (x_gid X) (x_word X) (x_number X) (x_msg X)) (\<lambda>(t, rem_dest).
               Inr (Some (p, rem_dest), set_client_id (sint t) s2))))))"

section \<open>Opening\<close>

record open_calls =
  o_devices :: bool
  o_device :: bool
  o_ctx :: init_calls
  o_page :: nat
  o_port :: bool
  o_infiniband :: bool
  o_lid :: "16 word"
  o_lrand :: "32 word"
  o_exch :: exch_calls
  o_rtr :: "ibv_qp \<Rightarrow> rtr_attr \<Rightarrow> bool"
  o_rts :: "ibv_qp \<Rightarrow> 32 word \<Rightarrow> bool"

definition client_start :: client where
  "client_start =
     \<lparr>reqs = \<lparr>creq_q = [], creq_heap = (\<lambda>_. None), creq_next = 0\<rparr>, cctx = blank_context,
      immediate_shutdown = False, client_id = - 1, last_used_tid = 0, sockfd_client = - 1, cfds = [],
      blocks = (\<lambda>_. None), next_block = 0, cregs = 0, cpolls = [], posted = [], calls = 0, other_blocks = {}\<rparr>"

text \<open>
  Every failure closes what there is and exits; without a context only the socket is closed. The
  server's address is freed only when the queue pair cannot be connected to it.
\<close>

definition kv_open :: "nat \<Rightarrow> client_env \<Rightarrow> open_calls \<Rightarrow> client \<Rightarrow> stop + client" where
  "kv_open n E C s =
     (if \<not> o_devices C \<or> \<not> o_device C then Inl (Exit 1)
      else
        case fst (client_init_ctx (o_ctx C) (o_page C) (SERVER_NUM_RECV_BUFFS * BUFFER_SIZE)
                    (SERVER_NUM_SEND_BUFFS * BUFFER_SIZE) (int SERVER_NUM_RECV_BUFFS) False) of
          None \<Rightarrow> Inl (Exit 1)
        | Some c \<Rightarrow>
            bnd (client_post_recv_buffers E (s\<lparr>cctx := c\<rparr>) (max_recv_buff c)) (\<lambda>(k, s1).
            let close = kv_close n E; s2 = s1\<lparr>cctx := (cctx s1)\<lparr>curr_recv_buff := k\<rparr>\<rparr>
            in if k < max_recv_buff (cctx s2) \<or> \<not> o_port C \<or> (o_infiniband C \<and> o_lid C = 0) then close_exit close 1 s2
               else
                 bnd (not_null (ctx_qp (cctx s2))) (\<lambda>qp.
                 let self_dest = \<lparr>lid = ucast (o_lid C), qpn = qp_num qp, psn = o_lrand C AND 0xffffff, gid = zeros 16\<rparr>
                 in bnd (client_exch_dest E close (o_exch C) self_dest s2) (\<lambda>(rem_dest, s3).
                    case rem_dest of
                      None \<Rightarrow> close_exit close 1 s3
                    | Some (p, d) \<Rightarrow>
                        if connect_ctx (o_rtr C) (o_rts C) qp (psn self_dest) d \<noteq> 0
                        then bnd (free_other (Some p) s3) (close_exit close 1)
                        else clift_reqs (client_pending_requests_init (e_alloc E) (reqs s3)) s3))))"

end
