(* ===== verification/Client_Facts.thy ===== *)
theory Client_Facts
  imports Client_Open
begin

text \<open>
  What the client's operations do: transaction ids do not repeat within 8192 requests, a SET and a
  GET send exactly their message and enter the requests that wait, the answers of the server are
  handled to the end of the transfer, and where a send buffer is used twice.
\<close>

section \<open>Transaction ids\<close>

lemma low_bits: "x AND 0x7 = take_bit 3 x" "x AND 0x1fff = take_bit 13 x" for x :: "16 word"
  by (simp_all add: take_bit_eq_mask mask_eq_exp_minus_1)

lemma tid_client_meta [simp]: "tid_client (tid_meta i c) = i AND 0x7"
  unfolding tid_client_def tid_meta_def low_bits by (intro bit_word_eqI) (auto simp: bit_simps)

lemma tid_counter_meta [simp]: "tid_counter (tid_meta i c) = c AND 0x1fff"
  unfolding tid_counter_def tid_meta_def low_bits by (intro bit_word_eqI) (auto simp: bit_simps)

lemma tid_client_idem [simp]: "tid_client v AND 0x7 = tid_client v"
  by (simp add: tid_client_def and.assoc)

lemma tid_eqI: "tid_client a = tid_client b \<Longrightarrow> tid_counter a = tid_counter b \<Longrightarrow> a = b"
  unfolding tid_client_def tid_counter_def low_bits
proof (rule bit_word_eqI)
  fix n
  assume eq: "take_bit 3 a = take_bit 3 b" "drop_bit 3 a = drop_bit 3 b"
  show "bit a n = bit b n"
  proof (cases "n < 3")
    case True
    then show ?thesis using arg_cong [OF eq(1), of "\<lambda>v. bit v n"] by (simp add: bit_take_bit_iff)
  next
    case False
    then show ?thesis using arg_cong [OF eq(2), of "\<lambda>v. bit v (n - 3)"] by (simp add: bit_drop_bit_eq)
  qed
qed

lemma tid_eq_natI: "unat (tid_counter a) = unat (tid_counter b) \<Longrightarrow> tid_client a = tid_client b \<Longrightarrow> a = b"
  by (rule tid_eqI) (auto dest: unsigned_word_eqI)

lemma unat_and_1fff: "unat (c AND 0x1fff :: 16 word) = unat c mod 8192"
  unfolding low_bits by (simp add: unsigned_take_bit_eq take_bit_nat_def)

text \<open>The ids of \<open>k\<close> requests in a row.\<close>

fun new_tids :: "nat \<Rightarrow> client \<Rightarrow> 16 word list" where
  "new_tids 0 s = []"
| "new_tids (Suc k) s = (let (t, s1) = get_new_tid s in t # new_tids k s1)"

lemma get_new_tid_eq:
  assumes "get_new_tid s = (t, s1)"
  shows "tid_client t = tid_client (last_used_tid s)" "unat (tid_counter t) = Suc (unat (tid_counter (last_used_tid s))) mod 8192"
    "s1 = s\<lparr>last_used_tid := t\<rparr>"
proof -
  have t: "t = tid_meta (tid_client (last_used_tid s)) (tid_counter (last_used_tid s) + 1)" "s1 = s\<lparr>last_used_tid := t\<rparr>"
    using assms by (auto simp: get_new_tid_def Let_def)
  show "tid_client t = tid_client (last_used_tid s)" unfolding t(1) by simp
  have "unat (tid_counter (last_used_tid s)) < 2 ^ 13"
    unfolding tid_counter_def using unsigned_less [of "last_used_tid s", where 'a = nat]
    by (simp add: unsigned_drop_bit_eq drop_bit_nat_def take_bit_nat_eq_self less_mult_imp_div_less)
  then have "unat (tid_counter (last_used_tid s) + 1) = Suc (unat (tid_counter (last_used_tid s)))"
    by (simp add: unat_word_ariths)
  then show "unat (tid_counter t) = Suc (unat (tid_counter (last_used_tid s))) mod 8192"
    unfolding t(1) by (simp add: unat_and_1fff)
  show "s1 = s\<lparr>last_used_tid := t\<rparr>" by (rule t(2))
qed

lemma new_tids_nth:
  "i < k \<Longrightarrow> tid_client (new_tids k s ! i) = tid_client (last_used_tid s) \<and>
   unat (tid_counter (new_tids k s ! i)) = (unat (tid_counter (last_used_tid s)) + i + 1) mod 8192"
proof (induction k arbitrary: i s)
  case (Suc k)
  obtain t s1 where t: "get_new_tid s = (t, s1)" by (cases "get_new_tid s")
  note eq = get_new_tid_eq [OF t]
  show ?case
  proof (cases i)
    case 0
    then show ?thesis using t eq by simp
  next
    case (Suc j)
    then have "tid_client (new_tids k s1 ! j) = tid_client (last_used_tid s1)"
      "unat (tid_counter (new_tids k s1 ! j)) = (unat (tid_counter (last_used_tid s1)) + j + 1) mod 8192"
      using Suc.IH [of j s1] Suc.prems by auto
    moreover have "(Suc c mod 8192 + j + 1) mod 8192 = (c + Suc j + 1) mod 8192" for c :: nat
      using mod_add_left_eq [of "Suc c" 8192 "j + 1"] by (simp add: add.assoc)
    ultimately show ?thesis using t eq Suc by simp
  qed
qed simp

lemma length_new_tids [simp]: "length (new_tids k s) = k"
  by (induction k arbitrary: s) (simp_all add: Let_def split: prod.split)

lemma mod_shift_inj:
  fixes c i j m :: nat
  assumes "(c + i) mod m = (c + j) mod m" and "i < m" and "j < m"
  shows "i = j"
  using assms
proof (induction i j rule: linorder_wlog)
  case (le i j)
  then have "m dvd (c + j) - (c + i)" by (metis add_le_cancel_left mod_eq_dvd_iff_nat)
  then have "m dvd j - i" by simp
  then show ?case using le by (metis diff_le_self dvd_imp_le le_less_trans not_less zero_less_diff le_antisym)
qed simp

text \<open>
  C23: the transaction ids of a client carry its number, and as many as 8192 of them in a row are
  different; the next one is the first again. So requests of clients with different numbers never
  share an id, and a client's own do only when one is pending for 8192 requests.
\<close>

theorem transaction_ids:
  assumes "k \<le> 8192"
  shows "distinct (new_tids k s) \<and> (\<forall>t \<in> set (new_tids k s). tid_client t = tid_client (last_used_tid s)) \<and>
    new_tids 8193 s ! 8192 = new_tids 8193 s ! 0"
proof -
  have "new_tids k s ! i \<noteq> new_tids k s ! j" if "i < k" "j < k" "i \<noteq> j" for i j
  proof
    assume "new_tids k s ! i = new_tids k s ! j"
    then have "(unat (tid_counter (last_used_tid s)) + i + 1) mod 8192 = (unat (tid_counter (last_used_tid s)) + j + 1) mod 8192"
      using new_tids_nth [OF that(1), of s] new_tids_nth [OF that(2), of s] by simp
    then show False using mod_shift_inj [of "unat (tid_counter (last_used_tid s)) + 1" i 8192 j] that assms
      by (simp add: add.commute add.left_commute)
  qed
  then have "distinct (new_tids k s)" by (simp add: distinct_conv_nth)
  moreover have "\<forall>t \<in> set (new_tids k s). tid_client t = tid_client (last_used_tid s)"
    using new_tids_nth by (auto simp: in_set_conv_nth)
  moreover have "new_tids 8193 s ! 8192 = new_tids 8193 s ! 0"
  proof -
    have "(c + 8192 + 1) mod 8192 = (c + 0 + 1) mod 8192" for c :: nat
      using mod_add_self2 [of "c + 1" 8192] by (simp add: add.commute add.left_commute)
    then have "unat (tid_counter (new_tids 8193 s ! 8192)) = unat (tid_counter (new_tids 8193 s ! 0))"
      "tid_client (new_tids 8193 s ! 8192) = tid_client (new_tids 8193 s ! 0)"
      using new_tids_nth [of 8192 8193 s] new_tids_nth [of 0 8193 s] by (simp_all del: new_tids.simps)
    then show ?thesis by (rule tid_eq_natI)
  qed
  ultimately show ?thesis by blast
qed

theorem transaction_ids_witness:
  "distinct (new_tids 100 client_start) \<and> list_all (\<lambda>t. tid_client t = 0) (new_tids 100 client_start) \<and>
   new_tids 8193 client_start ! 8192 = new_tids 8193 client_start ! 0"
proof -
  have "last_used_tid client_start = 0" by (simp add: client_start_def)
  then have "tid_client (last_used_tid client_start) = 0" by (simp add: tid_client_def)
  with transaction_ids [of 100 client_start] show ?thesis by (simp add: list_all_iff)
qed

section \<open>Sending a message\<close>

definition client_ok :: "client \<Rightarrow> bool" where
  "client_ok s \<longleftrightarrow> ctx_wf (cctx s) \<and> ctx_qp (cctx s) \<noteq> None \<and> creq_inv (reqs s)"

text \<open>The bytes written so far at the start of a send buffer.\<close>

definition written :: "client \<Rightarrow> nat \<Rightarrow> byte list \<Rightarrow> client" where
  "written s i bs = s\<lparr>cctx := (cctx s)\<lparr>out_buf := splice (out_buf (cctx s)) (get_send_buffer i) bs\<rparr>\<rparr>"

lemma put_send_first:
  assumes "ctx_wf (cctx s)" and "i < SERVER_NUM_SEND_BUFFS" and "length a \<le> BUFFER_SIZE"
  shows "put_send s (int i) 0 a = Inr (written s i a)"
  using assms by (simp add: put_send_def mem_write_def written_def ctx_wf_def get_send_buffer_def)

lemma put_send_next:
  assumes "ctx_wf (cctx s)" and "i < SERVER_NUM_SEND_BUFFS" and "length a + length b \<le> BUFFER_SIZE" and "m = length a"
  shows "put_send (written s i a) (int i) m b = Inr (written s i (a @ b))"
proof -
  have "get_send_buffer i + length a + length b \<le> length (out_buf (cctx s))"
    using assms(1-3) by (simp add: ctx_wf_def get_send_buffer_def)
  then show ?thesis using assms(4) by (simp add: put_send_def mem_write_def written_def splice_append)
qed

definition holds :: "client \<Rightarrow> nat \<Rightarrow> byte list \<Rightarrow> bool" where
  "holds s i bs \<longleftrightarrow> get_send_buffer i + length bs \<le> length (out_buf (cctx s)) \<and>
     take (length bs) (drop (get_send_buffer i) (out_buf (cctx s))) = bs"

lemma holds_written:
  "ctx_wf (cctx s) \<Longrightarrow> i < SERVER_NUM_SEND_BUFFS \<Longrightarrow> length bs \<le> BUFFER_SIZE \<Longrightarrow> holds (written s i bs) i bs"
  by (simp add: holds_def written_def ctx_wf_def get_send_buffer_def)

lemma written_simps [simp]:
  "other_blocks (written s i bs) = other_blocks s"
  "reqs (written s i bs) = reqs s" "blocks (written s i bs) = blocks s" "calls (written s i bs) = calls s"
  "posted (written s i bs) = posted s" "last_used_tid (written s i bs) = last_used_tid s"
  "in_use_send (cctx (written s i bs)) = in_use_send (cctx s)" "ctx_qp (cctx (written s i bs)) = ctx_qp (cctx s)"
  "immediate_shutdown (written s i bs) = immediate_shutdown s" "cpolls (written s i bs) = cpolls s"
  "cregs (written s i bs) = cregs s" "next_block (written s i bs) = next_block s"
  "in_buf (cctx (written s i bs)) = in_buf (cctx s)" "in_use_recv (cctx (written s i bs)) = in_use_recv (cctx s)"
  "curr_recv_buff (cctx (written s i bs)) = curr_recv_buff (cctx s)"
  "max_recv_buff (cctx (written s i bs)) = max_recv_buff (cctx s)"
  by (simp_all add: written_def)

lemma written_wf:
  "ctx_wf (cctx s) \<Longrightarrow> i < SERVER_NUM_SEND_BUFFS \<Longrightarrow> length bs \<le> BUFFER_SIZE \<Longrightarrow> ctx_wf (cctx (written s i bs))"
  by (simp add: written_def ctx_wf_def get_send_buffer_def)

text \<open>The state after work has been offered to the adapter.\<close>

definition offered :: "client_env \<Rightarrow> work \<Rightarrow> client \<Rightarrow> client" where
  "offered E w s = (ctick s)\<lparr>posted := posted s @ (if e_send E (calls s) then [w] else [])\<rparr>"

lemma offered_simps [simp]:
  "other_blocks (offered E w s) = other_blocks s"
  "reqs (offered E w s) = reqs s" "blocks (offered E w s) = blocks s" "cctx (offered E w s) = cctx s"
  "posted (offered E w s) = posted s @ (if e_send E (calls s) then [w] else [])"
  "last_used_tid (offered E w s) = last_used_tid s" "calls (offered E w s) = Suc (calls s)"
  "immediate_shutdown (offered E w s) = immediate_shutdown s" "cpolls (offered E w s) = cpolls s"
  "cregs (offered E w s) = cregs s" "next_block (offered E w s) = next_block s"
  by (simp_all add: offered_def ctick_def)

lemma post_work_ok: "ctx_qp (cctx s) \<noteq> None \<Longrightarrow> post_work E s w = Inr (e_send E (calls s), offered E w s)"
  by (auto simp: post_work_def offered_def not_null_def ctick_def)

lemma client_post_send_ok:
  assumes "holds s i (enc_client_headers h @ r)" and "opcode h \<noteq> 0" and "ctx_qp (cctx s) \<noteq> None"
    and "unat len = CLIENT_HEADER_LEN + length r"
  shows "client_post_send E close s len (int i) =
    Inr (e_send E (calls s), offered E (Send (enc_client_headers h @ r)) s)"
proof -
  let ?m = "drop (get_send_buffer i) (out_buf (cctx s))"
  have m: "take (CLIENT_HEADER_LEN + length r) ?m = enc_client_headers h @ r"
    "get_send_buffer i + (CLIENT_HEADER_LEN + length r) \<le> length (out_buf (cctx s))"
    using assms(1) by (simp_all add: holds_def)
  have "take CLIENT_HEADER_LEN ?m = take CLIENT_HEADER_LEN (take (CLIENT_HEADER_LEN + length r) ?m)" by simp
  also have "\<dots> = enc_client_headers h" unfolding m(1) by simp
  finally have hb: "dec_client_headers (take CLIENT_HEADER_LEN ?m) = h" using dec_enc_client [of h "[]"] by simp
  show ?thesis using m hb assms(2,4) post_work_ok [OF assms(3)]
    by (simp add: client_post_send_def mem_read_def Let_def)
qed

text \<open>With a free send buffer there is no wait for one.\<close>

lemma free_send_idx_ok:
  assumes "ctx_wf c" and "0 < send_ring.spare c"
  obtains i where "get_free_send_idx c = Inr (int i, c\<lparr>last_used_send_buff := i\<rparr>)" "i < SERVER_NUM_SEND_BUFFS"
    "\<not> in_use_send c ! i" "ctx_wf (c\<lparr>last_used_send_buff := i\<rparr>)"
  using assms(1)
proof (cases rule: send_ring.pick_cases)
  case full
  then show ?thesis using assms(2) by simp
next
  case (slot i c')
  then have "c' = c\<lparr>last_used_send_buff := i\<rparr>"
    using assms(1) by (auto simp: get_free_send_idx_eq split: option.splits)
  then show ?thesis using that [of i] slot assms(1) by (simp add: ctx_wf_def)
qed

lemma wait_send_idx_ok:
  assumes "ctx_wf (cctx s)" and "0 < send_ring.spare (cctx s)" and "0 < n"
  obtains i c where "wait_send_idx n E s = Inr (int i, s\<lparr>cctx := c\<rparr>)" "i < SERVER_NUM_SEND_BUFFS"
    "\<not> in_use_send (cctx s) ! i" "c = (cctx s)\<lparr>last_used_send_buff := i\<rparr>" "ctx_wf c"
proof -
  obtain i where i: "get_free_send_idx (cctx s) = Inr (int i, (cctx s)\<lparr>last_used_send_buff := i\<rparr>)"
    "i < SERVER_NUM_SEND_BUFFS" "\<not> in_use_send (cctx s) ! i" "ctx_wf ((cctx s)\<lparr>last_used_send_buff := i\<rparr>)"
    by (rule free_send_idx_ok [OF assms(1,2)])
  obtain k where "n = Suc k" using assms(3) by (cases n) auto
  then show ?thesis using that [of i] i by (simp add: wait_send_idx.simps)
qed

lemma acquire_send_ok:
  assumes "ctx_wf c" and "i < SERVER_NUM_SEND_BUFFS"
  shows "acquire_send_buffer c (int i) = Inr (c\<lparr>in_use_send := (in_use_send c)[i := True]\<rparr>)"
    and "ctx_wf (c\<lparr>in_use_send := (in_use_send c)[i := True]\<rparr>)"
  using assms by (simp_all add: flag_ops ctx_wf_def)

lemma get_new_tid_simps [simp]:
  "snd (get_new_tid s) = s\<lparr>last_used_tid := fst (get_new_tid s)\<rparr>"
  by (simp add: get_new_tid_def Let_def)

lemma client_headers_simps [simp]:
  "opcode (client_headers c t kl bl) = opcode_val c" "tid (client_headers c t kl bl) = t"
  "keylen (client_headers c t kl bl) = kl" "buflen (client_headers c t kl bl) = bl"
  by (simp_all add: client_headers_def)

lemma opcode_val_nonzero [simp]: "opcode_val c \<noteq> 0"
  by (cases c) simp_all

section \<open>SET\<close>

definition set_message :: "16 word \<Rightarrow> byte list \<Rightarrow> byte list \<Rightarrow> byte list" where
  "set_message t k val =
     enc_client_headers (client_headers SET_REQUEST_OPCODE t (of_nat (length k)) (of_nat (length val))) @
     k @ [NUL] @ val @ [NUL]"

lemma scast_small: "n < 2 ^ 31 \<Longrightarrow> (scast (of_nat n :: 32 word) :: 64 word) = of_nat n"
  by (simp add: scast_eq sint_small)

lemma sum_small:
  assumes "a + b + 2 < (2 :: nat) ^ 31"
  shows "sint (of_nat a + 1 + of_nat b + 1 :: 32 word) = int (a + b + 2)"
proof -
  have "(of_nat a + 1 + of_nat b + 1 :: 32 word) = of_nat (a + b + 2)" by simp
  then show ?thesis using sint_small [OF assms] by (simp only:)
qed

text \<open>
  The state after the header and the key are written for a request with a new transaction id.
\<close>

definition requested :: "client \<Rightarrow> nat \<Rightarrow> 16 word \<Rightarrow> client" where
  "requested s i t =
     s\<lparr>cctx := (cctx s)\<lparr>last_used_send_buff := i, in_use_send := (in_use_send (cctx s))[i := True]\<rparr>, last_used_tid := t\<rparr>"

lemma requested_simps [simp]:
  "other_blocks (requested s i t) = other_blocks s"
  "reqs (requested s i t) = reqs s" "blocks (requested s i t) = blocks s" "calls (requested s i t) = calls s"
  "posted (requested s i t) = posted s" "last_used_tid (requested s i t) = t"
  "in_use_send (cctx (requested s i t)) = (in_use_send (cctx s))[i := True]"
  "ctx_qp (cctx (requested s i t)) = ctx_qp (cctx s)" "cpolls (requested s i t) = cpolls s"
  "immediate_shutdown (requested s i t) = immediate_shutdown s" "next_block (requested s i t) = next_block s"
  "in_buf (cctx (requested s i t)) = in_buf (cctx s)" "in_use_recv (cctx (requested s i t)) = in_use_recv (cctx s)"
  "curr_recv_buff (cctx (requested s i t)) = curr_recv_buff (cctx s)" "cregs (requested s i t) = cregs s"
  "max_recv_buff (cctx (requested s i t)) = max_recv_buff (cctx s)"
  by (simp_all add: requested_def)

lemma requested_wf: "ctx_wf (cctx s) \<Longrightarrow> i < SERVER_NUM_SEND_BUFFS \<Longrightarrow> ctx_wf (cctx (requested s i t))"
  by (simp add: requested_def ctx_wf_def)

lemma take_string: "NUL \<notin> set k \<Longrightarrow> take (Suc (length k)) (k @ NUL # r) = k @ [NUL]"
  by simp

text \<open>The common part of every SET: what is done before the choice between the two ways.\<close>

lemma kv_set_after:
  assumes idx: "wait_send_idx n E s = Inr (int i, s1)" "i < SERVER_NUM_SEND_BUFFS" and fewer: "wait_fewer n E s1 = Inr s2"
    and wf: "ctx_wf (cctx s2)" "last_used_send_buff (cctx s2) = i"
    and key: "key = k @ NUL # kr" "NUL \<notin> set k" "length k < BUFFER_SIZE - CLIENT_HEADER_LEN"
    and v: "blocks s v = Some (val @ NUL # vr)" "blocks s2 v = Some (val @ NUL # vr)" "NUL \<notin> set val" "length k + length val + 2 < 2 ^ 31"
  defines "t \<equiv> fst (get_new_tid s2)" and
    "h \<equiv> client_headers SET_REQUEST_OPCODE (fst (get_new_tid s2)) (of_nat (length k)) (of_nat (length val))"
  shows "kv_set n E key (Some v) s =
      (let s6 = written (requested s2 i t) i (enc_client_headers h @ k @ [NUL])
       in bnd (if length k + length val + 2 \<le> CLIENT_REQUEST_PAYLOAD_LEN
               then bnd (put_send s6 (int i) (CLIENT_HEADER_LEN + Suc (length k)) (val @ [NUL]))
                      (\<lambda>s7. Inr (of_nat (length k) + 1 + (of_nat (length val) + 1), s7))
               else bnd (kv_set_rdma E key (Some v) h s6) (\<lambda>s7. Inr (of_nat (length k) + 1, s7))) (\<lambda>(buffer_size, s7).
          bnd (client_post_send E (kv_close n E) s7 (of_nat CLIENT_HEADER_LEN + buffer_size) (int i)) (\<lambda>(ok, s8).
          Inr (if ok then 0 else - 1, s8))))"
proof -
  let ?r = "requested s2 i t"
  have tid1: "get_new_tid s2 = (t, s2\<lparr>last_used_tid := t\<rparr>)" unfolding t_def by (simp add: get_new_tid_def Let_def)
  have same: "(cctx s2)\<lparr>last_used_send_buff := i, in_use_send := u\<rparr> = (cctx s2)\<lparr>in_use_send := u\<rparr>" for u
    using wf(2) by (cases "cctx s2") simp
  have acq: "clift_ctx (acquire_send_buffer (cctx (s2\<lparr>last_used_tid := t\<rparr>)) (int i)) (s2\<lparr>last_used_tid := t\<rparr>) = Inr ?r"
    using acquire_send_ok(1) [OF wf(1) idx(2)] same by (simp add: clift_ctx_def requested_def)
  have wfr: "ctx_wf (cctx ?r)" by (rule requested_wf [OF wf(1) idx(2)])
  have w1: "put_send ?r (int i) 0 (enc_client_headers h) = Inr (written ?r i (enc_client_headers h))"
    by (rule put_send_first [OF wfr idx(2)]) simp
  have w2: "put_send (written ?r i (enc_client_headers h)) (int i) CLIENT_HEADER_LEN (k @ [NUL])
      = Inr (written ?r i (enc_client_headers h @ k @ [NUL]))"
    by (rule put_send_next [OF wfr idx(2)]) (use key(3) in simp_all)
  have len: "c_strlen key = Inr (length k)" "c_strlen (val @ NUL # vr) = Inr (length val)"
    using key v(3) by simp_all
  have ld: "load_block s (Some v) = Inr (val @ NUL # vr)" using v(1) by (simp add: load_block_def not_null_def)
  have ld6: "load_block (written ?r i bs) (Some v) = Inr (val @ NUL # vr)" for bs
    using v(2) by (simp add: load_block_def not_null_def)
  have small: "(sint (of_nat (length k) + 1 + of_nat (length val) + 1 :: 32 word) \<le> int CLIENT_REQUEST_PAYLOAD_LEN)
      = (length k + length val + 2 \<le> CLIENT_REQUEST_PAYLOAD_LEN)"
    unfolding sum_small [OF v(4)] by (simp only: of_nat_le_iff)
  have sc: "(scast (of_nat (length val) :: 32 word) :: 64 word) = of_nat (length val)"
    by (rule scast_small) (use v(4) in simp)
  have h: "client_headers SET_REQUEST_OPCODE t (of_nat (length k)) (of_nat (length val)) = h"
    by (simp add: h_def t_def)
  have tk: "take (Suc (length k)) key = k @ [NUL]" "take (Suc (length val)) (val @ NUL # vr) = val @ [NUL]"
    using key(1) by simp_all
  show ?thesis
    unfolding kv_set_def sends_value_def len ld bnd_simps Let_def prod.case idx(1) fewer tid1 sc h
    by (simp only: acq bnd_simps w1 w2 tk ld6 len small)
qed

text \<open>Without a wait that is the state at the call.\<close>

lemma no_wait_for_buffer:
  assumes ok: "client_ok s" and spare: "0 < send_ring.spare (cctx s)" and few: "num_pending_requests (reqs s) < 250" and n: "0 < n"
  obtains i c where "wait_send_idx n E s = Inr (int i, s\<lparr>cctx := c\<rparr>)" "i < SERVER_NUM_SEND_BUFFS" "\<not> in_use_send (cctx s) ! i"
    "wait_fewer n E (s\<lparr>cctx := c\<rparr>) = Inr (s\<lparr>cctx := c\<rparr>)" "ctx_wf c" "last_used_send_buff c = i" "ctx_qp c \<noteq> None"
    "requested (s\<lparr>cctx := c\<rparr>) i = requested s i" "fst (get_new_tid (s\<lparr>cctx := c\<rparr>)) = fst (get_new_tid s)"
proof -
  have wf: "ctx_wf (cctx s)" "ctx_qp (cctx s) \<noteq> None" using ok by (simp_all add: client_ok_def)
  obtain i c where i: "wait_send_idx n E s = Inr (int i, s\<lparr>cctx := c\<rparr>)" "i < SERVER_NUM_SEND_BUFFS"
    "\<not> in_use_send (cctx s) ! i" "c = (cctx s)\<lparr>last_used_send_buff := i\<rparr>" "ctx_wf c"
    by (rule wait_send_idx_ok [OF wf(1) spare n])
  obtain m where m: "n = Suc m" using n by (cases n) auto
  have "wait_fewer n E (s\<lparr>cctx := c\<rparr>) = Inr (s\<lparr>cctx := c\<rparr>)" using few m by (simp add: wait_fewer.simps)
  moreover have "requested (s\<lparr>cctx := c\<rparr>) i = requested s i" using i(4) by (intro ext) (simp add: requested_def)
  moreover have "fst (get_new_tid (s\<lparr>cctx := c\<rparr>)) = fst (get_new_tid s)" by (simp add: get_new_tid_def Let_def)
  ultimately show ?thesis using that [of i c] i wf(2) by simp
qed

lemma kv_set_start:
  assumes ok: "client_ok s" and spare: "0 < send_ring.spare (cctx s)" and few: "num_pending_requests (reqs s) < 250"
    and n: "0 < n" and key: "key = k @ NUL # kr" "NUL \<notin> set k" "length k < BUFFER_SIZE - CLIENT_HEADER_LEN"
    and v: "blocks s v = Some (val @ NUL # vr)" "NUL \<notin> set val" "length k + length val + 2 < 2 ^ 31"
  defines "t \<equiv> fst (get_new_tid s)" and
    "h \<equiv> client_headers SET_REQUEST_OPCODE (fst (get_new_tid s)) (of_nat (length k)) (of_nat (length val))"
  obtains i where "i < SERVER_NUM_SEND_BUFFS" "\<not> in_use_send (cctx s) ! i"
    "kv_set n E key (Some v) s =
      (let s6 = written (requested s i t) i (enc_client_headers h @ k @ [NUL])
       in bnd (if length k + length val + 2 \<le> CLIENT_REQUEST_PAYLOAD_LEN
               then bnd (put_send s6 (int i) (CLIENT_HEADER_LEN + Suc (length k)) (val @ [NUL]))
                      (\<lambda>s7. Inr (of_nat (length k) + 1 + (of_nat (length val) + 1), s7))
               else bnd (kv_set_rdma E key (Some v) h s6) (\<lambda>s7. Inr (of_nat (length k) + 1, s7))) (\<lambda>(buffer_size, s7).
          bnd (client_post_send E (kv_close n E) s7 (of_nat CLIENT_HEADER_LEN + buffer_size) (int i)) (\<lambda>(ok, s8).
          Inr (if ok then 0 else - 1, s8))))"
proof -
  obtain i c where i: "wait_send_idx n E s = Inr (int i, s\<lparr>cctx := c\<rparr>)" "i < SERVER_NUM_SEND_BUFFS" "\<not> in_use_send (cctx s) ! i"
    "wait_fewer n E (s\<lparr>cctx := c\<rparr>) = Inr (s\<lparr>cctx := c\<rparr>)" "ctx_wf c" "last_used_send_buff c = i" "ctx_qp c \<noteq> None"
    "requested (s\<lparr>cctx := c\<rparr>) i = requested s i" "fst (get_new_tid (s\<lparr>cctx := c\<rparr>)) = fst (get_new_tid s)"
    by (rule no_wait_for_buffer [OF ok spare few n])
  have u: "ctx_wf (cctx (s\<lparr>cctx := c\<rparr>))" "last_used_send_buff (cctx (s\<lparr>cctx := c\<rparr>)) = i" "ctx_qp (cctx (s\<lparr>cctx := c\<rparr>)) \<noteq> None"
    "blocks (s\<lparr>cctx := c\<rparr>) v = Some (val @ NUL # vr)" "calls (s\<lparr>cctx := c\<rparr>) = calls s" using i(5-7) v(1) by simp_all
  show ?thesis
    by (rule that [OF i(2,3)]) (use kv_set_after [OF i(1,2,4) u(1,2) key v(1) u(4) v(2,3)] in \<open>simp only: i(8,9) t_def h_def\<close>)
qed

lemma length_set_message [simp]: "length (set_message t k val) = CLIENT_HEADER_LEN + length k + length val + 2"
  by (simp add: set_message_def)

text \<open>The message of a short value, whatever was done before.\<close>

lemma kv_set_eager_after:
  assumes idx: "wait_send_idx n E s = Inr (int i, s1)" "i < SERVER_NUM_SEND_BUFFS" and fewer: "wait_fewer n E s1 = Inr s2"
    and wf: "ctx_wf (cctx s2)" "last_used_send_buff (cctx s2) = i" "ctx_qp (cctx s2) \<noteq> None"
    and key: "key = k @ NUL # kr" "NUL \<notin> set k"
    and v: "blocks s v = Some (val @ NUL # vr)" "blocks s2 v = Some (val @ NUL # vr)" "NUL \<notin> set val"
    and fits: "length k + length val + 2 \<le> CLIENT_REQUEST_PAYLOAD_LEN"
  shows "kv_set n E key (Some v) s =
    Inr (if e_send E (calls s2) then 0 else - 1,
      offered E (Send (set_message (fst (get_new_tid s2)) k val))
        (written (requested s2 i (fst (get_new_tid s2))) i (set_message (fst (get_new_tid s2)) k val)))"
proof -
  let ?t = "fst (get_new_tid s2)"
  let ?h = "client_headers SET_REQUEST_OPCODE ?t (of_nat (length k)) (of_nat (length val))"
  have lk: "length k < BUFFER_SIZE - CLIENT_HEADER_LEN" and total: "length k + length val + 2 < 2 ^ 31"
    using fits by simp_all
  note kv = kv_set_after [OF idx fewer wf(1,2) key lk v total]
  have wfr: "ctx_wf (cctx (requested s2 i ?t))" by (rule requested_wf [OF wf(1) idx(2)])
  let ?s7 = "written (requested s2 i ?t) i (set_message ?t k val)"
  have w3: "put_send (written (requested s2 i ?t) i (enc_client_headers ?h @ k @ [NUL])) (int i)
      (CLIENT_HEADER_LEN + Suc (length k)) (val @ [NUL]) = Inr ?s7"
    using put_send_next [OF wfr idx(2), of "enc_client_headers ?h @ k @ [NUL]" "val @ [NUL]" "CLIENT_HEADER_LEN + Suc (length k)"] fits
    by (simp add: set_message_def)
  have len: "unat (of_nat CLIENT_HEADER_LEN + (of_nat (length k) + 1 + (of_nat (length val) + 1)) :: 32 word) =
      CLIENT_HEADER_LEN + length (k @ [NUL] @ val @ [NUL])"
  proof -
    have "(of_nat CLIENT_HEADER_LEN + (of_nat (length k) + 1 + (of_nat (length val) + 1)) :: 32 word) =
        of_nat (CLIENT_HEADER_LEN + (length k + 1 + (length val + 1)))" by (simp only: of_nat_add of_nat_1)
    then show ?thesis using fits by (simp add: unat_of_nat32 del: of_nat_add of_nat_Suc)
  qed
  have holds: "holds ?s7 i (enc_client_headers ?h @ (k @ [NUL] @ val @ [NUL]))"
    using holds_written [OF wfr idx(2), of "set_message ?t k val"] fits by (simp add: set_message_def)
  have "client_post_send E (kv_close n E) ?s7
      (of_nat CLIENT_HEADER_LEN + (of_nat (length k) + 1 + (of_nat (length val) + 1))) (int i) =
      Inr (e_send E (calls ?s7), offered E (Send (set_message ?t k val)) ?s7)"
    using client_post_send_ok [OF holds _ _ len, of E "kv_close n E"] wf(3) by (simp add: set_message_def)
  then show ?thesis unfolding kv Let_def using fits w3 by simp
qed

lemma kv_set_eager_run:
  assumes ok: "client_ok s" and spare: "0 < send_ring.spare (cctx s)" and few: "num_pending_requests (reqs s) < 250"
    and n: "0 < n" and key: "key = k @ NUL # kr" "NUL \<notin> set k"
    and v: "blocks s v = Some (val @ NUL # vr)" "NUL \<notin> set val"
    and fits: "length k + length val + 2 \<le> CLIENT_REQUEST_PAYLOAD_LEN"
  obtains i where "i < SERVER_NUM_SEND_BUFFS" "\<not> in_use_send (cctx s) ! i"
    "kv_set n E key (Some v) s =
      Inr (if e_send E (calls s) then 0 else - 1,
        offered E (Send (set_message (fst (get_new_tid s)) k val))
          (written (requested s i (fst (get_new_tid s))) i (set_message (fst (get_new_tid s)) k val)))"
proof -
  obtain i c where i: "wait_send_idx n E s = Inr (int i, s\<lparr>cctx := c\<rparr>)" "i < SERVER_NUM_SEND_BUFFS" "\<not> in_use_send (cctx s) ! i"
    "wait_fewer n E (s\<lparr>cctx := c\<rparr>) = Inr (s\<lparr>cctx := c\<rparr>)" "ctx_wf c" "last_used_send_buff c = i" "ctx_qp c \<noteq> None"
    "requested (s\<lparr>cctx := c\<rparr>) i = requested s i" "fst (get_new_tid (s\<lparr>cctx := c\<rparr>)) = fst (get_new_tid s)"
    by (rule no_wait_for_buffer [OF ok spare few n])
  have u: "ctx_wf (cctx (s\<lparr>cctx := c\<rparr>))" "last_used_send_buff (cctx (s\<lparr>cctx := c\<rparr>)) = i" "ctx_qp (cctx (s\<lparr>cctx := c\<rparr>)) \<noteq> None"
    "blocks (s\<lparr>cctx := c\<rparr>) v = Some (val @ NUL # vr)" "calls (s\<lparr>cctx := c\<rparr>) = calls s" using i(5-7) v(1) by simp_all
  show ?thesis
    by (rule that [OF i(2,3)]) (use kv_set_eager_after [OF i(1,2,4) u(1-3) key v(1) u(4) v(2) fits] in \<open>simp only: i(8,9) u(5)\<close>)
qed

text \<open>The request that waits for the buffer of the server, with the registered value.\<close>

definition set_pending :: "client_env \<Rightarrow> client \<Rightarrow> 16 word \<Rightarrow> byte list \<Rightarrow> ptr \<Rightarrow> nat \<Rightarrow> client_pending_request" where
  "set_pending E s t k v len =
     \<lparr>p_tid = uint t, p_pending = True, p_opcode = opcode_val RDMA_SET_REQUEST_OPCODE, p_out_size = of_nat len,
      p_out_buf = Some v, p_in_buf = None,
      p_mr = Some \<lparr>m_addr = Some v, m_len = of_nat len + 1, m_lkey = e_lkey E (cregs s)\<rparr>,
      p_key = Some (k @ zeros (CLIENT_REQUEST_PAYLOAD_LEN - length k))\<rparr>"

lemma add_request_ok:
  assumes "creq_inv q" and "creq_abs q t = None" and "\<forall>n. ok n"
  obtains q' p where "add_client_pending_request ok q t = Inr q'" "creq_inv q'"
    "get_client_pending_request q' t = Inr (Some p)"
    "creq_heap q' p = Some (zero_request\<lparr>p_tid := uint t, p_key := Some (zeros CLIENT_REQUEST_PAYLOAD_LEN)\<rparr>)"
    "\<forall>r. (creq_abs q')(t \<mapsto> r) = (creq_abs q)(t \<mapsto> r)"
    "num_pending_requests q' = Suc (num_pending_requests q)"
  by (rule add_client_ok [OF assms]) (use that in auto)

lemma key_copy:
  "NUL \<notin> set k \<Longrightarrow> length k \<le> CLIENT_REQUEST_PAYLOAD_LEN \<Longrightarrow>
   c_strncpy (zeros CLIENT_REQUEST_PAYLOAD_LEN) (k @ NUL # r) (unat (of_nat (length k) :: 32 word)) =
     Inr (k @ zeros (CLIENT_REQUEST_PAYLOAD_LEN - length k))"
  using c_strncpy_string [of k "length k" "zeros CLIENT_REQUEST_PAYLOAD_LEN" r] by (simp add: unat_of_nat32)

lemma kv_set_rdma_ok:
  assumes inv: "creq_inv (reqs s)" and new: "creq_abs (reqs s) t = None" and alloc: "\<forall>n. e_alloc E n" "e_reg E (cregs s)"
    and key: "key = k @ NUL # kr" "NUL \<notin> set k" "length k \<le> CLIENT_REQUEST_PAYLOAD_LEN"
    and h: "h = client_headers SET_REQUEST_OPCODE t (of_nat (length k)) (of_nat len)"
  obtains q where "kv_set_rdma E key (Some v) h s = Inr (s\<lparr>cregs := Suc (cregs s), reqs := q\<rparr>)" "creq_inv q"
    "creq_abs q = (creq_abs (reqs s))(t \<mapsto> set_pending E s t k v len)"
    "num_pending_requests q = Suc (num_pending_requests (reqs s))"
proof -
  obtain q' p where q': "add_client_pending_request (e_alloc E) (reqs s) t = Inr q'" "creq_inv q'"
    "get_client_pending_request q' t = Inr (Some p)"
    "creq_heap q' p = Some (zero_request\<lparr>p_tid := uint t, p_key := Some (zeros CLIENT_REQUEST_PAYLOAD_LEN)\<rparr>)"
    "\<forall>r. (creq_abs q')(t \<mapsto> r) = (creq_abs (reqs s))(t \<mapsto> r)"
    "num_pending_requests q' = Suc (num_pending_requests (reqs s))"
    by (rule add_request_ok [OF inv new alloc(1)])
  let ?r = "set_pending E s t k v len"
  note st = cstore_ok [OF q'(2,3), of ?r]
  have run: "kv_set_rdma E key (Some v) h s = Inr (s\<lparr>cregs := Suc (cregs s), reqs := cstore q' p ?r\<rparr>)"
    using q'(1,3,4) key_copy [OF key(2,3), of kr] alloc(2) key(1)
    by (simp add: kv_set_rdma_def h clift_reqs_def cload_def not_null_def reg_block_def cupdate_def set_pending_def zero_request_def)
  have "creq_inv (cstore q' p ?r)" "creq_abs (cstore q' p ?r) = (creq_abs (reqs s))(t \<mapsto> ?r)"
    "num_pending_requests (cstore q' p ?r) = Suc (num_pending_requests (reqs s))"
    using st q'(5,6) by (simp_all add: set_pending_def)
  then show ?thesis using that run by blast
qed

definition announce_message :: "16 word \<Rightarrow> byte list \<Rightarrow> nat \<Rightarrow> byte list" where
  "announce_message t k len =
     enc_client_headers (client_headers SET_REQUEST_OPCODE t (of_nat (length k)) (of_nat len)) @ k @ [NUL]"

lemma kv_set_rdma_run:
  assumes ok: "client_ok s" and spare: "0 < send_ring.spare (cctx s)" and few: "num_pending_requests (reqs s) < 250"
    and n: "0 < n" and key: "key = k @ NUL # kr" "NUL \<notin> set k" "length k < BUFFER_SIZE - CLIENT_HEADER_LEN"
    and v: "blocks s v = Some (val @ NUL # vr)" "NUL \<notin> set val"
    and long: "CLIENT_REQUEST_PAYLOAD_LEN < length k + length val + 2" "length k + length val + 2 < 2 ^ 31"
    and new: "creq_abs (reqs s) (fst (get_new_tid s)) = None" and alloc: "\<forall>n. e_alloc E n" "e_reg E (cregs s)"
  obtains i q where "i < SERVER_NUM_SEND_BUFFS" "\<not> in_use_send (cctx s) ! i" "creq_inv q"
    "creq_abs q = (creq_abs (reqs s))(fst (get_new_tid s) \<mapsto> set_pending E s (fst (get_new_tid s)) k v (length val))"
    "num_pending_requests q = Suc (num_pending_requests (reqs s))"
    "kv_set n E key (Some v) s =
      Inr (if e_send E (calls s) then 0 else - 1,
        offered E (Send (announce_message (fst (get_new_tid s)) k (length val)))
          ((written (requested s i (fst (get_new_tid s))) i (announce_message (fst (get_new_tid s)) k (length val)))
             \<lparr>cregs := Suc (cregs s), reqs := q\<rparr>))"
proof -
  let ?t = "fst (get_new_tid s)"
  let ?h = "client_headers SET_REQUEST_OPCODE ?t (of_nat (length k)) (of_nat (length val))"
  obtain i where i: "i < SERVER_NUM_SEND_BUFFS" "\<not> in_use_send (cctx s) ! i"
    "kv_set n E key (Some v) s =
      (let s6 = written (requested s i ?t) i (enc_client_headers ?h @ k @ [NUL])
       in bnd (if length k + length val + 2 \<le> CLIENT_REQUEST_PAYLOAD_LEN
               then bnd (put_send s6 (int i) (CLIENT_HEADER_LEN + Suc (length k)) (val @ [NUL]))
                      (\<lambda>s7. Inr (of_nat (length k) + 1 + (of_nat (length val) + 1), s7))
               else bnd (kv_set_rdma E key (Some v) ?h s6) (\<lambda>s7. Inr (of_nat (length k) + 1, s7))) (\<lambda>(buffer_size, s7).
          bnd (client_post_send E (kv_close n E) s7 (of_nat CLIENT_HEADER_LEN + buffer_size) (int i)) (\<lambda>(ok, s8).
          Inr (if ok then 0 else - 1, s8))))"
    by (rule kv_set_start [OF ok spare few n key v long(2)])
  have wf: "ctx_wf (cctx (requested s i ?t))" using ok i(1) by (intro requested_wf) (simp_all add: client_ok_def)
  let ?s6 = "written (requested s i ?t) i (announce_message ?t k (length val))"
  have pend: "set_pending E ?s6 ?t k v (length val) = set_pending E s ?t k v (length val)" by (simp add: set_pending_def)
  obtain q where q: "kv_set_rdma E key (Some v) ?h ?s6 = Inr (?s6\<lparr>cregs := Suc (cregs ?s6), reqs := q\<rparr>)" "creq_inv q"
    "creq_abs q = (creq_abs (reqs s))(?t \<mapsto> set_pending E s ?t k v (length val))"
    "num_pending_requests q = Suc (num_pending_requests (reqs s))"
    by (rule kv_set_rdma_ok [of ?s6 ?t E key k kr ?h "length val" v])
      (use ok new alloc key in \<open>simp_all add: client_ok_def pend\<close>)
  let ?s7 = "?s6\<lparr>cregs := Suc (cregs s), reqs := q\<rparr>"
  have len: "unat (of_nat CLIENT_HEADER_LEN + (of_nat (length k) + 1) :: 32 word) = CLIENT_HEADER_LEN + length (k @ [NUL])"
  proof -
    have "(of_nat CLIENT_HEADER_LEN + (of_nat (length k) + 1) :: 32 word) = of_nat (CLIENT_HEADER_LEN + (length k + 1))"
      by (simp only: of_nat_add of_nat_1)
    then show ?thesis using key(3) by (simp add: unat_of_nat32 del: of_nat_add of_nat_Suc)
  qed
  have "holds ?s6 i (enc_client_headers ?h @ (k @ [NUL]))"
    using holds_written [OF wf i(1), of "announce_message ?t k (length val)"] key(3) by (simp add: announce_message_def)
  then have "holds ?s7 i (enc_client_headers ?h @ (k @ [NUL]))" by (simp add: holds_def)
  then have "client_post_send E (kv_close n E) ?s7 (of_nat CLIENT_HEADER_LEN + (of_nat (length k) + 1)) (int i) =
      Inr (e_send E (calls s), offered E (Send (announce_message ?t k (length val))) ?s7)"
    using client_post_send_ok [of ?s7 i ?h "k @ [NUL]" _ E "kv_close n E"] ok len
    by (simp add: announce_message_def client_ok_def)
  then have "kv_set n E key (Some v) s =
      Inr (if e_send E (calls s) then 0 else - 1, offered E (Send (announce_message ?t k (length val))) ?s7)"
    unfolding i(3) Let_def using long(1) q(1) by (simp add: announce_message_def)
  then show ?thesis using that i(1,2) q(2-4) by blast
qed

lemma offered_ok: "client_ok (offered E w s) = client_ok s"
  by (simp add: client_ok_def)

text \<open>
  C12: a SET whose value fits sends one message with header, key and value, and returns; nothing is
  entered into the table, so nothing waits for an answer. It occupies one free send buffer, and
  the result tells whether the adapter took the message.
\<close>

theorem kv_set_eager:
  assumes "client_ok s" and "0 < count_list (in_use_send (cctx s)) False" and "num_pending_requests (reqs s) < 250"
    and "0 < n" and "key = k @ NUL # kr" "NUL \<notin> set k" and "blocks s v = Some (val @ NUL # vr)" "NUL \<notin> set val"
    and "length k + length val + 2 \<le> CLIENT_REQUEST_PAYLOAD_LEN"
  shows "\<exists>s' i. kv_set n E key (Some v) s = Inr (if e_send E (calls s) then 0 else - 1, s') \<and> client_ok s' \<and>
    posted s' = posted s @ (if e_send E (calls s) then [Send (set_message (fst (get_new_tid s)) k val)] else []) \<and>
    reqs s' = reqs s \<and> last_used_tid s' = fst (get_new_tid s) \<and> \<not> in_use_send (cctx s) ! i \<and>
    in_use_send (cctx s') = (in_use_send (cctx s))[i := True]"
proof -
  let ?t = "fst (get_new_tid s)"
  obtain i where i: "i < SERVER_NUM_SEND_BUFFS" "\<not> in_use_send (cctx s) ! i"
    "kv_set n E key (Some v) s = Inr (if e_send E (calls s) then 0 else - 1,
      offered E (Send (set_message ?t k val)) (written (requested s i ?t) i (set_message ?t k val)))"
    by (rule kv_set_eager_run [OF assms(1-9)])
  have "client_ok (written (requested s i ?t) i (set_message ?t k val))"
    using assms(1,9) i(1) written_wf [OF requested_wf [of s i ?t] i(1), of "set_message ?t k val"]
    by (simp add: client_ok_def)
  then show ?thesis using i by (intro exI [of _ "offered E (Send (set_message ?t k val))
      (written (requested s i ?t) i (set_message ?t k val))"] exI [of _ i]) (simp add: offered_ok)
qed

text \<open>
  C13: a SET whose value does not fit sends header and key only, and enters a request with the
  registered value into the table, under its new transaction id; it does not wait for the
  transfer.
\<close>

theorem kv_set_announced:
  assumes "client_ok s" and "0 < count_list (in_use_send (cctx s)) False" and "num_pending_requests (reqs s) < 250"
    and "0 < n" and "key = k @ NUL # kr" "NUL \<notin> set k" "length k < BUFFER_SIZE - CLIENT_HEADER_LEN"
    and "blocks s v = Some (val @ NUL # vr)" "NUL \<notin> set val"
    and "CLIENT_REQUEST_PAYLOAD_LEN < length k + length val + 2" "length k + length val + 2 < 2 ^ 31"
    and "creq_abs (reqs s) (fst (get_new_tid s)) = None" and "\<forall>n. e_alloc E n" "e_reg E (cregs s)"
  shows "\<exists>s'. kv_set n E key (Some v) s = Inr (if e_send E (calls s) then 0 else - 1, s') \<and> client_ok s' \<and>
    posted s' = posted s @ (if e_send E (calls s) then [Send (announce_message (fst (get_new_tid s)) k (length val))] else []) \<and>
    creq_abs (reqs s') = (creq_abs (reqs s))(fst (get_new_tid s) \<mapsto> set_pending E s (fst (get_new_tid s)) k v (length val)) \<and>
    num_pending_requests (reqs s') = Suc (num_pending_requests (reqs s))"
proof -
  let ?t = "fst (get_new_tid s)"
  obtain i q where i: "i < SERVER_NUM_SEND_BUFFS" "\<not> in_use_send (cctx s) ! i" "creq_inv q"
    "creq_abs q = (creq_abs (reqs s))(?t \<mapsto> set_pending E s ?t k v (length val))"
    "num_pending_requests q = Suc (num_pending_requests (reqs s))"
    "kv_set n E key (Some v) s = Inr (if e_send E (calls s) then 0 else - 1,
        offered E (Send (announce_message ?t k (length val)))
          ((written (requested s i ?t) i (announce_message ?t k (length val)))\<lparr>cregs := Suc (cregs s), reqs := q\<rparr>))"
    by (rule kv_set_rdma_run [OF assms])
  have "length (announce_message ?t k (length val)) \<le> BUFFER_SIZE" using assms(7) by (simp add: announce_message_def)
  then have "ctx_wf (cctx (written (requested s i ?t) i (announce_message ?t k (length val))))"
    using assms(1) i(1) by (intro written_wf requested_wf) (simp_all add: client_ok_def)
  then show ?thesis using i(3-6) assms(1)
    by (intro exI [of _ "offered E (Send (announce_message ?t k (length val)))
          ((written (requested s i ?t) i (announce_message ?t k (length val)))\<lparr>cregs := Suc (cregs s), reqs := q\<rparr>)"])
      (simp add: client_ok_def)
qed

section \<open>A client that is connected\<close>

definition good_env :: client_env where
  "good_env = \<lparr>e_alloc = (\<lambda>_. True), e_calloc = (\<lambda>_. True), e_reg = (\<lambda>_. True), e_lkey = of_nat,
     e_send = (\<lambda>_. True), e_recv = (\<lambda>_. True), e_ready = (\<lambda>_. Some True), e_signal = (\<lambda>_. False)\<rparr>"

definition connected :: "byte list \<Rightarrow> client" where
  "connected val =
     client_start\<lparr>reqs := \<lparr>creq_q = [0], creq_heap = [0 \<mapsto> zero_request\<lparr>p_tid := - 1\<rparr>], creq_next = 1\<rparr>,
       cctx := blank_context\<lparr>curr_recv_buff := int SERVER_NUM_RECV_BUFFS, ctx_qp := Some \<lparr>qp_ptr = 1, qp_num = 17\<rparr>\<rparr>,
       last_used_tid := 1, blocks := [0 \<mapsto> val @ [NUL]], next_block := 1\<rparr>"

lemma good_env_simps [simp]:
  "e_alloc good_env n" "e_calloc good_env n" "e_reg good_env n" "e_send good_env n" "e_recv good_env n"
  "\<not> e_signal good_env n" "e_ready good_env n = Some True"
  by (simp_all add: good_env_def)

lemma connected_reqs:
  "creq_inv (reqs (connected val))" "creq_abs (reqs (connected val)) = Map.empty" "num_pending_requests (reqs (connected val)) = 1"
proof -
  let ?q = "\<lparr>creq_q = [0 :: nat], creq_heap = [0 \<mapsto> zero_request\<lparr>p_tid := - 1\<rparr>], creq_next = 1\<rparr>"
  have q: "reqs (connected val) = ?q" by (simp add: connected_def)
  show inv: "creq_inv (reqs (connected val))" unfolding q
    by (rule creq_invI) (auto simp: table_ok_def creq_key_def split: if_splits)
  have "creq_abs ?q t = None" for t
    using creq_abs_None [of ?q t] inv unfolding q by auto
  then show "creq_abs (reqs (connected val)) = Map.empty" unfolding q by blast
  show "num_pending_requests (reqs (connected val)) = 1" unfolding q by (simp add: num_pending_requests_def HASH_COUNT_def)
qed

lemma connected_simps [simp]:
  "blocks (connected val) 0 = Some (val @ [NUL])" "calls (connected val) = 0" "posted (connected val) = []"
  "last_used_tid (connected val) = 1" "cregs (connected val) = 0" "immediate_shutdown (connected val) = False"
  "next_block (connected val) = 1" "cpolls (connected val) = []" "other_blocks (connected val) = {}"
  "cctx (connected val) = blank_context\<lparr>curr_recv_buff := int SERVER_NUM_RECV_BUFFS, ctx_qp := Some \<lparr>qp_ptr = 1, qp_num = 17\<rparr>\<rparr>"
  by (simp_all add: connected_def client_start_def)

lemma connected_ok: "client_ok (connected val)"
  using connected_reqs(1) [of val] ctx_wf_blank by (simp add: client_ok_def ctx_wf_def)

lemma connected_spare: "send_ring.spare (cctx (connected val)) = SERVER_NUM_SEND_BUFFS"
  by simp

lemma connected_tid: "fst (get_new_tid (connected val)) = 9"
proof -
  have "tid_client 1 = 1" "tid_counter 1 = 0" unfolding tid_client_def tid_counter_def by simp_all
  then show ?thesis by (simp add: get_new_tid_def Let_def tid_meta_def)
qed

theorem kv_set_eager_witness:
  "\<exists>s'. kv_set 1 good_env (''k'' @ [NUL]) (Some 0) (connected ''v'') = Inr (0, s') \<and>
     posted s' = [Send (set_message 9 ''k'' ''v'')]"
proof -
  have "0 < count_list (in_use_send (cctx (connected ''v''))) False" using connected_spare [of "''v''"] by simp
  from kv_set_eager [OF connected_ok this _ _ _ _ connected_simps(1), of 1 "''k'' @ [NUL]" "''k''" "[]" good_env]
  show ?thesis by (auto simp: connected_reqs connected_tid)
qed

theorem kv_set_announced_witness:
  "\<exists>val s'. length val = 5000 \<and> kv_set 1 good_env (''k'' @ [NUL]) (Some 0) (connected val) = Inr (0, s') \<and>
     posted s' = [Send (announce_message 9 ''k'' 5000)] \<and> num_pending_requests (reqs s') = 2"
proof -
  let ?v = "replicate 5000 CHR ''v''"
  have "0 < count_list (in_use_send (cctx (connected ?v))) False" using connected_spare [of ?v] by simp
  from kv_set_announced [OF connected_ok this _ _ _ _ _ connected_simps(1), of 1 "''k'' @ [NUL]" "''k''" "[]" good_env]
  show ?thesis by (intro exI [of _ ?v]) (auto simp: connected_reqs connected_tid)
qed

end
