(* ===== verification/Client_Get.thy ===== *)
theory Client_Get
  imports Client_Facts
begin

text \<open>
  The client's GET and its transfers: the request that is sent, the handling of the answer, that
  \<open>kv_get\<close> returns the value when the answer comes, and the steps of an RDMA transfer from the
  announcement of the server to the FIN.
\<close>

section \<open>The request\<close>

definition get_message :: "16 word \<Rightarrow> byte list \<Rightarrow> byte list" where
  "get_message t k = enc_client_headers (client_headers GET_REQUEST_OPCODE t (of_nat (length k)) 0) @ k @ [NUL]"

definition get_pending :: "16 word \<Rightarrow> byte list \<Rightarrow> client_pending_request" where
  "get_pending t k =
     zero_request\<lparr>p_tid := uint t, p_pending := True, p_opcode := opcode_val GET_REQUEST_OPCODE,
       p_key := Some (k @ zeros (CLIENT_REQUEST_PAYLOAD_LEN - length k))\<rparr>"

lemma kv_get_request_run:
  assumes ok: "client_ok s" and spare: "0 < send_ring.spare (cctx s)" and n: "0 < n"
    and key: "key = k @ NUL # kr" "NUL \<notin> set k" "length k < BUFFER_SIZE - CLIENT_HEADER_LEN"
    and new: "creq_abs (reqs s) (fst (get_new_tid s)) = None" and alloc: "\<forall>n. e_alloc E n"
  obtains i q p where "i < SERVER_NUM_SEND_BUFFS" "\<not> in_use_send (cctx s) ! i" "creq_inv q"
    "get_client_pending_request q (fst (get_new_tid s)) = Inr (Some p)"
    "creq_heap q p = Some (get_pending (fst (get_new_tid s)) k)"
    "creq_abs q = (creq_abs (reqs s))(fst (get_new_tid s) \<mapsto> get_pending (fst (get_new_tid s)) k)"
    "num_pending_requests q = Suc (num_pending_requests (reqs s))"
    "kv_get_request n E key s =
      Inr (if e_send E (calls s) then Some (fst (get_new_tid s), Some p) else None,
        offered E (Send (get_message (fst (get_new_tid s)) k))
          ((written (requested s i (fst (get_new_tid s))) i (get_message (fst (get_new_tid s)) k))\<lparr>reqs := q\<rparr>))"
proof -
  let ?t = "fst (get_new_tid s)"
  let ?h = "client_headers GET_REQUEST_OPCODE ?t (of_nat (length k)) 0"
  have wf: "ctx_wf (cctx s)" and inv: "creq_inv (reqs s)" using ok by (simp_all add: client_ok_def)
  obtain i c where i: "wait_send_idx n E s = Inr (int i, s\<lparr>cctx := c\<rparr>)" "i < SERVER_NUM_SEND_BUFFS"
    "\<not> in_use_send (cctx s) ! i" "c = (cctx s)\<lparr>last_used_send_buff := i\<rparr>" "ctx_wf c"
    by (rule wait_send_idx_ok [OF wf spare n])
  let ?s2 = "s\<lparr>cctx := c\<lparr>in_use_send := (in_use_send c)[i := True]\<rparr>\<rparr>"
  let ?r = "requested s i ?t"
  have acq: "clift_ctx (acquire_send_buffer (cctx (s\<lparr>cctx := c\<rparr>)) (int i)) (s\<lparr>cctx := c\<rparr>) = Inr ?s2"
    using acquire_send_ok(1) [OF i(5,2)] by (simp add: clift_ctx_def)
  have tid1: "get_new_tid ?s2 = (?t, ?r)" using i(4) by (simp add: get_new_tid_def Let_def requested_def)
  have wfr: "ctx_wf (cctx ?r)" by (rule requested_wf [OF wf i(2)])
  have w1: "put_send ?r (int i) 0 (enc_client_headers ?h) = Inr (written ?r i (enc_client_headers ?h))"
    by (rule put_send_first [OF wfr i(2)]) simp
  have w2: "put_send (written ?r i (enc_client_headers ?h)) (int i) CLIENT_HEADER_LEN (k @ [NUL])
      = Inr (written ?r i (get_message ?t k))"
    unfolding get_message_def by (rule put_send_next [OF wfr i(2)]) (use key(3) in simp_all)
  let ?s5 = "written ?r i (get_message ?t k)"
  obtain q' p where q': "add_client_pending_request (e_alloc E) (reqs s) ?t = Inr q'" "creq_inv q'"
    "get_client_pending_request q' ?t = Inr (Some p)"
    "creq_heap q' p = Some (zero_request\<lparr>p_tid := uint ?t, p_key := Some (zeros CLIENT_REQUEST_PAYLOAD_LEN)\<rparr>)"
    "\<forall>r. (creq_abs q')(?t \<mapsto> r) = (creq_abs (reqs s))(?t \<mapsto> r)"
    "num_pending_requests q' = Suc (num_pending_requests (reqs s))"
    by (rule add_request_ok [OF inv new alloc])
  let ?q = "cstore q' p (get_pending ?t k)"
  note st = cstore_ok [OF q'(2,3), of "get_pending ?t k"]
  let ?s7 = "?s5\<lparr>reqs := ?q\<rparr>"
  have add: "clift_reqs (add_client_pending_request (e_alloc E) (reqs ?s5) ?t) ?s5 = Inr (?s5\<lparr>reqs := q'\<rparr>)"
    using q'(1) by (simp add: clift_reqs_def)
  have len: "unat (of_nat (CLIENT_HEADER_LEN + length k + 1) :: 32 word) = CLIENT_HEADER_LEN + length (k @ [NUL])"
    using key(3) by (simp add: unat_of_nat32 del: of_nat_add of_nat_Suc)
  have "holds ?s5 i (enc_client_headers ?h @ (k @ [NUL]))"
    using holds_written [OF wfr i(2), of "get_message ?t k"] key(3) by (simp add: get_message_def)
  then have "holds ?s7 i (enc_client_headers ?h @ (k @ [NUL]))" by (simp add: holds_def)
  then have post: "client_post_send E (kv_close n E) ?s7 (of_nat (CLIENT_HEADER_LEN + length k + 1)) (int i) =
      Inr (e_send E (calls s), offered E (Send (get_message ?t k)) ?s7)"
    using client_post_send_ok [of ?s7 i ?h "k @ [NUL]" _ E "kv_close n E", OF _ _ _ len] ok
    by (simp add: get_message_def client_ok_def)
  have upd: "cupdate (?s5\<lparr>reqs := q'\<rparr>) p (get_pending ?t k) = ?s7" by (simp add: cupdate_def)
  have kc: "c_strncpy (zeros CLIENT_REQUEST_PAYLOAD_LEN) key (unat (of_nat (length k) :: 32 word)) =
      Inr (k @ zeros (CLIENT_REQUEST_PAYLOAD_LEN - length k))"
    using key_copy [OF key(2), of kr] key(1,3) by simp
  have gp: "(zero_request\<lparr>p_tid := uint ?t, p_key := Some (zeros CLIENT_REQUEST_PAYLOAD_LEN)\<rparr>)
      \<lparr>p_pending := True, p_key := Some (k @ zeros (CLIENT_REQUEST_PAYLOAD_LEN - length k)), p_opcode := opcode_val GET_REQUEST_OPCODE\<rparr>
      = get_pending ?t k"
    by (simp add: get_pending_def)
  have ld: "cload q' (Some p) = Inr (zero_request\<lparr>p_tid := uint ?t, p_key := Some (zeros CLIENT_REQUEST_PAYLOAD_LEN)\<rparr>)"
    using q'(4) by (simp add: cload_def)
  have tk: "take (Suc (length k)) key = k @ [NUL]" using key(1) by simp
  have len0: "c_strlen key = Inr (length k)" using key by simp
  have nn: "not_null (p_key (zero_request\<lparr>p_tid := uint ?t, p_key := Some (zeros CLIENT_REQUEST_PAYLOAD_LEN)\<rparr>))
      = Inr (zeros CLIENT_REQUEST_PAYLOAD_LEN)" by (simp add: not_null_def)
  have rq: "reqs (?s5\<lparr>reqs := q'\<rparr>) = q'" by simp
  have "kv_get_request n E key s =
      Inr (if e_send E (calls s) then Some (?t, Some p) else None, offered E (Send (get_message ?t k)) ?s7)"
    unfolding kv_get_request_def i(1) bnd_simps prod.case acq len0 tid1 Let_def w1 w2 tk add rq q'(3) ld nn
      client_headers_simps kc option.sel gp upd post by simp
  moreover have "creq_heap ?q p = Some (get_pending ?t k)" by (simp add: cstore_def)
  ultimately show ?thesis
    using that [of i ?q p] i(2,3) st q'(3,5,6) by (simp add: get_pending_def)
qed

section \<open>Waiting\<close>

definition empty_poll :: client_poll where
  "empty_poll = \<lparr>completions = [], messages = [], stored = []\<rparr>"

lemma check_quiet:
  "\<forall>n. \<not> e_signal E n \<Longrightarrow> \<not> immediate_shutdown s \<Longrightarrow> check_shutdown E s = (False, ctick s)"
  by (simp add: check_shutdown_def Let_def ctick_def)

text \<open>Polls that find nothing pass.\<close>

lemma wait_empty:
  "\<forall>n. \<not> e_signal E n \<Longrightarrow> \<not> immediate_shutdown s \<Longrightarrow> cnt < iters \<Longrightarrow> cpolls s = replicate m (Some empty_poll) @ rs \<Longrightarrow>
   client_wait_completions (m + n) E iters cnt s = client_wait_completions n E iters cnt (s\<lparr>calls := calls s + m, cpolls := rs\<rparr>)"
proof (induction m arbitrary: s)
  case 0
  then have "s\<lparr>calls := calls s + 0, cpolls := rs\<rparr> = s" by simp
  then show ?case by simp
next
  case (Suc m)
  let ?s1 = "s\<lparr>calls := Suc (calls s), cpolls := replicate m (Some empty_poll) @ rs\<rparr>"
  have "client_wait_completions (Suc m + n) E iters cnt s = client_wait_completions (m + n) E iters cnt ?s1"
    using Suc.prems by (simp add: client_wait_completions.simps check_quiet client_poll_cq_def empty_poll_def ctick_def)
  also have "\<dots> = client_wait_completions n E iters cnt (?s1\<lparr>calls := calls ?s1 + m, cpolls := rs\<rparr>)"
    by (rule Suc.IH) (use Suc.prems in simp_all)
  finally show ?case by simp
qed

section \<open>Answers\<close>

definition recv_done :: "nat \<Rightarrow> ibv_wc" where
  "recv_done j = \<lparr>wc_id = wr_value \<lparr>wr_id = of_nat j, wr_type = wrid_val RECV_WRID\<rparr>, wc_success = True, wc_qp_num = 0\<rparr>"

text \<open>One poll that finds a message in receive buffer \<open>j\<close>.\<close>

definition message_poll :: "nat \<Rightarrow> byte list \<Rightarrow> client_poll" where
  "message_poll j bs = \<lparr>completions = [recv_done j], messages = [(j, bs)], stored = []\<rparr>"

text \<open>The state in which the message is handled.\<close>

definition received :: "client \<Rightarrow> nat \<Rightarrow> byte list \<Rightarrow> client" where
  "received s j bs =
     s\<lparr>cctx := (cctx s)\<lparr>in_buf := splice (in_buf (cctx s)) (get_recv_buffer j) bs, curr_recv_buff := curr_recv_buff (cctx s) - 1\<rparr>\<rparr>"

lemma received_simps [simp]:
  "reqs (received s j bs) = reqs s" "blocks (received s j bs) = blocks s" "next_block (received s j bs) = next_block s"
  "posted (received s j bs) = posted s" "in_use_send (cctx (received s j bs)) = in_use_send (cctx s)"
  "ctx_qp (cctx (received s j bs)) = ctx_qp (cctx s)" "cregs (received s j bs) = cregs s" "calls (received s j bs) = calls s"
  "in_use_recv (cctx (received s j bs)) = in_use_recv (cctx s)" "cpolls (received s j bs) = cpolls s"
  "immediate_shutdown (received s j bs) = immediate_shutdown s"
  by (simp_all add: received_def)

lemma received_wf:
  "ctx_wf (cctx s) \<Longrightarrow> j < SERVER_NUM_RECV_BUFFS \<Longrightarrow> length bs \<le> BUFFER_SIZE \<Longrightarrow> ctx_wf (cctx (received s j bs))"
  by (simp add: received_def ctx_wf_def get_recv_buffer_def)

lemma received_read:
  assumes "ctx_wf (cctx s)" and "j < SERVER_NUM_RECV_BUFFS" and "length bs \<le> BUFFER_SIZE" and "o' + n \<le> length bs"
  shows "mem_read (in_buf (cctx (received s j bs))) (get_recv_buffer j + o') n = Inr (take n (drop o' bs))"
proof -
  let ?b = "get_recv_buffer j" and ?m = "in_buf (cctx s)"
  have room: "?b + length bs \<le> length ?m" using assms(1-3) by (simp add: ctx_wf_def get_recv_buffer_def)
  have "drop (?b + o') (splice ?m ?b bs) = drop o' (drop ?b (splice ?m ?b bs))" by (simp add: add.commute)
  also have "\<dots> = drop o' bs @ drop (?b + length bs) ?m"
    unfolding drop_splice_prefix [OF room] using assms(4) by simp
  finally have "drop (?b + o') (splice ?m ?b bs) = drop o' bs @ drop (?b + length bs) ?m" .
  moreover have "?b + o' + n \<le> length (splice ?m ?b bs)" using room assms(4) by simp
  ultimately show ?thesis using assms(4) by (simp add: mem_read_def received_def)
qed

text \<open>The round of the completion loop that handles a message.\<close>

lemma wait_message:
  assumes quiet: "\<forall>n. \<not> e_signal E n" "\<not> immediate_shutdown s" and polls: "cpolls s = Some (message_poll j bs) # rs"
    and j: "j < SERVER_NUM_RECV_BUFFS" and len: "length bs \<le> BUFFER_SIZE" and curr: "11 < curr_recv_buff (cctx s)"
    and handle: "client_handle_recv E (kv_close (Suc n) E)
        (received (s\<lparr>calls := Suc (calls s), cpolls := rs\<rparr>) j bs) (int j) = Inr s2"
    and recv: "length (in_use_recv (cctx s2)) = SERVER_NUM_RECV_BUFFS"
  shows "client_wait_completions (Suc (Suc n)) E 1 0 s =
    Inr (0, s2\<lparr>cctx := (cctx s2)\<lparr>in_use_recv := (in_use_recv (cctx s2))[j := False]\<rparr>\<rparr>)"
proof -
  let ?s1 = "s\<lparr>calls := Suc (calls s), cpolls := rs, cctx := (cctx s)\<lparr>in_buf := splice (in_buf (cctx s)) (get_recv_buffer j) bs\<rparr>\<rparr>"
  have poll: "client_poll_cq (ctick s) = (Some [recv_done j], ?s1)"
    using polls len by (simp add: client_poll_cq_def message_poll_def ctick_def)
  have info: "wr_info (wc_id (recv_done j)) = \<lparr>wr_id = of_nat j, wr_type = wrid_val RECV_WRID\<rparr>" "wc_success (recv_done j)"
    by (simp_all add: recv_done_def wr_info_value)
  have sj: "sint (of_nat j :: 32 word) = int j" by (rule sint_small) (use j in simp)
  have refill: "client_refill E ?s1 = Inr (True, received (s\<lparr>calls := Suc (calls s), cpolls := rs\<rparr>) j bs)"
    using curr by (simp add: client_refill_def received_def)
  have rel: "release_receive_buffer (cctx s2) (int j) =
      Inr ((cctx s2)\<lparr>in_use_recv := (in_use_recv (cctx s2))[j := False]\<rparr>)"
    using j recv by (simp add: flag_ops)
  have "client_completion E (kv_close (Suc n) E) (recv_done j) ?s1 =
      Inr (True, s2\<lparr>cctx := (cctx s2)\<lparr>in_use_recv := (in_use_recv (cctx s2))[j := False]\<rparr>\<rparr>)"
    unfolding client_completion_def Let_def info(1) wr_data.simps wrid_of_val option.case wrid_kind.case refill sj
    using info(2) handle rel by (simp add: clift_ctx_def)
  then show ?thesis
    using poll by (simp add: client_wait_completions.simps(2) [of "Suc n"] check_quiet [OF quiet])
      (simp add: client_wait_completions.simps(2))
qed

lemma unat_plus_1_64: "unat (w :: 64 word) + 1 < 2 ^ 64 \<Longrightarrow> unat (w + 1) = Suc (unat w)"
  by (simp add: unat_word_ariths)

lemma block_update_order: "s\<lparr>next_block := n, blocks := b\<rparr> = s\<lparr>blocks := b, next_block := n\<rparr>" for s :: client
  by (cases s) simp

definition answer :: "server_response_headers_t \<Rightarrow> byte list \<Rightarrow> byte list" where
  "answer h data = (if rbuflen h = 0 then [NUL] else take (Suc (unat (rbuflen h))) data)"

text \<open>The handler that a message goes to.\<close>

lemma recv_dispatch:
  assumes wf: "ctx_wf (cctx s)" and j: "j < SERVER_NUM_RECV_BUFFS" and bs: "bs = enc_server_headers h @ data"
    and len: "length bs \<le> BUFFER_SIZE" and h: "response h = response_val c"
  shows "client_handle_recv E close (received s j bs) (int j) =
    (case c of
       GET_RESPONSE \<Rightarrow> client_handle_get_response E (received s j bs) h (get_recv_buffer j + SERVER_HEADER_LEN)
     | RDMA_RKEY_GET \<Rightarrow> client_handle_recv_rdma_rkey_get E (received s j bs) h
     | RDMA_RKEY_SET \<Rightarrow> client_handle_recv_rdma_rkey_set E (received s j bs) h
     | SERVER_SHUTDOWN \<Rightarrow> close_exit close 1 ((received s j bs)\<lparr>immediate_shutdown := True\<rparr>)
     | _ \<Rightarrow> Inr (received s j bs))"
proof -
  have hdr: "mem_read (in_buf (cctx (received s j bs))) (get_recv_buffer j) SERVER_HEADER_LEN = Inr (enc_server_headers h)"
    using received_read [OF wf j len, of 0 SERVER_HEADER_LEN] bs by simp
  have dec: "dec_server_headers (enc_server_headers h) = h" using dec_enc_server [of h "[]"] by simp
  have resp: "response_of (response h) = Some c" using h by (simp del: response_val.simps)
  show ?thesis unfolding client_handle_recv_def Let_def nat_int hdr bnd_simps dec resp by (cases c) simp_all
qed

lemma get_response_ok:
  assumes wf: "ctx_wf (cctx s)" and j: "j < SERVER_NUM_RECV_BUFFS" and bs: "bs = enc_server_headers h @ data"
    and len: "length bs \<le> BUFFER_SIZE" "unat (rbuflen h) < length data" and h: "response h = response_val GET_RESPONSE"
    and p: "get_client_pending_request (reqs s) (rtid h) = Inr (Some p)" "creq_heap (reqs s) p = Some r"
    and calloc: "\<forall>n. e_calloc E n"
  shows "client_handle_recv E close (received s j bs) (int j) =
    Inr (cupdate ((received s j bs)\<lparr>blocks := (blocks s)(next_block s \<mapsto> answer h data), next_block := Suc (next_block s)\<rparr>) p
           (r\<lparr>p_in_buf := Some (next_block s), p_pending := False\<rparr>))"
proof -
  have disp: "client_handle_recv E close (received s j bs) (int j) =
      client_handle_get_response E (received s j bs) h (get_recv_buffer j + SERVER_HEADER_LEN)"
    using recv_dispatch [OF wf j bs len(1) h] by simp
  have small: "unat (rbuflen h) < BUFFER_SIZE" using len bs by simp
  then have n: "unat (rbuflen h + 1) = Suc (unat (rbuflen h))" by (intro unat_plus_1_64) simp
  have data: "mem_read (in_buf (cctx (received s j bs))) (get_recv_buffer j + SERVER_HEADER_LEN) (Suc (unat (rbuflen h))) =
      Inr (take (Suc (unat (rbuflen h))) data)"
    using received_read [OF wf j len(1), of SERVER_HEADER_LEN "Suc (unat (rbuflen h))"] bs len(2) by simp
  show ?thesis
  proof (cases "rbuflen h = 0")
    case True
    then have "\<not> 0 < rbuflen h" by simp
    then show ?thesis unfolding disp using p calloc True
      by (simp add: client_handle_get_response_def Let_def calloc_block_def answer_def
          cload_def zeros_def)
  next
    case False
    then have "0 < rbuflen h" using word_neq_0_conv by blast
    then show ?thesis unfolding disp using p calloc data False
      by (simp add: client_handle_get_response_def Let_def calloc_block_def answer_def
          cload_def not_null_def n block_update_order)
  qed
qed

lemma wait_reply:
  assumes quiet: "\<forall>n. \<not> e_signal E n" "\<not> immediate_shutdown s"
    and polls: "cpolls s = replicate m (Some empty_poll) @ Some (message_poll j (enc_server_headers h @ data)) # rs"
    and wf: "ctx_wf (cctx s)" and j: "j < SERVER_NUM_RECV_BUFFS" and curr: "11 < curr_recv_buff (cctx s)"
    and len: "SERVER_HEADER_LEN + length data \<le> BUFFER_SIZE" "unat (rbuflen h) < length data"
    and h: "response h = response_val GET_RESPONSE"
    and p: "get_client_pending_request (reqs s) (rtid h) = Inr (Some p)" "creq_heap (reqs s) p = Some r"
    and calloc: "\<forall>n. e_calloc E n" and n: "m + 2 \<le> n"
  obtains s' where "wait_for n E 1 s = Inr s'"
    "reqs s' = cstore (reqs s) p (r\<lparr>p_in_buf := Some (next_block s), p_pending := False\<rparr>)"
    "blocks s' = (blocks s)(next_block s \<mapsto> answer h data)" "posted s' = posted s" "ctx_wf (cctx s')"
    "ctx_qp (cctx s') = ctx_qp (cctx s)" "in_use_send (cctx s') = in_use_send (cctx s)" "cpolls s' = rs"
    "immediate_shutdown s' = immediate_shutdown s"
proof -
  obtain b where b: "n = m + Suc (Suc b)" using n by (metis add.commute add_2_eq_Suc' le_iff_add add.assoc)
  let ?s1 = "s\<lparr>calls := calls s + m, cpolls := Some (message_poll j (enc_server_headers h @ data)) # rs\<rparr>"
  let ?s2 = "?s1\<lparr>calls := Suc (calls ?s1), cpolls := rs\<rparr>" and ?bs = "enc_server_headers h @ data"
  let ?s3 = "cupdate ((received ?s2 j ?bs)\<lparr>blocks := (blocks s)(next_block s \<mapsto> answer h data), next_block := Suc (next_block s)\<rparr>) p
           (r\<lparr>p_in_buf := Some (next_block s), p_pending := False\<rparr>)"
  let ?s4 = "?s3\<lparr>cctx := (cctx ?s3)\<lparr>in_use_recv := (in_use_recv (cctx ?s3))[j := False]\<rparr>\<rparr>"
  have lb: "length ?bs \<le> BUFFER_SIZE" using len(1) by simp
  have skip: "client_wait_completions n E 1 0 s = client_wait_completions (Suc (Suc b)) E 1 0 ?s1"
    unfolding b by (rule wait_empty [OF quiet _ polls]) simp
  have handle: "client_handle_recv E (kv_close (Suc b) E) (received ?s2 j ?bs) (int j) = Inr ?s3"
    using get_response_ok [of ?s2 j ?bs h data p r E "kv_close (Suc b) E"] wf j len(2) lb h p calloc by simp
  have recv: "length (in_use_recv (cctx ?s3)) = SERVER_NUM_RECV_BUFFS"
    using wf by (simp add: cupdate_def ctx_wf_def)
  have wf2: "ctx_wf (cctx (received ?s2 j ?bs))" using received_wf [of ?s2 j ?bs] wf j lb by simp
  have "client_wait_completions (Suc (Suc b)) E 1 0 ?s1 = Inr (0, ?s4)"
    by (rule wait_message [OF quiet(1) _ _ j lb _ handle recv]) (use quiet(2) curr in simp_all)
  then have "wait_for n E 1 s = Inr ?s4" using skip by (simp add: wait_for_def)
  moreover have "ctx_wf (cctx ?s4)" using wf2 by (simp add: cupdate_def ctx_wf_def)
  ultimately show ?thesis by (intro that [of ?s4]) (simp_all add: cupdate_def)
qed

text \<open>Once the request is not pending any more it is taken out of the table and its block returned.\<close>

lemma kv_get_finish:
  assumes req: "kv_get_request n E key s = Inr (Some (t, Some p), s1)" and wait: "wait_pending n E (Some p) s1 = Inr s2"
    and ok: "client_ok s2" and p: "get_client_pending_request (reqs s2) t = Inr (Some p)" "creq_heap (reqs s2) p = Some r" "p_tid r = uint t"
  obtains q where "kv_get n E key s = Inr ((0, p_in_buf r), s2\<lparr>reqs := q\<rparr>)" "client_ok (s2\<lparr>reqs := q\<rparr>)"
    "creq_abs q = (creq_abs (reqs s2))(t := None)" "num_pending_requests q = num_pending_requests (reqs s2) - 1"
proof -
  have inv: "creq_inv (reqs s2)" using ok by (simp add: client_ok_def)
  let ?r = "r\<lparr>p_in_buf := None\<rparr>"
  have tid: "p_tid ?r = uint t" using p(3) by simp
  note st = cstore_ok [OF inv p(1) tid]
  obtain q where q: "remove_client_pending_request (cstore (reqs s2) p ?r) t = Inr q" "creq_inv q"
    "creq_abs q = (creq_abs (cstore (reqs s2) p ?r))(t := None)"
    "num_pending_requests q = num_pending_requests (cstore (reqs s2) p ?r) -
       (if creq_abs (cstore (reqs s2) p ?r) t = None then 0 else 1)"
    by (rule remove_client_ok [OF st(1)])
  have "kv_get n E key s = Inr ((0, p_in_buf r), s2\<lparr>reqs := q\<rparr>)"
    unfolding kv_get_def using req wait p(2) q(1) by (simp add: cload_def cupdate_def clift_reqs_def)
  moreover have "client_ok (s2\<lparr>reqs := q\<rparr>)" using ok q(2) by (simp add: client_ok_def)
  ultimately show ?thesis using that [of q] q(3,4) st(2,3) by simp
qed

lemma kv_get_answered:
  assumes ok: "client_ok s" and spare: "0 < count_list (in_use_send (cctx s)) False"
    and key: "key = k @ NUL # kr" "NUL \<notin> set k" "length k < BUFFER_SIZE - CLIENT_HEADER_LEN"
    and new: "creq_abs (reqs s) (fst (get_new_tid s)) = None" and alloc: "\<forall>n. e_alloc E n" "\<forall>n. e_calloc E n"
    and accepted: "e_send E (calls s)" and quiet: "\<forall>n. \<not> e_signal E n" "\<not> immediate_shutdown s"
    and polls: "cpolls s = replicate m (Some empty_poll) @ Some (message_poll j (enc_server_headers h @ data)) # rs"
    and j: "j < SERVER_NUM_RECV_BUFFS" and curr: "11 < curr_recv_buff (cctx s)"
    and h: "response h = response_val GET_RESPONSE" "rtid h = fst (get_new_tid s)"
    and len: "SERVER_HEADER_LEN + length data \<le> BUFFER_SIZE" "unat (rbuflen h) < length data"
    and n: "m + 3 \<le> n"
  shows "\<exists>s'. kv_get n E key s = Inr ((0, Some (next_block s)), s') \<and> client_ok s' \<and>
    blocks s' = (blocks s)(next_block s \<mapsto> answer h data) \<and> creq_abs (reqs s') = creq_abs (reqs s) \<and>
    num_pending_requests (reqs s') = num_pending_requests (reqs s) \<and>
    posted s' = posted s @ [Send (get_message (fst (get_new_tid s)) k)]"
proof -
  let ?t = "fst (get_new_tid s)"
  have n0: "0 < n" using n by simp
  obtain i q p where r1: "i < SERVER_NUM_SEND_BUFFS" "\<not> in_use_send (cctx s) ! i" "creq_inv q"
    "get_client_pending_request q ?t = Inr (Some p)" "creq_heap q p = Some (get_pending ?t k)"
    "creq_abs q = (creq_abs (reqs s))(?t \<mapsto> get_pending ?t k)"
    "num_pending_requests q = Suc (num_pending_requests (reqs s))"
    "kv_get_request n E key s =
      Inr (if e_send E (calls s) then Some (?t, Some p) else None,
        offered E (Send (get_message ?t k)) ((written (requested s i ?t) i (get_message ?t k))\<lparr>reqs := q\<rparr>))"
    by (rule kv_get_request_run [OF ok spare n0 key new alloc(1)])
  let ?s1 = "offered E (Send (get_message ?t k)) ((written (requested s i ?t) i (get_message ?t k))\<lparr>reqs := q\<rparr>)"
  have wf1: "ctx_wf (cctx ?s1)"
    using written_wf [OF requested_wf [of s i ?t] r1(1), of "get_message ?t k"] ok r1(1) key(3)
    by (simp add: client_ok_def get_message_def)
  obtain a where a: "n = Suc a" "m + 2 \<le> a" using n by (cases n) auto
  obtain s2 where s2: "wait_for a E 1 ?s1 = Inr s2"
    "reqs s2 = cstore (reqs ?s1) p ((get_pending ?t k)\<lparr>p_in_buf := Some (next_block ?s1), p_pending := False\<rparr>)"
    "blocks s2 = (blocks ?s1)(next_block ?s1 \<mapsto> answer h data)" "posted s2 = posted ?s1" "ctx_wf (cctx s2)"
    "ctx_qp (cctx s2) = ctx_qp (cctx ?s1)" "in_use_send (cctx s2) = in_use_send (cctx ?s1)" "cpolls s2 = rs"
    "immediate_shutdown s2 = immediate_shutdown ?s1"
    by (rule wait_reply [of E ?s1 m j h data rs p "get_pending ?t k" a])
      (use quiet polls wf1 j curr len h r1(4,5) alloc(2) a(2) in simp_all)
  let ?r2 = "(get_pending ?t k)\<lparr>p_in_buf := Some (next_block s), p_pending := False\<rparr>"
  have q2: "reqs s2 = cstore q p ?r2" using s2(2) by simp
  have tid: "p_tid ?r2 = uint ?t" by (simp add: get_pending_def)
  note st2 = cstore_ok [OF r1(3,4) tid]
  have ok2: "client_ok s2" using s2(5,6) st2(1) q2 ok by (simp add: client_ok_def)
  have get2: "get_client_pending_request (reqs s2) ?t = Inr (Some p)" unfolding q2 using st2(4) r1(4) by simp
  have heap2: "creq_heap (reqs s2) p = Some ?r2" unfolding q2 by (simp add: cstore_def)
  have load1: "cload (reqs ?s1) (Some p) = Inr (get_pending ?t k)" using r1(5) by (simp add: cload_def)
  have load2: "cload (reqs s2) (Some p) = Inr ?r2" using heap2 by (simp add: cload_def)
  obtain c where c: "a = Suc c" using a(2) by (cases a) auto
  have wait: "wait_pending n E (Some p) ?s1 = Inr s2"
    unfolding a(1) using load1 s2(1) load2 by (simp add: wait_pending.simps(2) get_pending_def c)
  have req: "kv_get_request n E key s = Inr (Some (?t, Some p), ?s1)" unfolding r1(8) using accepted by simp
  obtain q3 where q3: "kv_get n E key s = Inr ((0, p_in_buf ?r2), s2\<lparr>reqs := q3\<rparr>)" "client_ok (s2\<lparr>reqs := q3\<rparr>)"
    "creq_abs q3 = (creq_abs (reqs s2))(?t := None)" "num_pending_requests q3 = num_pending_requests (reqs s2) - 1"
    by (rule kv_get_finish [OF req wait ok2 get2 heap2 tid])
  have "creq_abs q3 = creq_abs (reqs s)" unfolding q3(3) q2 st2(2) r1(6) using new by auto
  moreover have "num_pending_requests q3 = num_pending_requests (reqs s)" unfolding q3(4) q2 st2(3) r1(7) by simp
  ultimately show ?thesis using q3(1,2) s2(3,4) accepted by (intro exI [of _ "s2\<lparr>reqs := q3\<rparr>"]) simp
qed

text \<open>
  C11: \<open>kv_get\<close> returns the value: when the answer to its request comes, after any number of polls
  that find nothing, the call ends with the bytes the server sent in a block of their own, sends
  its one message, and leaves no request behind.
\<close>

theorem kv_get_returns:
  assumes ok: "client_ok s" and spare: "0 < count_list (in_use_send (cctx s)) False"
    and key: "key = k @ NUL # kr" "NUL \<notin> set k" "length k < BUFFER_SIZE - CLIENT_HEADER_LEN"
    and new: "creq_abs (reqs s) (fst (get_new_tid s)) = None" and alloc: "\<forall>n. e_alloc E n" "\<forall>n. e_calloc E n"
    and accepted: "e_send E (calls s)" and quiet: "\<forall>n. \<not> e_signal E n" "\<not> immediate_shutdown s"
    and polls: "cpolls s = replicate m (Some empty_poll) @ Some (message_poll j (enc_server_headers h @ data)) # rs"
    and j: "j < SERVER_NUM_RECV_BUFFS" and curr: "11 < curr_recv_buff (cctx s)"
    and h: "response h = response_val GET_RESPONSE" "rtid h = fst (get_new_tid s)"
    and len: "SERVER_HEADER_LEN + length data \<le> BUFFER_SIZE" "unat (rbuflen h) < length data"
    and n: "m + 3 \<le> n"
  shows "\<exists>s'. kv_get n E key s = Inr ((0, Some (next_block s)), s') \<and> client_ok s' \<and>
    blocks s' = (blocks s)(next_block s \<mapsto> answer h data) \<and> creq_abs (reqs s') = creq_abs (reqs s) \<and>
    num_pending_requests (reqs s') = num_pending_requests (reqs s) \<and>
    posted s' = posted s @ [Send (get_message (fst (get_new_tid s)) k)]"
  by (rule kv_get_answered [OF ok spare key new alloc accepted quiet polls j curr h len n])

theorem kv_get_returns_witness:
  "\<exists>s s'. kv_get 4 good_env (''k'' @ [NUL]) s = Inr ((0, Some 1), s') \<and> blocks s' 1 = Some (''v'' @ [NUL]) \<and>
     posted s' = [Send (get_message 9 ''k'')]"
proof -
  let ?h = "\<lparr>response = response_val GET_RESPONSE, rtid = 9, rkeylen = 1, rbuflen = 1, rkey_info = \<lparr>rkey = 0, raddr = 0\<rparr>\<rparr>"
  let ?s = "(connected [])\<lparr>cpolls := replicate 1 (Some empty_poll) @ Some (message_poll 0 (enc_server_headers ?h @ ''v'' @ [NUL])) # []\<rparr>"
  have ok: "client_ok ?s" using connected_ok [of "[]"] by (simp add: client_ok_def)
  have tid: "fst (get_new_tid ?s) = 9" using connected_tid [of "[]"] by (simp add: get_new_tid_def Let_def)
  have "0 < count_list (in_use_send (cctx ?s)) False" using connected_spare [of "[]"] by simp
  from kv_get_returns [OF ok this, of "''k'' @ [NUL]" "''k''" "[]" good_env 1 0 ?h "''v'' @ [NUL]" "[]" 4]
  obtain s' where "kv_get 4 good_env (''k'' @ [NUL]) ?s = Inr ((0, Some 1), s')"
      "blocks s' = (blocks ?s)(1 \<mapsto> answer ?h (''v'' @ [NUL]))" "posted s' = [Send (get_message 9 ''k'')]"
    using tid by (auto simp: connected_reqs)
  then show ?thesis by (intro exI [of _ ?s] exI [of _ s']) (simp add: answer_def)
qed

section \<open>Transfers\<close>

definition fin_message :: "16 word \<Rightarrow> byte list \<Rightarrow> byte list" where
  "fin_message t k = enc_client_headers (client_headers RDMA_FIN_CLIENT t (of_nat (length k)) 0) @ k"

text \<open>The state in which a send buffer is taken without a new transaction id.\<close>

abbreviation buffer_taken :: "client \<Rightarrow> nat \<Rightarrow> client" where
  "buffer_taken s i \<equiv> requested s i (last_used_tid s)"

lemma send_fin_ok:
  assumes ok: "client_ok s" and spare: "0 < send_ring.spare (cctx s)"
    and p: "get_client_pending_request (reqs s) t = Inr (Some p)" "creq_heap (reqs s) p = Some r"
    and key: "p_key r = Some (k @ NUL # kr)" "NUL \<notin> set k" "length k < BUFFER_SIZE - CLIENT_HEADER_LEN"
  obtains i where "i < SERVER_NUM_SEND_BUFFS" "\<not> in_use_send (cctx s) ! i"
    "client_send_rdma_fin E close s t =
      Inr (offered E (Send (fin_message t k)) (written (buffer_taken s i) i (fin_message t k)))"
    "ctx_wf (cctx (written (buffer_taken s i) i (fin_message t k)))"
    "get_free_send_idx (cctx s) = Inr (int i, (cctx s)\<lparr>last_used_send_buff := i\<rparr>)"
proof -
  have wf: "ctx_wf (cctx s)" using ok by (simp add: client_ok_def)
  obtain i where idx: "get_free_send_idx (cctx s) = Inr (int i, (cctx s)\<lparr>last_used_send_buff := i\<rparr>)"
    and i: "i < SERVER_NUM_SEND_BUFFS" "\<not> in_use_send (cctx s) ! i" "ctx_wf ((cctx s)\<lparr>last_used_send_buff := i\<rparr>)"
    by (rule free_send_idx_ok [OF wf spare])
  let ?r = "buffer_taken s i" and ?h = "client_headers RDMA_FIN_CLIENT t (of_nat (length k)) 0"
  let ?s4 = "written ?r i (fin_message t k)"
  have acq: "clift_ctx (acquire_send_buffer ((cctx s)\<lparr>last_used_send_buff := i\<rparr>) (int i))
      (s\<lparr>cctx := (cctx s)\<lparr>last_used_send_buff := i\<rparr>\<rparr>) = Inr ?r"
    using acquire_send_ok(1) [OF i(3,1)] by (simp add: clift_ctx_def requested_def)
  have wfr: "ctx_wf (cctx ?r)" by (rule requested_wf [OF wf i(1)])
  have w1: "put_send ?r (int i) 0 (enc_client_headers ?h) = Inr (written ?r i (enc_client_headers ?h))"
    by (rule put_send_first [OF wfr i(1)]) simp
  have w2: "put_send (written ?r i (enc_client_headers ?h)) (int i) CLIENT_HEADER_LEN k = Inr ?s4"
    unfolding fin_message_def by (rule put_send_next [OF wfr i(1)]) (use key(3) in simp_all)
  have holds: "holds ?s4 i (enc_client_headers ?h @ k)"
    using holds_written [OF wfr i(1), of "fin_message t k"] key(3) by (simp add: fin_message_def)
  have len: "unat (of_nat CLIENT_HEADER_LEN + of_nat (length k) :: 32 word) = CLIENT_HEADER_LEN + length k"
  proof -
    have "(of_nat CLIENT_HEADER_LEN + of_nat (length k) :: 32 word) = of_nat (CLIENT_HEADER_LEN + length k)"
      by (simp only: of_nat_add)
    then show ?thesis using key(3) by (simp add: unat_of_nat32 del: of_nat_add)
  qed
  have post: "client_post_send E close ?s4 (of_nat CLIENT_HEADER_LEN + of_nat (length k)) (int i) =
      Inr (e_send E (calls s), offered E (Send (fin_message t k)) ?s4)"
    using client_post_send_ok [OF holds _ _ len, of E close] ok by (simp add: fin_message_def client_ok_def)
  have ld: "cload (reqs ?r) (Some p) = Inr r" using p(2) by (simp add: cload_def)
  have tk: "take (length k) (k @ NUL # kr) = k" by simp
  have neg: "(int i < 0) = False" by simp
  have "client_send_rdma_fin E close s t = Inr (offered E (Send (fin_message t k)) ?s4)"
    unfolding client_send_rdma_fin_def p(1) bnd_simps idx prod.case Let_def neg if_False acq ld key(1)
      not_null_def option.case c_strlen_terminated [OF key(2)] w1 tk w2 client_headers_simps post by simp
  then show ?thesis
    using that [of i] i(1,2) idx written_wf [OF wfr i(1), of "fin_message t k"] key(3) by (simp add: fin_message_def)
qed

definition done_wc :: "wrid_kind \<Rightarrow> 16 word \<Rightarrow> ibv_wc" where
  "done_wc k t = \<lparr>wc_id = wr_value \<lparr>wr_id = ucast t, wr_type = wrid_val k\<rparr>, wc_success = True, wc_qp_num = 0\<rparr>"

lemma ucast_tid: "(ucast (ucast (t :: 16 word) :: 32 word) :: 16 word) = t"
  by (rule bit_word_eqI) (simp add: bit_ucast_iff)

lemma done_wc_info:
  "wc_success (done_wc k t)" "wr_type (wr_info (wc_id (done_wc k t))) = wrid_val k"
  "ucast (wr_id (wr_info (wc_id (done_wc k t)))) = t"
  by (simp_all add: done_wc_def wr_info_value ucast_tid)

text \<open>The completion of a write: the FIN goes out from the next free buffer, the request is forgotten.\<close>

lemma write_done_ok:
  assumes ok: "client_ok s" and spare: "0 < send_ring.spare (cctx s)" and r: "creq_abs (reqs s) t = Some r"
    and key: "p_key r = Some (k @ NUL # kz)" "NUL \<notin> set k" "length k < BUFFER_SIZE - CLIENT_HEADER_LEN"
  obtains i q where "i < SERVER_NUM_SEND_BUFFS" "\<not> in_use_send (cctx s) ! i"
    "client_completion E close (done_wc RDMA_WRITE_WRID t) s =
      Inr (True, (offered E (Send (fin_message t k)) (written (buffer_taken s i) i (fin_message t k)))\<lparr>reqs := q\<rparr>)"
    "ctx_wf (cctx (written (buffer_taken s i) i (fin_message t k)))"
    "get_free_send_idx (cctx s) = Inr (int i, (cctx s)\<lparr>last_used_send_buff := i\<rparr>)"
    "creq_inv q" "creq_abs q = (creq_abs (reqs s))(t := None)" "num_pending_requests q = num_pending_requests (reqs s) - 1"
proof -
  have inv: "creq_inv (reqs s)" using ok by (simp add: client_ok_def)
  obtain p where p: "get_client_pending_request (reqs s) t = Inr (Some p)" "creq_heap (reqs s) p = Some r" "p_tid r = uint t"
    using r by (cases rule: get_client_cases [OF inv, of t]) auto
  obtain i where i: "i < SERVER_NUM_SEND_BUFFS" "\<not> in_use_send (cctx s) ! i"
    "client_send_rdma_fin E close s t =
      Inr (offered E (Send (fin_message t k)) (written (buffer_taken s i) i (fin_message t k)))"
    "ctx_wf (cctx (written (buffer_taken s i) i (fin_message t k)))"
    "get_free_send_idx (cctx s) = Inr (int i, (cctx s)\<lparr>last_used_send_buff := i\<rparr>)"
    by (rule send_fin_ok [OF ok spare p(1,2) key])
  let ?s2 = "offered E (Send (fin_message t k)) (written (buffer_taken s i) i (fin_message t k))"
  have tid: "p_tid (r\<lparr>p_out_buf := None\<rparr>) = uint t" using p(3) by simp
  note st = cstore_ok [OF inv p(1) tid]
  obtain q where q: "remove_client_pending_request (cstore (reqs s) p (r\<lparr>p_out_buf := None\<rparr>)) t = Inr q" "creq_inv q"
    "creq_abs q = (creq_abs (cstore (reqs s) p (r\<lparr>p_out_buf := None\<rparr>)))(t := None)"
    "num_pending_requests q = num_pending_requests (cstore (reqs s) p (r\<lparr>p_out_buf := None\<rparr>)) -
      (if creq_abs (cstore (reqs s) p (r\<lparr>p_out_buf := None\<rparr>)) t = None then 0 else 1)"
    by (rule remove_client_ok [OF st(1)])
  have "client_completion E close (done_wc RDMA_WRITE_WRID t) s = Inr (True, ?s2\<lparr>reqs := q\<rparr>)"
    unfolding client_completion_def Let_def done_wc_info wrid_of_val option.case wrid_kind.case i(3)
    using done_wc_info(1) p q(1) by (simp add: cload_def clift_reqs_def)
  then show ?thesis using that i(1,2,4,5) q(2-4) st(2,3) by simp
qed

lemma rdma_set_run:
  assumes ok: "client_ok s" and spare: "0 < count_list (in_use_send (cctx s)) False"
    and r: "creq_abs (reqs s) t = Some (set_pending E s0 t k v len)" and k: "NUL \<notin> set k" "length k < BUFFER_SIZE - CLIENT_HEADER_LEN - 1"
    and j: "j < SERVER_NUM_RECV_BUFFS" and h: "response h = response_val RDMA_RKEY_SET" "rtid h = t"
    and accepted: "\<forall>n. e_send E n"
  shows "\<exists>s1 s2. client_handle_recv E close (received s j (enc_server_headers h)) (int j) = Inr s1 \<and>
    posted s1 = posted s @ [Rdma_write \<lparr>t_laddr = Some v, t_size = of_nat len, t_lkey = e_lkey E (cregs s0),
      t_raddr = raddr (rkey_info h), t_rkey = rkey (rkey_info h), t_tid = t\<rparr>] \<and> reqs s1 = reqs s \<and>
    client_completion E close (done_wc RDMA_WRITE_WRID t) s1 = Inr (True, s2) \<and>
    posted s2 = posted s1 @ [Send (fin_message t k)] \<and> creq_abs (reqs s2) = (creq_abs (reqs s))(t := None) \<and> client_ok s2"
proof -
  have inv: "creq_inv (reqs s)" and wf: "ctx_wf (cctx s)" and qp: "ctx_qp (cctx s) \<noteq> None"
    using ok by (simp_all add: client_ok_def)
  let ?r = "set_pending E s0 t k v len" and ?bs = "enc_server_headers h"
  obtain p where p: "get_client_pending_request (reqs s) t = Inr (Some p)" "creq_heap (reqs s) p = Some ?r"
    using r by (cases rule: get_client_cases [OF inv, of t]) auto
  let ?w = "Rdma_write \<lparr>t_laddr = Some v, t_size = of_nat len, t_lkey = e_lkey E (cregs s0),
      t_raddr = raddr (rkey_info h), t_rkey = rkey (rkey_info h), t_tid = t\<rparr>"
  let ?s1 = "offered E ?w (received s j ?bs)"
  have disp: "client_handle_recv E close (received s j ?bs) (int j) = client_handle_recv_rdma_rkey_set E (received s j ?bs) h"
    using recv_dispatch [OF wf j, of ?bs h "[]" RDMA_RKEY_SET E close] h(1) by simp
  have uc: "(ucast (of_nat len :: 64 word) :: 32 word) = of_nat len" by (rule bit_word_eqI) (simp add: bit_ucast_iff bit_of_nat_iff)
  have one: "client_handle_recv E close (received s j ?bs) (int j) = Inr ?s1"
    unfolding disp client_handle_recv_rdma_rkey_set_def using p h(2) post_work_ok [of "received s j ?bs" E ?w] qp uc
    by (simp add: cload_def not_null_def set_pending_def client_post_rdma_write_def)
  have ok1: "client_ok ?s1"
    using ok received_wf [OF wf j, of ?bs] by (simp add: client_ok_def)
  obtain kz where kz: "p_key ?r = Some (k @ NUL # kz)"
    using k(2) by (cases "CLIENT_REQUEST_PAYLOAD_LEN - length k") (auto simp: set_pending_def zeros_def)
  obtain i q where i: "client_completion E close (done_wc RDMA_WRITE_WRID t) ?s1 =
      Inr (True, (offered E (Send (fin_message t k)) (written (buffer_taken ?s1 i) i (fin_message t k)))\<lparr>reqs := q\<rparr>)"
    "ctx_wf (cctx (written (buffer_taken ?s1 i) i (fin_message t k)))" "creq_inv q"
    "creq_abs q = (creq_abs (reqs ?s1))(t := None)"
    by (rule write_done_ok [OF ok1 _ _ kz k(1), of t]) (use spare r k(2) in simp_all)
  let ?s2 = "(offered E (Send (fin_message t k)) (written (buffer_taken ?s1 i) i (fin_message t k)))\<lparr>reqs := q\<rparr>"
  have "client_ok ?s2" using i(2,3) qp by (simp add: client_ok_def)
  then show ?thesis using one i(1,4) accepted by (intro exI [of _ ?s1] exI [of _ ?s2]) simp
qed

text \<open>
  The transfer of a long SET: the announcement of the server makes the client write the
  registered value to the announced address; when the write is complete it sends the FIN with the
  transaction id and the key, and only then forgets the request.
\<close>

theorem rdma_set_transfer:
  assumes ok: "client_ok s" and spare: "0 < count_list (in_use_send (cctx s)) False"
    and r: "creq_abs (reqs s) t = Some (set_pending E s0 t k v len)" and k: "NUL \<notin> set k" "length k < BUFFER_SIZE - CLIENT_HEADER_LEN - 1"
    and j: "j < SERVER_NUM_RECV_BUFFS" and h: "response h = response_val RDMA_RKEY_SET" "rtid h = t"
    and accepted: "\<forall>n. e_send E n"
  shows "\<exists>s1 s2. client_handle_recv E close (received s j (enc_server_headers h)) (int j) = Inr s1 \<and>
    posted s1 = posted s @ [Rdma_write \<lparr>t_laddr = Some v, t_size = of_nat len, t_lkey = e_lkey E (cregs s0),
      t_raddr = raddr (rkey_info h), t_rkey = rkey (rkey_info h), t_tid = t\<rparr>] \<and> reqs s1 = reqs s \<and>
    client_completion E close (done_wc RDMA_WRITE_WRID t) s1 = Inr (True, s2) \<and>
    posted s2 = posted s1 @ [Send (fin_message t k)] \<and> creq_abs (reqs s2) = (creq_abs (reqs s))(t := None) \<and> client_ok s2"
  by (rule rdma_set_run [OF assms])

text \<open>A client that waits for the announcement of a buffer.\<close>

lemma announced_client:
  obtains s s0 where "client_ok s" "0 < send_ring.spare (cctx s)"
    "creq_abs (reqs s) 9 = Some (set_pending good_env s0 9 ''k'' 0 5000)" "posted s = []"
proof -
  let ?c = "connected []"
  obtain q where q: "kv_set_rdma good_env (''k'' @ NUL # []) (Some 0)
      (client_headers SET_REQUEST_OPCODE 9 (of_nat (length ''k'')) (of_nat 5000)) ?c =
        Inr (?c\<lparr>cregs := Suc (cregs ?c), reqs := q\<rparr>)" "creq_inv q"
    "creq_abs q = (creq_abs (reqs ?c))(9 \<mapsto> set_pending good_env ?c 9 ''k'' 0 5000)"
    by (rule kv_set_rdma_ok [OF connected_reqs(1), where E = good_env and t = 9 and k = "''k''" and kr = "[]" and len = 5000 and v = 0])
      (simp_all add: connected_reqs)
  let ?s = "?c\<lparr>reqs := q\<rparr>"
  have "client_ok ?s" using q(2) connected_ok [of "[]"] by (simp add: client_ok_def)
  moreover have "0 < send_ring.spare (cctx ?s)" using connected_spare [of "[]"] by simp
  moreover have "creq_abs (reqs ?s) 9 = Some (set_pending good_env ?c 9 ''k'' 0 5000)" using q(3) by simp
  ultimately show ?thesis using that [of ?s ?c] by simp
qed

theorem rdma_set_transfer_witness:
  "\<exists>s h s1 s2 w. client_handle_recv good_env (\<lambda>s. Inl (Exit 7)) (received s 0 (enc_server_headers h)) 0 = Inr s1 \<and>
     posted s1 = [Rdma_write w] \<and> t_size w = 5000 \<and>
     client_completion good_env (\<lambda>s. Inl (Exit 7)) (done_wc RDMA_WRITE_WRID 9) s1 = Inr (True, s2) \<and>
     posted s2 = [Rdma_write w, Send (fin_message 9 ''k'')] \<and> creq_abs (reqs s2) 9 = None"
proof (rule announced_client)
  fix s s0
  assume s: "client_ok s" "0 < send_ring.spare (cctx s)" "creq_abs (reqs s) 9 = Some (set_pending good_env s0 9 ''k'' 0 5000)"
    "posted s = []"
  let ?h = "\<lparr>response = response_val RDMA_RKEY_SET, rtid = 9, rkeylen = 1, rbuflen = 5000, rkey_info = \<lparr>rkey = 3, raddr = 8\<rparr>\<rparr>"
  obtain s1 s2 where r: "client_handle_recv good_env (\<lambda>s. Inl (Exit 7)) (received s 0 (enc_server_headers ?h)) 0 = Inr s1"
    "posted s1 = [Rdma_write \<lparr>t_laddr = Some 0, t_size = 5000, t_lkey = e_lkey good_env (cregs s0), t_raddr = 8, t_rkey = 3, t_tid = 9\<rparr>]"
    "client_completion good_env (\<lambda>s. Inl (Exit 7)) (done_wc RDMA_WRITE_WRID 9) s1 = Inr (True, s2)"
    "posted s2 = posted s1 @ [Send (fin_message 9 ''k'')]" "creq_abs (reqs s2) = (creq_abs (reqs s))(9 := None)"
    using rdma_set_transfer [OF s(1-3), of 0 ?h "\<lambda>s. Inl (Exit 7)"] s(4) by auto
  show ?thesis
    by (rule exI [of _ s], rule exI [of _ ?h], rule exI [of _ s1], rule exI [of _ s2],
        rule exI [of _ "\<lparr>t_laddr = Some 0, t_size = 5000, t_lkey = e_lkey good_env (cregs s0), t_raddr = 8, t_rkey = 3, t_tid = 9\<rparr>"])
      (use r in simp)
qed

lemma post_read_ok:
  assumes "ctx_qp (cctx s) \<noteq> None"
  shows "client_post_rdma_read E s x = Inr (e_send E (calls s), offered E (Rdma_read x) s)"
  using post_work_ok [OF assms] by (simp add: client_post_rdma_read_def)

text \<open>The request, the transfer and the state after the announcement of a long value.\<close>

definition reading :: "client_env \<Rightarrow> client \<Rightarrow> server_response_headers_t \<Rightarrow> byte list \<Rightarrow> client_pending_request" where
  "reading E s h k =
     (get_pending (rtid h) k)\<lparr>p_in_buf := Some (next_block s),
       p_mr := Some \<lparr>m_addr = Some (next_block s), m_len = rbuflen h + 1, m_lkey = e_lkey E (cregs s)\<rparr>,
       p_opcode := opcode_val RDMA_GET_REQUEST_OPCODE\<rparr>"

definition fetch :: "client_env \<Rightarrow> client \<Rightarrow> server_response_headers_t \<Rightarrow> transfer" where
  "fetch E s h =
     \<lparr>t_laddr = Some (next_block s), t_size = ucast (rbuflen h), t_lkey = e_lkey E (cregs s),
      t_raddr = raddr (rkey_info h), t_rkey = rkey (rkey_info h), t_tid = rtid h\<rparr>"

definition fetching :: "client_env \<Rightarrow> client \<Rightarrow> nat \<Rightarrow> server_response_headers_t \<Rightarrow> ptr \<Rightarrow> byte list \<Rightarrow> client" where
  "fetching E s j h p k =
     offered E (Rdma_read (fetch E s h)) ((received s j (enc_server_headers h))\<lparr>
       blocks := (blocks s)(next_block s \<mapsto> zeros (Suc (unat (rbuflen h)))), next_block := Suc (next_block s),
       cregs := Suc (cregs s), reqs := cstore (reqs s) p (reading E s h k)\<rparr>)"

lemma fetching_simps [simp]:
  "posted (fetching E s j h p k) = posted s @ (if e_send E (calls s) then [Rdma_read (fetch E s h)] else [])"
  "blocks (fetching E s j h p k) = (blocks s)(next_block s \<mapsto> zeros (Suc (unat (rbuflen h))))"
  "reqs (fetching E s j h p k) = cstore (reqs s) p (reading E s h k)" "calls (fetching E s j h p k) = Suc (calls s)"
  "cctx (fetching E s j h p k) = cctx (received s j (enc_server_headers h))" "cpolls (fetching E s j h p k) = cpolls s"
  "immediate_shutdown (fetching E s j h p k) = immediate_shutdown s"
  by (simp_all add: fetching_def)

lemma rdma_get_announced:
  assumes ok: "client_ok s" and p: "get_client_pending_request (reqs s) (rtid h) = Inr (Some p)"
      "creq_heap (reqs s) p = Some (get_pending (rtid h) k)"
    and j: "j < SERVER_NUM_RECV_BUFFS" and h: "response h = response_val RDMA_RKEY_GET" "unat (rbuflen h) + 1 < 2 ^ 64"
    and alloc: "\<forall>n. e_calloc E n" "e_reg E (cregs s)"
  shows "client_handle_recv E close (received s j (enc_server_headers h)) (int j) = Inr (fetching E s j h p k)"
    "client_ok (fetching E s j h p k)"
    "creq_abs (reqs (fetching E s j h p k)) = (creq_abs (reqs s))(rtid h \<mapsto> reading E s h k)"
    "get_client_pending_request (reqs (fetching E s j h p k)) (rtid h) = Inr (Some p)"
    "creq_heap (reqs (fetching E s j h p k)) p = Some (reading E s h k)"
proof -
  have inv: "creq_inv (reqs s)" and wf: "ctx_wf (cctx s)" and qp: "ctx_qp (cctx s) \<noteq> None"
    using ok by (simp_all add: client_ok_def)
  let ?bs = "enc_server_headers h"
  have n: "unat (rbuflen h + 1) = Suc (unat (rbuflen h))" using h(2) by (rule unat_plus_1_64)
  have disp: "client_handle_recv E close (received s j ?bs) (int j) = client_handle_recv_rdma_rkey_get E (received s j ?bs) h"
    using recv_dispatch [OF wf j, of ?bs h "[]" RDMA_RKEY_GET E close] h(1) by simp
  show "client_handle_recv E close (received s j ?bs) (int j) = Inr (fetching E s j h p k)"
    unfolding disp client_handle_recv_rdma_rkey_get_def
    using p post_read_ok [of "(received s j ?bs)\<lparr>blocks := (blocks s)(next_block s \<mapsto> zeros (Suc (unat (rbuflen h)))),
        next_block := Suc (next_block s), cregs := Suc (cregs s), reqs := cstore (reqs s) p (reading E s h k)\<rparr>" E "fetch E s h"] qp alloc
    by (simp add: calloc_block_def reg_block_def cload_def not_null_def cupdate_def n Let_def fetching_def reading_def fetch_def)
  have tid: "p_tid (reading E s h k) = uint (rtid h)" by (simp add: reading_def get_pending_def)
  note st = cstore_ok [OF inv p(1) tid]
  show "client_ok (fetching E s j h p k)" using ok received_wf [OF wf j, of ?bs] st(1) by (simp add: client_ok_def)
  show "creq_abs (reqs (fetching E s j h p k)) = (creq_abs (reqs s))(rtid h \<mapsto> reading E s h k)" using st(2) by simp
  show "get_client_pending_request (reqs (fetching E s j h p k)) (rtid h) = Inr (Some p)" using st(4) p(1) by simp
  show "creq_heap (reqs (fetching E s j h p k)) p = Some (reading E s h k)" by (simp add: cstore_def)
qed

lemma reading_key:
  assumes "length k < BUFFER_SIZE - CLIENT_HEADER_LEN - 1"
  obtains kz where "p_key (reading E s h k) = Some (k @ NUL # kz)"
  using assms by (cases "CLIENT_REQUEST_PAYLOAD_LEN - length k") (auto simp: reading_def get_pending_def zeros_def)

text \<open>The completion of the read ends the wait and sends the FIN.\<close>

lemma rdma_get_completed:
  assumes ok: "client_ok s" and spare: "0 < send_ring.spare (cctx s)"
    and p: "get_client_pending_request (reqs s) t = Inr (Some p)" "creq_heap (reqs s) p = Some r" "p_tid r = uint t"
    and key: "p_key r = Some (k @ NUL # kz)" "NUL \<notin> set k" "length k < BUFFER_SIZE - CLIENT_HEADER_LEN"
  obtains s' where "client_completion E close (done_wc RDMA_READ_WRID t) s = Inr (True, s')"
    "posted s' = posted s @ (if e_send E (calls s) then [Send (fin_message t k)] else [])" "client_ok s'"
    "reqs s' = cstore (reqs s) p (r\<lparr>p_pending := False\<rparr>)" "blocks s' = blocks s"
    "creq_abs (reqs s') = (creq_abs (reqs s))(t \<mapsto> r\<lparr>p_pending := False\<rparr>)"
proof -
  have inv: "creq_inv (reqs s)" using ok by (simp add: client_ok_def)
  obtain i where i: "i < SERVER_NUM_SEND_BUFFS"
    "client_send_rdma_fin E close s t =
      Inr (offered E (Send (fin_message t k)) (written (buffer_taken s i) i (fin_message t k)))"
    "ctx_wf (cctx (written (buffer_taken s i) i (fin_message t k)))"
    by (rule send_fin_ok [OF ok spare p(1,2) key])
  let ?s2 = "offered E (Send (fin_message t k)) (written (buffer_taken s i) i (fin_message t k))" and ?r2 = "r\<lparr>p_pending := False\<rparr>"
  have tid: "p_tid ?r2 = uint t" using p(3) by simp
  note st = cstore_ok [OF inv p(1) tid]
  have "client_completion E close (done_wc RDMA_READ_WRID t) s = Inr (True, cupdate ?s2 p ?r2)"
    unfolding client_completion_def Let_def done_wc_info wrid_of_val option.case wrid_kind.case i(2)
    using done_wc_info(1) p(1,2) by (simp add: cload_def)
  moreover have "client_ok (cupdate ?s2 p ?r2)" using i(3) st(1) ok by (simp add: client_ok_def cupdate_def)
  ultimately show ?thesis using that [of "cupdate ?s2 p ?r2"] st(2) by (simp add: cupdate_def)
qed

text \<open>
  The transfer of a long GET: the announcement makes the client allocate and register a block
  of the announced length and one byte more, which stays zero, and read the value into it; when
  the read is complete it sends the FIN, and the caller's wait is over.
\<close>

theorem rdma_get_transfer:
  assumes ok: "client_ok s" and spare: "0 < count_list (in_use_send (cctx s)) False"
    and r: "creq_abs (reqs s) t = Some (get_pending t k)" and k: "NUL \<notin> set k" "length k < BUFFER_SIZE - CLIENT_HEADER_LEN - 1"
    and j: "j < SERVER_NUM_RECV_BUFFS" and h: "response h = response_val RDMA_RKEY_GET" "rtid h = t" "unat (rbuflen h) + 1 < 2 ^ 64"
    and alloc: "\<forall>n. e_calloc E n" "e_reg E (cregs s)" and accepted: "\<forall>n. e_send E n"
  shows "\<exists>s1 s2 r2. client_handle_recv E close (received s j (enc_server_headers h)) (int j) = Inr s1 \<and>
    posted s1 = posted s @ [Rdma_read \<lparr>t_laddr = Some (next_block s), t_size = ucast (rbuflen h), t_lkey = e_lkey E (cregs s),
      t_raddr = raddr (rkey_info h), t_rkey = rkey (rkey_info h), t_tid = t\<rparr>] \<and>
    blocks s1 = (blocks s)(next_block s \<mapsto> zeros (Suc (unat (rbuflen h)))) \<and>
    client_completion E close (done_wc RDMA_READ_WRID t) s1 = Inr (True, s2) \<and>
    posted s2 = posted s1 @ [Send (fin_message t k)] \<and> client_ok s2 \<and>
    creq_abs (reqs s2) = (creq_abs (reqs s))(t \<mapsto> r2) \<and> p_in_buf r2 = Some (next_block s) \<and> \<not> p_pending r2"
proof -
  have inv: "creq_inv (reqs s)" using ok by (simp add: client_ok_def)
  obtain p where p: "get_client_pending_request (reqs s) (rtid h) = Inr (Some p)" "creq_heap (reqs s) p = Some (get_pending (rtid h) k)"
    using r h(2) by (cases rule: get_client_cases [OF inv, of t]) auto
  note a = rdma_get_announced [OF ok p j h(1,3) alloc]
  obtain kz where kz: "p_key (reading E s h k) = Some (k @ NUL # kz)" by (rule reading_key [OF k(2)])
  have tid: "p_tid (reading E s h k) = uint (rtid h)" by (simp add: reading_def get_pending_def)
  have sp: "0 < send_ring.spare (cctx (fetching E s j h p k))" and lk: "length k < BUFFER_SIZE - CLIENT_HEADER_LEN" using spare k(2) by simp_all
  obtain s2 where s2: "client_completion E close (done_wc RDMA_READ_WRID (rtid h)) (fetching E s j h p k) = Inr (True, s2)"
    "posted s2 = posted (fetching E s j h p k) @
       (if e_send E (calls (fetching E s j h p k)) then [Send (fin_message (rtid h) k)] else [])" "client_ok s2"
    "creq_abs (reqs s2) = (creq_abs (reqs (fetching E s j h p k)))(rtid h \<mapsto> (reading E s h k)\<lparr>p_pending := False\<rparr>)"
    by (rule rdma_get_completed [OF a(2) sp a(4,5) tid kz k(1) lk])
  show ?thesis
    using a(1) s2 a(3) accepted h(2)
    by (intro exI [of _ "fetching E s j h p k"] exI [of _ s2] exI [of _ "(reading E s h k)\<lparr>p_pending := False\<rparr>"])
      (simp add: fetch_def reading_def)
qed

lemma getting_client:
  obtains s where "client_ok s" "0 < send_ring.spare (cctx s)" "creq_abs (reqs s) 9 = Some (get_pending 9 ''k'')"
    "next_block s = 1" "cregs s = 0"
proof -
  let ?c = "connected []"
  obtain q' p where q': "creq_inv q'" "get_client_pending_request q' 9 = Inr (Some p)"
    by (rule add_request_ok [of "reqs ?c" 9 "\<lambda>_. True"]) (simp_all add: connected_reqs)
  let ?q = "cstore q' p (get_pending 9 ''k'')"
  have q: "creq_inv ?q" "creq_abs ?q = (creq_abs q')(9 \<mapsto> get_pending 9 ''k'')"
    using cstore_ok [OF q', of "get_pending 9 ''k''"] by (simp_all add: get_pending_def)
  have "client_ok (?c\<lparr>reqs := ?q\<rparr>)" using q(1) connected_ok [of "[]"] by (simp add: client_ok_def)
  moreover have "0 < send_ring.spare (cctx (?c\<lparr>reqs := ?q\<rparr>))" using connected_spare [of "[]"] by simp
  ultimately show ?thesis using that [of "?c\<lparr>reqs := ?q\<rparr>"] q(2) by simp
qed

theorem rdma_get_transfer_witness:
  "\<exists>s h s1 s2 w. client_handle_recv good_env (\<lambda>s. Inl (Exit 7)) (received s 0 (enc_server_headers h)) 0 = Inr s1 \<and>
     posted s1 = posted s @ [Rdma_read w] \<and> t_size w = 5000 \<and> blocks s1 1 = Some (zeros 5001) \<and>
     client_completion good_env (\<lambda>s. Inl (Exit 7)) (done_wc RDMA_READ_WRID 9) s1 = Inr (True, s2) \<and>
     posted s2 = posted s1 @ [Send (fin_message 9 ''k'')]"
proof (rule getting_client)
  fix s
  assume s: "client_ok s" "0 < send_ring.spare (cctx s)" "creq_abs (reqs s) 9 = Some (get_pending 9 ''k'')"
    "next_block s = 1" "cregs s = 0"
  let ?h = "\<lparr>response = response_val RDMA_RKEY_GET, rtid = 9, rkeylen = 1, rbuflen = 5000, rkey_info = \<lparr>rkey = 3, raddr = 8\<rparr>\<rparr>"
  let ?w = "\<lparr>t_laddr = Some 1, t_size = 5000, t_lkey = e_lkey good_env 0, t_raddr = 8, t_rkey = 3, t_tid = 9\<rparr>"
  obtain s1 s2 where r: "client_handle_recv good_env (\<lambda>s. Inl (Exit 7)) (received s 0 (enc_server_headers ?h)) 0 = Inr s1"
    "posted s1 = posted s @ [Rdma_read ?w]" "blocks s1 = (blocks s)(1 \<mapsto> zeros 5001)"
    "client_completion good_env (\<lambda>s. Inl (Exit 7)) (done_wc RDMA_READ_WRID 9) s1 = Inr (True, s2)"
    "posted s2 = posted s1 @ [Send (fin_message 9 ''k'')]"
    using rdma_get_transfer [OF s(1-3), of 0 ?h good_env "\<lambda>s. Inl (Exit 7)"] s(4,5) by auto
  show ?thesis
    by (rule exI [of _ s], rule exI [of _ ?h], rule exI [of _ s1], rule exI [of _ s2], rule exI [of _ ?w])
      (use r in simp)
qed

section \<open>What goes wrong\<close>

text \<open>
  C38: an answer for a transaction id that is not pending, which only the server's honesty excludes,
  crashes the client.
\<close>

theorem unknown_answer_crashes:
  assumes "client_ok s" and "creq_abs (reqs s) (rtid h) = None" and "j < SERVER_NUM_RECV_BUFFS"
    and "response h = response_val GET_RESPONSE" and "SERVER_HEADER_LEN + length data \<le> BUFFER_SIZE"
    and "unat (rbuflen h) < length data" and "\<forall>n. e_calloc E n"
  shows "client_handle_recv E close (received s j (enc_server_headers h @ data)) (int j) = Inl (UB Null_deref)"
proof -
  let ?bs = "enc_server_headers h @ data"
  have wf: "ctx_wf (cctx s)" and inv: "creq_inv (reqs s)" using assms(1) by (simp_all add: client_ok_def)
  have len: "length ?bs \<le> BUFFER_SIZE" using assms(5) by simp
  have disp: "client_handle_recv E close (received s j ?bs) (int j) =
      client_handle_get_response E (received s j ?bs) h (get_recv_buffer j + SERVER_HEADER_LEN)"
    using recv_dispatch [OF wf assms(3) refl len assms(4), of E close] by simp
  have none: "get_client_pending_request (reqs s) (rtid h) = Inr None"
    using assms(2) by (cases rule: get_client_cases [OF inv, of "rtid h"]) auto
  have small: "unat (rbuflen h) < BUFFER_SIZE" using assms(5,6) by simp
  have n: "unat (rbuflen h + 1) = Suc (unat (rbuflen h))" using small by (intro unat_plus_1_64) simp
  have "mem_read (in_buf (cctx (received s j ?bs))) (get_recv_buffer j + SERVER_HEADER_LEN) (Suc (unat (rbuflen h))) =
      Inr (take (Suc (unat (rbuflen h))) data)"
    using received_read [OF wf assms(3) len, of SERVER_HEADER_LEN "Suc (unat (rbuflen h))"] assms(6) by simp
  then show ?thesis unfolding disp using none assms(7)
    by (simp add: client_handle_get_response_def calloc_block_def Let_def not_null_def n cload_def)
qed

theorem unknown_answer_crashes_witness:
  "client_handle_recv good_env (\<lambda>s. Inl (Exit 7)) (received (connected []) 0 (enc_server_headers
     \<lparr>response = response_val GET_RESPONSE, rtid = 77, rkeylen = 1, rbuflen = 1, rkey_info = \<lparr>rkey = 0, raddr = 0\<rparr>\<rparr> @ ''v'' @ [NUL])) (int 0) =
   Inl (UB Null_deref)"
  by (rule unknown_answer_crashes [OF connected_ok]) (simp_all add: connected_reqs)

end
