(* ===== verification/Client_Start.thy ===== *)
theory Client_Start
  imports Client_Get
begin

text \<open>
  Opening of the client: the posting of receive buffers and the connection to a server that
  answers.
\<close>

section \<open>Posting receives\<close>

lemma client_post_recv_loop_ok:
  assumes "ctx_wf (cctx s)" and "ctx_qp (cctx s) \<noteq> None" and "\<forall>m. e_recv E m"
  obtains s' where
    "client_post_recv_loop n E s k = Inr (k + int (min n (recv_ring.spare (cctx s))), s')"
    "ctx_wf (cctx s')" "ctx_qp (cctx s') = ctx_qp (cctx s)" "reqs s' = reqs s" "posted s' = posted s"
    "recv_ring.spare (cctx s') = recv_ring.spare (cctx s) - min n (recv_ring.spare (cctx s))"
    "in_use_send (cctx s') = in_use_send (cctx s)" "max_recv_buff (cctx s') = max_recv_buff (cctx s)"
    "curr_recv_buff (cctx s') = curr_recv_buff (cctx s)" "immediate_shutdown s' = immediate_shutdown s"
    "sockfd_client s' = sockfd_client s" "last_used_tid s' = last_used_tid s" "blocks s' = blocks s" "cpolls s' = cpolls s" "cfds s' = cfds s" "next_block s' = next_block s" "other_blocks s' = other_blocks s"
  using assms
proof (induction n arbitrary: s k thesis)
  case 0
  then show ?case by simp
next
  case (Suc n)
  note wf = Suc.prems(2) and qp = Suc.prems(3) and ok = Suc.prems(4)
  from wf show ?case
  proof (cases rule: recv_ring.pick_cases)
    case full
    then show ?thesis using Suc.prems(1) [of s] wf qp by simp
  next
    case (slot i c)
    have i: "i < SERVER_NUM_RECV_BUFFS" using slot(3) wf by (simp add: ctx_wf_def)
    have c: "c = (cctx s)\<lparr>last_used_recv_buff := i\<rparr>"
      using slot(2) wf by (auto simp: get_free_recv_idx_eq split: option.splits)
    let ?m = "splice (in_buf c) (get_recv_buffer i) (zeros BUFFER_SIZE)"
    let ?s2 = "ctick (s\<lparr>cctx := c\<lparr>in_buf := ?m\<rparr>\<rparr>)"
    let ?s3 = "?s2\<lparr>cctx := c\<lparr>in_buf := ?m, in_use_recv := (in_use_recv c)[i := True]\<rparr>\<rparr>"
    have room: "get_recv_buffer i + BUFFER_SIZE \<le> length (in_buf c)"
      using slot(6) i by (simp add: ctx_wf_def get_recv_buffer_def)
    have post: "client_post_recv E (s\<lparr>cctx := c\<rparr>) (int i) = Inr (True, ?s2)"
      using room qp ok c by (auto simp: client_post_recv_def mem_write_def not_null_def)
    have acq: "clift_ctx (acquire_receive_buffer (cctx ?s2) (int i)) ?s2 = Inr ?s3"
      using i slot(6) by (simp add: clift_ctx_def flag_ops ctick_def ctx_wf_def)
    have wf3: "ctx_wf (cctx ?s3)" using slot(6) i by (simp add: ctx_wf_def get_recv_buffer_def)
    have spare: "recv_ring.spare (cctx s) = Suc (recv_ring.spare (cctx ?s3))"
      using count_list_update [of i "in_use_recv c" True False] slot(3-5) by simp
    have s3: "ctx_qp (cctx ?s3) = ctx_qp (cctx s)" "reqs ?s3 = reqs s" "posted ?s3 = posted s"
      "in_use_send (cctx ?s3) = in_use_send (cctx s)" "max_recv_buff (cctx ?s3) = max_recv_buff (cctx s)"
      "curr_recv_buff (cctx ?s3) = curr_recv_buff (cctx s)" "immediate_shutdown ?s3 = immediate_shutdown s"
      "sockfd_client ?s3 = sockfd_client s" "last_used_tid ?s3 = last_used_tid s" "blocks ?s3 = blocks s" "cpolls ?s3 = cpolls s" "cfds ?s3 = cfds s"
      "next_block ?s3 = next_block s" "other_blocks ?s3 = other_blocks s"
      using c by (simp_all add: ctick_def)
    have qp3: "ctx_qp (cctx ?s3) \<noteq> None" using s3(1) qp by simp
    obtain s' where s':
      "client_post_recv_loop n E ?s3 (k + 1) = Inr (k + 1 + int (min n (recv_ring.spare (cctx ?s3))), s')"
      "ctx_wf (cctx s')" "ctx_qp (cctx s') = ctx_qp (cctx ?s3)" "reqs s' = reqs ?s3" "posted s' = posted ?s3"
      "recv_ring.spare (cctx s') = recv_ring.spare (cctx ?s3) - min n (recv_ring.spare (cctx ?s3))"
      "in_use_send (cctx s') = in_use_send (cctx ?s3)" "max_recv_buff (cctx s') = max_recv_buff (cctx ?s3)"
      "curr_recv_buff (cctx s') = curr_recv_buff (cctx ?s3)" "immediate_shutdown s' = immediate_shutdown ?s3"
      "sockfd_client s' = sockfd_client ?s3" "last_used_tid s' = last_used_tid ?s3" "blocks s' = blocks ?s3" "cpolls s' = cpolls ?s3" "cfds s' = cfds ?s3"
      "next_block s' = next_block ?s3" "other_blocks s' = other_blocks ?s3"
      by (rule Suc.IH [OF _ wf3 qp3 ok])
    have "client_post_recv_loop (Suc n) E s k = client_post_recv_loop n E ?s3 (k + 1)"
      using slot(2) post acq by simp
    then show ?thesis
      using Suc.prems(1) [of s'] s' spare s3 by simp
  qed
qed

section \<open>Opening\<close>

lemma read_all_one: "0 < j \<Longrightarrow> need \<le> j \<Longrightarrow> 0 < need \<Longrightarrow> read_all need (j # js) 0 = Inr True"
  by (simp add: read_all.simps [of need "j # js"] read_all.simps [of need js])

lemma connect_first:
  assumes "\<forall>n. \<not> e_signal E n" and "\<not> immediate_shutdown s" and "sockfd_client s = - 1" and "0 \<le> fd"
  shows "connect_loop E close ((fd, True) # as) s = Inr ((ctick s)\<lparr>sockfd_client := fd, cfds := fd # cfds s\<rparr>)"
  using assms check_quiet [OF assms(1,2)]
  by (subst connect_loop.simps) (simp add: ctick_def)

lemma psn_bits: "x AND 0xffffff = take_bit 24 x" for x :: "32 word"
  by (simp add: take_bit_eq_mask mask_eq_exp_minus_1)

definition all_connects :: "open_calls \<Rightarrow> int \<Rightarrow> bool" where
  "all_connects C fd \<longleftrightarrow> o_devices C \<and> o_device C \<and> all_acquired (o_ctx C) \<and> o_page C = 4096 \<and> o_port C \<and> o_lid C \<noteq> 0 \<and>
     (\<forall>qp a. o_rtr C qp a) \<and> (\<forall>qp p. o_rts C qp p) \<and> x_service (o_exch C) \<and> x_print (o_exch C) \<and> x_addr (o_exch C) \<and>
     x_single (o_exch C) \<and> (\<exists>as. x_attempts (o_exch C) = (fd, True) # as) \<and> 0 \<le> fd \<and> x_write (o_exch C) \<and>
     (\<exists>js. x_reads (o_exch C) = 57 # js) \<and> x_calloc (o_exch C)"

lemma kv_open_run:
  assumes "all_connects C fd" and "server_msg old number d (gid_to_wire_gid (gid d)) = Inr (x_msg (o_exch C))"
    and "dest_ok d" and "length (x_gid (o_exch C)) = 33" and "unat number < 2 ^ 16"
    and "\<forall>m. e_recv E m" and "\<forall>m. e_alloc E m" and "\<forall>m. \<not> e_signal E m" and "unat (qp_num (the_qp (o_ctx C))) < 2 ^ 24"
  obtains s where "kv_open n E C (client_start\<lparr>cpolls := ps\<rparr>) = Inr s" "client_ok s" "creq_abs (reqs s) = Map.empty"
    "num_pending_requests (reqs s) = 1" "count_list (in_use_recv (cctx s)) False = 0"
    "curr_recv_buff (cctx s) = int SERVER_NUM_RECV_BUFFS" "last_used_tid s = last_used_tid (set_client_id (int (unat number)) client_start)"
    "client_id s = int (unat number)" "sockfd_client s = fd" "cfds s = [fd]" "cpolls s = ps" "posted s = []"
    "immediate_shutdown s = False" "in_use_send (cctx s) = replicate SERVER_NUM_SEND_BUFFS False" "blocks s = Map.empty" "next_block s = 1"
    "other_blocks s = {0}"
proof -
  let ?X = "o_exch C"
  obtain as js where C: "o_devices C" "o_device C" "all_acquired (o_ctx C)" "o_page C = 4096" "o_port C" "o_lid C \<noteq> 0"
    "\<forall>qp a. o_rtr C qp a" "\<forall>qp p. o_rts C qp p" "x_service ?X" "x_print ?X" "x_addr ?X" "x_single ?X"
    "x_attempts ?X = (fd, True) # as" "0 \<le> fd" "x_write ?X" "x_reads ?X = 57 # js" "x_calloc ?X"
    using assms(1) by (auto simp: all_connects_def)
  let ?c = "blank_context\<lparr>curr_recv_buff := int SERVER_NUM_RECV_BUFFS, ctx_qp := Some (the_qp (o_ctx C)),
       max_inline_data := qp_inline (o_ctx C)\<rparr>"
  have ctx: "fst (client_init_ctx (o_ctx C) (o_page C) (SERVER_NUM_RECV_BUFFS * BUFFER_SIZE) (SERVER_NUM_SEND_BUFFS * BUFFER_SIZE)
     (int SERVER_NUM_RECV_BUFFS) False) = Some ?c"
    by (rule client_init_ctx_blank [OF C(3,4)])
  let ?z = "client_start\<lparr>cpolls := ps\<rparr>"
  let ?s = "?z\<lparr>cctx := ?c\<rparr>"
  have wf: "ctx_wf (cctx ?s)" "ctx_qp (cctx ?s) \<noteq> None" using ctx_wf_blank by (simp_all add: ctx_wf_def)
  have spare: "recv_ring.spare (cctx ?s) = SERVER_NUM_RECV_BUFFS" by simp
  have maxc: "max_recv_buff ?c = int SERVER_NUM_RECV_BUFFS" by (simp add: blank_context_def)
  obtain s1 where s1: "client_post_recv_loop SERVER_NUM_RECV_BUFFS E ?s 0 =
      Inr (0 + int (min SERVER_NUM_RECV_BUFFS (recv_ring.spare (cctx ?s))), s1)"
    "ctx_wf (cctx s1)" "ctx_qp (cctx s1) = ctx_qp (cctx ?s)" "reqs s1 = reqs ?s" "posted s1 = posted ?s"
    "recv_ring.spare (cctx s1) = recv_ring.spare (cctx ?s) - min SERVER_NUM_RECV_BUFFS (recv_ring.spare (cctx ?s))"
    "in_use_send (cctx s1) = in_use_send (cctx ?s)" "max_recv_buff (cctx s1) = max_recv_buff (cctx ?s)"
    "curr_recv_buff (cctx s1) = curr_recv_buff (cctx ?s)" "immediate_shutdown s1 = immediate_shutdown ?s"
    "sockfd_client s1 = sockfd_client ?s" "last_used_tid s1 = last_used_tid ?s" "blocks s1 = blocks ?s"
    "cpolls s1 = cpolls ?s" "cfds s1 = cfds ?s" "next_block s1 = next_block ?s" "other_blocks s1 = other_blocks ?s"
    by (rule client_post_recv_loop_ok [OF wf assms(6)])
  have post: "client_post_recv_buffers E ?s (max_recv_buff ?c) = Inr (int SERVER_NUM_RECV_BUFFS, s1)"
    using s1(1) spare unfolding maxc by (simp add: client_post_recv_buffers_def)
  let ?s2 = "s1\<lparr>cctx := (cctx s1)\<lparr>curr_recv_buff := int SERVER_NUM_RECV_BUFFS\<rparr>\<rparr>"
  have max2: "max_recv_buff (cctx ?s2) = int SERVER_NUM_RECV_BUFFS" using s1(8) maxc by simp
  have lid: "unat (ucast (o_lid C) :: 32 word) < 2 ^ 16"
    using unsigned_less [of "o_lid C", where 'a = nat] by (simp add: unsigned_ucast_eq take_bit_nat_eq_self)
  let ?d = "\<lparr>lid = ucast (o_lid C), qpn = qp_num (the_qp (o_ctx C)), psn = o_lrand C AND 0xffffff, gid = zeros 16\<rparr>"
  have psn: "unat (o_lrand C AND 0xffffff :: 32 word) < 2 ^ 24"
    unfolding psn_bits by (simp add: unsigned_take_bit_eq take_bit_nat_less_exp [where n = 24, simplified])
  have dok: "dest_ok ?d" using lid psn assms(9) by (simp add: dest_ok_def)
  obtain m where m: "client_msg (x_old ?X) ?d = Inr m"
    by (rule client_msg_scanned [OF dok, of "zeros 33"]) simp_all
  have scan: "scan_server_msg (x_gid ?X) (x_word ?X) (x_number ?X) (x_msg ?X) = Inr (number, d)"
    using server_msg_scanned [OF assms(3-5), of old "x_word ?X" "x_number ?X"] assms(2) by auto
  let ?s3 = "(ctick ?s2)\<lparr>sockfd_client := fd, cfds := fd # cfds ?s2\<rparr>"
  let ?s3' = "snd (new_other ?s3)"
  let ?s4 = "set_client_id (sint number) ?s3'"
  have s2: "\<not> immediate_shutdown ?s2" "sockfd_client ?s2 = - 1"
    using s1(10,11) by (simp_all add: client_start_def)
  have conn: "connect_loop E (kv_close n E) ((fd, True) # as) ?s2 = Inr ?s3"
    using connect_first [OF assms(8) s2 C(14)] by (simp add: ctick_def)
  have exch: "client_exch_dest E (kv_close n E) ?X ?d ?s2 = Inr (Some (fst (new_other ?s3), d), ?s4)"
    using C(9-17) m scan conn by (simp add: client_exch_dest_def read_all_one split_beta)
  have cc: "connect_ctx (o_rtr C) (o_rts C) (the_qp (o_ctx C)) (psn ?d) d = 0"
    using C(7,8) by (simp add: connect_ctx_def)
  have qp2: "ctx_qp (cctx ?s2) = Some (the_qp (o_ctx C))" using s1(3) by simp
  have run: "kv_open n E C ?z = clift_reqs (client_pending_requests_init (e_alloc E) (reqs ?s4)) ?s4"
    using C(1,2,5,6) ctx post max2 qp2 exch cc by (simp add: kv_open_def Let_def not_null_def)
  have "unat number < 2 ^ 31" using assms(5) by (rule less_trans) simp
  then have id: "sint number = int (unat number)" using sint_small [of "unat number"] by simp
  have heap: "\<forall>p. creq_heap (reqs ?s4) p = None" using s1(4) by (simp add: set_client_id_def new_other_def ctick_def client_start_def)
  obtain q where q: "client_pending_requests_init (e_alloc E) (reqs ?s4) = Inr q" "creq_inv q"
    "creq_abs q = Map.empty" "num_pending_requests q = 1"
    by (rule client_init_ok [OF assms(7) heap])
  let ?s5 = "?s4\<lparr>reqs := q\<rparr>"
  have "kv_open n E C ?z = Inr ?s5"
    using run q(1) by (simp add: clift_reqs_def)
  moreover have "client_ok ?s5"
    using s1(2) qp2 q(2) by (simp add: client_ok_def set_client_id_def new_other_def ctick_def ctx_wf_def)
  moreover have "count_list (in_use_recv (cctx ?s5)) False = 0"
    using s1(6) spare by (simp add: set_client_id_def new_other_def ctick_def)
  moreover have "blocks ?s5 = Map.empty" "next_block ?s5 = 1" "other_blocks ?s5 = {0}" "cpolls ?s5 = ps" "cfds ?s5 = [fd]" "posted ?s5 = []"
    "immediate_shutdown ?s5 = False"
    using s1 by (simp_all add: set_client_id_def new_other_def ctick_def client_start_def)
  moreover have "in_use_send (cctx ?s5) = replicate SERVER_NUM_SEND_BUFFS False"
    using s1(7) by (simp add: set_client_id_def new_other_def ctick_def blank_context_def)
  moreover have "last_used_tid ?s5 = last_used_tid (set_client_id (int (unat number)) client_start)"
    using s1(12) id by (simp add: set_client_id_def new_other_def ctick_def)
  moreover have "client_id ?s5 = int (unat number)" "sockfd_client ?s5 = fd" "curr_recv_buff (cctx ?s5) = int SERVER_NUM_RECV_BUFFS"
    using id by (simp_all add: set_client_id_def new_other_def ctick_def)
  ultimately show ?thesis using that [of ?s5] q(3,4) by simp
qed

text \<open>
  C19: a client that opens a connection to a server that answers is ready: all its receive buffers
  are posted, no request is pending, its transaction ids carry the number the server gave it, and
  its queue pair is connected to the address the server sent.
\<close>

theorem kv_open_ok:
  assumes "all_connects C fd" and "server_msg old number d (gid_to_wire_gid (gid d)) = Inr (x_msg (o_exch C))"
    and "dest_ok d" and "length (x_gid (o_exch C)) = 33" and "unat number < 2 ^ 16"
    and "\<forall>m. e_recv E m" and "\<forall>m. e_alloc E m" and "\<forall>m. \<not> e_signal E m" and "unat (qp_num (the_qp (o_ctx C))) < 2 ^ 24"
  shows "\<exists>s. kv_open n E C client_start = Inr s \<and> client_ok s \<and> creq_abs (reqs s) = Map.empty \<and>
    num_pending_requests (reqs s) = 1 \<and> count_list (in_use_recv (cctx s)) False = 0 \<and>
    curr_recv_buff (cctx s) = int SERVER_NUM_RECV_BUFFS \<and> tid_client (last_used_tid s) = ucast number AND 0x7 \<and>
    client_id s = int (unat number) \<and> sockfd_client s = fd"
  by (rule kv_open_run [OF assms, of n "[]"]) (simp add: client_start_def set_client_id_def)

definition sample_open :: "byte list \<Rightarrow> open_calls" where
  "sample_open m =
     \<lparr>o_devices = True, o_device = True, o_ctx = sample_calls, o_page = 4096, o_port = True, o_infiniband = True,
      o_lid = 7, o_lrand = 99,
      o_exch = \<lparr>x_service = True, x_print = True, x_addr = True, x_single = True, x_attempts = [(5, True)],
        x_write = True, x_reads = [57], x_msg = m, x_calloc = True, x_old = [], x_gid = zeros 33, x_word = 0, x_number = 0\<rparr>,
      o_rtr = (\<lambda>_ _. True), o_rts = (\<lambda>_ _. True)\<rparr>"

theorem kv_open_ok_witness:
  "\<exists>m s. server_msg [] 3 sample_dest (gid_to_wire_gid (gid sample_dest)) = Inr m \<and>
     kv_open 1 good_env (sample_open m) client_start = Inr s \<and> client_ok s \<and> client_id s = 3"
proof -
  have d: "dest_ok sample_dest" by (simp add: dest_ok_def sample_dest_def)
  obtain m where m: "server_msg [] 3 sample_dest (gid_to_wire_gid (gid sample_dest)) = Inr m"
    using server_msg_scanned [OF d, of "zeros 33" 3 "[]" 0 0] by auto
  have c: "all_connects (sample_open m) 5"
    by (simp add: all_connects_def sample_open_def all_acquired_def sample_calls_def)
  have "\<exists>s. kv_open 1 good_env (sample_open m) client_start = Inr s \<and> client_ok s \<and> creq_abs (reqs s) = Map.empty \<and>
    num_pending_requests (reqs s) = 1 \<and> count_list (in_use_recv (cctx s)) False = 0 \<and>
    curr_recv_buff (cctx s) = int SERVER_NUM_RECV_BUFFS \<and> tid_client (last_used_tid s) = ucast (3 :: 32 word) AND 0x7 \<and>
    client_id s = int (unat (3 :: 32 word)) \<and> sockfd_client s = 5"
    by (rule kv_open_ok [OF c _ d, of "[]" 3]) (use m in \<open>simp_all add: sample_open_def sample_calls_def\<close>)
  then show ?thesis using m by auto
qed

end
