(* ===== verification/Client_Input.thy ===== *)
theory Client_Input
  imports Client_Start
begin

text \<open>
  \<open>client.c\<close>, fourth part: the program around the client. \<open>kv_test_get_set_from_file\<close> reads a
  file of requests into three arrays that grow, runs them and frees them; \<open>client_loop\<close> opens the
  client, runs the file ten times and closes. The arrays and the line are blocks of \<open>other_blocks\<close>,
  so that one that is not freed stays there. A pointer into the line that \<open>getline\<close> returned is
  an offset; \<open>None\<close> is the address 1 that \<open>strchr(...) + 1\<close> gives when there is no comma, at which
  nothing can be read, but from which \<open>strncpy\<close> can copy no bytes. The bytes
  of the line's buffer behind its NUL are not known, so that reading them is undefined.
\<close>

section \<open>Lines and their fields\<close>

definition newline :: byte where
  "newline = CHR 0x0A"

text \<open>The lines \<open>getline\<close> returns one after the other, each with its newline.\<close>

function lines_of :: "byte list \<Rightarrow> byte list list" where
  "lines_of t =
     (if t = [] then []
      else let a = takeWhile (\<lambda>c. c \<noteq> newline) t; r = drop (length a) t
           in (a @ take 1 r) # lines_of (drop 1 r))"
  by pat_completeness auto
termination by (relation "measure length") (auto simp: Let_def)

declare lines_of.simps [simp del]

text \<open>\<open>strchr(line + off, c)\<close>; a line is here its block, which ends with a NUL.\<close>

definition c_strchr :: "byte list \<Rightarrow> nat \<Rightarrow> byte \<Rightarrow> stop + nat option" where
  "c_strchr line off c =
     (let k = takeWhile (\<lambda>x. x \<noteq> c \<and> x \<noteq> NUL) (drop off line)
      in case drop (off + length k) line of
           [] \<Rightarrow> Inl (UB Unterminated)
         | x # _ \<Rightarrow> Inr (if x = c then Some (off + length k) else None))"

text \<open>\<open>strchr(p, ',') + 1\<close>.\<close>

definition after_comma :: "byte list \<Rightarrow> nat option \<Rightarrow> stop + nat option" where
  "after_comma line p =
     bnd (not_null p) (\<lambda>off. bnd (c_strchr line off CHR '','') (\<lambda>r. Inr (map_option Suc r)))"

text \<open>\<open>p + i\<close>, which has to stay in the line.\<close>

definition move :: "byte list \<Rightarrow> nat option \<Rightarrow> int \<Rightarrow> stop + nat" where
  "move line p i =
     bnd (not_null p) (\<lambda>off.
     let j = int off + i in if 0 \<le> j \<and> j < int (length line) then Inr (nat j) else Inl (UB Out_of_bounds))"

text \<open>
  The conversion \<open>%d\<close> into a variable that holds \<open>old\<close>: \<open>strtol\<close> saturates at 64 bits, and the low
  32 bits are stored. A literal that does not match leaves the variable as it was.
\<close>

definition is_digit :: "byte \<Rightarrow> bool" where
  "is_digit c \<longleftrightarrow> 48 \<le> (of_char c :: nat) \<and> (of_char c :: nat) \<le> 57"

definition dec_value :: "byte list \<Rightarrow> nat" where
  "dec_value s = fold (\<lambda>c n. 10 * n + (of_char c - 48)) s 0"

definition scan_d :: "byte list \<Rightarrow> int option" where
  "scan_d s =
     (let (neg, s1) = strip_sign (dropWhile is_space s); ds = takeWhile is_digit s1
      in if ds = [] then None else Some (if neg then - int (dec_value ds) else int (dec_value ds)))"

definition sscanf_d :: "byte list \<Rightarrow> 32 word \<Rightarrow> byte list \<Rightarrow> 32 word" where
  "sscanf_d lit old s =
     (if take (length lit) (cstr s) = lit then
        (case scan_d (drop (length lit) (cstr s)) of
           None \<Rightarrow> old
         | Some v \<Rightarrow> word_of_int (max (- (2 ^ 63)) (min (2 ^ 63 - 1) v)))
      else old)"

section \<open>The arrays of requests\<close>

text \<open>An array is its block with its elements, or NULL.\<close>

type_synonym 'a array = "(ptr \<times> 'a list) option"

text \<open>\<open>struct request_handle\<close> with \<open>allocated_size\<close> and \<open>total_send_len\<close>.\<close>

record file_requests =
  num_requests :: nat
  f_opcodes :: "32 word array"
  f_keys :: "ptr option array"
  f_values :: "ptr option array"
  allocated_size :: nat
  total_send_len :: "64 word"

definition calloc_array :: "client_env \<Rightarrow> nat \<Rightarrow> 'a \<Rightarrow> client \<Rightarrow> 'a array \<times> client" where
  "calloc_array E n x s =
     (let (b, s1) = calloc_other E s in (map_option (\<lambda>p. (p, replicate n x)) b, s1))"

definition free_array :: "'a array \<Rightarrow> client \<Rightarrow> stop + client" where
  "free_array a s = free_other (map_option fst a) s"

definition set_elem :: "'a array \<Rightarrow> nat \<Rightarrow> 'a \<Rightarrow> stop + 'a array" where
  "set_elem a i x =
     bnd (not_null a) (\<lambda>(p, l). if i < length l then Inr (Some (p, l[i := x])) else Inl (UB Out_of_bounds))"

definition get_elem :: "'a array \<Rightarrow> nat \<Rightarrow> stop + 'a" where
  "get_elem a i = bnd (not_null a) (\<lambda>(p, l). if i < length l then Inr (l ! i) else Inl (UB Out_of_bounds))"

text \<open>The size \<open>len + 1\<close> of \<open>calloc\<close> and the count \<open>len\<close> of \<open>strncpy\<close> are \<open>int\<close>s made \<open>size_t\<close>.\<close>

definition size_of_int :: "32 word \<Rightarrow> nat" where
  "size_of_int v = unat (scast v :: 64 word)"

text \<open>A copy of no bytes touches neither the line nor the block, so that both may be invalid.\<close>

definition strncpy_field :: "byte list \<Rightarrow> nat option \<Rightarrow> 32 word \<Rightarrow> ptr option \<Rightarrow> client \<Rightarrow> stop + client" where
  "strncpy_field line p len b s =
     (if size_of_int len = 0 then Inr s else
     bnd (not_null p) (\<lambda>off.
     bnd (not_null b) (\<lambda>q.
     bnd (load_block s b) (\<lambda>m.
     bnd (c_strncpy m (drop off line) (size_of_int len)) (\<lambda>m'.
     Inr (s\<lparr>blocks := (blocks s)(q \<mapsto> m')\<rparr>))))))"

text \<open>
  The two kinds of lines; \<open>num_lines\<close> is the index at which they are stored, and \<open>old_key\<close>,
  \<open>old_value\<close> are what the lengths hold before they are scanned.
\<close>

definition parse_get ::
  "client_env \<Rightarrow> 32 word \<Rightarrow> byte list \<Rightarrow> nat \<Rightarrow> file_requests \<Rightarrow> client \<Rightarrow> stop + file_requests \<times> client" where
  "parse_get E old_key line num_lines R s =
     (let key_len = sscanf_d ''GET,'' old_key line
      in bnd (after_comma line (Some 0)) (\<lambda>p.
         bnd (after_comma line p) (\<lambda>key.
         bnd (set_elem (f_opcodes R) num_lines (opcode_val GET_REQUEST_OPCODE)) (\<lambda>ops.
         let (b, s1) = calloc_block E (size_of_int (key_len + 1)) s
         in bnd (set_elem (f_keys R) num_lines b) (\<lambda>ks.
            bnd (strncpy_field line key key_len b s1) (\<lambda>s2.
            Inr (R\<lparr>num_requests := Suc (num_requests R), f_opcodes := ops, f_keys := ks\<rparr>, s2)))))))"

definition parse_set ::
  "client_env \<Rightarrow> 32 word \<Rightarrow> 32 word \<Rightarrow> byte list \<Rightarrow> nat \<Rightarrow> file_requests \<Rightarrow> client \<Rightarrow> stop + file_requests \<times> client" where
  "parse_set E old_key old_value line num_lines R s =
     (let key_len = sscanf_d ''SET,'' old_key line
      in bnd (after_comma line (Some 0)) (\<lambda>p.
         bnd (after_comma line p) (\<lambda>key.
         bnd (move line key (sint key_len + 1)) (\<lambda>q.
         let value_len = sscanf_d [] old_value (drop q line)
         in bnd (after_comma line (Some q)) (\<lambda>val.
            bnd (set_elem (f_opcodes R) num_lines (opcode_val SET_REQUEST_OPCODE)) (\<lambda>ops.
            let (kb, s1) = calloc_block E (size_of_int (key_len + 1)) s
            in bnd (set_elem (f_keys R) num_lines kb) (\<lambda>ks.
               let (vb, s2) = calloc_block E (size_of_int (value_len + 1)) s1
               in bnd (set_elem (f_values R) num_lines vb) (\<lambda>vs.
                  bnd (strncpy_field line key key_len kb s2) (\<lambda>s3.
                  bnd (strncpy_field line val value_len vb s3) (\<lambda>s4.
                  Inr (R\<lparr>num_requests := Suc (num_requests R), f_opcodes := ops, f_keys := ks, f_values := vs,
                         total_send_len := total_send_len R + scast value_len\<rparr>, s4)))))))))))"

text \<open>
  The arrays are doubled when only one element is free. The old arrays of keys and of values are
  freed; the old array of codes is not.
\<close>

definition copy_elems :: "nat \<Rightarrow> 'a array \<Rightarrow> 'a array \<Rightarrow> stop + 'a array" where
  "copy_elems n old new =
     (if n = 0 then Inr new
      else bnd (not_null old) (\<lambda>(_, a). bnd (not_null new) (\<lambda>(q, b).
           if n \<le> length a \<and> n \<le> length b then Inr (Some (q, take n a @ drop n b)) else Inl (UB Out_of_bounds))))"

definition grow :: "client_env \<Rightarrow> file_requests \<Rightarrow> client \<Rightarrow> stop + file_requests \<times> client" where
  "grow E R s =
     (if num_requests R = allocated_size R - 1 then
        let n = 2 * allocated_size R;
            (ks, s1) = calloc_array E n None s;
            (vs, s2) = calloc_array E n None s1;
            (ops, s3) = calloc_array E n 0 s2
        in bnd (copy_elems (num_requests R) (f_keys R) ks) (\<lambda>ks1.
           bnd (copy_elems (num_requests R) (f_values R) vs) (\<lambda>vs1.
           bnd (copy_elems (num_requests R) (f_opcodes R) ops) (\<lambda>ops1.
           bnd (free_array (f_keys R) s3) (\<lambda>s4.
           bnd (free_array (f_values R) s4) (\<lambda>s5.
           Inr (R\<lparr>f_keys := ks1, f_values := vs1, f_opcodes := ops1, allocated_size := n\<rparr>, s5))))))
      else Inr (R, s))"

definition parse_line ::
  "client_env \<Rightarrow> 32 word \<Rightarrow> 32 word \<Rightarrow> byte list \<Rightarrow> nat \<Rightarrow> file_requests \<Rightarrow> client \<Rightarrow> stop + file_requests \<times> client" where
  "parse_line E old_key old_value line num_lines R s =
     (if take 3 line = ''GET'' then parse_get E old_key line num_lines R s
      else if take 3 line = ''SET'' then parse_set E old_key old_value line num_lines R s
      else Inl (Exit 1))"

text \<open>\<open>U i\<close> is what the two lengths hold when line \<open>i\<close> is parsed.\<close>

fun read_requests ::
  "client_env \<Rightarrow> (client \<Rightarrow> stop + client) \<Rightarrow> (nat \<Rightarrow> 32 word \<times> 32 word) \<Rightarrow> byte list list \<Rightarrow> nat \<Rightarrow> file_requests \<Rightarrow>
     client \<Rightarrow> stop + file_requests \<times> client" where
  "read_requests E close U [] num_lines R s = Inr (R, s)"
| "read_requests E close U (l # ls) num_lines R s =
     (let (b, s1) = check_shutdown E s
      in if b then close_exit close 1 s1
         else
           bnd (parse_line E (fst (U num_lines)) (snd (U num_lines)) (l @ [NUL]) num_lines R s1) (\<lambda>(R1, s2).
           bnd (grow E R1 s2) (\<lambda>(R2, s3). read_requests E close U ls (Suc num_lines) R2 s3)))"

definition new_requests :: "client_env \<Rightarrow> client \<Rightarrow> file_requests \<times> client" where
  "new_requests E s =
     (let (ops, s1) = calloc_array E 50 0 s;
          (ks, s2) = calloc_array E 50 None s1;
          (vs, s3) = calloc_array E 50 None s2
      in (\<lparr>num_requests = 0, f_opcodes = ops, f_keys = ks, f_values = vs, allocated_size = 50, total_send_len = 0\<rparr>, s3))"

section \<open>Running and freeing the requests\<close>

text \<open>\<open>output\<close> keeps its value when \<open>kv_get\<close> fails; \<open>rd\<close> is \<open>total_read_len\<close>.\<close>

definition run_request ::
  "nat \<Rightarrow> client_env \<Rightarrow> file_requests \<Rightarrow> nat \<Rightarrow> ptr option \<Rightarrow> 64 word \<Rightarrow> client \<Rightarrow> stop + (ptr option \<times> 64 word) \<times> client" where
  "run_request n E R i output rd s =
     bnd (get_elem (f_opcodes R) i) (\<lambda>c.
     if c = opcode_val SET_REQUEST_OPCODE then
       bnd (get_elem (f_keys R) i) (\<lambda>k.
       bnd (get_elem (f_values R) i) (\<lambda>v.
       bnd (load_block s k) (\<lambda>key.
       bnd (kv_set n E key v s) (\<lambda>(_, s1). Inr ((output, rd), s1)))))
     else if c = opcode_val GET_REQUEST_OPCODE then
       bnd (get_elem (f_keys R) i) (\<lambda>k.
       bnd (load_block s k) (\<lambda>key.
       bnd (kv_get n E key s) (\<lambda>((rc, got), s1).
       let out = (if rc = 0 then got else output)
       in bnd (load_block s1 out) (\<lambda>bs.
          bnd (c_strlen bs) (\<lambda>m.
          bnd (kv_release out s1) (\<lambda>s2. Inr ((out, rd + of_nat m), s2)))))))
     else Inl (Exit 1))"

fun run_requests ::
  "nat \<Rightarrow> client_env \<Rightarrow> file_requests \<Rightarrow> nat list \<Rightarrow> ptr option \<Rightarrow> 64 word \<Rightarrow> client \<Rightarrow> stop + 64 word \<times> client" where
  "run_requests n E R [] output rd s = Inr (rd, s)"
| "run_requests n E R (i # is) output rd s =
     bnd (run_request n E R i output rd s) (\<lambda>((out, t), s1). run_requests n E R is out t s1)"

fun free_requests :: "file_requests \<Rightarrow> nat list \<Rightarrow> client \<Rightarrow> stop + client" where
  "free_requests R [] s = Inr s"
| "free_requests R (i # is) s =
     bnd (get_elem (f_keys R) i) (\<lambda>k.
     bnd (kv_release k s) (\<lambda>s1.
     bnd (get_elem (f_values R) i) (\<lambda>v.
     bnd (kv_release v s1) (free_requests R is))))"

text \<open>
  The whole function on the bytes of the file, \<open>None\<close> when it cannot be opened; the result are the
  numbers of bytes read and sent, which it prints. The first call of \<open>getline\<close> allocates the block
  of the line; when it cannot, no line is read, and when it cannot enlarge the block later, the
  file ends there for the caller. All arrays, their elements and the line are freed at the end.
\<close>

definition kv_test_get_set_from_file ::
  "nat \<Rightarrow> client_env \<Rightarrow> (nat \<Rightarrow> 32 word \<times> 32 word) \<Rightarrow> byte list option \<Rightarrow> client \<Rightarrow> stop + (64 word \<times> 64 word) \<times> client" where
  "kv_test_get_set_from_file n E U file s =
     (case file of
        None \<Rightarrow> close_exit (kv_close n E) 1 s
      | Some t \<Rightarrow>
          let (R, s0) = new_requests E s;
              (line, s1) = calloc_other E s0
          in bnd (read_requests E (kv_close n E) U (if line = None then [] else lines_of t) 0 R s1) (\<lambda>(R1, s2).
             bnd (run_requests n E R1 [0..<num_requests R1] None 0 s2) (\<lambda>(rd, s3).
             bnd (free_array (f_opcodes R1) s3) (\<lambda>s4.
             bnd (free_requests R1 [0..<allocated_size R1] s4) (\<lambda>s5.
             bnd (free_array (f_keys R1) s5) (\<lambda>s6.
             bnd (free_array (f_values R1) s6) (\<lambda>s7.
             bnd (free_other line s7) (\<lambda>s8.
             Inr ((rd, total_send_len R1), s8)))))))))"

section \<open>The main loop of the client\<close>

fun repeat_file ::
  "nat \<Rightarrow> client_env \<Rightarrow> (nat \<Rightarrow> nat \<Rightarrow> 32 word \<times> 32 word) \<Rightarrow> (nat \<Rightarrow> byte list option) \<Rightarrow> nat list \<Rightarrow> client \<Rightarrow> stop + client" where
  "repeat_file n E U files [] s = Inr s"
| "repeat_file n E U files (i # is) s =
     bnd (kv_test_get_set_from_file n E (U i) (files i) s) (\<lambda>(_, s1). repeat_file n E U files is s1)"

text \<open>\<open>valid\<close> is the result of \<open>check_for_input_validity\<close>, \<open>files i\<close> what iteration \<open>i\<close> reads.\<close>

definition client_loop ::
  "nat \<Rightarrow> client_env \<Rightarrow> open_calls \<Rightarrow> bool \<Rightarrow> (nat \<Rightarrow> nat \<Rightarrow> 32 word \<times> 32 word) \<Rightarrow> (nat \<Rightarrow> byte list option) \<Rightarrow>
     client \<Rightarrow> stop + int \<times> client" where
  "client_loop n E C valid U files s =
     (if \<not> valid then Inr (1, s)
      else
        bnd (kv_open n E C s) (\<lambda>s1.
        bnd (repeat_file n E U files [0..<10] s1) (\<lambda>s2.
        bnd (kv_close n E s2) (\<lambda>s3. Inr (0, s3)))))"

end
