(* ===== verification/Client_File.thy ===== *)
theory Client_File
  imports Client_Input
begin

text \<open>
  The files of requests: a printed list of requests is read back, whatever its length, into arrays
  that double; each doubling leaves the array of codes behind that it replaced (\<open>doublings\<close>).
\<close>

section \<open>Printed requests\<close>

datatype request = Get_request "byte list" | Set_request "byte list" "byte list"

fun dec_of :: "nat \<Rightarrow> byte list" where
  "dec_of n = (if n < 10 then [char_of (48 + n)] else dec_of (n div 10) @ [char_of (48 + n mod 10)])"

declare dec_of.simps [simp del]

fun request_line :: "request \<Rightarrow> byte list" where
  "request_line (Get_request k) = ''GET,'' @ dec_of (length k) @ '','' @ k @ [newline]"
| "request_line (Set_request k v) =
     ''SET,'' @ dec_of (length k) @ '','' @ k @ '','' @ dec_of (length v) @ '','' @ v @ [newline]"

definition field_ok :: "byte list \<Rightarrow> bool" where
  "field_ok k \<longleftrightarrow> NUL \<notin> set k \<and> newline \<notin> set k \<and> length k < 2 ^ 31 - 1"

fun request_ok :: "request \<Rightarrow> bool" where
  "request_ok (Get_request k) = field_ok k"
| "request_ok (Set_request k v) = (field_ok k \<and> field_ok v)"

section \<open>Scanning what is printed\<close>

lemma digit_char:
  fixes d :: nat
  assumes "d < 10"
  shows "is_digit (char_of (48 + d))" "of_char (char_of (48 + d) :: byte) = 48 + d"
proof -
  show v: "of_char (char_of (48 + d) :: byte) = 48 + d" using assms by simp
  then show "is_digit (char_of (48 + d))" using assms by (simp add: is_digit_def)
qed

lemma dec_of_digits: "\<forall>c \<in> set (dec_of n). is_digit c" and dec_of_nonempty [simp]: "dec_of n \<noteq> []"
  by (induction n rule: dec_of.induct; subst dec_of.simps; use digit_char(1) in auto)+

lemma dec_value_append: "dec_value (s @ [c]) = 10 * dec_value s + (of_char c - 48)"
  by (simp add: dec_value_def)

lemma dec_value_of [simp]: "dec_value (dec_of n) = n"
proof (induction n rule: dec_of.induct)
  case (1 n)
  show ?case
  proof (cases "n < 10")
    case True
    then show ?thesis by (subst dec_of.simps) (simp add: dec_value_def digit_char(2))
  next
    case False
    then have "dec_value (dec_of n) = 10 * dec_value (dec_of (n div 10)) + n mod 10"
      by (subst dec_of.simps) (simp add: dec_value_append digit_char(2))
    then show ?thesis using 1 False by simp
  qed
qed

lemma is_digit_not [simp]: "\<not> is_digit NUL" "\<not> is_digit newline" "\<not> is_digit CHR '',''" "\<not> is_digit CHR ''-''"
  "\<not> is_digit CHR ''+''"
  by (simp_all add: is_digit_def newline_def)

lemma digit_not_space: "is_digit c \<Longrightarrow> \<not> is_space c"
  by (auto simp: is_digit_def is_space_def)

lemma dec_of_chars: "NUL \<notin> set (dec_of n)" "newline \<notin> set (dec_of n)" "CHR '','' \<notin> set (dec_of n)"
  using dec_of_digits [of n] is_digit_not by blast+

lemma scan_d_dec: "scan_d (dec_of n @ CHR '','' # r) = Some (int n)"
proof -
  obtain c w where c: "dec_of n = c # w" by (cases "dec_of n") auto
  then have d: "is_digit c" using dec_of_digits [of n] by simp
  then have "c \<noteq> CHR ''-''" "c \<noteq> CHR ''+''" using is_digit_not by blast+
  then have "strip_sign (dropWhile is_space (dec_of n @ CHR '','' # r)) = (False, dec_of n @ CHR '','' # r)"
    using c digit_not_space [OF d] by simp
  moreover have "takeWhile is_digit (dec_of n @ CHR '','' # r) = dec_of n"
    using dec_of_digits by (simp add: takeWhile_append2)
  ultimately show ?thesis by (simp add: scan_d_def Let_def)
qed

lemma sscanf_dec:
  assumes "NUL \<notin> set lit" and "n < 2 ^ 31"
  shows "sscanf_d lit old (lit @ dec_of n @ CHR '','' # r) = of_nat n"
proof -
  have "cstr (lit @ dec_of n @ CHR '','' # r) = lit @ dec_of n @ CHR '','' # cstr r"
    using assms(1) dec_of_chars(1) by (simp add: cstr_append cstr_Cons)
  moreover have "max (- (2 ^ 63)) (min (2 ^ 63 - 1) (int n)) = int n" using assms(2) by (simp add: min_def max_def)
  ultimately show ?thesis by (simp add: sscanf_d_def scan_d_dec)
qed

section \<open>Finding the fields\<close>

lemma after_comma_app:
  assumes "CHR '','' \<notin> set b" and "NUL \<notin> set b"
  shows "after_comma (a @ b @ CHR '','' # r) (Some (length a)) = Inr (Some (length a + length b + 1))"
proof -
  have "takeWhile (\<lambda>x. x \<noteq> CHR '','' \<and> x \<noteq> NUL) (b @ CHR '','' # r) = b"
    using assms by (subst takeWhile_append2) auto
  then show ?thesis by (simp add: after_comma_def c_strchr_def not_null_def)
qed

lemma after_comma_none:
  assumes "CHR '','' \<notin> set b" and "NUL \<notin> set b"
  shows "after_comma (a @ b @ NUL # r) (Some (length a)) = Inr None"
proof -
  have "takeWhile (\<lambda>x. x \<noteq> CHR '','' \<and> x \<noteq> NUL) (b @ NUL # r) = b"
    using assms by (subst takeWhile_append2) auto
  then show ?thesis by (simp add: after_comma_def c_strchr_def not_null_def)
qed

lemma size_small: "n < 2 ^ 31 \<Longrightarrow> size_of_int (of_nat n) = n"
proof -
  assume n: "n < 2 ^ 31"
  then have "(scast (of_nat n :: 32 word) :: 64 word) = of_nat n"
    using sint_small [OF n] by (simp add: scast_eq)
  then show ?thesis using n by (simp add: size_of_int_def unat_of_nat64)
qed

lemma size_small_Suc: "n < 2 ^ 31 - 1 \<Longrightarrow> size_of_int (of_nat n + 1) = Suc n"
  using size_small [of "Suc n"] by (simp add: add.commute)

lemma load_block_there [simp]: "blocks s p = Some m \<Longrightarrow> load_block s (Some p) = Inr m"
  by (simp add: load_block_def not_null_def)

text \<open>The copy of a field into its new block.\<close>

lemma strncpy_field_ok:
  assumes "blocks s q = Some (zeros (Suc (length k)))" and "field_ok k"
  shows "strncpy_field (a @ k @ r) (Some (length a)) (of_nat (length k)) (Some q) s =
    Inr (s\<lparr>blocks := (blocks s)(q \<mapsto> k @ [NUL])\<rparr>)"
proof -
  have k: "NUL \<notin> set k" "length k < 2 ^ 31" using assms(2) by (auto simp: field_ok_def)
  have "zeros (Suc 0) = [NUL]" by (simp add: zeros_def)
  then have "c_strncpy (zeros (Suc (length k))) (k @ r) (length k) = Inr (k @ [NUL])"
    using k(1) by (simp add: c_strncpy_def cstr_id splice_def Let_def)
  moreover have "(blocks s)(q \<mapsto> [NUL]) = blocks s" if "k = []"
    using that assms(1) \<open>zeros (Suc 0) = [NUL]\<close> by (simp add: fun_upd_idem)
  ultimately show ?thesis using assms(1) k(2) by (simp add: strncpy_field_def not_null_def size_small)
qed

section \<open>Parsing a line\<close>

lemma set_elem_Some [simp]: "i < length l \<Longrightarrow> set_elem (Some (p, l)) i x = Inr (Some (p, l[i := x]))"
  by (simp add: set_elem_def not_null_def)

lemma calloc_block_ok: "e_calloc E (next_block s) \<Longrightarrow>
  calloc_block E n s = (Some (next_block s), s\<lparr>blocks := (blocks s)(next_block s \<mapsto> zeros n), next_block := Suc (next_block s)\<rparr>)"
  by (simp add: calloc_block_def Let_def)

lemma field_ok_length: "field_ok k \<Longrightarrow> length k < 2 ^ 31" "field_ok k \<Longrightarrow> size_of_int (of_nat (length k) + 1) = Suc (length k)"
  using size_small_Suc [of "length k"] by (auto simp: field_ok_def)

lemma parse_get_ok:
  assumes "field_ok k" and "i < length ops" and "i < length ks" and "e_calloc E (next_block s)"
    and R: "f_opcodes R = Some (pc, ops)" "f_keys R = Some (pk, ks)"
  shows "parse_line E u w (request_line (Get_request k) @ [NUL]) i R s =
    Inr (R\<lparr>num_requests := Suc (num_requests R), f_opcodes := Some (pc, ops[i := opcode_val GET_REQUEST_OPCODE]),
            f_keys := Some (pk, ks[i := Some (next_block s)])\<rparr>,
         s\<lparr>blocks := (blocks s)(next_block s \<mapsto> k @ [NUL]), next_block := Suc (next_block s)\<rparr>)"
proof -
  let ?n = "dec_of (length k)"
  let ?r = "k @ [newline, NUL]"
  let ?line = "''GET,'' @ ?n @ CHR '','' # ?r"
  let ?s1 = "s\<lparr>blocks := (blocks s)(next_block s \<mapsto> zeros (Suc (length k))), next_block := Suc (next_block s)\<rparr>"
  have line: "request_line (Get_request k) @ [NUL] = ?line" by simp
  have len: "sscanf_d ''GET,'' u ?line = of_nat (length k)"
    using sscanf_dec [of "''GET,''" "length k" u ?r] field_ok_length(1) [OF assms(1)] by simp
  have p1: "after_comma ?line (Some 0) = Inr (Some (length ''GET,''))"
    using after_comma_app [of "''GET''" "[]" "?n @ CHR '','' # ?r"] by simp
  have p2: "after_comma ?line (Some (length ''GET,'')) = Inr (Some (length (''GET,'' @ ?n @ '','')))"
    using after_comma_app [OF dec_of_chars(3,1), of "''GET,''" "length k" ?r] by simp
  have cp: "strncpy_field ?line (Some (length (''GET,'' @ ?n @ '',''))) (of_nat (length k)) (Some (next_block s)) ?s1 =
      Inr (s\<lparr>blocks := (blocks s)(next_block s \<mapsto> k @ [NUL]), next_block := Suc (next_block s)\<rparr>)"
    using strncpy_field_ok [of ?s1 "next_block s" k "''GET,'' @ ?n @ '',''" "[newline, NUL]"] assms(1) by simp
  have blk: "calloc_block E (size_of_int (of_nat (length k) + 1)) s = (Some (next_block s), ?s1)"
    using calloc_block_ok [of E s] assms(1,4) field_ok_length(2) by simp
  have "parse_get E u ?line i R s =
      Inr (R\<lparr>num_requests := Suc (num_requests R), f_opcodes := Some (pc, ops[i := opcode_val GET_REQUEST_OPCODE]),
             f_keys := Some (pk, ks[i := Some (next_block s)])\<rparr>,
           s\<lparr>blocks := (blocks s)(next_block s \<mapsto> k @ [NUL]), next_block := Suc (next_block s)\<rparr>)"
    unfolding parse_get_def len p1 p2 R bnd_simps Let_def set_elem_Some [OF assms(2)] blk prod.case set_elem_Some [OF assms(3)] cp ..
  then show ?thesis unfolding line by (simp add: parse_line_def)
qed

lemma move_ok: "off + n + 1 < length line \<Longrightarrow> n < 2 ^ 31 \<Longrightarrow>
  move line (Some off) (sint (of_nat n :: 32 word) + 1) = Inr (off + n + 1)"
  by (simp add: move_def not_null_def sint_small Let_def nat_add_distrib)

lemma parse_set_ok:
  assumes "field_ok k" and "field_ok v" and "i < length ops" and "i < length ks" and "i < length vs"
    and ok: "\<forall>p. e_calloc E p" and R: "f_opcodes R = Some (pc, ops)" "f_keys R = Some (pk, ks)" "f_values R = Some (pv, vs)"
  shows "parse_line E u w (request_line (Set_request k v) @ [NUL]) i R s =
    Inr (R\<lparr>num_requests := Suc (num_requests R), f_opcodes := Some (pc, ops[i := opcode_val SET_REQUEST_OPCODE]),
            f_keys := Some (pk, ks[i := Some (next_block s)]), f_values := Some (pv, vs[i := Some (Suc (next_block s))]),
            total_send_len := total_send_len R + of_nat (length v)\<rparr>,
         s\<lparr>blocks := (blocks s)(next_block s \<mapsto> k @ [NUL], Suc (next_block s) \<mapsto> v @ [NUL]),
           next_block := Suc (Suc (next_block s))\<rparr>)"
proof -
  let ?n = "dec_of (length k)" and ?m = "dec_of (length v)"
  let ?a = "''SET,'' @ ?n @ '',''"
  let ?b = "?a @ k @ '',''"
  let ?c = "?b @ ?m @ '',''"
  let ?r = "v @ [newline, NUL]"
  let ?line = "''SET,'' @ ?n @ CHR '','' # k @ CHR '','' # ?m @ CHR '','' # ?r"
  let ?p = "next_block s"
  let ?s1 = "s\<lparr>blocks := (blocks s)(?p \<mapsto> zeros (Suc (length k))), next_block := Suc ?p\<rparr>"
  let ?s2 = "?s1\<lparr>blocks := (blocks ?s1)(Suc ?p \<mapsto> zeros (Suc (length v))), next_block := Suc (Suc ?p)\<rparr>"
  let ?s3 = "?s2\<lparr>blocks := (blocks ?s2)(?p \<mapsto> k @ [NUL])\<rparr>"
  let ?s4 = "?s3\<lparr>blocks := (blocks ?s3)(Suc ?p \<mapsto> v @ [NUL])\<rparr>"
  note kl = field_ok_length [OF assms(1)] and vl = field_ok_length [OF assms(2)]
  have line: "request_line (Set_request k v) @ [NUL] = ?line" by simp
  have len: "sscanf_d ''SET,'' u ?line = of_nat (length k)"
    using sscanf_dec [of "''SET,''" "length k" u "k @ CHR '','' # ?m @ CHR '','' # ?r"] kl(1) by simp
  have p1: "after_comma ?line (Some 0) = Inr (Some (length ''SET,''))"
    using after_comma_app [of "''SET''" "[]" "?n @ CHR '','' # k @ CHR '','' # ?m @ CHR '','' # ?r"] by simp
  have p2: "after_comma ?line (Some (length ''SET,'')) = Inr (Some (length ?a))"
    using after_comma_app [OF dec_of_chars(3,1), of "''SET,''" "length k" "k @ CHR '','' # ?m @ CHR '','' # ?r"] by simp
  have mv: "move ?line (Some (length ?a)) (sint (of_nat (length k) :: 32 word) + 1) = Inr (length ?b)"
    using move_ok [of "length ?a" "length k" ?line] kl(1) by simp
  have "drop (length ?b) ?line = ?m @ CHR '','' # ?r"
    using append_eq_conv_conj [of ?b "?m @ CHR '','' # ?r" ?line] by simp
  then have len2: "sscanf_d [] w (drop (length ?b) ?line) = of_nat (length v)"
    using sscanf_dec [of "[]" "length v" w ?r] vl(1) by simp
  have p3: "after_comma ?line (Some (length ?b)) = Inr (Some (length ?c))"
    using after_comma_app [OF dec_of_chars(3,1), of ?b "length v" ?r] by simp
  have b1: "calloc_block E (size_of_int (of_nat (length k) + 1)) s = (Some ?p, ?s1)"
    using calloc_block_ok [of E s] ok kl(2) by simp
  have b2: "calloc_block E (size_of_int (of_nat (length v) + 1)) ?s1 = (Some (Suc ?p), ?s2)"
    using calloc_block_ok [of E ?s1] ok vl(2) by simp
  have c1: "strncpy_field ?line (Some (length ?a)) (of_nat (length k)) (Some ?p) ?s2 = Inr ?s3"
    using strncpy_field_ok [of ?s2 ?p k ?a "CHR '','' # ?m @ CHR '','' # ?r"] assms(1) by simp
  have c2: "strncpy_field ?line (Some (length ?c)) (of_nat (length v)) (Some (Suc ?p)) ?s3 = Inr ?s4"
    using strncpy_field_ok [of ?s3 "Suc ?p" v ?c "[newline, NUL]"] assms(2) by simp
  have sc: "(scast (of_nat (length v) :: 32 word) :: 64 word) = of_nat (length v)"
    using sint_small [OF vl(1)] by (simp add: scast_eq)
  have "parse_set E u w ?line i R s =
      Inr (R\<lparr>num_requests := Suc (num_requests R), f_opcodes := Some (pc, ops[i := opcode_val SET_REQUEST_OPCODE]),
             f_keys := Some (pk, ks[i := Some ?p]), f_values := Some (pv, vs[i := Some (Suc ?p)]),
             total_send_len := total_send_len R + of_nat (length v)\<rparr>, ?s4)"
    unfolding parse_set_def len p1 p2 R bnd_simps Let_def mv len2 p3 set_elem_Some [OF assms(3)] b1 prod.case
      set_elem_Some [OF assms(4)] b2 set_elem_Some [OF assms(5)] c1 c2 sc ..
  moreover have "?s4 = s\<lparr>blocks := (blocks s)(?p \<mapsto> k @ [NUL], Suc ?p \<mapsto> v @ [NUL]), next_block := Suc (Suc ?p)\<rparr>"
    by (simp add: fun_upd_twist)
  ultimately show ?thesis unfolding line by (simp add: parse_line_def)
qed

section \<open>Reading the requests\<close>

fun value_length :: "request \<Rightarrow> nat" where
  "value_length (Get_request k) = 0"
| "value_length (Set_request k v) = length v"

text \<open>What one element of each array holds for a request, given the blocks.\<close>

fun slot :: "(ptr \<Rightarrow> byte list option) \<Rightarrow> request \<Rightarrow> 32 word \<Rightarrow> ptr option \<Rightarrow> ptr option \<Rightarrow> bool" where
  "slot b (Get_request k) c kp vp \<longleftrightarrow>
     c = opcode_val GET_REQUEST_OPCODE \<and> vp = None \<and> (\<exists>p. kp = Some p \<and> b p = Some (k @ [NUL]))"
| "slot b (Set_request k v) c kp vp \<longleftrightarrow>
     c = opcode_val SET_REQUEST_OPCODE \<and> (\<exists>p q. kp = Some p \<and> b p = Some (k @ [NUL]) \<and> vp = Some q \<and> b q = Some (v @ [NUL]))"

definition opt_list :: "'a option \<Rightarrow> 'a list" where
  "opt_list x = (case x of None \<Rightarrow> [] | Some a \<Rightarrow> [a])"

lemma opt_list_simps [simp]: "opt_list None = []" "opt_list (Some a) = [a]"
  by (simp_all add: opt_list_def)

text \<open>The blocks of the first \<open>n\<close> elements.\<close>

definition owned :: "ptr option list \<Rightarrow> ptr option list \<Rightarrow> nat \<Rightarrow> ptr list" where
  "owned ks vs n = concat (map (\<lambda>i. opt_list (ks ! i) @ opt_list (vs ! i)) [0..<n])"

lemma owned_0 [simp]: "owned ks vs 0 = []"
  by (simp add: owned_def)

lemma owned_Suc [simp]: "owned ks vs (Suc n) = owned ks vs n @ opt_list (ks ! n) @ opt_list (vs ! n)"
  by (simp add: owned_def)

lemma owned_cong: "(\<And>i. i < n \<Longrightarrow> ks ! i = ks' ! i \<and> vs ! i = vs' ! i) \<Longrightarrow> owned ks vs n = owned ks' vs' n"
  by (auto simp: owned_def intro!: arg_cong [of _ _ concat])

record arrays =
  a_ops :: "32 word list"
  a_keys :: "ptr option list"
  a_vals :: "ptr option list"

text \<open>
  The arrays \<open>a\<close> hold the requests \<open>rs\<close>: there is room for one more, elements that are not used are
  NULL, and every block that is there beside the blocks \<open>b0\<close> belongs to one element.
\<close>

definition arrays_hold :: "nat \<Rightarrow> (ptr \<Rightarrow> byte list option) \<Rightarrow> (ptr \<Rightarrow> byte list option) \<Rightarrow> request list \<Rightarrow> arrays \<Rightarrow> bool" where
  "arrays_hold cap b0 b rs a \<longleftrightarrow>
     length rs < cap \<and> length (a_ops a) = cap \<and> length (a_keys a) = cap \<and> length (a_vals a) = cap \<and>
     (\<forall>i < length rs. slot b (rs ! i) (a_ops a ! i) (a_keys a ! i) (a_vals a ! i)) \<and>
     (\<forall>i. length rs \<le> i \<and> i < cap \<longrightarrow> a_keys a ! i = None \<and> a_vals a ! i = None) \<and>
     distinct (owned (a_keys a) (a_vals a) (length rs)) \<and>
     (\<forall>p \<in> set (owned (a_keys a) (a_vals a) (length rs)). b p \<noteq> None \<and> b0 p = None) \<and>
     (\<forall>p. p \<notin> set (owned (a_keys a) (a_vals a) (length rs)) \<longrightarrow> b p = b0 p)"

text \<open>The blocks of the arrays of codes, keys and values are \<open>P\<close>.\<close>

fun with_arrays :: "file_requests \<Rightarrow> ptr \<times> ptr \<times> ptr \<Rightarrow> arrays \<Rightarrow> bool" where
  "with_arrays R (pc, pk, pv) a \<longleftrightarrow>
     f_opcodes R = Some (pc, a_ops a) \<and> f_keys R = Some (pk, a_keys a) \<and> f_values R = Some (pv, a_vals a)"

text \<open>No block is at an address that is still to be given out.\<close>

definition fresh_blocks :: "client \<Rightarrow> bool" where
  "fresh_blocks s \<longleftrightarrow> (\<forall>p. next_block s \<le> p \<longrightarrow> blocks s p = None \<and> p \<notin> other_blocks s)"

text \<open>
  How often the arrays are doubled while \<open>n\<close> lines are read: when \<open>d\<close> doublings are done, the next
  one comes with line number \<open>50 * 2 ^ d - 1\<close>.
\<close>

fun doublings :: "nat \<Rightarrow> nat" where
  "doublings 0 = 0"
| "doublings (Suc n) = (if Suc n = 50 * 2 ^ doublings n - 1 then Suc (doublings n) else doublings n)"

lemma doublings_room: "Suc n < 50 * 2 ^ doublings n"
proof (induction n)
  case (Suc n)
  moreover have "(1 :: nat) \<le> 2 ^ doublings n" by simp
  ultimately show ?case by (auto simp: algebra_simps)
qed simp

lemma doublings_few: "n < 49 \<Longrightarrow> doublings n = 0"
  by (induction n) auto

text \<open>\<open>B\<close> has the elements of \<open>A\<close> and \<open>k\<close> more.\<close>

definition grown_by :: "nat \<Rightarrow> ptr set \<Rightarrow> ptr set \<Rightarrow> bool" where
  "grown_by k A B \<longleftrightarrow> A \<subseteq> B \<and> finite (B - A) \<and> card (B - A) = k"

lemma grown_by_refl [simp]: "grown_by k A A \<longleftrightarrow> k = 0"
  by (auto simp: grown_by_def)

lemma grown_by_0: "grown_by 0 A B \<longleftrightarrow> A = B"
  by (auto simp: grown_by_def)

lemma grown_by_insert: "grown_by k A B \<Longrightarrow> p \<notin> B \<Longrightarrow> grown_by (Suc k) A (insert p B)"
  by (auto simp: grown_by_def insert_Diff_if)

lemma grown_by_trans:
  assumes "grown_by j A B" and "grown_by k B C"
  shows "grown_by (j + k) A C"
proof -
  have "C - A = (B - A) \<union> (C - B)" "(B - A) \<inter> (C - B) = {}" using assms by (auto simp: grown_by_def)
  then show ?thesis using assms card_Un_disjoint [of "B - A" "C - B"] by (auto simp: grown_by_def)
qed

text \<open>
  The blocks \<open>B\<close> are the blocks \<open>B0\<close>, the three arrays and \<open>d\<close> arrays of codes that were replaced.
\<close>

fun arrays_there :: "ptr set \<Rightarrow> nat \<Rightarrow> ptr \<times> ptr \<times> ptr \<Rightarrow> ptr set \<Rightarrow> bool" where
  "arrays_there B0 d (pc, pk, pv) B \<longleftrightarrow>
     distinct [pc, pk, pv] \<and> {pc, pk, pv} \<subseteq> B \<and> {pc, pk, pv} \<inter> B0 = {} \<and> grown_by d B0 (B - {pc, pk, pv})"

lemma arrays_there_new:
  "\<forall>q \<ge> p. q \<notin> B \<Longrightarrow> arrays_there B 0 (p, Suc p, Suc (Suc p)) (insert (Suc (Suc p)) (insert (Suc p) (insert p B)))"
  by (simp add: insert_Diff_if)

lemma arrays_there_grow:
  assumes "arrays_there B0 d (pc, pk, pv) B" and "\<forall>q \<ge> p. q \<notin> B"
  shows "arrays_there B0 (Suc d) (Suc (Suc p), p, Suc p) (insert (Suc (Suc p)) (insert (Suc p) (insert p B)) - {pk} - {pv})"
proof -
  have new: "p \<notin> B" "Suc p \<notin> B" "Suc (Suc p) \<notin> B" using assms(2) by auto
  have P: "pc \<noteq> pk" "pc \<noteq> pv" "pk \<noteq> pv" "{pc, pk, pv} \<subseteq> B" "pc \<notin> B0" "pk \<notin> B0" "pv \<notin> B0" "grown_by d B0 (B - {pc, pk, pv})"
    using assms(1) by auto
  have B0: "B0 \<subseteq> B" using P(8) by (auto simp: grown_by_def)
  have "insert (Suc (Suc p)) (insert (Suc p) (insert p B)) - {pk} - {pv} - {Suc (Suc p), p, Suc p} =
      insert pc (B - {pc, pk, pv})" using P(1-4) new by auto
  moreover have "grown_by (Suc d) B0 (insert pc (B - {pc, pk, pv}))" using P(8) by (rule grown_by_insert) simp
  ultimately show ?thesis using new B0 P(4) by auto
qed

lemma arrays_there_count:
  assumes "arrays_there B0 d P B"
  shows "grown_by (d + 3) B0 B"
proof -
  obtain pc pk pv where P: "P = (pc, pk, pv)" by (cases P)
  let ?A = "B - {pc, pk, pv}"
  have p: "pc \<noteq> pk" "pc \<noteq> pv" "pk \<noteq> pv" "{pc, pk, pv} \<subseteq> B" using assms P by auto
  have "grown_by (Suc (Suc (Suc d))) B0 (insert pc (insert pk (insert pv ?A)))"
    by (intro grown_by_insert) (use assms P in auto)
  moreover have "insert pc (insert pk (insert pv ?A)) = B" using p(4) by auto
  ultimately show ?thesis by (simp add: eval_nat_numeral)
qed

definition file_ok :: "(ptr \<Rightarrow> byte list option) \<Rightarrow> ptr set \<Rightarrow> file_requests \<Rightarrow> client \<Rightarrow> request list \<Rightarrow> bool" where
  "file_ok b0 B0 R s rs \<longleftrightarrow> num_requests R = length rs \<and> allocated_size R = 50 * 2 ^ doublings (length rs) \<and> fresh_blocks s \<and>
     (\<exists>P a. with_arrays R P a \<and> arrays_hold (allocated_size R) b0 (blocks s) rs a \<and>
            arrays_there B0 (doublings (length rs)) P (other_blocks s))"

lemma file_ok_cases:
  assumes "file_ok b0 B0 R s rs"
  obtains pc pk pv a where "with_arrays R (pc, pk, pv) a" "arrays_hold (allocated_size R) b0 (blocks s) rs a"
    "arrays_there B0 (doublings (length rs)) (pc, pk, pv) (other_blocks s)" "num_requests R = length rs"
    "Suc (length rs) < allocated_size R" "allocated_size R = 50 * 2 ^ doublings (length rs)" "fresh_blocks s"
  using assms doublings_room [of "length rs"] by (auto simp: file_ok_def)

lemma file_ok_same:
  "file_ok b0 B0 R s rs \<Longrightarrow> blocks s' = blocks s \<Longrightarrow> next_block s' = next_block s \<Longrightarrow> other_blocks s' = other_blocks s \<Longrightarrow>
   file_ok b0 B0 R s' rs"
  unfolding file_ok_def fresh_blocks_def by metis

lemma slot_mono: "slot b r c kp vp \<Longrightarrow> b \<subseteq>\<^sub>m b' \<Longrightarrow> slot b' r c kp vp"
  by (cases r) (auto simp: map_le_def dom_def intro: sym)

text \<open>A request is added in the first free element.\<close>

lemma arrays_hold_snoc:
  assumes "arrays_hold cap b0 b rs a" and "\<forall>p. p \<notin> set (opt_list kp @ opt_list vp) \<longrightarrow> b' p = b p" and "slot b' r c kp vp"
    and "distinct (opt_list kp @ opt_list vp)" and "\<forall>p \<in> set (opt_list kp @ opt_list vp). b p = None \<and> b' p \<noteq> None"
    and "Suc (length rs) < cap"
  shows "arrays_hold cap b0 b' (rs @ [r])
    \<lparr>a_ops = (a_ops a)[length rs := c], a_keys = (a_keys a)[length rs := kp], a_vals = (a_vals a)[length rs := vp]\<rparr>"
proof -
  let ?n = "length rs" and ?new = "opt_list kp @ opt_list vp"
  let ?ks = "(a_keys a)[?n := kp]" and ?vs = "(a_vals a)[?n := vp]"
  let ?old = "owned (a_keys a) (a_vals a) ?n"
  have len: "length (a_ops a) = cap" "length (a_keys a) = cap" "length (a_vals a) = cap"
    using assms(1) by (simp_all add: arrays_hold_def)
  have own: "owned ?ks ?vs (Suc ?n) = ?old @ ?new"
    using len assms(6) owned_cong [of ?n ?ks "a_keys a" ?vs "a_vals a"] by simp
  have old: "distinct ?old" "\<forall>p \<in> set ?old. b p \<noteq> None \<and> b0 p = None" "\<forall>p. p \<notin> set ?old \<longrightarrow> b p = b0 p"
    using assms(1) by (simp_all add: arrays_hold_def)
  have le: "b \<subseteq>\<^sub>m b'"
    unfolding map_le_def
  proof
    fix p
    assume "p \<in> dom b"
    then have "p \<notin> set ?new" using assms(5) by auto
    then show "b p = b' p" using assms(2) by simp
  qed
  have disj: "set ?old \<inter> set ?new = {}" using old(2) assms(5) by blast
  then have "distinct (owned ?ks ?vs (Suc ?n))" unfolding own using old(1) assms(4) by simp
  moreover have "\<forall>p \<in> set (owned ?ks ?vs (Suc ?n)). b' p \<noteq> None \<and> b0 p = None"
  proof
    fix p
    assume "p \<in> set (owned ?ks ?vs (Suc ?n))"
    then consider (o) "p \<in> set ?old" | (n) "p \<in> set ?new" "p \<notin> set ?old" unfolding own by auto
    then show "b' p \<noteq> None \<and> b0 p = None"
    proof cases
      case o
      then have "p \<notin> set ?new" using disj by blast
      then show ?thesis using o old(2) assms(2) by simp
    next
      case n
      then show ?thesis using assms(5) old(3) by auto
    qed
  qed
  moreover have "\<forall>p. p \<notin> set (owned ?ks ?vs (Suc ?n)) \<longrightarrow> b' p = b0 p"
    unfolding own using old(3) assms(2) by simp
  moreover have "slot b' ((rs @ [r]) ! i) ((a_ops a)[?n := c] ! i) (?ks ! i) (?vs ! i)" if i: "i < Suc ?n" for i
  proof (cases "i = ?n")
    case True
    then show ?thesis using assms(3,6) len by simp
  next
    case False
    then have "i < ?n" using i by simp
    moreover from this have "slot b (rs ! i) (a_ops a ! i) (a_keys a ! i) (a_vals a ! i)"
      using assms(1) by (simp add: arrays_hold_def)
    ultimately show ?thesis using slot_mono [OF _ le] by (simp add: nth_append)
  qed
  moreover have "?ks ! i = None \<and> ?vs ! i = None" if "Suc ?n \<le> i \<and> i < cap" for i
    using that assms(1) by (simp add: arrays_hold_def)
  ultimately show ?thesis using assms(6) len by (simp add: arrays_hold_def)
qed

lemma arrays_hold_grow:
  assumes "arrays_hold cap b0 b rs a" and "cap \<le> cap'"
  defines "n \<equiv> length rs"
  shows "arrays_hold cap' b0 b rs
    \<lparr>a_ops = take n (a_ops a) @ drop n (replicate cap' 0), a_keys = take n (a_keys a) @ drop n (replicate cap' None),
     a_vals = take n (a_vals a) @ drop n (replicate cap' None)\<rparr>"
proof -
  let ?ks = "take n (a_keys a) @ drop n (replicate cap' None)"
  let ?vs = "take n (a_vals a) @ drop n (replicate cap' None)"
  have len: "n < cap" "length (a_ops a) = cap" "length (a_keys a) = cap" "length (a_vals a) = cap"
    using assms(1) by (simp_all add: arrays_hold_def n_def)
  have same: "?ks ! i = a_keys a ! i \<and> ?vs ! i = a_vals a ! i" if "i < n" for i
    using that len by (simp add: nth_append)
  have "owned ?ks ?vs n = owned (a_keys a) (a_vals a) n" using same by (rule owned_cong)
  then show ?thesis
    using assms(1,2) len same by (auto simp: arrays_hold_def n_def nth_append)
qed

lemma calloc_other_ok: "e_calloc E (next_block s) \<Longrightarrow> calloc_other E s =
  (Some (next_block s), s\<lparr>next_block := Suc (next_block s), other_blocks := insert (next_block s) (other_blocks s)\<rparr>)"
  by (simp add: calloc_other_def new_other_def)

lemma calloc_array_ok: "e_calloc E (next_block s) \<Longrightarrow> calloc_array E n x s = (Some (next_block s, replicate n x),
  s\<lparr>next_block := Suc (next_block s), other_blocks := insert (next_block s) (other_blocks s)\<rparr>)"
  by (simp add: calloc_array_def calloc_other_ok)

lemma free_array_ok: "p \<in> other_blocks s \<Longrightarrow> free_array (Some (p, l)) s = Inr (s\<lparr>other_blocks := other_blocks s - {p}\<rparr>)"
  by (simp add: free_array_def free_other_def)

lemma copy_elems_ok:
  "n \<le> length a \<Longrightarrow> n \<le> length b \<Longrightarrow> copy_elems n (Some (p, a)) (Some (q, b)) = Inr (Some (q, take n a @ drop n b))"
  by (simp add: copy_elems_def not_null_def)

lemma grow_ok:
  assumes "num_requests R = length rs" and "with_arrays R P a" and "arrays_hold (allocated_size R) b0 (blocks s) rs a"
    and "fresh_blocks s" and "\<forall>p. e_calloc E p" and "length rs = Suc m" and "allocated_size R = 50 * 2 ^ doublings m"
    and "arrays_there B0 (doublings m) P (other_blocks s)"
  obtains R' s' where "grow E R s = Inr (R', s')" "file_ok b0 B0 R' s' rs" "total_send_len R' = total_send_len R"
    "s' = s\<lparr>next_block := next_block s', other_blocks := other_blocks s'\<rparr>"
proof (cases "length rs = allocated_size R - 1")
  case False
  then have "doublings (length rs) = doublings m" using assms(6,7) by simp
  then have "file_ok b0 B0 R s rs" unfolding file_ok_def using assms(1-4,7,8) by metis
  then show ?thesis using that [of R s] False assms(1) by (simp add: grow_def)
next
  case True
  obtain pc pk pv where P: "P = (pc, pk, pv)" by (cases P)
  let ?n = "length rs" and ?cap = "2 * allocated_size R" and ?p = "next_block s"
  let ?a = "\<lparr>a_ops = take ?n (a_ops a) @ drop ?n (replicate ?cap 0), a_keys = take ?n (a_keys a) @ drop ?n (replicate ?cap None),
     a_vals = take ?n (a_vals a) @ drop ?n (replicate ?cap None)\<rparr>"
  let ?R = "R\<lparr>f_keys := Some (?p, a_keys ?a), f_values := Some (Suc ?p, a_vals ?a), f_opcodes := Some (Suc (Suc ?p), a_ops ?a),
     allocated_size := ?cap\<rparr>"
  let ?B = "insert (Suc (Suc ?p)) (insert (Suc ?p) (insert ?p (other_blocks s)))"
  let ?s = "s\<lparr>next_block := ?p + 3, other_blocks := ?B - {pk} - {pv}\<rparr>"
  have len: "?n < allocated_size R" "length (a_ops a) = allocated_size R" "length (a_keys a) = allocated_size R"
    "length (a_vals a) = allocated_size R"
    using assms(3) by (simp_all add: arrays_hold_def)
  have c: "(length rs = allocated_size R - Suc 0) = True" using True by simp
  have there: "pk \<in> ?B" "pv \<in> ?B - {pk}" using assms(8) unfolding P by auto
  have d: "doublings ?n = Suc (doublings m)" using assms(6,7) True by simp
  have fresh: "\<forall>q \<ge> ?p. q \<notin> other_blocks s" using assms(4) by (simp add: fresh_blocks_def)
  have "grow E R s = Inr (?R, ?s)"
    using assms(1,2,5) len there by (simp add: P grow_def c Let_def calloc_array_ok copy_elems_ok free_array_ok eval_nat_numeral)
  moreover have "file_ok b0 B0 ?R ?s rs"
    unfolding file_ok_def
  proof (intro conjI exI)
    show "with_arrays ?R (Suc (Suc ?p), ?p, Suc ?p) ?a" by simp
    show "arrays_hold (allocated_size ?R) b0 (blocks ?s) rs ?a" using arrays_hold_grow [OF assms(3), of ?cap] by simp
    show "arrays_there B0 (doublings ?n) (Suc (Suc ?p), ?p, Suc ?p) (other_blocks ?s)"
      unfolding d using arrays_there_grow [OF assms(8) [unfolded P] fresh] by (simp del: arrays_there.simps)
    show "fresh_blocks ?s" using assms(4) by (auto simp: fresh_blocks_def)
  qed (use assms(1,7) d in simp_all)
  ultimately show ?thesis using that [of ?R ?s] by simp
qed

lemma fresh_le: "fresh_blocks s \<Longrightarrow> next_block s \<le> p \<Longrightarrow> blocks s p = None"
  by (simp add: fresh_blocks_def)

lemma parse_line_step:
  assumes "file_ok b0 B0 R s rs" and "request_ok r" and "\<forall>p. e_calloc E p"
  obtains R' s' P a where "parse_line E u w (request_line r @ [NUL]) (length rs) R s = Inr (R', s')"
    "num_requests R' = length (rs @ [r])" "with_arrays R' P a" "arrays_hold (allocated_size R') b0 (blocks s') (rs @ [r]) a"
    "allocated_size R' = 50 * 2 ^ doublings (length rs)" "arrays_there B0 (doublings (length rs)) P (other_blocks s')"
    "fresh_blocks s'" "total_send_len R' = total_send_len R + of_nat (value_length r)"
    "s' = s\<lparr>blocks := blocks s', next_block := next_block s'\<rparr>"
proof -
  obtain pc pk pv a where a: "with_arrays R (pc, pk, pv) a" "arrays_hold (allocated_size R) b0 (blocks s) rs a"
    and th: "arrays_there B0 (doublings (length rs)) (pc, pk, pv) (other_blocks s)"
    and R: "num_requests R = length rs" "Suc (length rs) < allocated_size R" "fresh_blocks s"
    and sz: "allocated_size R = 50 * 2 ^ doublings (length rs)"
    using assms(1) by (rule file_ok_cases)
  have A: "f_opcodes R = Some (pc, a_ops a)" "f_keys R = Some (pk, a_keys a)" "f_values R = Some (pv, a_vals a)"
    using a(1) by simp_all
  have len: "length rs < length (a_ops a)" "length rs < length (a_keys a)" "length rs < length (a_vals a)"
    using a(2) by (simp_all add: arrays_hold_def)
  let ?p = "next_block s" and ?n = "length rs"
  note f1 = fresh_le [OF R(3), of ?p, simplified] and f2 = fresh_le [OF R(3), of "Suc ?p", simplified]
  show ?thesis
  proof (cases r)
    case (Get_request k)
    let ?b = "(blocks s)(?p \<mapsto> k @ [NUL])"
    let ?R = "R\<lparr>num_requests := Suc (num_requests R), f_opcodes := Some (pc, (a_ops a)[?n := opcode_val GET_REQUEST_OPCODE]),
            f_keys := Some (pk, (a_keys a)[?n := Some ?p])\<rparr>"
    let ?a = "\<lparr>a_ops = (a_ops a)[?n := opcode_val GET_REQUEST_OPCODE], a_keys = (a_keys a)[?n := Some ?p], a_vals = (a_vals a)[?n := None]\<rparr>"
    have "(a_vals a)[?n := None] = a_vals a" using a(2) R(2) by (simp add: arrays_hold_def list_update_same_conv)
    then have wa: "with_arrays ?R (pc, pk, pv) ?a" using A(3) by simp
    have h: "arrays_hold (allocated_size R) b0 ?b (rs @ [r]) ?a"
      by (rule arrays_hold_snoc [OF a(2)]) (use Get_request f1 R(2) in auto)
    have run: "parse_line E u w (request_line r @ [NUL]) (length rs) R s =
        Inr (?R, s\<lparr>blocks := ?b, next_block := Suc ?p\<rparr>)"
      unfolding Get_request by (rule parse_get_ok) (use assms(2,3) Get_request len A in simp_all)
    show ?thesis
      by (rule that [OF run _ wa]) (use h R sz th Get_request in \<open>simp_all add: fresh_blocks_def\<close>)
  next
    case (Set_request k v)
    let ?b = "(blocks s)(?p \<mapsto> k @ [NUL], Suc ?p \<mapsto> v @ [NUL])"
    let ?R = "R\<lparr>num_requests := Suc (num_requests R), f_opcodes := Some (pc, (a_ops a)[?n := opcode_val SET_REQUEST_OPCODE]),
            f_keys := Some (pk, (a_keys a)[?n := Some ?p]), f_values := Some (pv, (a_vals a)[?n := Some (Suc ?p)]),
            total_send_len := total_send_len R + of_nat (length v)\<rparr>"
    let ?a = "\<lparr>a_ops = (a_ops a)[?n := opcode_val SET_REQUEST_OPCODE], a_keys = (a_keys a)[?n := Some ?p],
       a_vals = (a_vals a)[?n := Some (Suc ?p)]\<rparr>"
    have wa: "with_arrays ?R (pc, pk, pv) ?a" by simp
    have h: "arrays_hold (allocated_size R) b0 ?b (rs @ [r]) ?a"
      by (rule arrays_hold_snoc [OF a(2)]) (use Set_request f1 f2 R(2) in auto)
    have run: "parse_line E u w (request_line r @ [NUL]) (length rs) R s =
        Inr (?R, s\<lparr>blocks := ?b, next_block := Suc (Suc ?p)\<rparr>)"
      unfolding Set_request by (rule parse_set_ok) (use assms(2,3) Set_request len A in simp_all)
    show ?thesis
      by (rule that [OF run _ wa]) (use h R sz th Set_request in \<open>simp_all add: fresh_blocks_def\<close>)
  qed
qed

lemma read_requests_ok:
  assumes "file_ok b0 B0 R s rs" and "\<forall>r \<in> set new. request_ok r" and "\<forall>p. e_calloc E p"
    and "\<forall>n. \<not> e_signal E n" and "\<not> immediate_shutdown s"
  shows "\<exists>R' s'. read_requests E close U (map request_line new) (length rs) R s = Inr (R', s') \<and>
    file_ok b0 B0 R' s' (rs @ new) \<and> total_send_len R' = total_send_len R + of_nat (sum_list (map value_length new)) \<and>
    s' = s\<lparr>calls := calls s + length new, blocks := blocks s', next_block := next_block s', other_blocks := other_blocks s'\<rparr>"
  using assms
proof (induction new arbitrary: R s rs)
  case Nil
  then show ?case by auto
next
  case (Cons r new)
  let ?s1 = "ctick s"
  have ok1: "file_ok b0 B0 R ?s1 rs" by (rule file_ok_same [OF Cons.prems(1)]) (simp_all add: ctick_def)
  have r: "request_ok r" using Cons.prems(2) by simp
  obtain R1 s2 P a where p: "parse_line E (fst (U (length rs))) (snd (U (length rs))) (request_line r @ [NUL]) (length rs) R ?s1 = Inr (R1, s2)"
    "num_requests R1 = length (rs @ [r])" "with_arrays R1 P a" "arrays_hold (allocated_size R1) b0 (blocks s2) (rs @ [r]) a"
    "allocated_size R1 = 50 * 2 ^ doublings (length rs)" "arrays_there B0 (doublings (length rs)) P (other_blocks s2)"
    "fresh_blocks s2" "total_send_len R1 = total_send_len R + of_nat (value_length r)"
    "s2 = ?s1\<lparr>blocks := blocks s2, next_block := next_block s2\<rparr>"
    by (rule parse_line_step [OF ok1 r Cons.prems(3)])
  obtain R2 s3 where g: "grow E R1 s2 = Inr (R2, s3)" "file_ok b0 B0 R2 s3 (rs @ [r])" "total_send_len R2 = total_send_len R1"
    "s3 = s2\<lparr>next_block := next_block s3, other_blocks := other_blocks s3\<rparr>"
    by (rule grow_ok [OF p(2-4,7) Cons.prems(3) _ p(5,6)]) simp_all
  have s3: "s3 = s\<lparr>calls := Suc (calls s), blocks := blocks s3, next_block := next_block s3, other_blocks := other_blocks s3\<rparr>"
    using g(4) p(9) by (cases s; cases s2; cases s3) (auto simp: ctick_def)
  then have "\<not> immediate_shutdown s3" using Cons.prems(5) by (cases s; cases s3) auto
  from Cons.IH [OF g(2) _ Cons.prems(3,4) this] Cons.prems(2)
  obtain R' s' where r: "read_requests E close U (map request_line new) (length (rs @ [r])) R2 s3 = Inr (R', s')"
    "file_ok b0 B0 R' s' ((rs @ [r]) @ new)" "total_send_len R' = total_send_len R2 + of_nat (sum_list (map value_length new))"
    "s' = s3\<lparr>calls := calls s3 + length new, blocks := blocks s', next_block := next_block s', other_blocks := other_blocks s'\<rparr>"
    by auto
  have "check_shutdown E s = (False, ?s1)" using check_quiet [OF Cons.prems(4,5)] .
  then have "read_requests E close U (map request_line (r # new)) (length rs) R s = Inr (R', s')"
    using p(1) g(1) r(1) by simp
  moreover have "s' = s\<lparr>calls := calls s + length (r # new), blocks := blocks s', next_block := next_block s', other_blocks := other_blocks s'\<rparr>"
    using r(4) s3 by (cases s; cases s3; cases s') auto
  ultimately show ?case
    using r(2,3) g(3) p(8) by (intro exI [of _ R'] exI [of _ s']) simp
qed

lemma lines_of_line: "newline \<notin> set a \<Longrightarrow> lines_of (a @ newline # t) = (a @ [newline]) # lines_of t"
proof -
  assume a: "newline \<notin> set a"
  have "takeWhile (\<lambda>c. c \<noteq> newline) (a @ newline # t) = a" using a by (subst takeWhile_append2) auto
  then show ?thesis by (subst lines_of.simps) (simp add: Let_def)
qed

lemma lines_of_requests:
  "\<forall>r \<in> set rs. request_ok r \<Longrightarrow> lines_of (concat (map request_line rs)) = map request_line rs"
proof (induction rs)
  case Nil
  then show ?case by (subst lines_of.simps) simp
next
  case (Cons r rs)
  then have IH: "lines_of (concat (map request_line rs)) = map request_line rs" and ok: "request_ok r" by simp_all
  obtain a where a: "request_line r = a @ [newline]" "newline \<notin> set a"
  proof (cases r)
    case (Get_request k)
    then show ?thesis
      using that [of "''GET,'' @ dec_of (length k) @ '','' @ k"] ok dec_of_chars(2) by (simp add: field_ok_def newline_def)
  next
    case (Set_request k v)
    then show ?thesis
      using that [of "''SET,'' @ dec_of (length k) @ '','' @ k @ '','' @ dec_of (length v) @ '','' @ v"] ok dec_of_chars(2)
      by (simp add: field_ok_def newline_def)
  qed
  then show ?case using IH lines_of_line [OF a(2), of "concat (map request_line rs)"] by simp
qed

lemma new_requests_ok:
  assumes "\<forall>p. e_calloc E p" and "fresh_blocks s"
  obtains R s' where "new_requests E s = (R, s')" "file_ok (blocks s) (other_blocks s) R s' []" "total_send_len R = 0"
    "s' = s\<lparr>next_block := next_block s', other_blocks := other_blocks s'\<rparr>"
proof -
  let ?p = "next_block s"
  let ?R = "\<lparr>num_requests = 0, f_opcodes = Some (?p, replicate 50 0), f_keys = Some (Suc ?p, replicate 50 None),
    f_values = Some (Suc (Suc ?p), replicate 50 None), allocated_size = 50, total_send_len = 0\<rparr>"
  let ?B = "insert (Suc (Suc ?p)) (insert (Suc ?p) (insert ?p (other_blocks s)))"
  let ?s = "s\<lparr>next_block := ?p + 3, other_blocks := ?B\<rparr>"
  let ?a = "\<lparr>a_ops = replicate 50 0, a_keys = replicate 50 None, a_vals = replicate 50 None\<rparr>"
  have fresh: "\<forall>q \<ge> ?p. q \<notin> other_blocks s" using assms(2) by (simp add: fresh_blocks_def)
  have "new_requests E s = (?R, ?s)"
    using assms(1) by (simp add: new_requests_def calloc_array_ok Let_def eval_nat_numeral)
  moreover have "file_ok (blocks s) (other_blocks s) ?R ?s []"
    unfolding file_ok_def
  proof (intro conjI exI)
    show "with_arrays ?R (?p, Suc ?p, Suc (Suc ?p)) ?a" by simp
    show "arrays_there (other_blocks s) (doublings (length [])) (?p, Suc ?p, Suc (Suc ?p)) (other_blocks ?s)"
      using arrays_there_new [OF fresh] by (simp del: arrays_there.simps)
    show "fresh_blocks ?s" using assms(2) by (auto simp: fresh_blocks_def)
  qed (simp_all add: arrays_hold_def)
  ultimately show ?thesis using that by simp
qed

text \<open>The requests that the arrays hold, read from the memory as C strings.\<close>

definition string_at :: "client \<Rightarrow> ptr option \<Rightarrow> byte list option" where
  "string_at s p = (case p of None \<Rightarrow> None | Some q \<Rightarrow> map_option cstr (blocks s q))"

definition request_at :: "file_requests \<Rightarrow> client \<Rightarrow> nat \<Rightarrow> request option" where
  "request_at R s i =
     (case (get_elem (f_opcodes R) i, get_elem (f_keys R) i, get_elem (f_values R) i) of
        (Inr c, Inr k, Inr v) \<Rightarrow>
          if c = opcode_val GET_REQUEST_OPCODE then map_option Get_request (string_at s k)
          else if c = opcode_val SET_REQUEST_OPCODE then
            (case (string_at s k, string_at s v) of (Some a, Some b) \<Rightarrow> Some (Set_request a b) | _ \<Rightarrow> None)
          else None
      | _ \<Rightarrow> None)"

lemma request_at_ok:
  assumes "file_ok b0 B0 R s rs" and "\<forall>r \<in> set rs. request_ok r" and "i < length rs"
  shows "request_at R s i = Some (rs ! i)"
proof -
  obtain pc pk pv a where a: "with_arrays R (pc, pk, pv) a" "arrays_hold (allocated_size R) b0 (blocks s) rs a"
    using assms(1) by (rule file_ok_cases)
  have slot: "slot (blocks s) (rs ! i) (a_ops a ! i) (a_keys a ! i) (a_vals a ! i)"
    using a(2) assms(3) by (simp add: arrays_hold_def)
  have elems: "get_elem (f_opcodes R) i = Inr (a_ops a ! i)" "get_elem (f_keys R) i = Inr (a_keys a ! i)"
    "get_elem (f_values R) i = Inr (a_vals a ! i)"
    using a assms(3) by (auto simp: get_elem_def arrays_hold_def not_null_def)
  have "request_ok (rs ! i)" using assms(2,3) by simp
  then show ?thesis
    using slot elems by (cases "rs ! i") (auto simp: request_at_def string_at_def field_ok_def)
qed

text \<open>
  C15: a file that prints a list of requests is read back as this list, in order, however long it is:
  each key and value is a string of its own, and the sum of the lengths of the values is counted.
  Beside these strings there are three more blocks, the arrays, and one for each doubling, the array
  of codes that was replaced.
\<close>

theorem requests_file_round_trip:
  assumes "\<forall>r \<in> set rs. request_ok r" and "\<forall>p. e_calloc E p" and "\<forall>n. \<not> e_signal E n"
    and "\<not> immediate_shutdown s" and "fresh_blocks s"
  shows "\<exists>R s'. (let (R0, s0) = new_requests E s
                 in read_requests E close U (lines_of (concat (map request_line rs))) 0 R0 s0) = Inr (R, s') \<and>
    map (request_at R s') [0..<num_requests R] = map Some rs \<and>
    total_send_len R = of_nat (sum_list (map value_length rs)) \<and>
    s' = s\<lparr>calls := calls s + length rs, blocks := blocks s', next_block := next_block s', other_blocks := other_blocks s'\<rparr> \<and>
    grown_by (3 + doublings (length rs)) (other_blocks s) (other_blocks s')"
proof -
  obtain R0 s0 where n: "new_requests E s = (R0, s0)" "file_ok (blocks s) (other_blocks s) R0 s0 []" "total_send_len R0 = 0"
    "s0 = s\<lparr>next_block := next_block s0, other_blocks := other_blocks s0\<rparr>"
    by (rule new_requests_ok [OF assms(2,5)])
  have "\<not> immediate_shutdown s0" using n(4) assms(4) by (cases s; cases s0) simp
  from read_requests_ok [OF n(2) assms(1-3) this, of close U]
  obtain R s' where r: "read_requests E close U (map request_line rs) 0 R0 s0 = Inr (R, s')" "file_ok (blocks s) (other_blocks s) R s' rs"
    "total_send_len R = of_nat (sum_list (map value_length rs))"
    "s' = s0\<lparr>calls := calls s0 + length rs, blocks := blocks s', next_block := next_block s', other_blocks := other_blocks s'\<rparr>"
    using n(3) by auto
  have "map (request_at R s') [0..<num_requests R] = map Some rs"
    using r(2) request_at_ok [OF r(2) assms(1)] by (intro nth_equalityI) (auto simp: file_ok_def)
  moreover have "s' = s\<lparr>calls := calls s + length rs, blocks := blocks s', next_block := next_block s', other_blocks := other_blocks s'\<rparr>"
    using r(4) n(4) by (cases s; cases s0; cases s') auto
  moreover have "grown_by (3 + doublings (length rs)) (other_blocks s) (other_blocks s')"
    by (rule file_ok_cases [OF r(2)]) (simp only: arrays_there_count add.commute)
  ultimately show ?thesis
    using n(1) r(1,3) lines_of_requests [OF assms(1)] by (intro exI [of _ R] exI [of _ s']) simp
qed

end
