(* ===== verification/Client_Run.thy ===== *)
theory Client_Run
  imports Client_File
begin

text \<open>
  Running the requests of a file: the requests that \<open>Client_File\<close> shows to be read are run one
  after the other, and their keys, values and arrays are freed, but not the arrays of codes that
  were replaced. A file of SETs whose values fit is sent without any wait, which composes reading,
  \<open>kv_set\<close> and freeing. The lines of the documented format end the process.
\<close>

section \<open>Running\<close>

fun short_set :: "request \<Rightarrow> bool" where
  "short_set (Set_request k v) \<longleftrightarrow> length k + length v + 2 \<le> CLIENT_REQUEST_PAYLOAD_LEN"
| "short_set (Get_request k) \<longleftrightarrow> False"

fun request_work :: "16 word \<Rightarrow> request \<Rightarrow> work" where
  "request_work t (Set_request k v) = Send (set_message t k v)"
| "request_work t (Get_request k) = Send (get_message t k)"

text \<open>What sending leaves alone: the completions to come, the connection, the shutdown flag, the requests.\<close>

definition same_link :: "client \<Rightarrow> client \<Rightarrow> bool" where
  "same_link s s' \<longleftrightarrow> cpolls s' = cpolls s \<and> sockfd_client s' = sockfd_client s \<and> cfds s' = cfds s \<and>
     immediate_shutdown s' = immediate_shutdown s \<and> reqs s' = reqs s"

lemma same_link_refl [simp]: "same_link s s"
  by (simp add: same_link_def)

lemma same_link_trans: "same_link s s' \<Longrightarrow> same_link s' s'' \<Longrightarrow> same_link s s''"
  by (simp add: same_link_def)

text \<open>One SET, with what later requests need to know of the state.\<close>

lemma kv_set_eager_step:
  assumes "client_ok s" and "0 < send_ring.spare (cctx s)" and "num_pending_requests (reqs s) < 250" and "0 < n"
    and "NUL \<notin> set k" and "blocks s v = Some (val @ [NUL])" "NUL \<notin> set val"
    and "length k + length val + 2 \<le> CLIENT_REQUEST_PAYLOAD_LEN" and "\<forall>m. e_send E m"
  obtains s' where "kv_set n E (k @ [NUL]) (Some v) s = Inr (0, s')" "client_ok s'"
    "posted s' = posted s @ [Send (set_message (fst (get_new_tid s)) k val)]" "reqs s' = reqs s"
    "last_used_tid s' = fst (get_new_tid s)" "blocks s' = blocks s" "next_block s' = next_block s" "other_blocks s' = other_blocks s"
    "immediate_shutdown s' = immediate_shutdown s" "Suc (send_ring.spare (cctx s')) = send_ring.spare (cctx s)"
    "curr_recv_buff (cctx s') = curr_recv_buff (cctx s)" "same_link s s'"
proof -
  let ?t = "fst (get_new_tid s)"
  obtain i where i: "i < SERVER_NUM_SEND_BUFFS" "\<not> in_use_send (cctx s) ! i"
    "kv_set n E (k @ [NUL]) (Some v) s = Inr (if e_send E (calls s) then 0 else - 1,
      offered E (Send (set_message ?t k val)) (written (requested s i ?t) i (set_message ?t k val)))"
    by (rule kv_set_eager_run [OF assms(1-4) refl assms(5-8)])
  let ?s = "offered E (Send (set_message ?t k val)) (written (requested s i ?t) i (set_message ?t k val))"
  have "client_ok (written (requested s i ?t) i (set_message ?t k val))"
    using assms(1,8) i(1) written_wf [OF requested_wf [of s i ?t] i(1), of "set_message ?t k val"]
    by (simp add: client_ok_def)
  moreover have "Suc (count_list ((in_use_send (cctx s))[i := True]) False) = count_list (in_use_send (cctx s)) False"
    using count_list_update [of i "in_use_send (cctx s)" True False] i(1,2) assms(1) by (simp add: client_ok_def ctx_wf_def)
  ultimately show ?thesis
    using that [of ?s] i(3) assms(9)
    by (simp add: offered_ok same_link_def) (simp add: offered_def written_def requested_def ctick_def)
qed

lemma new_tids_congr: "last_used_tid s = last_used_tid s' \<Longrightarrow> new_tids k s = new_tids k s'"
proof (induction k arbitrary: s s')
  case (Suc k)
  obtain t where t: "get_new_tid s = (t, s\<lparr>last_used_tid := t\<rparr>)" "get_new_tid s' = (t, s'\<lparr>last_used_tid := t\<rparr>)"
    using Suc.prems by (simp add: get_new_tid_def Let_def)
  show ?case using Suc.IH [of "s\<lparr>last_used_tid := t\<rparr>" "s'\<lparr>last_used_tid := t\<rparr>"] t by simp
qed simp

lemma new_tids_Suc:
  assumes "last_used_tid s' = fst (get_new_tid s)"
  shows "new_tids (Suc k) s = fst (get_new_tid s) # new_tids k s'"
proof -
  have "last_used_tid (snd (get_new_tid s)) = fst (get_new_tid s)" by (simp add: get_new_tid_def Let_def)
  then have "new_tids k (snd (get_new_tid s)) = new_tids k s'" using assms by (intro new_tids_congr) simp
  then show ?thesis by (simp add: split_beta)
qed

text \<open>The state after \<open>k\<close> new ids, and ids in two runs.\<close>

fun skip_tids :: "nat \<Rightarrow> client \<Rightarrow> client" where
  "skip_tids 0 s = s"
| "skip_tids (Suc k) s = skip_tids k (snd (get_new_tid s))"

lemma skip_tids_congr:
  "last_used_tid s = last_used_tid s' \<Longrightarrow> last_used_tid (skip_tids k s) = last_used_tid (skip_tids k s')"
proof (induction k arbitrary: s s')
  case (Suc k)
  have "last_used_tid (snd (get_new_tid s)) = last_used_tid (snd (get_new_tid s'))"
    using Suc.prems by (simp add: get_new_tid_def Let_def)
  then show ?case using Suc.IH by simp
qed simp

lemma new_tids_add: "new_tids (a + b) s = new_tids a s @ new_tids b (skip_tids a s)"
  by (induction a arbitrary: s) (simp_all add: split_beta)

lemma run_set_request:
  assumes "file_ok b0 B0 R s rs" and "i < length rs" and "rs ! i = Set_request k v" and "request_ok (rs ! i)" and "short_set (rs ! i)"
    and "client_ok s" and "0 < send_ring.spare (cctx s)" and "num_pending_requests (reqs s) < 250" and "0 < n"
    and "\<forall>m. e_send E m"
  obtains s' where "run_request n E R i out rd s = Inr ((out, rd), s')" "client_ok s'"
    "posted s' = posted s @ [request_work (fst (get_new_tid s)) (rs ! i)]" "reqs s' = reqs s"
    "last_used_tid s' = fst (get_new_tid s)" "blocks s' = blocks s" "next_block s' = next_block s" "other_blocks s' = other_blocks s"
    "immediate_shutdown s' = immediate_shutdown s" "Suc (send_ring.spare (cctx s')) = send_ring.spare (cctx s)"
    "same_link s s'"
proof -
  obtain pc pk pv a where a: "with_arrays R (pc, pk, pv) a" "arrays_hold (allocated_size R) b0 (blocks s) rs a"
    using assms(1) by (rule file_ok_cases)
  have "slot (blocks s) (rs ! i) (a_ops a ! i) (a_keys a ! i) (a_vals a ! i)"
    using a(2) assms(2) by (simp add: arrays_hold_def)
  then obtain p q where pq: "a_ops a ! i = opcode_val SET_REQUEST_OPCODE" "a_keys a ! i = Some p" "blocks s p = Some (k @ [NUL])"
    "a_vals a ! i = Some q" "blocks s q = Some (v @ [NUL])"
    using assms(3) by auto
  have elems: "get_elem (f_opcodes R) i = Inr (a_ops a ! i)" "get_elem (f_keys R) i = Inr (a_keys a ! i)"
    "get_elem (f_values R) i = Inr (a_vals a ! i)"
    using a assms(2) by (auto simp: get_elem_def arrays_hold_def not_null_def)
  have kv: "NUL \<notin> set k" "NUL \<notin> set v" "length k + length v + 2 \<le> CLIENT_REQUEST_PAYLOAD_LEN"
    using assms(3-5) by (auto simp: field_ok_def)
  obtain s' where s': "kv_set n E (k @ [NUL]) (Some q) s = Inr (0, s')" "client_ok s'"
    "posted s' = posted s @ [Send (set_message (fst (get_new_tid s)) k v)]" "reqs s' = reqs s"
    "last_used_tid s' = fst (get_new_tid s)" "blocks s' = blocks s" "next_block s' = next_block s" "other_blocks s' = other_blocks s"
    "immediate_shutdown s' = immediate_shutdown s" "Suc (send_ring.spare (cctx s')) = send_ring.spare (cctx s)" "same_link s s'"
    by (rule kv_set_eager_step [OF assms(6-9) kv(1) pq(5) kv(2,3) assms(10)])
  have "run_request n E R i out rd s = Inr ((out, rd), s')"
    using elems pq s'(1) by (simp add: run_request_def)
  then show ?thesis using that s' assms(3) by simp
qed

lemma run_sets:
  assumes "file_ok b0 B0 R s rs" and "\<forall>i \<in> set is. i < length rs \<and> request_ok (rs ! i) \<and> short_set (rs ! i)"
    and "client_ok s" and "length is \<le> send_ring.spare (cctx s)" and "num_pending_requests (reqs s) < 250" and "0 < n"
    and "\<forall>m. e_send E m"
  shows "\<exists>s'. run_requests n E R is out rd s = Inr (rd, s') \<and> client_ok s' \<and>
    posted s' = posted s @ map2 request_work (new_tids (length is) s) (map (\<lambda>i. rs ! i) is) \<and>
    blocks s' = blocks s \<and> next_block s' = next_block s \<and> other_blocks s' = other_blocks s \<and> same_link s s' \<and>
    last_used_tid s' = last_used_tid (skip_tids (length is) s) \<and> send_ring.spare (cctx s') + length is = send_ring.spare (cctx s)"
  using assms
proof (induction "is" arbitrary: s)
  case Nil
  then show ?case by simp
next
  case (Cons i "is")
  obtain k v where r: "rs ! i = Set_request k v" using Cons.prems(2) by (cases "rs ! i") auto
  have i: "i < length rs" "request_ok (rs ! i)" "short_set (rs ! i)" and sp: "0 < send_ring.spare (cctx s)"
    using Cons.prems(2,4) by auto
  obtain s1 where s1: "run_request n E R i out rd s = Inr ((out, rd), s1)" "client_ok s1"
    "posted s1 = posted s @ [request_work (fst (get_new_tid s)) (rs ! i)]" "reqs s1 = reqs s"
    "last_used_tid s1 = fst (get_new_tid s)" "blocks s1 = blocks s" "next_block s1 = next_block s" "other_blocks s1 = other_blocks s"
    "immediate_shutdown s1 = immediate_shutdown s" "Suc (send_ring.spare (cctx s1)) = send_ring.spare (cctx s)" "same_link s s1"
    by (rule run_set_request [OF Cons.prems(1) i(1) r i(2,3) Cons.prems(3) sp Cons.prems(5-7)])
  have len: "length is \<le> send_ring.spare (cctx s1)" "num_pending_requests (reqs s1) < 250"
    using Cons.prems(4,5) s1(4,10) by simp_all
  obtain s' where s': "run_requests n E R is out rd s1 = Inr (rd, s')" "client_ok s'"
    "posted s' = posted s1 @ map2 request_work (new_tids (length is) s1) (map (\<lambda>i. rs ! i) is)"
    "blocks s' = blocks s1" "next_block s' = next_block s1" "other_blocks s' = other_blocks s1" "same_link s1 s'"
    "last_used_tid s' = last_used_tid (skip_tids (length is) s1)" "send_ring.spare (cctx s') + length is = send_ring.spare (cctx s1)"
    using Cons.IH [OF file_ok_same [OF Cons.prems(1) s1(6-8)] _ s1(2) len Cons.prems(6,7)] Cons.prems(2) by auto
  have "posted s' = posted s @ map2 request_work (new_tids (length (i # is)) s) (map (\<lambda>i. rs ! i) (i # is))"
    using s'(3) s1(3) new_tids_Suc [OF s1(5), of "length is"] by (simp del: new_tids.simps)
  moreover have "last_used_tid s' = last_used_tid (skip_tids (length (i # is)) s)"
  proof -
    have "last_used_tid s1 = last_used_tid (snd (get_new_tid s))" using s1(5) by (simp add: get_new_tid_def Let_def)
    then show ?thesis using skip_tids_congr [of s1 "snd (get_new_tid s)" "length is"] s'(8) by simp
  qed
  moreover have "same_link s s'" by (rule same_link_trans [OF s1(11) s'(7)])
  ultimately show ?case using s1(1,6-8,10) s'(1,2,4-6,9) by (intro exI [of _ s']) (simp del: skip_tids.simps)
qed

section \<open>Freeing\<close>

lemma kv_release_ok:
  "\<forall>p \<in> set (opt_list v). blocks s p \<noteq> None \<Longrightarrow>
   kv_release v s = Inr (s\<lparr>blocks := (\<lambda>p. if p \<in> set (opt_list v) then None else blocks s p)\<rparr>)"
  by (cases v) (auto simp: kv_release_def fun_upd_def)

lemma free_requests_ok:
  assumes "with_arrays R (pc, pk, pv) a" and "\<forall>i \<in> set is. i < length (a_keys a) \<and> i < length (a_vals a)"
    and "distinct (concat (map (\<lambda>i. opt_list (a_keys a ! i) @ opt_list (a_vals a ! i)) is))"
    and "\<forall>p \<in> set (concat (map (\<lambda>i. opt_list (a_keys a ! i) @ opt_list (a_vals a ! i)) is)). blocks s p \<noteq> None"
  shows "free_requests R is s = Inr (s\<lparr>blocks := (\<lambda>p. if p \<in> set (concat (map (\<lambda>i. opt_list (a_keys a ! i) @
    opt_list (a_vals a ! i)) is)) then None else blocks s p)\<rparr>)"
  using assms
proof (induction "is" arbitrary: s)
  case Nil
  then show ?case by simp
next
  case (Cons i "is")
  let ?f = "\<lambda>i. opt_list (a_keys a ! i) @ opt_list (a_vals a ! i)"
  let ?s1 = "s\<lparr>blocks := (\<lambda>p. if p \<in> set (opt_list (a_keys a ! i)) then None else blocks s p)\<rparr>"
  let ?s2 = "s\<lparr>blocks := (\<lambda>p. if p \<in> set (?f i) then None else blocks s p)\<rparr>"
  have elems: "get_elem (f_keys R) i = Inr (a_keys a ! i)" "get_elem (f_values R) i = Inr (a_vals a ! i)"
    using Cons.prems(1,2) by (simp_all add: get_elem_def not_null_def)
  have k: "kv_release (a_keys a ! i) s = Inr ?s1" by (rule kv_release_ok) (use Cons.prems(4) in auto)
  have "kv_release (a_vals a ! i) ?s1 = Inr (?s1\<lparr>blocks := (\<lambda>p. if p \<in> set (opt_list (a_vals a ! i)) then None else blocks ?s1 p)\<rparr>)"
    by (rule kv_release_ok) (use Cons.prems(3,4) in auto)
  also have "\<dots> = Inr ?s2" by (auto simp: fun_eq_iff)
  finally have v: "kv_release (a_vals a ! i) ?s1 = Inr ?s2" .
  have "free_requests R is ?s2 = Inr (?s2\<lparr>blocks := (\<lambda>p. if p \<in> set (concat (map ?f is)) then None else blocks ?s2 p)\<rparr>)"
    by (rule Cons.IH) (use Cons.prems in auto)
  also have "\<dots> = Inr (s\<lparr>blocks := (\<lambda>p. if p \<in> set (concat (map ?f (i # is))) then None else blocks s p)\<rparr>)"
    by (auto simp: fun_eq_iff)
  finally show ?case using elems k v by simp
qed

text \<open>All elements of the arrays are freed, and no other block of bytes.\<close>

lemma free_elements_ok:
  assumes "with_arrays R (pc, pk, pv) a" and "arrays_hold (allocated_size R) b0 (blocks s) rs a"
  shows "free_requests R [0..<allocated_size R] s = Inr (s\<lparr>blocks := b0\<rparr>)"
proof -
  have le: "length rs \<le> allocated_size R" using assms(2) by (simp add: arrays_hold_def)
  let ?f = "\<lambda>i. opt_list (a_keys a ! i) @ opt_list (a_vals a ! i)"
  have "[0..<allocated_size R] = [0..<length rs] @ [length rs..<allocated_size R]"
    using upt_add_eq_append [of 0 "length rs" "allocated_size R - length rs"] le by simp
  moreover have "concat (map ?f [length rs..<allocated_size R]) = []"
    using assms(2) by (auto simp: arrays_hold_def)
  ultimately have own: "concat (map ?f [0..<allocated_size R]) = owned (a_keys a) (a_vals a) (length rs)"
    by (simp add: owned_def)
  have free: "(\<lambda>p. if p \<in> set (owned (a_keys a) (a_vals a) (length rs)) then None else blocks s p) = b0"
    using assms(2) by (auto simp: arrays_hold_def fun_eq_iff)
  have "free_requests R [0..<allocated_size R] s = Inr (s\<lparr>blocks := (\<lambda>p. if p \<in> set (concat (map ?f
      [0..<allocated_size R])) then None else blocks s p)\<rparr>)"
    by (rule free_requests_ok [OF assms(1)]) (use assms(2) in \<open>simp_all add: own arrays_hold_def del: map_append set_concat\<close>)
  then show ?thesis unfolding own free .
qed

text \<open>The frees at the end: what is left of the other blocks are the replaced arrays of codes.\<close>

lemma free_all_ok:
  assumes "file_ok b0 (insert q B0) R s rs" and "q \<notin> B0"
  obtains s4 s5 s6 s7 B where "free_array (f_opcodes R) s = Inr s4" "free_requests R [0..<allocated_size R] s4 = Inr s5"
    "free_array (f_keys R) s5 = Inr s6" "free_array (f_values R) s6 = Inr s7"
    "free_other (Some q) s7 = Inr (s\<lparr>blocks := b0, other_blocks := B\<rparr>)"
    "grown_by (doublings (length rs)) B0 B" "B \<subseteq> other_blocks s"
proof -
  obtain pc pk pv a where a: "with_arrays R (pc, pk, pv) a" "arrays_hold (allocated_size R) b0 (blocks s) rs a"
    "arrays_there (insert q B0) (doublings (length rs)) (pc, pk, pv) (other_blocks s)"
    using assms(1) by (rule file_ok_cases)
  let ?A = "other_blocks s" and ?d = "doublings (length rs)"
  have P: "pc \<noteq> pk" "pc \<noteq> pv" "pk \<noteq> pv" "pc \<in> ?A" "pk \<in> ?A" "pv \<in> ?A" "q \<notin> {pc, pk, pv}"
    "grown_by ?d (insert q B0) (?A - {pc, pk, pv})"
    using a(3) by auto
  have q: "q \<in> ?A" using P(8) by (auto simp: grown_by_def)
  let ?s4 = "s\<lparr>other_blocks := ?A - {pc}\<rparr>"
  let ?s5 = "s\<lparr>blocks := b0, other_blocks := ?A - {pc}\<rparr>"
  let ?s6 = "s\<lparr>blocks := b0, other_blocks := ?A - {pc} - {pk}\<rparr>"
  let ?s7 = "s\<lparr>blocks := b0, other_blocks := ?A - {pc} - {pk} - {pv}\<rparr>"
  let ?B = "?A - {pc} - {pk} - {pv} - {q}"
  have B: "?B - B0 = ?A - {pc, pk, pv} - insert q B0" "B0 \<subseteq> ?B" using P(8) assms(2) by (auto simp: grown_by_def)
  have "free_array (f_opcodes R) s = Inr ?s4" using a(1) P(4) by (simp add: free_array_ok)
  moreover have "free_requests R [0..<allocated_size R] ?s4 = Inr ?s5"
    using free_elements_ok [OF a(1), where s = ?s4] a(2) by simp
  moreover have "free_array (f_keys R) ?s5 = Inr ?s6" using a(1) P(1,5) by (simp add: free_array_ok)
  moreover have "free_array (f_values R) ?s6 = Inr ?s7" using a(1) P(2,3,6) by (simp add: free_array_ok)
  moreover have "free_other (Some q) ?s7 = Inr (s\<lparr>blocks := b0, other_blocks := ?B\<rparr>)"
    using P(7) q by (simp add: free_other_def)
  moreover have "grown_by ?d B0 ?B" using P(8) B unfolding grown_by_def by metis
  ultimately show ?thesis using that by blast
qed

section \<open>A whole file\<close>

lemma file_ok_line:
  assumes "file_ok b0 B0 R s []"
  shows "next_block s \<notin> B0" and "file_ok b0 (insert (next_block s) B0) R
    (s\<lparr>next_block := Suc (next_block s), other_blocks := insert (next_block s) (other_blocks s)\<rparr>) []"
proof -
  let ?q = "next_block s" and ?B = "other_blocks s"
  obtain pc pk pv a where a: "with_arrays R (pc, pk, pv) a" "arrays_hold (allocated_size R) b0 (blocks s) [] a"
    "arrays_there B0 (doublings (length ([] :: request list))) (pc, pk, pv) ?B" "num_requests R = length ([] :: request list)"
    "allocated_size R = 50 * 2 ^ doublings (length ([] :: request list))" "fresh_blocks s"
    using assms by (rule file_ok_cases)
  have q: "?q \<notin> ?B" using a(6) by (simp add: fresh_blocks_def)
  have g: "grown_by 0 B0 (?B - {pc, pk, pv})" "pc \<noteq> ?q" "pk \<noteq> ?q" "pv \<noteq> ?q" using a(3) q by auto
  show "?q \<notin> B0" using g(1) q by (auto simp: grown_by_def)
  have "insert ?q ?B - {pc, pk, pv} - insert ?q B0 = ?B - {pc, pk, pv} - B0" using q by auto
  then have "grown_by 0 (insert ?q B0) (insert ?q ?B - {pc, pk, pv})" using g by (auto simp: grown_by_def)
  then have "arrays_there (insert ?q B0) 0 (pc, pk, pv) (insert ?q ?B)" using a(3) g(2-4) by auto
  moreover have "fresh_blocks (s\<lparr>next_block := Suc ?q, other_blocks := insert ?q ?B\<rparr>)" using a(6) by (auto simp: fresh_blocks_def)
  ultimately show "file_ok b0 (insert ?q B0) R (s\<lparr>next_block := Suc ?q, other_blocks := insert ?q ?B\<rparr>) []"
    unfolding file_ok_def
    by (intro conjI exI [of _ "(pc, pk, pv)"] exI [of _ a]) (use a in \<open>simp_all del: arrays_there.simps\<close>)
qed

lemma fresh_after:
  assumes "file_ok b0 B0 R s rs" and "B \<subseteq> other_blocks s"
  shows "fresh_blocks (s\<lparr>blocks := b0, other_blocks := B\<rparr>)"
  unfolding fresh_blocks_def
proof (intro allI impI conjI)
  fix p
  assume p: "next_block (s\<lparr>blocks := b0, other_blocks := B\<rparr>) \<le> p"
  obtain a where a: "arrays_hold (allocated_size R) b0 (blocks s) rs a" "fresh_blocks s"
    using assms(1) by (rule file_ok_cases)
  have f: "blocks s p = None" "p \<notin> other_blocks s" using a(2) p by (simp_all add: fresh_blocks_def)
  show "blocks (s\<lparr>blocks := b0, other_blocks := B\<rparr>) p = None"
    using a(1) f(1) by (auto simp: arrays_hold_def)
  show "p \<notin> other_blocks (s\<lparr>blocks := b0, other_blocks := B\<rparr>)" using f(2) assms(2) by auto
qed

lemma short_sets_file_run:
  assumes "\<forall>r \<in> set rs. request_ok r \<and> short_set r" and "length rs \<le> send_ring.spare (cctx s)"
    and "client_ok s" and "fresh_blocks s" and "num_pending_requests (reqs s) < 250" and "\<not> immediate_shutdown s"
    and "\<forall>p. e_calloc E p" and "\<forall>m. e_send E m" and "\<forall>m. \<not> e_signal E m" and "0 < n"
  obtains s' where "kv_test_get_set_from_file n E U (Some (concat (map request_line rs))) s =
      Inr ((0, of_nat (sum_list (map value_length rs))), s')"
    "posted s' = posted s @ map2 request_work (new_tids (length rs) s) rs" "blocks s' = blocks s" "client_ok s'"
    "same_link s s'" "fresh_blocks s'" "last_used_tid s' = last_used_tid (skip_tids (length rs) s)"
    "send_ring.spare (cctx s') + length rs = send_ring.spare (cctx s)"
    "grown_by (doublings (length rs)) (other_blocks s) (other_blocks s')"
proof -
  have ok: "\<forall>r \<in> set rs. request_ok r" using assms(1) by simp
  obtain R0 s0 where n: "new_requests E s = (R0, s0)" "file_ok (blocks s) (other_blocks s) R0 s0 []" "total_send_len R0 = 0"
    "s0 = s\<lparr>next_block := next_block s0, other_blocks := other_blocks s0\<rparr>"
    by (rule new_requests_ok [OF assms(7,4)])
  let ?q = "next_block s0" and ?B0 = "insert (next_block s0) (other_blocks s)"
  let ?s0 = "s0\<lparr>next_block := Suc ?q, other_blocks := insert ?q (other_blocks s0)\<rparr>"
  have line: "calloc_other E s0 = (Some ?q, ?s0)" by (rule calloc_other_ok) (use assms(7) in simp)
  have q: "?q \<notin> other_blocks s" and n2: "file_ok (blocks s) ?B0 R0 ?s0 []" using file_ok_line [OF n(2)] by simp_all
  have "\<not> immediate_shutdown ?s0" using n(4) assms(6) by (cases s; cases s0) simp
  from read_requests_ok [OF n2 ok assms(7,9) this, of "kv_close n E" U]
  obtain R s1 where r: "read_requests E (kv_close n E) U (map request_line rs) 0 R0 ?s0 = Inr (R, s1)" "file_ok (blocks s) ?B0 R s1 rs"
    "total_send_len R = of_nat (sum_list (map value_length rs))"
    "s1 = ?s0\<lparr>calls := calls ?s0 + length rs, blocks := blocks s1, next_block := next_block s1, other_blocks := other_blocks s1\<rparr>"
    using n(3) by auto
  have s1: "cctx s1 = cctx s" "posted s1 = posted s" "last_used_tid s1 = last_used_tid s" "same_link s s1"
    using r(4) n(4) by (cases s; cases s0; cases s1; simp add: same_link_def)+
  have "reqs s1 = reqs s" using s1(4) by (simp add: same_link_def)
  then have "client_ok s1" "length [0..<length rs] \<le> send_ring.spare (cctx s1)" "num_pending_requests (reqs s1) < 250"
    using assms(2,3,5) s1 by (simp_all add: client_ok_def)
  from run_sets [OF r(2) _ this assms(10,8), where out = None and rd = 0] assms(1)
  obtain s2 where s2: "run_requests n E R [0..<length rs] None 0 s1 = Inr (0, s2)" "client_ok s2"
    "posted s2 = posted s1 @ map2 request_work (new_tids (length rs) s1) (map (\<lambda>i. rs ! i) [0..<length rs])"
    "blocks s2 = blocks s1" "next_block s2 = next_block s1" "other_blocks s2 = other_blocks s1" "same_link s1 s2"
    "last_used_tid s2 = last_used_tid (skip_tids (length rs) s1)" "send_ring.spare (cctx s2) + length rs = send_ring.spare (cctx s1)"
    by auto
  have ok2: "file_ok (blocks s) ?B0 R s2 rs" by (rule file_ok_same [OF r(2) s2(4-6)])
  obtain s4 s5 s6 s7 B where free: "free_array (f_opcodes R) s2 = Inr s4" "free_requests R [0..<allocated_size R] s4 = Inr s5"
    "free_array (f_keys R) s5 = Inr s6" "free_array (f_values R) s6 = Inr s7"
    "free_other (Some ?q) s7 = Inr (s2\<lparr>blocks := blocks s, other_blocks := B\<rparr>)"
    "grown_by (doublings (length rs)) (other_blocks s) B" "B \<subseteq> other_blocks s2"
    by (rule free_all_ok [OF ok2 q])
  let ?s = "s2\<lparr>blocks := blocks s, other_blocks := B\<rparr>"
  have "num_requests R = length rs" using r(2) by (simp add: file_ok_def)
  then have "kv_test_get_set_from_file n E U (Some (concat (map request_line rs))) s =
      Inr ((0, of_nat (sum_list (map value_length rs))), ?s)"
    using n(1) line r(1,3) s2(1) free(1-5) by (simp add: kv_test_get_set_from_file_def lines_of_requests [OF ok])
  moreover have "posted s2 = posted s @ map2 request_work (new_tids (length rs) s) rs"
    using s2(3) s1(2) new_tids_congr [OF s1(3), of "length rs"] by (simp add: map_nth)
  moreover have "client_ok ?s" using s2(2) by (simp add: client_ok_def)
  moreover have "same_link s ?s" using same_link_trans [OF s1(4) s2(7)] by (simp add: same_link_def)
  moreover have "fresh_blocks ?s" by (rule fresh_after [OF ok2 free(7)])
  moreover have "last_used_tid ?s = last_used_tid (skip_tids (length rs) s)"
    using s2(8) skip_tids_congr [OF s1(3)] by simp
  ultimately show ?thesis using that [of ?s] s2(9) s1(1) free(6) by simp
qed

text \<open>
  C14: a file of SETs whose values fit, no more of them than there are free send buffers, is sent as
  it stands: one message for each line, in the order of the file and under the next transaction ids;
  the function returns. Of the blocks it allocated, all keys, values and arrays in use and the line
  are freed again; what stays allocated is one old array of codes for each time the arrays were
  doubled, so nothing for a file of less than 49 lines (\<open>doublings_few\<close>).
\<close>

theorem short_sets_file_sent:
  assumes "\<forall>r \<in> set rs. request_ok r \<and> short_set r" and "length rs \<le> count_list (in_use_send (cctx s)) False"
    and "client_ok s" and "fresh_blocks s" and "num_pending_requests (reqs s) < 250" and "\<not> immediate_shutdown s"
    and "\<forall>p. e_calloc E p" and "\<forall>m. e_send E m" and "\<forall>m. \<not> e_signal E m" and "0 < n"
  shows "\<exists>s'. kv_test_get_set_from_file n E U (Some (concat (map request_line rs))) s =
      Inr ((0, of_nat (sum_list (map value_length rs))), s') \<and>
    posted s' = posted s @ map2 request_work (new_tids (length rs) s) rs \<and> blocks s' = blocks s \<and>
    grown_by (doublings (length rs)) (other_blocks s) (other_blocks s') \<and> reqs s' = reqs s \<and> client_ok s'"
  by (rule short_sets_file_run [OF assms, of U]) (simp add: same_link_def)

definition sample_requests :: "request list" where
  "sample_requests = [Set_request ''a,b'' ''1'', Set_request ''c'' ''22'']"

lemma connected_fresh: "fresh_blocks (connected val)"
  by (simp add: fresh_blocks_def connected_def client_start_def)

lemma sample_requests_ok: "\<forall>r \<in> set sample_requests. request_ok r \<and> short_set r"
  by (simp add: sample_requests_def field_ok_def newline_def)

theorem short_sets_file_sent_witness:
  "\<exists>s'. kv_test_get_set_from_file 1 good_env (\<lambda>_. (0, 0)) (Some (concat (map request_line sample_requests))) (connected []) =
      Inr ((0, 3), s') \<and> blocks s' = blocks (connected []) \<and> other_blocks s' = {} \<and> length (posted s') = 2 \<and>
    hd (posted s') = Send (set_message 9 ''a,b'' ''1'')"
proof -
  have tid: "new_tids (length sample_requests) (connected []) = 9 # new_tids 1 (snd (get_new_tid (connected [])))"
    using connected_tid [of "[]"] by (simp add: sample_requests_def split_beta)
  have len: "length sample_requests \<le> count_list (in_use_send (cctx (connected []))) False"
    using connected_spare [of "[]"] by (simp add: sample_requests_def)
  from short_sets_file_sent [OF sample_requests_ok len connected_ok connected_fresh, of good_env 1 "\<lambda>_. (0, 0)"] tid
  show ?thesis
    by (auto simp: connected_reqs sample_requests_def grown_by_0 simp del: new_tids.simps)
qed

theorem requests_file_round_trip_witness:
  "\<exists>R s'. (let (R0, s0) = new_requests good_env (connected [])
           in read_requests good_env (\<lambda>s. Inl (Exit 7)) (\<lambda>_. (0, 0)) (lines_of (concat (map request_line
                (replicate 60 (Get_request ''k''))))) 0 R0 s0) = Inr (R, s') \<and>
    map (request_at R s') [0..<num_requests R] = map Some (replicate 60 (Get_request ''k''))"
proof -
  have ok: "\<forall>r \<in> set (replicate 60 (Get_request ''k'')). request_ok r" by (simp add: field_ok_def newline_def)
  from requests_file_round_trip [OF ok, of good_env "connected []" "\<lambda>s. Inl (Exit 7)" "\<lambda>_. (0, 0)"] connected_fresh
  show ?thesis by auto
qed

section \<open>Other lines\<close>

text \<open>
  C40: none of the three lines of the format that the comment of the function gives can be read: the
  line \<open>#request N:\<close> ends the process as invalid; in \<open>SET,KEY\<close>, with one comma, and in \<open>GET KEY\<close>, with
  a space, a comma that is not there is looked for, and the address 1 is read.
\<close>

theorem documented_format_crashes:
  assumes "CHR '','' \<notin> set k" and "NUL \<notin> set k"
  shows "parse_line E u v (''#request '' @ num @ '':'' @ [newline, NUL]) i R s = Inl (Exit 1) \<and>
    parse_line E u v (''SET,'' @ k @ [newline, NUL]) i R s = Inl (UB Null_deref) \<and>
    parse_line E u v (''GET '' @ k @ [newline, NUL]) i R s = Inl (UB Null_deref)"
proof (intro conjI)
  have comma: "CHR '','' \<notin> set (k @ [newline])" "NUL \<notin> set (k @ [newline])" using assms by (simp_all add: newline_def)
  show "parse_line E u v (''#request '' @ num @ '':'' @ [newline, NUL]) i R s = Inl (Exit 1)"
    by (simp add: parse_line_def)
  have p1: "after_comma (''SET,'' @ k @ [newline, NUL]) (Some 0) = Inr (Some (length ''SET,''))"
    using after_comma_app [of "''SET''" "[]" "k @ [newline, NUL]"] by simp
  have p2: "after_comma (''SET,'' @ k @ [newline, NUL]) (Some (length ''SET,'')) = Inr None"
    using after_comma_none [OF comma, of "''SET,''" "[]"] by simp
  have "parse_set E u v (''SET,'' @ k @ [newline, NUL]) i R s = Inl (UB Null_deref)"
    unfolding parse_set_def p1 p2 bnd_simps Let_def by (simp add: move_def not_null_def)
  then show "parse_line E u v (''SET,'' @ k @ [newline, NUL]) i R s = Inl (UB Null_deref)"
    by (simp add: parse_line_def)
  have g: "CHR '','' \<notin> set (''GET '' @ k @ [newline])" "NUL \<notin> set (''GET '' @ k @ [newline])" using comma by simp_all
  have "after_comma (''GET '' @ k @ [newline, NUL]) (Some 0) = Inr None"
    using after_comma_none [OF g, of "[]" "[]"] by simp
  then have "parse_get E u (''GET '' @ k @ [newline, NUL]) i R s = Inl (UB Null_deref)"
    unfolding parse_get_def Let_def by (simp add: after_comma_def not_null_def)
  then show "parse_line E u v (''GET '' @ k @ [newline, NUL]) i R s = Inl (UB Null_deref)"
    by (simp add: parse_line_def)
qed

theorem documented_format_crashes_witness:
  "parse_line good_env 0 0 (''GET '' @ ''KEY'' @ [newline, NUL]) 0 (fst (new_requests good_env (connected []))) (connected []) =
   Inl (UB Null_deref)"
  using documented_format_crashes [of "''KEY''"] by simp

end
