(* ===== verification/End_To_End.thy ===== *)
theory End_To_End
  imports Teardown Client_Run
begin

text \<open>
  Client and server together: a message that one side hands to its adapter is delivered into a
  receive buffer of the other side. Shown: a value that is set in a message is the value that a later
  GET returns, through both programs and both messages.
\<close>

section \<open>A message arrives at the server\<close>

definition server_recv_done :: "nat \<Rightarrow> 32 word \<Rightarrow> ibv_wc" where
  "server_recv_done i n =
     \<lparr>wc_id = wr_value \<lparr>wr_id = of_nat i, wr_type = wrid_val RECV_WRID\<rparr>, wc_success = True, wc_qp_num = n\<rparr>"

text \<open>The next poll finds one message, in receive buffer \<open>i\<close>, of the queue pair with number \<open>n\<close>.\<close>

definition delivered :: "nat \<Rightarrow> 32 word \<Rightarrow> byte list \<Rightarrow> server \<Rightarrow> server" where
  "delivered i n bs s = s\<lparr>polls := [Some ([server_recv_done i n], [(i, bs)])]\<rparr>"

text \<open>The state in which the message is handled.\<close>

definition arrived :: "nat \<Rightarrow> nat \<Rightarrow> byte list \<Rightarrow> server \<Rightarrow> server" where
  "arrived i j bs s =
     s\<lparr>polls := [], sctx := (sctx s)\<lparr>in_buf := splice (in_buf (sctx s)) (get_recv_buffer i) bs\<rparr>,
       conns := (conns s)[j := (conns s ! j)\<lparr>c_curr := c_curr (conns s ! j) - 1\<rparr>]\<rparr>"

lemma arrived_simps [simp]:
  "rqs (arrived i j bs s) = rqs s" "live_qps (arrived i j bs s) = live_qps s" "sent (arrived i j bs s) = sent s"
  "in_use_send (sctx (arrived i j bs s)) = in_use_send (sctx s)" "verbs (arrived i j bs s) = verbs s"
  "in_use_recv (sctx (arrived i j bs s)) = in_use_recv (sctx s)"
  by (simp_all add: arrived_def)

lemma conns_ok_decrement:
  assumes "conns_ok s" and "c_qp c = c_qp (conns s ! j)" and "c_in_use c = c_in_use (conns s ! j)"
    and "conns s' = (conns s)[j := c]" and "live_qps s' = live_qps s"
  shows "conns_ok s'"
proof -
  have qp: "c_qp (conns s' ! i) = c_qp (conns s ! i)" if "i < MAX_CLIENTS_SUPPORTED" for i
    using assms that by (cases "i = j") (simp_all add: conns_ok_def)
  have "\<forall>c \<in> set (conns s'). length (c_in_use c) = SERVER_NUM_RECV_BUFFS"
  proof (cases "j < length (conns s)")
    case True
    then show ?thesis unfolding assms(4) using assms(1,3) by (intro set_update_all) (simp_all add: conns_ok_def)
  next
    case False
    then have "conns s' = conns s" using assms(4) by (simp add: list_update_beyond not_less)
    then show ?thesis using assms(1) by (simp add: conns_ok_def)
  qed
  then show ?thesis using assms(1,4,5) qp by (auto simp: conns_ok_def)
qed

lemma arrived_inv:
  assumes "server_inv N s xs" and "i < SERVER_NUM_RECV_BUFFS" and "length bs \<le> BUFFER_SIZE"
  shows "server_inv N (arrived i j bs s) xs"
proof -
  have "conns_ok (arrived i j bs s)"
    by (rule conns_ok_decrement [of s "(conns s ! j)\<lparr>c_curr := c_curr (conns s ! j) - 1\<rparr>" j])
      (use assms(1) in \<open>simp_all add: server_inv_def arrived_def\<close>)
  moreover have "ctx_wf (sctx (arrived i j bs s))"
    using assms by (simp add: server_inv_def arrived_def ctx_wf_def get_recv_buffer_def)
  ultimately show ?thesis using assms(1) by (simp add: server_inv_def)
qed

text \<open>
  The round of the completion loop that takes a message; its buffer is released at the end.
\<close>

lemma server_receives:
  assumes inv: "server_inv N s xs" and conn: "get_connection s n = Some j" "c_qp (conns s ! j) = Some qp"
    and many: "101 < c_curr (conns s ! j)" and i: "i < SERVER_NUM_RECV_BUFFS"
    and len: "CLIENT_HEADER_LEN + length data \<le> BUFFER_SIZE" and c: "opcode h = opcode_val c"
    and run: "(case c of
        SET_REQUEST_OPCODE \<Rightarrow> bnd (handle_set_request N (get_free_send_buffer (Suc f) (server_wait_completions f N))
          (arrived i j (enc_client_headers h @ data) s) qp h
          (data @ drop (get_recv_buffer i + CLIENT_HEADER_LEN + length data) (in_buf (sctx s)))
          (wc_id (server_recv_done i n))) (\<lambda>(_, s2). Inr (0, s2))
      | GET_REQUEST_OPCODE \<Rightarrow> bnd (handle_get_request N (get_free_send_buffer (Suc f) (server_wait_completions f N))
          (arrived i j (enc_client_headers h @ data) s) qp h
          (data @ drop (get_recv_buffer i + CLIENT_HEADER_LEN + length data) (in_buf (sctx s)))
          (wc_id (server_recv_done i n))) (\<lambda>(_, s2). Inr (0, s2))
      | RDMA_FIN_CLIENT \<Rightarrow> handle_fin N (get_free_send_buffer (Suc f) (server_wait_completions f N))
          (arrived i j (enc_client_headers h @ data) s) qp h (get_recv_buffer i + CLIENT_HEADER_LEN)
      | _ \<Rightarrow> bnd (remove_connection N (arrived i j (enc_client_headers h @ data) s) n) (\<lambda>(_, s2). Inr (0, s2))) = Inr (rc, s2)"
    and wf: "ctx_wf (sctx s2)"
  shows "server_wait_completions (Suc f) N (delivered i n (enc_client_headers h @ data) s) =
    Inr (s2\<lparr>sctx := (sctx s2)\<lparr>in_use_recv := (in_use_recv (sctx s2))[i := False]\<rparr>\<rparr>)"
proof -
  let ?bs = "enc_client_headers h @ data"
  let ?s1 = "arrived i j ?bs s"
  let ?gb = "get_free_send_buffer (Suc f) (server_wait_completions f N)"
  have lb: "length ?bs \<le> BUFFER_SIZE" using len by simp
  have room: "get_recv_buffer i + length ?bs \<le> length (in_buf (sctx s))"
    using inv i lb by (simp add: server_inv_def ctx_wf_def get_recv_buffer_def)
  have mem: "drop (get_recv_buffer i) (in_buf (sctx ?s1)) = ?bs @ drop (get_recv_buffer i + length ?bs) (in_buf (sctx s))"
    unfolding arrived_def using drop_splice_prefix [OF room] by simp
  have inside: "get_recv_buffer i + CLIENT_HEADER_LEN \<le> length (in_buf (sctx ?s1))"
    using room unfolding arrived_def by simp
  have hb: "mem_read (in_buf (sctx ?s1)) (get_recv_buffer i) CLIENT_HEADER_LEN = Inr (enc_client_headers h)"
    using inside mem by (simp add: mem_read_def)
  have data: "drop (get_recv_buffer i + CLIENT_HEADER_LEN) (in_buf (sctx ?s1)) =
      data @ drop (get_recv_buffer i + CLIENT_HEADER_LEN + length data) (in_buf (sctx s))"
    using mem drop_drop [of CLIENT_HEADER_LEN "get_recv_buffer i" "in_buf (sctx ?s1)"] by (simp add: add.commute add.left_commute)
  have info: "wr_info (wc_id (server_recv_done i n)) = \<lparr>wr_id = of_nat i, wr_type = wrid_val RECV_WRID\<rparr>"
    "wc_success (server_recv_done i n)" "wc_qp_num (server_recv_done i n) = n"
    by (simp_all add: server_recv_done_def wr_info_value)
  have si: "sint (of_nat i :: 32 word) = int i" by (rule sint_small) (use i in simp)
  let ?s0 = "s\<lparr>polls := [], sctx := (sctx s)\<lparr>in_buf := splice (in_buf (sctx s)) (get_recv_buffer i) ?bs\<rparr>\<rparr>"
  have poll: "ibv_poll_cq (delivered i n ?bs s) = (Some ([server_recv_done i n], [(i, ?bs)]), s\<lparr>polls := []\<rparr>)"
    by (simp add: ibv_poll_cq_def delivered_def)
  have c0: "get_connection ?s0 n = Some j" "c_qp (conns ?s0 ! j) = Some qp"
    using conn by (simp_all add: get_connection_def)
  have refill: "refill_recv N ?gb ?s0 j = Inr ?s1"
    using many by (simp add: refill_recv_def arrived_def Let_def)
  have dec: "dec_client_headers (enc_client_headers h) = h" using dec_enc_client [of h "[]"] by simp
  have oc: "opcode_of (opcode h) = Some c" unfolding c by (rule opcode_of_val)
  have neg: "(int i < 0) = False" by simp
  have "handle_recv_request N ?gb ?s0 (wc_id (server_recv_done i n)) n = Inr (rc, s2)"
    unfolding handle_recv_request_def Let_def info(1) wr_data.simps si c0(1) option.case c0(2) not_null_def bnd_simps
      refill neg if_False nat_int hb dec oc data by (rule run)
  then have "handle_completion N ?gb (server_recv_done i n) ?s0 = lift_ctx (release_receive_buffer (sctx s2) (int i)) s2"
    unfolding handle_completion_def Let_def info wr_data.simps wrid_of_val option.case wrid_kind.case
    by (simp add: info(2) si)
  moreover have "lift_ctx (release_receive_buffer (sctx s2) (int i)) s2 =
      Inr (s2\<lparr>sctx := (sctx s2)\<lparr>in_use_recv := (in_use_recv (sctx s2))[i := False]\<rparr>\<rparr>)"
    using i wf by (simp add: lift_ctx_def flag_ops ctx_wf_def)
  ultimately show ?thesis
    using lb by (simp add: poll Let_def)
qed

definition handle_message ::
  "opcode_t \<Rightarrow> nic \<Rightarrow> get_buffer \<Rightarrow> server \<Rightarrow> ibv_qp \<Rightarrow> client_request_headers_t \<Rightarrow> byte list \<Rightarrow> 64 word \<Rightarrow> stop + int \<times> server" where
  "handle_message c = (if c = SET_REQUEST_OPCODE then handle_set_request else handle_get_request)"

lemma server_takes:
  assumes inv: "server_inv N s xs" and conn: "get_connection s n = Some j" "c_qp (conns s ! j) = Some qp"
    and many: "101 < c_curr (conns s ! j)" and i: "i < SERVER_NUM_RECV_BUFFS"
    and len: "CLIENT_HEADER_LEN + length data \<le> BUFFER_SIZE"
    and c: "opcode h = opcode_val c" "c = SET_REQUEST_OPCODE \<or> c = GET_REQUEST_OPCODE"
    and handle: "\<And>r. \<exists>rc s2. handle_message c N (get_free_send_buffer (Suc f) (server_wait_completions f N))
       (arrived i j (enc_client_headers h @ data) s) qp h (data @ r) (wc_id (server_recv_done i n)) = Inr (rc, s2) \<and> P s2"
    and wf: "\<And>s2. P s2 \<Longrightarrow> ctx_wf (sctx s2)"
  obtains s2 where "P s2" "server_wait_completions (Suc f) N (delivered i n (enc_client_headers h @ data) s) =
    Inr (s2\<lparr>sctx := (sctx s2)\<lparr>in_use_recv := (in_use_recv (sctx s2))[i := False]\<rparr>\<rparr>)"
proof -
  obtain rc s2 where run: "handle_message c N (get_free_send_buffer (Suc f) (server_wait_completions f N))
      (arrived i j (enc_client_headers h @ data) s) qp h
      (data @ drop (get_recv_buffer i + CLIENT_HEADER_LEN + length data) (in_buf (sctx s)))
      (wc_id (server_recv_done i n)) = Inr (rc, s2)" and P: "P s2"
    using handle by blast
  show ?thesis
    by (rule that [OF P], rule server_receives [OF inv conn many i len c(1), where rc = 0])
      (use c(2) run wf [OF P] in \<open>auto simp: handle_message_def\<close>)
qed

section \<open>SET and GET through a round of the server\<close>

text \<open>A connection that is in place, with receive buffers left for two messages.\<close>

definition linked :: "server \<Rightarrow> 32 word \<Rightarrow> nat \<Rightarrow> ibv_qp \<Rightarrow> bool" where
  "linked s n j qp \<longleftrightarrow> get_connection s n = Some j \<and> c_qp (conns s ! j) = Some qp"

lemma linked_arrived:
  assumes "linked s n a qp"
  shows "linked (arrived i j bs s) n a qp"
proof -
  let ?c = "(conns s)[j := (conns s ! j)\<lparr>c_curr := c_curr (conns s ! j) - 1\<rparr>]"
  have "c_qp (?c ! b) = c_qp (conns s ! b)" for b
    by (cases "b = j \<and> j < length (conns s)") (auto simp: list_update_beyond not_less)
  then have "has_qp n (?c ! b) = has_qp n (conns s ! b)" "c_qp (?c ! b) = c_qp (conns s ! b)" for b by (simp_all add: has_qp_def)
  then show ?thesis using assms by (simp add: linked_def get_connection_def arrived_def)
qed

lemma linked_cong: "conns s' = conns s \<Longrightarrow> linked s' n j qp = linked s n j qp"
  by (simp add: linked_def get_connection_def)

lemma linked_facts:
  assumes "linked s n j qp" and "conns_ok s"
  shows "j < MAX_CLIENTS_SUPPORTED" "qp_num qp = n" "qp_ptr qp \<in> set (live_qps s)"
proof -
  have f: "find (\<lambda>i. has_qp n (conns s ! i)) [0..<MAX_CLIENTS_SUPPORTED] = Some j"
    using assms(1) by (simp add: linked_def get_connection_def)
  show j: "j < MAX_CLIENTS_SUPPORTED" using f by (auto simp: find_Some_iff)
  have "has_qp n (conns s ! j)" using f by (auto simp: find_Some_iff)
  then show "qp_num qp = n" using assms(1) by (simp add: linked_def has_qp_def)
  show "qp_ptr qp \<in> set (live_qps s)" using assms j by (simp add: linked_def conns_ok_def)
qed

lemma server_set_round:
  assumes inv: "server_inv N s xs" and W: "plentiful (host N)" and l: "linked s n j qp" "101 < c_curr (conns s ! j)"
    and i: "i < SERVER_NUM_RECV_BUFFS" and kv: "storable (db_page_size (q_db (rqs s))) k v"
    and fit: "length k + length v + 2 \<le> CLIENT_REQUEST_PAYLOAD_LEN" and free: "\<not> busy (rqs s) k"
  obtains s' where "server_wait_completions (Suc f) N (delivered i n (set_message t k v) s) = Inr s'"
    "server_inv N s' (without (rqs s) t xs)" "db_abs (q_db (rqs s')) = (db_abs (q_db (rqs s)))(k \<mapsto> v)"
    "stored_size (q_db (rqs s')) k = Suc (length v)" "\<not> busy (rqs s') k"
    "db_page_size (q_db (rqs s')) = db_page_size (q_db (rqs s))" "linked s' n j qp"
    "c_curr (conns s' ! j) = c_curr (conns s ! j) - 1" "sent s' = sent s" "verbs s' = verbs s"
    "in_use_send (sctx s') = in_use_send (sctx s)"
proof -
  let ?h = "client_headers SET_REQUEST_OPCODE t (of_nat (length k)) (of_nat (length v))"
  let ?data = "k @ [NUL] @ v @ [NUL]"
  let ?s1 = "arrived i j (enc_client_headers ?h @ ?data) s"
  let ?P = "\<lambda>s2. \<exists>q'. s2 = ?s1\<lparr>rqs := q'\<rparr> \<and> req_inv (host N) (\<lambda>_. 0) q' (without (rqs s) t xs) \<and>
      db_abs (q_db q') = (db_abs (q_db (rqs s)))(k \<mapsto> v) \<and> db_page_size (q_db q') = db_page_size (q_db (rqs s)) \<and>
      stored_size (q_db q') k = Suc (length v) \<and> \<not> busy q' k"
  have j: "j < MAX_CLIENTS_SUPPORTED" using linked_facts(1) [OF l(1)] inv by (simp add: server_inv_def)
  have inv1: "server_inv N ?s1 xs" by (rule arrived_inv [OF inv i]) (use fit in simp)
  have rinv: "req_inv (host N) (\<lambda>_. 0) (rqs ?s1) xs" using inv1 by (simp add: server_inv_def)
  have kv1: "storable (db_page_size (q_db (rqs ?s1))) k v" and free1: "\<not> busy (rqs ?s1) k" using kv free by simp_all
  have handle: "\<exists>rc s2. handle_message SET_REQUEST_OPCODE N gb ?s1 qp ?h (?data @ r) info = Inr (rc, s2) \<and> ?P s2" for gb r info
  proof -
    obtain q' where q': "handle_set_request N gb ?s1 qp ?h (k @ NUL # v @ NUL # r) info = Inr (0, ?s1\<lparr>rqs := q'\<rparr>)"
      "req_inv (host N) (\<lambda>_. 0) q' (without (rqs ?s1) (tid ?h) xs)"
      "db_abs (q_db q') = (db_abs (q_db (rqs ?s1)))(k \<mapsto> v)" "db_page_size (q_db q') = db_page_size (q_db (rqs ?s1))"
      "stored_size (q_db q') k = Suc (length v)" "\<not> busy q' k"
      by (rule set_stores [OF rinv W kv1 fit free1, where h = ?h and r = r and gb = gb and qp = qp and info = info])
        (simp_all add: client_headers_def)
    then show ?thesis by (auto simp: handle_message_def client_headers_def)
  qed
  have wf: "ctx_wf (sctx s2)" if "?P s2" for s2 using that inv1 by (auto simp: server_inv_def)
  have c: "opcode ?h = opcode_val SET_REQUEST_OPCODE" "SET_REQUEST_OPCODE = SET_REQUEST_OPCODE \<or> SET_REQUEST_OPCODE = GET_REQUEST_OPCODE"
    by (simp_all add: client_headers_def)
  have len: "CLIENT_HEADER_LEN + length ?data \<le> BUFFER_SIZE" using fit by simp
  have l': "get_connection s n = Some j" "c_qp (conns s ! j) = Some qp" using l(1) by (simp_all add: linked_def)
  obtain s2 where s2: "?P s2" "server_wait_completions (Suc f) N (delivered i n (enc_client_headers ?h @ ?data) s) =
      Inr (s2\<lparr>sctx := (sctx s2)\<lparr>in_use_recv := (in_use_recv (sctx s2))[i := False]\<rparr>\<rparr>)"
    by (rule server_takes [OF inv l' l(2) i len c, where P = ?P, OF handle wf])
  then obtain q' where q': "s2 = ?s1\<lparr>rqs := q'\<rparr>" "req_inv (host N) (\<lambda>_. 0) q' (without (rqs s) t xs)"
      "db_abs (q_db q') = (db_abs (q_db (rqs s)))(k \<mapsto> v)" "db_page_size (q_db q') = db_page_size (q_db (rqs s))"
      "stored_size (q_db q') k = Suc (length v)" "\<not> busy q' k"
    by blast
  let ?s' = "s2\<lparr>sctx := (sctx s2)\<lparr>in_use_recv := (in_use_recv (sctx s2))[i := False]\<rparr>\<rparr>"
  have conns: "conns ?s' = conns ?s1" "live_qps ?s' = live_qps ?s1" using q'(1) by simp_all
  have "server_inv N ?s' (without (rqs s) t xs)"
    using inv1 q'(1,2) conns_ok_cong [OF conns] by (simp add: server_inv_def ctx_wf_def)
  moreover have "linked ?s' n j qp" using linked_cong [OF conns(1)] linked_arrived [OF l(1)] by simp
  moreover have "c_curr (conns ?s' ! j) = c_curr (conns s ! j) - 1"
    using q'(1) j inv by (simp add: arrived_def server_inv_def conns_ok_def)
  ultimately show ?thesis
    using that [of ?s'] s2(2) q' by (simp add: set_message_def)
qed

lemma server_get_round:
  assumes inv: "server_inv N s xs" and W: "plentiful (host N)" and l: "linked s n j qp" "101 < c_curr (conns s ! j)"
    and i: "i < SERVER_NUM_RECV_BUFFS" and k: "storable (db_page_size (q_db (rqs s))) k []"
    and fit: "length k + 1 \<le> CLIENT_REQUEST_PAYLOAD_LEN" and nw: "\<not> being_written (q_db (rqs s)) k"
    and sz: "stored_size (q_db (rqs s)) k + 1 + SERVER_HEADER_LEN \<le> SERVER_RESPONSE_PAYLOAD_LEN"
    and free: "\<exists>i < SERVER_NUM_SEND_BUFFS. \<not> in_use_send (sctx s) ! i" and accept: "send_ok N (verbs s)"
  obtains s' m bs where "server_wait_completions (Suc f) N (delivered i n (get_message t k) s) = Inr s'"
    "server_inv N s' (without (rqs s) t xs)"
    "sent s' = sent s @ [(n, enc_server_headers (response_headers GET_RESPONSE t (of_nat (length k)) (ucast (m :: 32 word)) 0 0) @ bs)]"
    "unat m = stored_size (q_db (rqs s)) k" "length bs = Suc (unat m)"
    "cstr (take (unat m) bs) = value_of (q_db (rqs s)) k"
    "db_abs (q_db (rqs s')) = (db_abs (q_db (rqs s)))(k \<mapsto> value_of (q_db (rqs s)) k)"
proof -
  let ?h = "client_headers GET_REQUEST_OPCODE t (of_nat (length k)) 0"
  let ?data = "k @ [NUL]"
  let ?s1 = "arrived i j (enc_client_headers ?h @ ?data) s"
  let ?P = "\<lambda>s2. \<exists>m bs. server_inv N s2 (without (rqs s) t xs) \<and>
      sent s2 = sent s @ [(n, enc_server_headers (response_headers GET_RESPONSE t (of_nat (length k)) (ucast (m :: 32 word)) 0 0) @ bs)] \<and>
      unat m = stored_size (q_db (rqs s)) k \<and> length bs = Suc (unat m) \<and>
      cstr (take (unat m) bs) = value_of (q_db (rqs s)) k \<and>
      db_abs (q_db (rqs s2)) = (db_abs (q_db (rqs s)))(k \<mapsto> value_of (q_db (rqs s)) k)"
  have inv1: "server_inv N ?s1 xs" by (rule arrived_inv [OF inv i]) (use fit in simp)
  have "conns_ok s" using inv by (simp add: server_inv_def)
  note lf = linked_facts [OF l(1) this]
  have k1: "storable (db_page_size (q_db (rqs ?s1))) k []" "\<not> being_written (q_db (rqs ?s1)) k"
    "stored_size (q_db (rqs ?s1)) k + 1 + SERVER_HEADER_LEN \<le> SERVER_RESPONSE_PAYLOAD_LEN"
    "\<exists>i < SERVER_NUM_SEND_BUFFS. \<not> in_use_send (sctx ?s1) ! i" "qp_ptr qp \<in> set (live_qps ?s1)"
    using k nw sz free lf(3) by simp_all
  have handle: "\<exists>rc s2. handle_message GET_REQUEST_OPCODE N (get_free_send_buffer (Suc f) wait) ?s1 qp ?h (?data @ r) info = Inr (rc, s2) \<and> ?P s2"
    for wait r info
  proof -
    obtain s2 m bs where s2: "handle_get_request N (get_free_send_buffer (Suc f) wait) ?s1 qp ?h (k @ NUL # r) info = Inr (0, s2)"
      "server_inv N s2 (without (rqs ?s1) (tid ?h) xs)" "sent s2 = sent ?s1 @ transmitted N ?s1 qp (get_reply ?h m @ bs)"
      "unat m = stored_size (q_db (rqs ?s1)) k" "length bs = Suc (unat m)"
      "cstr (take (unat m) bs) = value_of (q_db (rqs ?s1)) k"
      "db_abs (q_db (rqs s2)) = (db_abs (q_db (rqs ?s1)))(k \<mapsto> value_of (q_db (rqs ?s1)) k)"
      by (rule get_sends [OF inv1 W k1, where m = f and wait = wait and h = ?h and r = r and info = info])
    have "transmitted N ?s1 qp (get_reply ?h m @ bs) =
        [(n, enc_server_headers (response_headers GET_RESPONSE t (of_nat (length k)) (ucast m) 0 0) @ bs)]"
      using accept lf(2) by (simp add: transmitted_def get_reply_def client_headers_def)
    then have "?P s2" using s2(2-7) by (intro exI [of _ m] exI [of _ bs]) (simp add: client_headers_def)
    moreover have "handle_message GET_REQUEST_OPCODE N (get_free_send_buffer (Suc f) wait) ?s1 qp ?h (?data @ r) info = Inr (0, s2)"
      using s2(1) by (simp add: handle_message_def)
    ultimately show ?thesis by blast
  qed
  have wf: "ctx_wf (sctx s2)" if "?P s2" for s2 using that by (auto simp: server_inv_def)
  have c: "opcode ?h = opcode_val GET_REQUEST_OPCODE" "GET_REQUEST_OPCODE = SET_REQUEST_OPCODE \<or> GET_REQUEST_OPCODE = GET_REQUEST_OPCODE"
    by (simp_all add: client_headers_def)
  have len: "CLIENT_HEADER_LEN + length ?data \<le> BUFFER_SIZE" using fit by simp
  have l': "get_connection s n = Some j" "c_qp (conns s ! j) = Some qp" using l(1) by (simp_all add: linked_def)
  obtain s2 where s2: "?P s2" "server_wait_completions (Suc f) N (delivered i n (enc_client_headers ?h @ ?data) s) =
      Inr (s2\<lparr>sctx := (sctx s2)\<lparr>in_use_recv := (in_use_recv (sctx s2))[i := False]\<rparr>\<rparr>)"
    by (rule server_takes [OF inv l' l(2) i len c, where P = ?P, OF handle wf])
  let ?s' = "s2\<lparr>sctx := (sctx s2)\<lparr>in_use_recv := (in_use_recv (sctx s2))[i := False]\<rparr>\<rparr>"
  have "server_inv N ?s' (without (rqs s) t xs)"
    using s2(1) conns_ok_cong [of ?s' s2] by (auto simp: server_inv_def ctx_wf_def)
  then show ?thesis using that [of ?s'] s2 by (auto simp: get_message_def)
qed

section \<open>A value that is set is the value that is got\<close>

lemma cstr_prefix_NUL:
  assumes "cstr (take n bs) = v" and "length v < n" and "n \<le> length bs"
  shows "NUL \<in> set bs \<and> cstr bs = v"
proof -
  have "NUL \<in> set (take n bs)"
  proof (rule ccontr)
    assume "NUL \<notin> set (take n bs)"
    then have "length (cstr (take n bs)) = n" using assms(3) by (simp add: cstr_id)
    then show False using assms(1,2) by simp
  qed
  moreover have "cstr (take n bs @ drop n bs) = (if NUL \<in> set (take n bs) then cstr (take n bs) else take n bs @ cstr (drop n bs))"
    by (rule cstr_append)
  ultimately show ?thesis using assms(1) in_set_takeD [of NUL n bs] by simp
qed

text \<open>
  C1: end to end. A client sets a short value, its message is delivered to the server and handled,
  and then it gets the key, whose message is delivered and handled, and whose answer is delivered
  back: \<open>kv_get\<close> returns a block that holds exactly the value. Each call sends one message, and the
  server keeps its invariant and maps the key to the value.
\<close>

theorem set_then_get:
  assumes "client_ok c" and "1 < count_list (in_use_send (cctx c)) False" and "creq_abs (reqs c) = Map.empty"
    and "num_pending_requests (reqs c) < 250" and "\<not> immediate_shutdown c" and "11 < curr_recv_buff (cctx c)"
    and "\<forall>m. e_alloc E m" and "\<forall>m. e_calloc E m" and "\<forall>m. e_send E m" and "\<forall>m. \<not> e_signal E m" and "3 \<le> a"
    and "blocks c p = Some (v @ [NUL])"
    and "server_inv N s xs" and "plentiful (host N)" and "\<forall>m. send_ok N m" and "linked s n j qp" and "102 < c_curr (conns s ! j)"
    and "\<exists>i < SERVER_NUM_SEND_BUFFS. \<not> in_use_send (sctx s) ! i"
    and "storable (db_page_size (q_db (rqs s))) k v" and "length k + length v + 2 \<le> CLIENT_REQUEST_PAYLOAD_LEN"
    and "length v + 2 + SERVER_HEADER_LEN \<le> SERVER_RESPONSE_PAYLOAD_LEN" and "\<not> busy (rqs s) k"
    and "i < SERVER_NUM_RECV_BUFFS" and "i' < SERVER_NUM_RECV_BUFFS" and "b < SERVER_NUM_RECV_BUFFS"
  shows "\<exists>c1 m1 s1 m2 s2 reply c2 q bs ys.
     kv_set a E (k @ [NUL]) (Some p) c = Inr (0, c1) \<and> posted c1 = posted c @ [Send m1] \<and>
     server_wait_completions (Suc f) N (delivered i n m1 s) = Inr s1 \<and> db_abs (q_db (rqs s1)) k = Some v \<and>
     server_wait_completions (Suc f) N (delivered i' n m2 s1) = Inr s2 \<and> sent s2 = sent s @ [(n, reply)] \<and>
     kv_get a E (k @ [NUL]) (c1\<lparr>cpolls := [Some (message_poll b reply)]\<rparr>) = Inr ((0, Some q), c2) \<and>
     posted c2 = posted c1 @ [Send m2] \<and> blocks c2 q = Some bs \<and> NUL \<in> set bs \<and> cstr bs = v \<and>
     server_inv N s2 ys \<and> db_abs (q_db (rqs s2)) = (db_abs (q_db (rqs s)))(k \<mapsto> v)"
proof -
  have kv: "NUL \<notin> set k" "NUL \<notin> set v" using assms(19) by (auto simp: storable_def)
  have a0: "0 < a" and sp: "0 < send_ring.spare (cctx c)" using assms(2,11) by simp_all
  obtain c1 where c1: "kv_set a E (k @ [NUL]) (Some p) c = Inr (0, c1)" "client_ok c1"
    "posted c1 = posted c @ [Send (set_message (fst (get_new_tid c)) k v)]" "reqs c1 = reqs c"
    "immediate_shutdown c1 = immediate_shutdown c" "Suc (send_ring.spare (cctx c1)) = send_ring.spare (cctx c)"
    "curr_recv_buff (cctx c1) = curr_recv_buff (cctx c)"
    by (rule kv_set_eager_step [OF assms(1) sp assms(4) a0 kv(1) assms(12) kv(2) assms(20) assms(9)])
  let ?t1 = "fst (get_new_tid c)"
  have many: "101 < c_curr (conns s ! j)" using assms(17) by simp
  obtain s1 where s1: "server_wait_completions (Suc f) N (delivered i n (set_message ?t1 k v) s) = Inr s1"
    "server_inv N s1 (without (rqs s) ?t1 xs)" "db_abs (q_db (rqs s1)) = (db_abs (q_db (rqs s)))(k \<mapsto> v)"
    "stored_size (q_db (rqs s1)) k = Suc (length v)" "\<not> busy (rqs s1) k"
    "db_page_size (q_db (rqs s1)) = db_page_size (q_db (rqs s))" "linked s1 n j qp"
    "c_curr (conns s1 ! j) = c_curr (conns s ! j) - 1" "sent s1 = sent s" "verbs s1 = verbs s"
    "in_use_send (sctx s1) = in_use_send (sctx s)"
    by (rule server_set_round [OF assms(13,14,16) many assms(23,19,20,22)])
  let ?t2 = "fst (get_new_tid c1)"
  have val: "value_of (q_db (rqs s1)) k = v" using s1(3) by (simp add: value_of_def)
  have k1: "storable (db_page_size (q_db (rqs s1))) k []" using storable_Nil [OF assms(19)] s1(6) by simp
  have rinv: "req_inv (host N) (\<lambda>_. 0) (rqs s1) (without (rqs s) ?t1 xs)" using s1(2) by (simp add: server_inv_def)
  have pre: "101 < c_curr (conns s1 ! j)" "length k + 1 \<le> CLIENT_REQUEST_PAYLOAD_LEN"
    "stored_size (q_db (rqs s1)) k + 1 + SERVER_HEADER_LEN \<le> SERVER_RESPONSE_PAYLOAD_LEN"
    "\<exists>i < SERVER_NUM_SEND_BUFFS. \<not> in_use_send (sctx s1) ! i" "send_ok N (verbs s1)"
    using assms(15,17,18,20,21) s1(4,8,11) by simp_all
  obtain s2 m bs where s2: "server_wait_completions (Suc f) N (delivered i' n (get_message ?t2 k) s1) = Inr s2"
    "server_inv N s2 (without (rqs s1) ?t2 (without (rqs s) ?t1 xs))"
    "sent s2 = sent s1 @ [(n, enc_server_headers (response_headers GET_RESPONSE ?t2 (of_nat (length k)) (ucast (m :: 32 word)) 0 0) @ bs)]"
    "unat m = stored_size (q_db (rqs s1)) k" "length bs = Suc (unat m)"
    "cstr (take (unat m) bs) = value_of (q_db (rqs s1)) k"
    "db_abs (q_db (rqs s2)) = (db_abs (q_db (rqs s1)))(k \<mapsto> value_of (q_db (rqs s1)) k)"
    by (rule server_get_round [OF s1(2) assms(14) s1(7) pre(1) assms(24) k1 pre(2) not_busy_not_written [OF rinv s1(5)] pre(3-5)])
  let ?h = "response_headers GET_RESPONSE ?t2 (of_nat (length k)) (ucast m) 0 0"
  let ?reply = "enc_server_headers ?h @ bs"
  let ?c2 = "c1\<lparr>cpolls := replicate 0 (Some empty_poll) @ Some (message_poll b ?reply) # []\<rparr>"
  have tid: "fst (get_new_tid ?c2) = ?t2" by (simp add: get_new_tid_def Let_def)
  have um: "unat (ucast m :: 64 word) = unat m"
    using unsigned_less [of m, where 'a = nat] by (simp add: unsigned_ucast_eq take_bit_nat_eq_self)
  have small: "SERVER_HEADER_LEN + length bs \<le> BUFFER_SIZE" using s2(4,5) s1(4) assms(21) by simp
  have "\<exists>c3. kv_get a E (k @ [NUL]) ?c2 = Inr ((0, Some (next_block ?c2)), c3) \<and> client_ok c3 \<and>
      blocks c3 = (blocks ?c2)(next_block ?c2 \<mapsto> answer ?h bs) \<and> creq_abs (reqs c3) = creq_abs (reqs ?c2) \<and>
      num_pending_requests (reqs c3) = num_pending_requests (reqs ?c2) \<and>
      posted c3 = posted ?c2 @ [Send (get_message (fst (get_new_tid ?c2)) k)]"
    by (rule kv_get_answered [where kr = "[]" and m = 0 and j = b and rs = "[]"])
      (use c1 kv assms(2,3,5-11,20,25) small um s2(5) tid in \<open>simp_all add: client_ok_def response_headers_def\<close>)
  then obtain c3 where c3: "kv_get a E (k @ [NUL]) ?c2 = Inr ((0, Some (next_block ?c2)), c3)"
    "blocks c3 (next_block ?c2) = Some (answer ?h bs)" "posted c3 = posted c1 @ [Send (get_message ?t2 k)]"
    using tid by auto
  have m: "unat m = Suc (length v)" using s2(4) s1(4) by simp
  then have "ucast m \<noteq> (0 :: 64 word)" using um by auto
  then have ans: "answer ?h bs = bs" using s2(5) um by (simp add: answer_def response_headers_def)
  have str: "NUL \<in> set bs \<and> cstr bs = v"
    by (rule cstr_prefix_NUL [of "unat m"]) (use s2(5,6) val m in simp_all)
  have abs2: "db_abs (q_db (rqs s2)) = (db_abs (q_db (rqs s)))(k \<mapsto> v)" using s2(7) s1(3) val by simp
  show ?thesis
    by (rule exI [of _ c1], rule exI [of _ "set_message ?t1 k v"], rule exI [of _ s1], rule exI [of _ "get_message ?t2 k"],
        rule exI [of _ s2], rule exI [of _ ?reply], rule exI [of _ c3], rule exI [of _ "next_block ?c2"], rule exI [of _ bs],
        rule exI [of _ "without (rqs s1) ?t2 (without (rqs s) ?t1 xs)"])
      (use c1(1,3) s1(1,3,9) s2(1,2,3) c3 ans str abs2 in simp)
qed

definition posted_client :: "requests \<Rightarrow> server" where
  "posted_client q = (one_client q)\<lparr>conns := (conns (one_client q))[0 := (conns (one_client q) ! 0)\<lparr>c_curr := 200\<rparr>]\<rparr>"

lemma posted_client_inv:
  assumes "req_inv linux_world (\<lambda>_. 0) q xs"
  shows "server_inv linux_nic (posted_client q) xs"
proof -
  have "conns_ok (posted_client q)"
    by (rule conns_ok_decrement [OF conns_ok_one, of _ _ 0]) (simp_all add: posted_client_def)
  then show ?thesis using server_inv_one [OF assms] by (simp add: server_inv_def posted_client_def)
qed

lemma posted_client_linked: "linked (posted_client q) 9 0 qp9" "c_curr (conns (posted_client q) ! 0) = 200"
proof -
  have u: "[0..<MAX_CLIENTS_SUPPORTED] = 0 # [1..<MAX_CLIENTS_SUPPORTED]" by (simp add: upt_rec)
  have "conns (posted_client q) ! 0 = empty_connection\<lparr>c_qp := Some qp9, c_max := MAX_RECV_BUFFS, c_curr := 200\<rparr>"
    by (simp add: posted_client_def one_client_def)
  then show "linked (posted_client q) 9 0 qp9" "c_curr (conns (posted_client q) ! 0) = 200"
    unfolding linked_def get_connection_def u by (simp_all add: has_qp_def qp9_def)
qed

theorem set_then_get_witness:
  "\<exists>q c1 m1 s1 m2 s2 reply c2 p bs.
     kv_set 3 good_env (''key'' @ [NUL]) (Some 0) (connected ''value'') = Inr (0, c1) \<and> posted c1 = posted (connected ''value'') @ [Send m1] \<and>
     server_wait_completions (Suc 0) linux_nic (delivered 0 9 m1 (posted_client q)) = Inr s1 \<and>
     server_wait_completions (Suc 0) linux_nic (delivered 1 9 m2 s1) = Inr s2 \<and> sent s2 = sent (posted_client q) @ [(9, reply)] \<and>
     kv_get 3 good_env (''key'' @ [NUL]) (c1\<lparr>cpolls := [Some (message_poll 0 reply)]\<rparr>) = Inr ((0, Some p), c2) \<and>
     blocks c2 p = Some bs \<and> cstr bs = ''value''"
proof (rule linux_requests)
  fix q
  assume q: "req_inv linux_world (\<lambda>_. 0) q []" "waiting_fin_q q = []" "db_page_size (q_db q) = 4096"
  let ?c = "connected ''value''" and ?s = "posted_client q"
  have rq: "rqs ?s = q" "sctx ?s = blank_context" by (simp_all add: posted_client_def)
  have inv: "server_inv (linux_nic) ?s []" by (rule posted_client_inv [OF q(1)])
  have spare: "1 < count_list (in_use_send (cctx ?c)) False" using connected_spare [of "''value''"] by simp
  have st: "storable (db_page_size (q_db (rqs ?s))) ''key'' ''value''" by (simp add: storable_def rq(1) q(3))
  have nb: "\<not> busy (rqs ?s) ''key''" using not_busy [OF q(2)] rq(1) by simp
  have fr: "\<exists>i < SERVER_NUM_SEND_BUFFS. \<not> in_use_send (sctx ?s) ! i" using free_blank rq(2) by simp
  have "\<exists>c1 m1 s1 m2 s2 reply c2 p bs ys.
     kv_set 3 good_env (''key'' @ [NUL]) (Some 0) ?c = Inr (0, c1) \<and> posted c1 = posted ?c @ [Send m1] \<and>
     server_wait_completions (Suc 0) linux_nic (delivered 0 9 m1 ?s) = Inr s1 \<and> db_abs (q_db (rqs s1)) ''key'' = Some ''value'' \<and>
     server_wait_completions (Suc 0) linux_nic (delivered 1 9 m2 s1) = Inr s2 \<and> sent s2 = sent ?s @ [(9, reply)] \<and>
     kv_get 3 good_env (''key'' @ [NUL]) (c1\<lparr>cpolls := [Some (message_poll 0 reply)]\<rparr>) = Inr ((0, Some p), c2) \<and>
     posted c2 = posted c1 @ [Send m2] \<and> blocks c2 p = Some bs \<and> NUL \<in> set bs \<and> cstr bs = ''value'' \<and>
     server_inv linux_nic s2 ys \<and> db_abs (q_db (rqs s2)) = (db_abs (q_db (rqs ?s)))(''key'' \<mapsto> ''value'')"
    by (rule set_then_get [OF connected_ok spare connected_reqs(2) _ _ _ _ _ _ _ _ _ inv _ _ posted_client_linked(1) _ fr st _ _ nb])
      (simp_all add: connected_reqs posted_client_linked)
  then show ?thesis by blast
qed

end
