(* ===== verification/Rendezvous.thy ===== *)
theory Rendezvous
  imports End_To_End
begin

text \<open>
  The rendezvous: a value that does not fit in a message. Shown: client and server take the same
  decision about the way of a value; and the whole transfer, from the request through the
  announcement, the client's RDMA write and its FIN message, leaves the value in the table of the
  server, with the lock of the entry free again.
\<close>

section \<open>The decision\<close>

lemma takes_value_nat:
  assumes "a + b + 2 < (2 :: nat) ^ 31"
  shows "takes_value (client_headers c t (of_nat a) (scast (of_nat b :: 32 word))) \<longleftrightarrow> a + b + 2 \<le> CLIENT_REQUEST_PAYLOAD_LEN"
proof -
  have b: "b < 2 ^ 31" using assms by simp
  have bl: "(ucast (scast (of_nat b :: 32 word) :: 64 word) :: 32 word) = of_nat b"
    unfolding scast_small [OF b] by (rule bit_word_eqI) (simp add: bit_ucast_iff bit_of_nat_iff)
  have sum: "(of_nat b + of_nat a + 2 :: 32 word) = of_nat (a + b + 2)" by simp
  have un: "unat (of_nat (a + b + 2) :: 32 word) = a + b + 2"
    "unat (of_nat CLIENT_REQUEST_PAYLOAD_LEN :: 32 word) = CLIENT_REQUEST_PAYLOAD_LEN"
    using assms by (intro unat_of_nat32; simp)+
  show ?thesis
    unfolding takes_value_def client_headers_simps bl sum word_le_nat_alt un ..
qed

text \<open>
  C18: client and server decide alike whether a value travels in the message, although they compute
  the sum of the lengths in different orders, one as \<open>int\<close> and one as \<open>uint32_t\<close> cut down from
  64 bits: as long as key and value together stay below \<open>2 ^ 31\<close> bytes, both say whether both
  strings with their NUL characters fit into the payload.
\<close>

theorem decision_agrees:
  assumes "a + b + 2 < (2 :: nat) ^ 31"
  shows "sends_value (of_nat a) (of_nat b) = takes_value (client_headers SET_REQUEST_OPCODE t (of_nat a) (scast (of_nat b :: 32 word))) \<and>
    sends_value (of_nat a) (of_nat b) = (a + b + 2 \<le> CLIENT_REQUEST_PAYLOAD_LEN)"
proof -
  have "sends_value (of_nat a) (of_nat b) \<longleftrightarrow> a + b + 2 \<le> CLIENT_REQUEST_PAYLOAD_LEN"
    unfolding sends_value_def sum_small [OF assms] by (simp only: of_nat_le_iff)
  then show ?thesis using takes_value_nat [OF assms] by blast
qed

theorem decision_agrees_witness:
  "sends_value (of_nat 3) (of_nat 4067) \<and> takes_value (client_headers SET_REQUEST_OPCODE 9 (of_nat 3) (scast (of_nat 4067 :: 32 word))) \<and>
   \<not> sends_value (of_nat 3) (of_nat 4068) \<and> \<not> takes_value (client_headers SET_REQUEST_OPCODE 9 (of_nat 3) (scast (of_nat 4068 :: 32 word)))"
proof -
  have "(3 :: nat) + 4067 + 2 < 2 ^ 31" "(3 :: nat) + 4068 + 2 < 2 ^ 31" by simp_all
  note d = decision_agrees [OF this(1), of 9] decision_agrees [OF this(2), of 9]
  have "3 + 4067 + 2 \<le> CLIENT_REQUEST_PAYLOAD_LEN" "\<not> 3 + 4068 + 2 \<le> CLIENT_REQUEST_PAYLOAD_LEN" by simp_all
  with d show ?thesis by blast
qed

text \<open>A value of \<open>2 ^ 31\<close> bytes makes the client's sum negative: it copies the value into the message.\<close>

lemma huge_value_decisions:
  "sends_value 1 (of_nat (2 ^ 31)) \<and> \<not> takes_value (client_headers SET_REQUEST_OPCODE t 1 (scast (of_nat (2 ^ 31) :: 32 word)))"
proof -
  have sint_of_nat: "sint (of_nat m :: 32 word) = signed_take_bit 31 (int m)" for m
    by transfer simp
  have "(1 + 1 + of_nat (2 ^ 31) + 1 :: 32 word) = of_nat (2 ^ 31 + 3)" by simp
  also have "sint (of_nat (2 ^ 31 + 3) :: 32 word) = signed_take_bit 31 (int (2 ^ 31 + 3))"
    by (rule sint_of_nat)
  also have "\<dots> = 3 - 2 ^ 31"
    by (simp add: signed_take_bit_eq_take_bit_shift take_bit_eq_mod)
  finally have "sends_value 1 (of_nat (2 ^ 31))" unfolding sends_value_def by simp
  moreover have "(ucast (scast (w :: 32 word) :: 64 word) :: 32 word) = w" for w
    by (rule bit_word_eqI) (auto simp: bit_ucast_iff bit_signed_iff min_def intro!: arg_cong [where f = "bit w"])
  moreover have "(of_nat (2 ^ 31) + 1 + 2 :: 32 word) = of_nat (2 ^ 31 + 3)" by simp
  moreover have "unat (of_nat (2 ^ 31 + 3) :: 32 word) = 2 ^ 31 + 3"
    "unat (of_nat CLIENT_REQUEST_PAYLOAD_LEN :: 32 word) = CLIENT_REQUEST_PAYLOAD_LEN"
    by (intro unat_of_nat32; simp)+
  ultimately show ?thesis by (simp only: takes_value_def client_headers_simps word_le_nat_alt) simp
qed

section \<open>The announcement\<close>

lemma server_announces:
  assumes inv: "server_inv N s xs" and W: "plentiful (host N)" and l: "linked s n j qp" "101 < c_curr (conns s ! j)"
    and i: "i < SERVER_NUM_RECV_BUFFS" and k: "storable (db_page_size (q_db (rqs s))) k []"
    and len: "length k + 1 \<le> CLIENT_REQUEST_PAYLOAD_LEN" "CLIENT_REQUEST_PAYLOAD_LEN < length k + m + 2"
      "length k + m + 2 < 2 ^ 31"
    and nb: "\<not> busy (rqs s) k" and new: "\<forall>w \<in> set (waiting_fin_q (rqs s)). req_key (rqs s) w \<noteq> Some (uint t)"
    and free: "\<exists>i < SERVER_NUM_SEND_BUFFS. \<not> in_use_send (sctx s) ! i" and accept: "send_ok N (verbs s)"
  obtains s' p rk ra ys w where "server_wait_completions (Suc f) N (delivered i n (announce_message t k m) s) = Inr s'"
    "server_inv N s' ys" "linked s' n j qp" "c_curr (conns s' ! j) = c_curr (conns s ! j) - 1"
    "sent s' = sent s @ [(n, enc_server_headers (response_headers RDMA_RKEY_SET t (of_nat (length k)) (of_nat m) rk ra))]"
    "announces (q_db (rqs s')) p rk ra m" "p \<in> set (internal_db (q_db (rqs s')))" "db_key (q_db (rqs s')) p = Some k"
    "busy (rqs s') k" "fins (rqs s') p = 1" "w \<in> set (waiting_fin_q (rqs s'))" "req_key (rqs s') w = Some (uint t)" "r_target (rqs s') w = Some p"
    "\<exists>v. db_abs (q_db (rqs s')) = (db_abs (q_db (rqs s)))(k \<mapsto> v)"
proof -
  let ?h = "client_headers SET_REQUEST_OPCODE t (of_nat (length k)) (of_nat m)"
  let ?data = "k @ [NUL]" and ?gb = "get_free_send_buffer (Suc f) (server_wait_completions f N)"
  let ?s1 = "arrived i j (enc_client_headers ?h @ ?data) s"
  have m: "m < 2 ^ 32" using len(3) by simp
  have ubl: "(ucast (of_nat m :: 64 word) :: 32 word) = of_nat m" by (rule bit_word_eqI) (simp add: bit_ucast_iff bit_of_nat_iff)
  have ubl64: "(ucast (of_nat m :: 32 word) :: 64 word) = of_nat m"
    by (subst of_nat_unat [symmetric]) (simp only: unat_of_nat32 [OF m])
  have um: "unat (ucast (buflen ?h) :: 32 word) = m"
    unfolding client_headers_simps ubl using m by (rule unat_of_nat32)
  have fit: "CLIENT_HEADER_LEN + length ?data \<le> BUFFER_SIZE" using len(1) by simp
  have inv1: "server_inv N ?s1 xs" by (rule arrived_inv [OF inv i]) (use fit in simp)
  have co: "conns_ok s" using inv by (simp add: server_inv_def)
  note lf = linked_facts [OF l(1) co]
  have l': "get_connection s n = Some j" "c_qp (conns s ! j) = Some qp" using l(1) by (simp_all add: linked_def)
  have kl: "keylen ?h = of_nat (length k)" by simp
  have big: "CLIENT_REQUEST_PAYLOAD_LEN < unat (ucast (buflen ?h) :: 32 word) + length k + 2"
    "unat (ucast (buflen ?h) :: 32 word) + length k + 2 < 2 ^ 32"
    unfolding um using len(2,3) by simp_all
  have k1: "storable (db_page_size (q_db (rqs ?s1))) k []" "\<not> busy (rqs ?s1) k" "qp_ptr qp \<in> set (live_qps ?s1)"
    "\<exists>i < SERVER_NUM_SEND_BUFFS. \<not> in_use_send (sctx ?s1) ! i" using k nb lf(3) free by simp_all
  obtain s2 p rk ra ys where
    s2: "handle_set_request N ?gb ?s1 qp ?h (k @ NUL # drop (get_recv_buffer i + CLIENT_HEADER_LEN + length ?data) (in_buf (sctx s)))
        (wc_id (server_recv_done i n)) = Inr (0, s2)"
      "server_inv N s2 ys" "sent s2 = sent ?s1 @ transmitted N ?s1 qp (set_reply ?h (ucast (buflen ?h)) rk ra)"
      "busy (rqs s2) k" "announces (q_db (rqs s2)) p rk ra (unat (ucast (buflen ?h) :: 32 word))" "db_key (q_db (rqs s2)) p = Some k"
      "\<exists>w \<in> set (waiting_fin_q (rqs s2)). req_key (rqs s2) w = Some (uint (tid ?h)) \<and> r_target (rqs s2) w = Some p"
      "\<exists>v. db_abs (q_db (rqs s2)) = (db_abs (q_db (rqs ?s1)))(k \<mapsto> v)"
      "(\<forall>w \<in> set (waiting_fin_q (rqs ?s1)). req_key (rqs ?s1) w \<noteq> Some (uint (tid ?h))) \<longrightarrow> fins (rqs s2) p = 1"
      "conns s2 = conns ?s1" "live_qps s2 = live_qps ?s1" "p \<in> set (internal_db (q_db (rqs s2)))"
    by (rule set_announces [OF inv1 W k1(1,2) kl big k1(4,3)])
  let ?s' = "s2\<lparr>sctx := (sctx s2)\<lparr>in_use_recv := (in_use_recv (sctx s2))[i := False]\<rparr>\<rparr>"
  have wf: "ctx_wf (sctx s2)" using s2(2) by (simp add: server_inv_def)
  have run: "server_wait_completions (Suc f) N (delivered i n (enc_client_headers ?h @ ?data) s) = Inr ?s'"
    by (rule server_receives [OF inv l' l(2) i fit, of ?h SET_REQUEST_OPCODE, where rc = 0])
      (use s2(1) wf in \<open>simp_all add: client_headers_def\<close>)
  have conns: "conns ?s' = conns ?s1" "live_qps ?s' = live_qps ?s1" using s2(10,11) by simp_all
  have "server_inv N ?s' ys"
    using s2(2) conns_ok_cong [of ?s' s2] by (simp add: server_inv_def ctx_wf_def)
  moreover have "linked ?s' n j qp" using linked_cong [OF conns(1)] linked_arrived [OF l(1)] by simp
  moreover have "c_curr (conns ?s' ! j) = c_curr (conns s ! j) - 1"
    using s2(10) lf(1) co by (simp add: arrived_def conns_ok_def)
  moreover have "fins (rqs ?s') p = 1" using s2(9) new by simp
  moreover have "sent ?s' = sent s @ [(n, enc_server_headers (response_headers RDMA_RKEY_SET t (of_nat (length k)) (of_nat m) rk ra))]"
    using s2(3) accept lf(2) ubl ubl64 by (simp add: transmitted_def set_reply_def)
  ultimately show ?thesis
    using that [of ?s' ys rk ra p] s2(4-8,12) run um by (auto simp: announce_message_def)
qed

section \<open>The client's RDMA write\<close>

text \<open>
  What the adapter does with a write to the buffer of the entry \<open>p\<close>: the bytes come to the start
  of the buffer, and the program notices nothing.
\<close>

definition rdma_stored :: "ptr \<Rightarrow> byte list \<Rightarrow> server \<Rightarrow> server" where
  "rdma_stored p bs s =
     (let d = q_db (rqs s)
      in case db_heap (dmem d) p of
           None \<Rightarrow> s
         | Some e \<Rightarrow>
             set_db s (store d p (e\<lparr>e_value := map_option (\<lambda>vb. vb\<lparr>b_data := splice (b_data vb) 0 bs\<rparr>) (e_value e)\<rparr>)))"

lemma rdma_stored_ok:
  assumes inv: "server_inv N s ys" and a: "announces (q_db (rqs s)) p rk ra (length v)"
    and p: "p \<in> set (internal_db (q_db (rqs s)))" "db_key (q_db (rqs s)) p = Some k" and v: "NUL \<notin> set v"
  obtains d where "rdma_stored p v s = set_db s d" "server_inv N (rdma_stored p v s) ys"
    "db_abs d = (db_abs (q_db (rqs s)))(k \<mapsto> v)" "internal_db d = internal_db (q_db (rqs s))" "db_key d p = Some k"
proof -
  let ?d = "q_db (rqs s)"
  obtain e mr vb where e: "db_heap (dmem ?d) p = Some e" "e_value e = Some vb" "unat (e_size e) = length v" "length v < length (b_data vb)"
    using a by (auto simp: announces_def)
  let ?vb = "vb\<lparr>b_data := splice (b_data vb) 0 v\<rparr>"
  let ?e = "e\<lparr>e_value := Some ?vb\<rparr>"
  have shape: "req_shape (host N) {} (rqs s) ys" and locks: "req_locks (host N) (\<lambda>_. 0) (rqs s)"
    using inv by (simp_all add: server_inv_def req_inv_def)
  have dinv: "db_inv (host N) ?d" using locks by (simp add: req_locks_def)
  have ek: "entry_key e = Some k" using p(2) e(1) by (simp add: db_key_def)
  have eok: "entry_ok e" using entry_ok_live [OF dinv p(1)] e(1) by simp
  have eok': "entry_ok ?e" and key: "entry_key ?e = entry_key e"
    using eok e(2,4) by (auto simp: entry_ok_def entry_key_def split: option.splits)
  have len: "0 + length v \<le> length (b_data vb)" using e(4) by simp
  have "take (length v) (splice (b_data vb) 0 v) = v"
    using drop_splice_prefix [OF len] by simp
  then have val: "entry_val ?e = v" using e(3) v by (simp add: entry_val_def cstr_id)
  let ?d' = "store ?d p ?e"
  have dinv': "db_inv (host N) ?d'" by (rule db_inv_store [OF dinv p(1) e(1) eok' key])
  have "Db.holds ?e = int (fins (rqs s) p + 0)" using locks p(1) e(1) by (simp add: req_locks_def Db.holds_def)
  then have locks': "req_locks (host N) (\<lambda>_. 0) ((rqs s)\<lparr>q_db := ?d'\<rparr>)"
    by (intro locks_store [OF locks dinv']) simp_all
  have run: "rdma_stored p v s = set_db s ?d'" using e(1,2) by (simp add: rdma_stored_def Let_def)
  have "server_inv N (set_db s ?d') ys"
    using inv locks' shape conns_ok_cong [of "set_db s ?d'" s] by (simp add: server_inv_def req_inv_def)
  moreover have "db_abs ?d' = (db_abs ?d)(k \<mapsto> v)" using db_abs_store [OF dinv p(1) e(1) eok' key ek] val by simp
  moreover have "db_key ?d' p = Some k" using ek key by (simp add: db_key_store)
  ultimately show ?thesis using that [of ?d'] run by simp
qed

section \<open>The FIN message\<close>

lemma server_finishes:
  assumes inv: "server_inv N s xs" and l: "linked s n j qp" "101 < c_curr (conns s ! j)"
    and i: "i < SERVER_NUM_RECV_BUFFS" and k: "NUL \<notin> set k" "length k + 1 \<le> CLIENT_REQUEST_PAYLOAD_LEN"
    and p: "p \<in> set (internal_db (q_db (rqs s)))" "db_key (q_db (rqs s)) p = Some k" "fins (rqs s) p = 1"
    and w: "w \<in> set (waiting_fin_q (rqs s))" "req_key (rqs s) w = Some (uint t)" "r_target (rqs s) w = Some p"
  obtains s' where "server_wait_completions (Suc f) N (delivered i n (fin_message t k) s) = Inr s'"
    "server_inv N s' (without (rqs s) t xs)" "db_abs (q_db (rqs s')) = db_abs (q_db (rqs s))" "\<not> busy (rqs s') k"
    "\<forall>w \<in> set (waiting_fin_q (rqs s')). req_key (rqs s') w \<noteq> Some (uint t)" "sent s' = sent s"
    "\<forall>a \<in> set (without (rqs s) t xs). req_heap (q_mem (rqs s')) a = req_heap (q_mem (rqs s)) a"
    "db_page_size (q_db (rqs s')) = db_page_size (q_db (rqs s))" "verbs s' = verbs s"
proof -
  let ?h = "client_headers RDMA_FIN_CLIENT t (of_nat (length k)) 0"
  let ?bs = "enc_client_headers ?h @ k" and ?b = "get_recv_buffer i"
  let ?s1 = "arrived i j ?bs s" and ?gb = "get_free_send_buffer (Suc f) (server_wait_completions f N)"
  let ?q = "rqs s" and ?in = "in_buf (sctx s)"
  have fit: "CLIENT_HEADER_LEN + length k \<le> BUFFER_SIZE" using k(2) by simp
  have inv1: "server_inv N ?s1 xs" by (rule arrived_inv [OF inv i]) (use fit in simp)
  have l': "get_connection s n = Some j" "c_qp (conns s ! j) = Some qp" using l(1) by (simp_all add: linked_def)
  have room: "?b + length ?bs + length [NUL] \<le> length ?in"
    using inv i k(2) by (simp add: server_inv_def ctx_wf_def get_recv_buffer_def)
  let ?m = "splice ?in ?b (?bs @ [NUL])"
  have "splice (splice ?in ?b ?bs) (?b + length ?bs) [NUL] = ?m" by (rule splice_append [OF room])
  moreover have "?b + CLIENT_HEADER_LEN + length k = ?b + length ?bs" by simp
  ultimately have nul: "mem_write (in_buf (sctx ?s1)) (?b + CLIENT_HEADER_LEN + unat (keylen ?h)) [NUL] = Inr ?m"
    using room k(2) by (simp add: mem_write_def arrived_def unat_of_nat32 add.assoc)
  have "drop ?b ?m = ?bs @ [NUL] @ drop (?b + length (?bs @ [NUL])) ?in"
    using drop_splice_prefix [of ?b "?bs @ [NUL]" ?in] room by simp
  then have "k @ NUL # drop (?b + length (?bs @ [NUL])) ?in = drop (?b + CLIENT_HEADER_LEN) ?m"
    using drop_drop [of CLIENT_HEADER_LEN ?b ?m] by (simp add: add.commute)
  then obtain r where key: "drop (?b + CLIENT_HEADER_LEN) ?m = k @ NUL # r" by metis
  have rinv: "req_inv (host N) (\<lambda>_. 0) ?q xs" using inv by (simp add: server_inv_def)
  then have shape: "req_shape (host N) {} ?q xs" and locks: "req_locks (host N) (\<lambda>_. 0) ?q" by (simp_all add: req_inv_def)
  have dinv: "db_inv (host N) (q_db ?q)" using locks by (simp add: req_locks_def)
  have get: "db_get (q_db ?q) (k @ NUL # r) = Inr (Some p)" by (rule db_get_there [OF dinv k(1) p(1,2)])
  have uniq: "a = w" if "a \<in> set (waiting_fin_q ?q)" "req_key ?q a = Some (uint t)" for a
    using ht.ok_inj [OF req_shapeD(4) [OF shape] that(1) w(1)] that(2) w(2) by simp
  obtain q1 e' where q1: "mark_rdma_fin_received ?q t = Inr (0, q1)"
    "q1 = rfree (?q\<lparr>q_db := store (q_db ?q) p e', waiting_fin_q := HASH_DEL (waiting_fin_q ?q) w\<rparr>) w"
    "req_inv (host N) (\<lambda>_. 0) q1 xs" "db_same (q_db ?q) (q_db q1)"
    using shape locks
  proof (cases rule: mark_received_ok [where t = t])
    case none
    then show ?thesis using w(1,2) by blast
  next
    case (released w' p' e' q')
    then have "w' = w" "p' = p" using uniq w(3) by auto
    then show ?thesis using that released by (simp add: req_inv_def)
  qed
  have "distinct (waiting_fin_q ?q)" using ht.ok_distinct [OF req_shapeD(4) [OF shape]] .
  then have wq: "waiting_fin_q q1 = remove1 w (waiting_fin_q ?q)" "w \<notin> set (waiting_fin_q q1)"
    using q1(2) by (simp_all add: ht.del_elems)
  have "r_target q1 a = r_target ?q a" if "a \<in> set (waiting_fin_q q1)" for a
    using that wq q1(2) by (auto simp: r_target_def)
  then have "map (r_target q1) (waiting_fin_q q1) = map (r_target ?q) (remove1 w (waiting_fin_q ?q))"
    using wq by simp
  then have zero: "fins q1 p = 0"
    using p(3) w(3) count_map_remove1 [OF w(1), of "r_target ?q" "Some p"] by (simp add: fins_def)
  obtain q2 where q2: "remove_server_pending_request q1 t = Inr q2" "req_inv (host N) (\<lambda>_. 0) q2 (without q1 t xs)" "removed q1 t q2"
    by (rule remove_ok [OF q1(3)])
  have same: "db_same (q_db ?q) (q_db q2)" using db_same_trans [OF q1(4)] q2(3) by (simp add: removed_def)
  let ?s2 = "?s1\<lparr>sctx := (sctx ?s1)\<lparr>in_buf := ?m\<rparr>, rqs := q2\<rparr>"
  have "handle_fin N ?gb ?s1 qp ?h (?b + CLIENT_HEADER_LEN) = Inr (0, ?s2)"
    unfolding handle_fin_def nul bnd_simps Let_def using key get q1(1) q2(1) by (simp add: lift_rqs_def)
  moreover have wf2: "ctx_wf (sctx ?s2)" using inv1 room by (simp add: server_inv_def ctx_wf_def arrived_def)
  ultimately have run: "server_wait_completions (Suc f) N (delivered i n ?bs s) =
      Inr (?s2\<lparr>sctx := (sctx ?s2)\<lparr>in_use_recv := (in_use_recv (sctx ?s2))[i := False]\<rparr>\<rparr>)"
    by (intro server_receives [OF inv l' l(2) i fit, of ?h RDMA_FIN_CLIENT]) (simp_all add: client_headers_def)
  let ?s' = "?s2\<lparr>sctx := (sctx ?s2)\<lparr>in_use_recv := (in_use_recv (sctx ?s2))[i := False]\<rparr>\<rparr>"
  have "w \<notin> set xs" using req_shapeD(6,7) [OF shape] w(1) by blast
  then have heap1: "req_heap (q_mem q1) a = req_heap (q_mem ?q) a" if "a \<in> set xs" for a using that q1(2) by auto
  then have wo: "without q1 t xs = without ?q t xs" unfolding without_def by (intro filter_cong) (simp_all add: req_key_def)
  have shape1: "req_shape (host N) {} q1 xs" using q1(3) by (simp add: req_inv_def)
  have heap2: "req_heap (q_mem q2) a = req_heap (q_mem ?q) a" if a: "a \<in> set (without ?q t xs)" for a
  proof -
    have "a \<in> set (without q1 t xs)" using a wo by simp
    then have xs: "a \<in> set xs" "req_key q1 a \<noteq> Some (uint t)" by (simp_all add: without_def)
    then have "a \<in> set (internal_q q1)" using req_shapeD(6) [OF shape1] by blast
    then show ?thesis using xs q2(3) heap1 by (simp add: removed_def)
  qed
  have "server_inv N ?s' (without ?q t xs)" unfolding wo [symmetric]
    using wf2 q2(2) inv1 conns_ok_cong [of ?s' ?s1] by (simp add: server_inv_def ctx_wf_def)
  moreover have "\<not> busy q2 k"
  proof
    assume "busy q2 k"
    then obtain a where a: "a \<in> set (internal_db (q_db q2))" "db_key (q_db q2) a = Some k" "0 < fins q2 a"
      by (auto simp: busy_def)
    then have "a \<in> set (internal_db (q_db ?q))" "db_key (q_db ?q) a = Some k"
      using same by (simp_all add: db_same_key) (simp add: db_same_def)
    then have "a = p" using find_key [OF dinv, of a k] find_key [OF dinv p(1,2)] by simp
    then show False using a(3) fins_removed [OF q2(3) zero] by simp
  qed
  moreover have "req_key q2 a \<noteq> Some (uint t)" if "a \<in> set (waiting_fin_q q2)" for a
    using that q2(3) by (auto simp: removed_def req_key_def)
  ultimately show ?thesis
    using that [of ?s'] run db_same_abs [OF same] same heap2 by (simp add: fin_message_def db_same_def arrived_def)
qed

section \<open>The whole transfer\<close>

text \<open>The announced SET, with what the transfer needs to know of the client afterwards.\<close>

lemma kv_set_announced_step:
  assumes ok: "client_ok s" and spare: "1 < send_ring.spare (cctx s)" and few: "num_pending_requests (reqs s) < 250"
    and n: "0 < n" and k: "NUL \<notin> set k" "length k < BUFFER_SIZE - CLIENT_HEADER_LEN"
    and v: "blocks s v = Some (val @ [NUL])" "NUL \<notin> set val"
    and long: "CLIENT_REQUEST_PAYLOAD_LEN < length k + length val + 2" "length k + length val + 2 < 2 ^ 31"
    and new: "creq_abs (reqs s) (fst (get_new_tid s)) = None" and env: "\<forall>n. e_alloc E n" "\<forall>n. e_reg E n" "\<forall>n. e_send E n"
  obtains s' where "kv_set n E (k @ [NUL]) (Some v) s = Inr (0, s')" "client_ok s'" "0 < send_ring.spare (cctx s')"
    "posted s' = posted s @ [Send (announce_message (fst (get_new_tid s)) k (length val))]"
    "creq_abs (reqs s') = (creq_abs (reqs s))(fst (get_new_tid s) \<mapsto> set_pending E s (fst (get_new_tid s)) k v (length val))"
proof -
  let ?t = "fst (get_new_tid s)" and ?m = "announce_message (fst (get_new_tid s)) k (length val)"
  have sp0: "0 < send_ring.spare (cctx s)" and reg: "e_reg E (cregs s)" using spare env(2) by simp_all
  obtain i q where i: "i < SERVER_NUM_SEND_BUFFS" "\<not> in_use_send (cctx s) ! i" "creq_inv q"
    "creq_abs q = (creq_abs (reqs s))(?t \<mapsto> set_pending E s ?t k v (length val))"
    "kv_set n E (k @ [NUL]) (Some v) s = Inr (if e_send E (calls s) then 0 else - 1,
        offered E (Send ?m) ((written (requested s i ?t) i ?m)\<lparr>cregs := Suc (cregs s), reqs := q\<rparr>))"
    by (rule kv_set_rdma_run [OF ok sp0 few n refl k v long new env(1) reg])
  let ?s' = "offered E (Send ?m) ((written (requested s i ?t) i ?m)\<lparr>cregs := Suc (cregs s), reqs := q\<rparr>)"
  have len: "length ?m \<le> BUFFER_SIZE" using k(2) by (simp add: announce_message_def)
  have wf: "ctx_wf (cctx s)" using ok by (simp add: client_ok_def)
  have "client_ok ?s'"
    using ok i(3) written_wf [OF requested_wf [OF wf i(1), of ?t] i(1) len] by (simp add: client_ok_def)
  moreover have "Suc (send_ring.spare (cctx ?s')) = send_ring.spare (cctx s)"
    using count_list_update [of i "in_use_send (cctx s)" True False] i(1,2) wf by (simp add: ctx_wf_def)
  then have "0 < send_ring.spare (cctx ?s')" using spare by simp
  ultimately show ?thesis using that [of ?s'] i(4,5) env(3) by simp
qed

text \<open>
  C2: a value that does not fit in a message, end to end. \<open>kv_set\<close> announces it; the server
  reserves the room, locks the entry and answers with the address of the room; the client hands its
  adapter exactly the write of the value to that room, and on its completion sends the FIN and
  forgets the request. When the value has come into the server's memory and the FIN is handled, the
  table of the server maps the key to the value, no other key has changed, and the entry is free.
\<close>

theorem long_set:
  assumes "client_ok c" and "1 < count_list (in_use_send (cctx c)) False" and "creq_abs (reqs c) = Map.empty"
    and "num_pending_requests (reqs c) < 250" and "0 < a"
    and "\<forall>m. e_alloc E m" and "\<forall>m. e_reg E m" and "\<forall>m. e_send E m"
    and "blocks c p = Some (v @ [NUL])" and "NUL \<notin> set v"
    and "length k + 1 < CLIENT_REQUEST_PAYLOAD_LEN" and "CLIENT_REQUEST_PAYLOAD_LEN < length k + length v + 2"
    and "length k + length v + 2 < 2 ^ 31"
    and "server_inv N s xs" and "plentiful (host N)" and "send_ok N (verbs s)" and "linked s n j qp" and "102 < c_curr (conns s ! j)"
    and "\<exists>i < SERVER_NUM_SEND_BUFFS. \<not> in_use_send (sctx s) ! i" and "storable (db_page_size (q_db (rqs s))) k []"
    and "\<not> busy (rqs s) k" and "\<forall>w \<in> set (waiting_fin_q (rqs s)). req_key (rqs s) w \<noteq> Some (uint (fst (get_new_tid c)))"
    and "i < SERVER_NUM_RECV_BUFFS" and "i' < SERVER_NUM_RECV_BUFFS" and "b < SERVER_NUM_RECV_BUFFS"
  shows "\<exists>c1 m1 s1 reply c2 tr e c3 m2 s2 ys.
     kv_set a E (k @ [NUL]) (Some p) c = Inr (0, c1) \<and> posted c1 = posted c @ [Send m1] \<and>
     server_wait_completions (Suc f) N (delivered i n m1 s) = Inr s1 \<and> sent s1 = sent s @ [(n, reply)] \<and> busy (rqs s1) k \<and>
     client_handle_recv E close (received c1 b reply) (int b) = Inr c2 \<and> posted c2 = posted c1 @ [Rdma_write tr] \<and>
     t_laddr tr = Some p \<and> unat (t_size tr) = length v \<and>
     announces (q_db (rqs s1)) e (t_rkey tr) (t_raddr tr) (length v) \<and>
     client_completion E close (done_wc RDMA_WRITE_WRID (t_tid tr)) c2 = Inr (True, c3) \<and> posted c3 = posted c2 @ [Send m2] \<and>
     client_ok c3 \<and> creq_abs (reqs c3) = Map.empty \<and>
     server_wait_completions (Suc f) N (delivered i' n m2 (rdma_stored e v s1)) = Inr s2 \<and> server_inv N s2 ys \<and>
     db_abs (q_db (rqs s2)) = (db_abs (q_db (rqs s)))(k \<mapsto> v) \<and> \<not> busy (rqs s2) k"
proof -
  let ?t = "fst (get_new_tid c)"
  have k: "NUL \<notin> set k" using assms(20) by (simp add: storable_def)
  have lens: "length k < BUFFER_SIZE - CLIENT_HEADER_LEN" "length k + 1 \<le> CLIENT_REQUEST_PAYLOAD_LEN"
    "length k < BUFFER_SIZE - CLIENT_HEADER_LEN - 1" "length v < 2 ^ 32" using assms(11,13) by simp_all
  have none: "creq_abs (reqs c) ?t = None" using assms(3) by simp
  obtain c1 where c1: "kv_set a E (k @ [NUL]) (Some p) c = Inr (0, c1)" "client_ok c1" "0 < send_ring.spare (cctx c1)"
    "posted c1 = posted c @ [Send (announce_message ?t k (length v))]"
    "creq_abs (reqs c1) = (creq_abs (reqs c))(?t \<mapsto> set_pending E c ?t k p (length v))"
    by (rule kv_set_announced_step [OF assms(1,2,4,5) k lens(1) assms(9,10,12,13) none assms(6-8)])
  have many: "101 < c_curr (conns s ! j)" using assms(18) by simp
  obtain s1 e rk ra ys w where s1: "server_wait_completions (Suc f) N (delivered i n (announce_message ?t k (length v)) s) = Inr s1"
    "server_inv N s1 ys" "linked s1 n j qp" "c_curr (conns s1 ! j) = c_curr (conns s ! j) - 1"
    "sent s1 = sent s @ [(n, enc_server_headers (response_headers RDMA_RKEY_SET ?t (of_nat (length k)) (of_nat (length v)) rk ra))]"
    "announces (q_db (rqs s1)) e rk ra (length v)" "e \<in> set (internal_db (q_db (rqs s1)))" "db_key (q_db (rqs s1)) e = Some k"
    "busy (rqs s1) k" "fins (rqs s1) e = 1" "w \<in> set (waiting_fin_q (rqs s1))" "req_key (rqs s1) w = Some (uint ?t)"
    "r_target (rqs s1) w = Some e" "\<exists>v. db_abs (q_db (rqs s1)) = (db_abs (q_db (rqs s)))(k \<mapsto> v)"
    by (rule server_announces [OF assms(14,15,17) many assms(23,20) lens(2) assms(12,13,21,22,19,16)])
  let ?h = "response_headers RDMA_RKEY_SET ?t (of_nat (length k)) (of_nat (length v)) rk ra"
  let ?tr = "\<lparr>t_laddr = Some p, t_size = of_nat (length v), t_lkey = e_lkey E (cregs c), t_raddr = ra, t_rkey = rk, t_tid = ?t\<rparr>"
  have pend: "creq_abs (reqs c1) ?t = Some (set_pending E c ?t k p (length v))" using c1(5) by simp
  have h: "response ?h = response_val RDMA_RKEY_SET" "rtid ?h = ?t" "raddr (rkey_info ?h) = ra" "rkey (rkey_info ?h) = rk"
    by (simp_all add: response_headers_def)
  obtain c2 c3 where c2: "client_handle_recv E close (received c1 b (enc_server_headers ?h)) (int b) = Inr c2"
    "posted c2 = posted c1 @ [Rdma_write ?tr]" "reqs c2 = reqs c1"
    "client_completion E close (done_wc RDMA_WRITE_WRID ?t) c2 = Inr (True, c3)"
    "posted c3 = posted c2 @ [Send (fin_message ?t k)]" "creq_abs (reqs c3) = (creq_abs (reqs c1))(?t := None)" "client_ok c3"
    using rdma_set_run [OF c1(2,3) pend k lens(3) assms(25) h(1,2) assms(8), of close] unfolding h(3,4) by blast
  obtain d where d: "rdma_stored e v s1 = set_db s1 d" "server_inv N (rdma_stored e v s1) ys"
    "db_abs d = (db_abs (q_db (rqs s1)))(k \<mapsto> v)" "internal_db d = internal_db (q_db (rqs s1))" "db_key d e = Some k"
    by (rule rdma_stored_ok [OF s1(2,6-8) assms(10)])
  let ?u = "rdma_stored e v s1"
  have u: "linked ?u n j qp" "101 < c_curr (conns ?u ! j)" "e \<in> set (internal_db (q_db (rqs ?u)))" "db_key (q_db (rqs ?u)) e = Some k"
    "fins (rqs ?u) e = 1" "w \<in> set (waiting_fin_q (rqs ?u))" "req_key (rqs ?u) w = Some (uint ?t)" "r_target (rqs ?u) w = Some e"
    using d s1(3,4,7,10-13) assms(18) linked_cong [of ?u s1] by (simp_all add: req_key_def r_target_def)
  let ?zs = "without (rqs ?u) ?t ys"
  obtain s2 where s2: "server_wait_completions (Suc f) N (delivered i' n (fin_message ?t k) ?u) = Inr s2" "server_inv N s2 ?zs"
    "db_abs (q_db (rqs s2)) = db_abs (q_db (rqs ?u))" "\<not> busy (rqs s2) k"
    by (rule server_finishes [OF d(2) u(1,2) assms(24) k lens(2) u(3-8)])
  have "db_abs (q_db (rqs s2)) = (db_abs (q_db (rqs s)))(k \<mapsto> v)" using s2(3) d(1,3) s1(14) by auto
  moreover have "creq_abs (reqs c3) = Map.empty" using c2(6) c1(5) assms(3) by simp
  moreover have "unat (t_size ?tr) = length v" using lens(4) by (simp add: unat_of_nat32)
  moreover have "t_laddr ?tr = Some p" "t_rkey ?tr = rk" "t_raddr ?tr = ra" "t_tid ?tr = ?t" by simp_all
  ultimately show ?thesis using c1(1,4) s1(1,5,6,9) c2(1,2,4,5,7) s2(1,2,4) by metis
qed

theorem long_set_witness:
  "\<exists>q e c1 m1 s1 reply c2 tr c3 m2 s2.
     kv_set 3 good_env (''key'' @ [NUL]) (Some 0) (connected (replicate 5000 CHR ''x'')) = Inr (0, c1) \<and>
     server_wait_completions (Suc 0) linux_nic (delivered 0 9 m1 (posted_client q)) = Inr s1 \<and> busy (rqs s1) ''key'' \<and>
     client_handle_recv good_env Inr (received c1 0 reply) 0 = Inr c2 \<and> posted c2 = posted c1 @ [Rdma_write tr] \<and>
     client_completion good_env Inr (done_wc RDMA_WRITE_WRID (t_tid tr)) c2 = Inr (True, c3) \<and> posted c3 = posted c2 @ [Send m2] \<and>
     server_wait_completions (Suc 0) linux_nic (delivered 1 9 m2 (rdma_stored e (replicate 5000 CHR ''x'') s1)) = Inr s2 \<and>
     db_abs (q_db (rqs s2)) ''key'' = Some (replicate 5000 CHR ''x'') \<and> \<not> busy (rqs s2) ''key''"
proof (rule linux_requests)
  fix q
  assume q: "req_inv linux_world (\<lambda>_. 0) q []" "waiting_fin_q q = []" "db_page_size (q_db q) = 4096"
  let ?v = "replicate 5000 CHR ''x''"
  let ?c = "connected ?v" and ?s = "posted_client q"
  have rq: "rqs ?s = q" "sctx ?s = blank_context" by (simp_all add: posted_client_def)
  have inv: "server_inv linux_nic ?s []" by (rule posted_client_inv [OF q(1)])
  have spare: "1 < count_list (in_use_send (cctx ?c)) False" using connected_spare [of ?v] by simp
  have st: "storable (db_page_size (q_db (rqs ?s))) ''key'' []" by (simp add: storable_def rq(1) q(3))
  have nb: "\<not> busy (rqs ?s) ''key''" using not_busy [OF q(2)] rq(1) by simp
  have nw: "\<forall>w \<in> set (waiting_fin_q (rqs ?s)). req_key (rqs ?s) w \<noteq> Some (uint (fst (get_new_tid ?c)))" using q(2) rq(1) by simp
  have fr: "\<exists>i < SERVER_NUM_SEND_BUFFS. \<not> in_use_send (sctx ?s) ! i" using free_blank rq(2) by simp
  have "\<exists>c1 m1 s1 reply c2 tr e c3 m2 s2 ys.
     kv_set 3 good_env (''key'' @ [NUL]) (Some 0) ?c = Inr (0, c1) \<and> posted c1 = posted ?c @ [Send m1] \<and>
     server_wait_completions (Suc 0) linux_nic (delivered 0 9 m1 ?s) = Inr s1 \<and> sent s1 = sent ?s @ [(9, reply)] \<and> busy (rqs s1) ''key'' \<and>
     client_handle_recv good_env Inr (received c1 0 reply) (int 0) = Inr c2 \<and> posted c2 = posted c1 @ [Rdma_write tr] \<and>
     t_laddr tr = Some 0 \<and> unat (t_size tr) = length ?v \<and>
     announces (q_db (rqs s1)) e (t_rkey tr) (t_raddr tr) (length ?v) \<and>
     client_completion good_env Inr (done_wc RDMA_WRITE_WRID (t_tid tr)) c2 = Inr (True, c3) \<and> posted c3 = posted c2 @ [Send m2] \<and>
     client_ok c3 \<and> creq_abs (reqs c3) = Map.empty \<and>
     server_wait_completions (Suc 0) linux_nic (delivered 1 9 m2 (rdma_stored e ?v s1)) = Inr s2 \<and> server_inv linux_nic s2 ys \<and>
     db_abs (q_db (rqs s2)) = (db_abs (q_db (rqs ?s)))(''key'' \<mapsto> ?v) \<and> \<not> busy (rqs s2) ''key''"
    by (rule long_set [OF connected_ok spare connected_reqs(2) _ _ _ _ _ _ _ _ _ _ inv _ _ posted_client_linked(1) _ fr st nb nw])
      (simp_all add: connected_reqs posted_client_linked)
  then show ?thesis by (elim exE conjE) (intro exI conjI; (assumption | simp))
qed

end
