(* ===== verification/Client_Fetch.thy ===== *)
theory Client_Fetch
  imports Client_Get
begin

text \<open>
  \<open>kv_get\<close> of a value that does not fit in a message: the call waits through the announcement and
  the RDMA read, and returns the block the value was read into.
\<close>

section \<open>The completion of a read\<close>

text \<open>One poll that finds a finished read; the adapter has stored \<open>bs\<close> in block \<open>q\<close>.\<close>

definition read_poll :: "16 word \<Rightarrow> ptr \<Rightarrow> byte list \<Rightarrow> client_poll" where
  "read_poll t q bs = \<lparr>completions = [done_wc RDMA_READ_WRID t], messages = [], stored = [(q, bs)]\<rparr>"

lemma wait_read:
  assumes quiet: "\<forall>n. \<not> e_signal E n" "\<not> immediate_shutdown s" and polls: "cpolls s = Some (read_poll t q bs) # rs"
    and m: "blocks s q = Some m"
    and handle: "client_completion E (kv_close (Suc n) E) (done_wc RDMA_READ_WRID t)
        (s\<lparr>calls := Suc (calls s), cpolls := rs, blocks := (blocks s)(q \<mapsto> splice m 0 (take (length m) bs))\<rparr>) = Inr (True, s2)"
  shows "wait_for (Suc (Suc n)) E 1 s = Inr s2"
proof -
  have poll: "client_poll_cq (ctick s) = (Some [done_wc RDMA_READ_WRID t],
      s\<lparr>calls := Suc (calls s), cpolls := rs, blocks := (blocks s)(q \<mapsto> splice m 0 (take (length m) bs))\<rparr>)"
    using polls m by (simp add: client_poll_cq_def read_poll_def ctick_def)
  have "client_wait_completions (Suc (Suc n)) E 1 0 s = Inr (0, s2)"
    using poll handle by (simp add: client_wait_completions.simps(2) [of "Suc n"] check_quiet [OF quiet])
      (simp add: client_wait_completions.simps(2))
  then show ?thesis by (simp add: wait_for_def)
qed

section \<open>The whole call\<close>

lemma kv_get_fetched:
  assumes ok: "client_ok s" and spare: "1 < count_list (in_use_send (cctx s)) False"
    and key: "NUL \<notin> set k" "length k < BUFFER_SIZE - CLIENT_HEADER_LEN - 1"
    and new: "creq_abs (reqs s) (fst (get_new_tid s)) = None"
    and env: "\<forall>n. e_alloc E n" "\<forall>n. e_calloc E n" "\<forall>n. e_reg E n" "\<forall>n. e_send E n"
    and quiet: "\<forall>n. \<not> e_signal E n" "\<not> immediate_shutdown s"
    and polls: "cpolls s = [Some (message_poll j (enc_server_headers h)), Some (read_poll (rtid h) (next_block s) bs)]"
    and j: "j < SERVER_NUM_RECV_BUFFS" and curr: "11 < curr_recv_buff (cctx s)"
    and h: "response h = response_val RDMA_RKEY_GET" "rtid h = fst (get_new_tid s)" "unat (rbuflen h) + 1 < 2 ^ 64"
    and bs: "length bs = unat (rbuflen h)" and n: "4 \<le> n"
  obtains s' where "kv_get n E (k @ [NUL]) s = Inr ((0, Some (next_block s)), s')" "client_ok s'"
    "blocks s' = (blocks s)(next_block s \<mapsto> bs @ [NUL])" "creq_abs (reqs s') = creq_abs (reqs s)"
    "posted s' = posted s @ [Send (get_message (rtid h) k), Rdma_read (fetch E s h), Send (fin_message (rtid h) k)]"
proof -
  let ?t = "fst (get_new_tid s)"
  have n0: "0 < n" and sp0: "0 < send_ring.spare (cctx s)" and lk: "length k < BUFFER_SIZE - CLIENT_HEADER_LEN"
    and key0: "k @ [NUL] = k @ NUL # []" using n spare key(2) by simp_all
  obtain i q p where r1: "i < SERVER_NUM_SEND_BUFFS" "\<not> in_use_send (cctx s) ! i" "creq_inv q"
    "get_client_pending_request q ?t = Inr (Some p)" "creq_heap q p = Some (get_pending ?t k)"
    "creq_abs q = (creq_abs (reqs s))(?t \<mapsto> get_pending ?t k)"
    "kv_get_request n E (k @ [NUL]) s =
      Inr (if e_send E (calls s) then Some (?t, Some p) else None,
        offered E (Send (get_message ?t k)) ((written (requested s i ?t) i (get_message ?t k))\<lparr>reqs := q\<rparr>))"
    by (rule kv_get_request_run [OF ok sp0 n0 key0 key(1) lk new env(1)])
  let ?s1 = "offered E (Send (get_message ?t k)) ((written (requested s i ?t) i (get_message ?t k))\<lparr>reqs := q\<rparr>)"
  have wf: "ctx_wf (cctx s)" using ok by (simp add: client_ok_def)
  have wf1: "ctx_wf (cctx ?s1)"
    using written_wf [OF requested_wf [OF wf r1(1), of ?t] r1(1), of "get_message ?t k"] lk by (simp add: get_message_def)
  have spare1: "0 < send_ring.spare (cctx ?s1)"
    using count_list_update [of i "in_use_send (cctx s)" True False] r1(1,2) wf spare by (simp add: ctx_wf_def)
  let ?s2 = "?s1\<lparr>calls := Suc (calls ?s1), cpolls := [Some (read_poll (rtid h) (next_block s) bs)]\<rparr>"
  have ok2: "client_ok ?s2" using wf1 r1(3) ok by (simp add: client_ok_def)
  have p2: "get_client_pending_request (reqs ?s2) (rtid h) = Inr (Some p)" "creq_heap (reqs ?s2) p = Some (get_pending (rtid h) k)"
    and reg2: "e_reg E (cregs ?s2)" using r1(4,5) h(2) env(3) by simp_all
  let ?s3 = "fetching E ?s2 j h p k"
  obtain a where "n = 4 + a" using n le_Suc_ex by blast
  then have a: "n = Suc (Suc (Suc (Suc a)))" by simp
  note an = rdma_get_announced [OF ok2 p2 j h(1,3) env(2) reg2]
  let ?s4 = "?s3\<lparr>cctx := (cctx ?s3)\<lparr>in_use_recv := (in_use_recv (cctx ?s3))[j := False]\<rparr>\<rparr>"
  have "client_wait_completions (Suc (Suc (Suc a))) E 1 0 ?s1 = Inr (0, ?s4)"
    by (rule wait_message [OF quiet(1) _ _ j _ _ an(1)]) (use quiet(2) polls curr wf1 in \<open>simp_all add: ctx_wf_def\<close>)
  then have wait1: "wait_for (Suc (Suc (Suc a))) E 1 ?s1 = Inr ?s4" by (simp add: wait_for_def)
  let ?u = "?s4\<lparr>calls := Suc (calls ?s4), cpolls := [], blocks := (blocks ?s4)(next_block s \<mapsto> bs @ [NUL])\<rparr>"
  have ok4: "client_ok ?u" using an(2) by (simp add: client_ok_def ctx_wf_def)
  have p4: "get_client_pending_request (reqs ?u) (rtid h) = Inr (Some p)" "creq_heap (reqs ?u) p = Some (reading E ?s2 h k)"
    using an(4,5) by simp_all
  have sp4: "0 < send_ring.spare (cctx ?u)" using spare1 by simp
  have tid: "p_tid (reading E ?s2 h k) = uint (rtid h)" by (simp add: reading_def get_pending_def)
  obtain kz where kz: "p_key (reading E ?s2 h k) = Some (k @ NUL # kz)" by (rule reading_key [OF key(2)])
  obtain s5 where s5: "client_completion E (kv_close (Suc a) E) (done_wc RDMA_READ_WRID (rtid h)) ?u = Inr (True, s5)"
    "posted s5 = posted ?u @ (if e_send E (calls ?u) then [Send (fin_message (rtid h) k)] else [])" "client_ok s5"
    "reqs s5 = cstore (reqs ?u) p ((reading E ?s2 h k)\<lparr>p_pending := False\<rparr>)" "blocks s5 = blocks ?u"
    "creq_abs (reqs s5) = (creq_abs (reqs ?u))(rtid h \<mapsto> (reading E ?s2 h k)\<lparr>p_pending := False\<rparr>)"
    by (rule rdma_get_completed [OF ok4 sp4 p4 tid kz key(1) lk])
  have sp: "splice (zeros (Suc (unat (rbuflen h)))) 0 (take (Suc (unat (rbuflen h))) bs) = bs @ [NUL]"
    using bs replicate_append_same [of "unat (rbuflen h)" NUL] by (simp add: splice_def zeros_def flip: replicate_append_same)
  have wait2: "wait_for (Suc (Suc a)) E 1 ?s4 = Inr s5"
    by (rule wait_read [OF quiet(1), where t = "rtid h" and q = "next_block s" and bs = bs and rs = "[]" and m = "zeros (Suc (unat (rbuflen h)))"])
      (use quiet(2) sp s5(1) in simp_all)
  have ld1: "cload (reqs ?s1) (Some p) = Inr (get_pending ?t k)" using r1(5) by (simp add: cload_def)
  have ld4: "cload (reqs ?s4) (Some p) = Inr (reading E ?s2 h k)" using p4(2) by (simp add: cload_def)
  let ?r = "(reading E ?s2 h k)\<lparr>p_pending := False\<rparr>"
  have heap5: "creq_heap (reqs s5) p = Some ?r" unfolding s5(4) by (simp add: cstore_def)
  then have ld5: "cload (reqs s5) (Some p) = Inr ?r" by (simp add: cload_def)
  have "p_pending (get_pending ?t k)" "p_pending (reading E ?s2 h k)" "\<not> p_pending ?r"
    by (simp_all add: get_pending_def reading_def)
  then have wait: "wait_pending n E (Some p) ?s1 = Inr s5"
    unfolding a using ld1 wait1 ld4 wait2 ld5 by (simp add: wait_pending.simps(2))
  have get5: "get_client_pending_request (reqs s5) ?t = Inr (Some p)"
    using cstore_ok(4) [of "reqs ?u" "rtid h" p ?r] ok4 p4(1) tid h(2) unfolding s5(4) by (simp add: client_ok_def)
  have tid5: "p_tid ?r = uint ?t" using tid h(2) by simp
  have req: "kv_get_request n E (k @ [NUL]) s = Inr (Some (?t, Some p), ?s1)" unfolding r1(7) using env(4) by simp
  obtain q5 where q5: "kv_get n E (k @ [NUL]) s = Inr ((0, p_in_buf ?r), s5\<lparr>reqs := q5\<rparr>)" "client_ok (s5\<lparr>reqs := q5\<rparr>)"
    "creq_abs q5 = (creq_abs (reqs s5))(?t := None)"
    by (rule kv_get_finish [OF req wait s5(3) get5 heap5 tid5])
  have "creq_abs q5 = creq_abs (reqs s)"
    unfolding q5(3) s5(6) using an(3) r1(6) new h(2) by auto
  moreover have "p_in_buf ?r = Some (next_block s)" by (simp add: reading_def)
  moreover have "fetch E ?s2 h = fetch E s h" by (simp add: fetch_def)
  ultimately show ?thesis
    using that [of "s5\<lparr>reqs := q5\<rparr>"] q5(1,2) s5(2,5) env(4) h(2) by simp
qed

end
