(* ===== verification/Long_Get.thy ===== *)
theory Long_Get
  imports Rendezvous Client_Fetch
begin

text \<open>
  The rendezvous of a GET: the server announces where the value is, the client reads it by RDMA and
  confirms with a FIN. Shown: \<open>kv_get\<close> returns the value through both programs, and the lock that
  protects the read is gone afterwards.
\<close>

section \<open>The announcement\<close>

lemma server_offers:
  assumes inv: "server_inv N s xs" and W: "plentiful (host N)" and l: "linked s n j qp" "101 < c_curr (conns s ! j)"
    and i: "i < SERVER_NUM_RECV_BUFFS" and k: "storable (db_page_size (q_db (rqs s))) k []"
    and fit: "length k + 1 \<le> CLIENT_REQUEST_PAYLOAD_LEN" and nb: "\<not> busy (rqs s) k"
    and sz: "SERVER_RESPONSE_PAYLOAD_LEN < stored_size (q_db (rqs s)) k + 1 + SERVER_HEADER_LEN"
      "stored_size (q_db (rqs s)) k + 1 + SERVER_HEADER_LEN < 2 ^ 31"
    and free: "\<exists>i < SERVER_NUM_SEND_BUFFS. \<not> in_use_send (sctx s) ! i" and accept: "send_ok N (verbs s)"
  obtains s' m p rk ra ys w where "server_wait_completions (Suc f) N (delivered i n (get_message t k) s) = Inr s'"
    "server_inv N s' ys" "linked s' n j qp" "c_curr (conns s' ! j) = c_curr (conns s ! j) - 1"
    "sent s' = sent s @ [(n, enc_server_headers (response_headers RDMA_RKEY_GET t (of_nat (length k)) (ucast (m :: 32 word)) rk ra))]"
    "unat m = stored_size (q_db (rqs s)) k" "announces (q_db (rqs s')) p rk ra (unat m)"
    "p \<in> set (internal_db (q_db (rqs s')))" "db_key (q_db (rqs s')) p = Some k" "busy (rqs s') k" "fins (rqs s') p = 1"
    "w \<in> set (waiting_fin_q (rqs s'))" "req_key (rqs s') w = Some (uint t)" "r_target (rqs s') w = Some p"
    "db_abs (q_db (rqs s')) = (db_abs (q_db (rqs s)))(k \<mapsto> value_of (q_db (rqs s)) k)"
proof -
  let ?h = "client_headers GET_REQUEST_OPCODE t (of_nat (length k)) 0"
  let ?data = "k @ [NUL]" and ?gb = "get_free_send_buffer (Suc f) (server_wait_completions f N)"
  let ?s1 = "arrived i j (enc_client_headers ?h @ ?data) s"
  have len: "CLIENT_HEADER_LEN + length ?data \<le> BUFFER_SIZE" using fit by simp
  have inv1: "server_inv N ?s1 xs" by (rule arrived_inv [OF inv i]) (use len in simp)
  have co: "conns_ok s" and rinv: "req_inv (host N) (\<lambda>_. 0) (rqs s) xs" using inv by (simp_all add: server_inv_def)
  note lf = linked_facts [OF l(1) co]
  have nw: "\<not> being_written (q_db (rqs s)) k" by (rule not_busy_not_written [OF rinv nb])
  have l': "get_connection s n = Some j" "c_qp (conns s ! j) = Some qp" using l(1) by (simp_all add: linked_def)
  have k1: "storable (db_page_size (q_db (rqs ?s1))) k []" "\<not> being_written (q_db (rqs ?s1)) k"
    "SERVER_RESPONSE_PAYLOAD_LEN < stored_size (q_db (rqs ?s1)) k + 1 + SERVER_HEADER_LEN"
    "stored_size (q_db (rqs ?s1)) k + 1 + SERVER_HEADER_LEN < 2 ^ 31"
    "\<exists>i < SERVER_NUM_SEND_BUFFS. \<not> in_use_send (sctx ?s1) ! i" "qp_ptr qp \<in> set (live_qps ?s1)"
    using k nw sz free lf(3) by simp_all
  obtain s2 m rk ra p ys where
    s2: "handle_get_request N ?gb ?s1 qp ?h (k @ NUL # drop (get_recv_buffer i + CLIENT_HEADER_LEN + length ?data) (in_buf (sctx s)))
        (wc_id (server_recv_done i n)) = Inr (0, s2)"
      "server_inv N s2 ys" "sent s2 = sent ?s1 @ transmitted N ?s1 qp (get_rdma_reply ?h m rk ra)"
      "unat m = stored_size (q_db (rqs ?s1)) k" "announces (q_db (rqs s2)) p rk ra (unat m)"
      "db_key (q_db (rqs s2)) p = Some k" "busy (rqs s2) k"
      "db_abs (q_db (rqs s2)) = (db_abs (q_db (rqs ?s1)))(k \<mapsto> value_of (q_db (rqs ?s1)) k)"
      "\<exists>w \<in> set (waiting_fin_q (rqs s2)). req_key (rqs s2) w = Some (uint (tid ?h)) \<and> r_target (rqs s2) w = Some p"
      "\<not> busy (rqs ?s1) k \<longrightarrow> fins (rqs s2) p = 1" "p \<in> set (internal_db (q_db (rqs s2)))"
      "conns s2 = conns ?s1" "live_qps s2 = live_qps ?s1"
    by (rule get_announces [OF inv1 W k1, where m = f and wait = "server_wait_completions f N" and h = ?h])
  let ?s' = "s2\<lparr>sctx := (sctx s2)\<lparr>in_use_recv := (in_use_recv (sctx s2))[i := False]\<rparr>\<rparr>"
  have wf: "ctx_wf (sctx s2)" using s2(2) by (simp add: server_inv_def)
  have run: "server_wait_completions (Suc f) N (delivered i n (enc_client_headers ?h @ ?data) s) = Inr ?s'"
    by (rule server_receives [OF inv l' l(2) i len, of ?h GET_REQUEST_OPCODE, where rc = 0])
      (use s2(1) wf in \<open>simp_all add: client_headers_def\<close>)
  have "server_inv N ?s' ys" using s2(2) conns_ok_cong [of ?s' s2] by (simp add: server_inv_def ctx_wf_def)
  moreover have "linked ?s' n j qp" using linked_cong [of ?s' ?s1] s2(12) linked_arrived [OF l(1)] by simp
  moreover have "c_curr (conns ?s' ! j) = c_curr (conns s ! j) - 1"
    using s2(12) lf(1) co by (simp add: arrived_def conns_ok_def)
  moreover have "sent ?s' = sent s @ [(n, enc_server_headers (response_headers RDMA_RKEY_GET t (of_nat (length k)) (ucast m) rk ra))]"
    using s2(3) accept lf(2) by (simp add: transmitted_def get_rdma_reply_def)
  ultimately show ?thesis
    using that [of ?s' ys m rk ra p] s2(4-11) nb run by (auto simp: get_message_def)
qed

section \<open>The client's RDMA read\<close>

text \<open>The bytes that the adapter of the client finds at the start of the buffer of entry \<open>p\<close>.\<close>

definition remote_bytes :: "ptr \<Rightarrow> nat \<Rightarrow> server \<Rightarrow> byte list" where
  "remote_bytes p n s =
     (case db_heap (dmem (q_db (rqs s))) p of
        None \<Rightarrow> []
      | Some e \<Rightarrow> (case e_value e of None \<Rightarrow> [] | Some vb \<Rightarrow> take n (b_data vb)))"

lemma remote_bytes_value:
  assumes inv: "server_inv N s ys" and a: "announces (q_db (rqs s)) p rk ra n"
    and p: "p \<in> set (internal_db (q_db (rqs s)))" "db_key (q_db (rqs s)) p = Some k"
  shows "length (remote_bytes p n s) = n" "db_abs (q_db (rqs s)) k = Some (cstr (remote_bytes p n s))"
proof -
  let ?d = "q_db (rqs s)"
  obtain e mr vb where e: "db_heap (dmem ?d) p = Some e" "e_value e = Some vb" "unat (e_size e) = n" "n < length (b_data vb)"
    using a by (auto simp: announces_def)
  have dinv: "db_inv (host N) ?d" using inv by (simp add: server_inv_def req_inv_def req_locks_def)
  have ek: "entry_key e = Some k" using p(2) e(1) by (simp add: db_key_def)
  show "length (remote_bytes p n s) = n" using e by (simp add: remote_bytes_def)
  show "db_abs ?d k = Some (cstr (remote_bytes p n s))"
    using db_abs_Some [OF dinv p(1) e(1) ek] e by (simp add: remote_bytes_def entry_val_def)
qed

section \<open>The whole call\<close>

text \<open>
  C3: a GET of a value that does not fit in a message, end to end. The server answers the message
  of \<open>kv_get\<close> with the address and the remote key of the value, and keeps the entry locked; the
  client hands its adapter exactly the read of that value into a new block; when the read has
  brought the bytes, \<open>kv_get\<close> sends the FIN and returns the block, which holds the value with a NUL
  behind it. When the FIN is handled, the entry is free and the table as before.
\<close>

theorem long_get:
  assumes "client_ok c" and "1 < count_list (in_use_send (cctx c)) False" and "creq_abs (reqs c) (fst (get_new_tid c)) = None"
    and "\<not> immediate_shutdown c" and "11 < curr_recv_buff (cctx c)"
    and "\<forall>m. e_alloc E m" and "\<forall>m. e_calloc E m" and "\<forall>m. e_reg E m" and "\<forall>m. e_send E m" and "\<forall>m. \<not> e_signal E m" and "4 \<le> a"
    and "length k + 1 < CLIENT_REQUEST_PAYLOAD_LEN"
    and "SERVER_RESPONSE_PAYLOAD_LEN < stored_size (q_db (rqs s)) k + 1 + SERVER_HEADER_LEN"
    and "stored_size (q_db (rqs s)) k + 1 + SERVER_HEADER_LEN < 2 ^ 31"
    and "server_inv N s xs" and "plentiful (host N)" and "send_ok N (verbs s)" and "linked s n j qp" and "102 < c_curr (conns s ! j)"
    and "\<exists>i < SERVER_NUM_SEND_BUFFS. \<not> in_use_send (sctx s) ! i" and "storable (db_page_size (q_db (rqs s))) k []"
    and "\<not> busy (rqs s) k"
    and "i < SERVER_NUM_RECV_BUFFS" and "i' < SERVER_NUM_RECV_BUFFS" and "b < SERVER_NUM_RECV_BUFFS"
  shows "\<exists>m1 s1 reply e tr q c' m2 s2 ys bs.
     server_wait_completions (Suc f) N (delivered i n m1 s) = Inr s1 \<and> sent s1 = sent s @ [(n, reply)] \<and> busy (rqs s1) k \<and>
     announces (q_db (rqs s1)) e (t_rkey tr) (t_raddr tr) (unat (t_size tr)) \<and> t_laddr tr = Some q \<and>
     kv_get a E (k @ [NUL]) (c\<lparr>cpolls := [Some (message_poll b reply),
       Some (read_poll (t_tid tr) q (remote_bytes e (unat (t_size tr)) s1))]\<rparr>) = Inr ((0, Some q), c') \<and>
     posted c' = posted c @ [Send m1, Rdma_read tr, Send m2] \<and> client_ok c' \<and> creq_abs (reqs c') = creq_abs (reqs c) \<and>
     blocks c' q = Some (bs @ [NUL]) \<and> cstr bs = value_of (q_db (rqs s)) k \<and>
     server_wait_completions (Suc f) N (delivered i' n m2 s1) = Inr s2 \<and> server_inv N s2 ys \<and> \<not> busy (rqs s2) k \<and>
     db_abs (q_db (rqs s2)) = (db_abs (q_db (rqs s)))(k \<mapsto> value_of (q_db (rqs s)) k)"
proof -
  let ?t = "fst (get_new_tid c)"
  have k: "NUL \<notin> set k" using assms(21) by (simp add: storable_def)
  have lens: "length k + 1 \<le> CLIENT_REQUEST_PAYLOAD_LEN" "length k < BUFFER_SIZE - CLIENT_HEADER_LEN - 1" using assms(12) by simp_all
  have many: "101 < c_curr (conns s ! j)" using assms(19) by simp
  obtain s1 m e rk ra ys w where s1: "server_wait_completions (Suc f) N (delivered i n (get_message ?t k) s) = Inr s1"
    "server_inv N s1 ys" "linked s1 n j qp" "c_curr (conns s1 ! j) = c_curr (conns s ! j) - 1"
    "sent s1 = sent s @ [(n, enc_server_headers (response_headers RDMA_RKEY_GET ?t (of_nat (length k)) (ucast (m :: 32 word)) rk ra))]"
    "unat m = stored_size (q_db (rqs s)) k" "announces (q_db (rqs s1)) e rk ra (unat m)"
    "e \<in> set (internal_db (q_db (rqs s1)))" "db_key (q_db (rqs s1)) e = Some k" "busy (rqs s1) k" "fins (rqs s1) e = 1"
    "w \<in> set (waiting_fin_q (rqs s1))" "req_key (rqs s1) w = Some (uint ?t)" "r_target (rqs s1) w = Some e"
    "db_abs (q_db (rqs s1)) = (db_abs (q_db (rqs s)))(k \<mapsto> value_of (q_db (rqs s)) k)"
    by (rule server_offers [OF assms(15,16,18) many assms(23,21) lens(1) assms(22,13,14,20,17)])
  let ?h = "response_headers RDMA_RKEY_GET ?t (of_nat (length k)) (ucast m) rk ra" and ?bs = "remote_bytes e (unat m) s1"
  let ?c = "c\<lparr>cpolls := [Some (message_poll b (enc_server_headers ?h)), Some (read_poll (rtid ?h) (next_block c) ?bs)]\<rparr>"
  note bytes = remote_bytes_value [OF s1(2,7-9)]
  have um: "unat (ucast m :: 64 word) = unat m" by (simp add: unsigned_ucast_eq take_bit_nat_eq_self less_le_trans [OF unsigned_less])
  have mb: "unat m < 2 ^ 31" using s1(6) assms(14) by simp
  have h: "response ?h = response_val RDMA_RKEY_GET" "rtid ?h = fst (get_new_tid ?c)" "unat (rbuflen ?h) + 1 < 2 ^ 64"
    "length ?bs = unat (rbuflen ?h)"
    using um bytes(1) mb by (simp_all add: response_headers_def get_new_tid_def Let_def)
  have c: "client_ok ?c" "1 < count_list (in_use_send (cctx ?c)) False" "creq_abs (reqs ?c) (fst (get_new_tid ?c)) = None"
    "\<not> immediate_shutdown ?c" "11 < curr_recv_buff (cctx ?c)" using assms(1-5) by (simp_all add: client_ok_def get_new_tid_def Let_def)
  have polls: "cpolls ?c = [Some (message_poll b (enc_server_headers ?h)), Some (read_poll (rtid ?h) (next_block ?c) ?bs)]" by simp
  obtain c' where c': "kv_get a E (k @ [NUL]) ?c = Inr ((0, Some (next_block ?c)), c')" "client_ok c'"
    "blocks c' = (blocks ?c)(next_block ?c \<mapsto> ?bs @ [NUL])" "creq_abs (reqs c') = creq_abs (reqs ?c)"
    "posted c' = posted ?c @ [Send (get_message (rtid ?h) k), Rdma_read (fetch E ?c ?h), Send (fin_message (rtid ?h) k)]"
    by (rule kv_get_fetched [OF c(1,2) k lens(2) c(3) assms(6-10) c(4) polls assms(25) c(5) h assms(11)])
  have l1: "101 < c_curr (conns s1 ! j)" using s1(4) assms(19) by simp
  let ?zs = "without (rqs s1) ?t ys"
  obtain s2 where s2: "server_wait_completions (Suc f) N (delivered i' n (fin_message ?t k) s1) = Inr s2" "server_inv N s2 ?zs"
    "db_abs (q_db (rqs s2)) = db_abs (q_db (rqs s1))" "\<not> busy (rqs s2) k"
    by (rule server_finishes [OF s1(2,3) l1 assms(24) k lens(1) s1(8,9,11-14)])
  let ?tr = "fetch E ?c ?h" and ?q = "next_block c"
  have rt: "rtid ?h = ?t" by (simp add: response_headers_def)
  have tr: "t_rkey ?tr = rk" "t_raddr ?tr = ra" "t_size ?tr = m" "t_laddr ?tr = Some ?q" "t_tid ?tr = ?t"
    by (simp_all add: fetch_def response_headers_def) (rule bit_word_eqI, simp add: bit_ucast_iff)
  have r1: "announces (q_db (rqs s1)) e (t_rkey ?tr) (t_raddr ?tr) (unat (t_size ?tr))" unfolding tr by (rule s1(7))
  have r2: "kv_get a E (k @ [NUL]) (c\<lparr>cpolls := [Some (message_poll b (enc_server_headers ?h)),
      Some (read_poll (t_tid ?tr) ?q (remote_bytes e (unat (t_size ?tr)) s1))]\<rparr>) = Inr ((0, Some ?q), c')"
    unfolding tr using c'(1) unfolding rt by simp
  have r3: "posted c' = posted c @ [Send (get_message ?t k), Rdma_read ?tr, Send (fin_message ?t k)]"
    using c'(5) unfolding rt by simp
  have r4: "creq_abs (reqs c') = creq_abs (reqs c)" "blocks c' ?q = Some (?bs @ [NUL])" using c'(3,4) by simp_all
  have r5: "cstr ?bs = value_of (q_db (rqs s)) k" using bytes(2) s1(15) by simp
  have r6: "db_abs (q_db (rqs s2)) = (db_abs (q_db (rqs s)))(k \<mapsto> value_of (q_db (rqs s)) k)" using s2(3) s1(15) by simp
  show ?thesis using s1(1,5,10) r1 tr(4) r2 r3 c'(2) r4 r5 s2(1,2,4) r6 by blast
qed

theorem long_get_witness:
  "\<exists>q m1 s1 reply e tr p c' m2 s2 bs.
     server_wait_completions (Suc 0) linux_nic (delivered 0 9 m1 (posted_client q)) = Inr s1 \<and>
     sent s1 = sent (posted_client q) @ [(9, reply)] \<and> busy (rqs s1) ''bla'' \<and>
     kv_get 4 good_env (''bla'' @ [NUL]) ((connected [])\<lparr>cpolls := [Some (message_poll 0 reply),
       Some (read_poll (t_tid tr) p (remote_bytes e (unat (t_size tr)) s1))]\<rparr>) = Inr ((0, Some p), c') \<and>
     posted c' = posted (connected []) @ [Send m1, Rdma_read tr, Send m2] \<and>
     blocks c' p = Some (bs @ [NUL]) \<and> cstr bs = replicate 5000 CHR ''v'' \<and>
     server_wait_completions (Suc 0) linux_nic (delivered 1 9 m2 s1) = Inr s2 \<and> \<not> busy (rqs s2) ''bla''"
proof (rule linux_large)
  fix q
  assume q: "req_inv linux_world (\<lambda>_. 0) q []" "waiting_fin_q q = []" "db_abs (q_db q) = [''bla'' \<mapsto> replicate 5000 CHR ''v'']"
    "stored_size (q_db q) ''bla'' = 5001" "db_page_size (q_db q) = 4096"
  let ?c = "connected []" and ?s = "posted_client q"
  have rq: "rqs ?s = q" "sctx ?s = blank_context" by (simp_all add: posted_client_def)
  have inv: "server_inv linux_nic ?s []" by (rule posted_client_inv [OF q(1)])
  have spare: "1 < count_list (in_use_send (cctx ?c)) False" using connected_spare [of "[]"] by simp
  have st: "storable (db_page_size (q_db (rqs ?s))) ''bla'' []" by (simp add: storable_def rq(1) q(5))
  have nb: "\<not> busy (rqs ?s) ''bla''" using not_busy [OF q(2)] rq(1) by simp
  have fr: "\<exists>i < SERVER_NUM_SEND_BUFFS. \<not> in_use_send (sctx ?s) ! i" using free_blank rq(2) by simp
  have val: "value_of (q_db (rqs ?s)) ''bla'' = replicate 5000 CHR ''v''" by (simp add: rq(1) value_of_def q(3))
  have "\<exists>m1 s1 reply e tr p c' m2 s2 ys bs.
     server_wait_completions (Suc 0) linux_nic (delivered 0 9 m1 ?s) = Inr s1 \<and> sent s1 = sent ?s @ [(9, reply)] \<and> busy (rqs s1) ''bla'' \<and>
     announces (q_db (rqs s1)) e (t_rkey tr) (t_raddr tr) (unat (t_size tr)) \<and> t_laddr tr = Some p \<and>
     kv_get 4 good_env (''bla'' @ [NUL]) (?c\<lparr>cpolls := [Some (message_poll 0 reply),
       Some (read_poll (t_tid tr) p (remote_bytes e (unat (t_size tr)) s1))]\<rparr>) = Inr ((0, Some p), c') \<and>
     posted c' = posted ?c @ [Send m1, Rdma_read tr, Send m2] \<and> client_ok c' \<and> creq_abs (reqs c') = creq_abs (reqs ?c) \<and>
     blocks c' p = Some (bs @ [NUL]) \<and> cstr bs = value_of (q_db (rqs ?s)) ''bla'' \<and>
     server_wait_completions (Suc 0) linux_nic (delivered 1 9 m2 s1) = Inr s2 \<and> server_inv linux_nic s2 ys \<and> \<not> busy (rqs s2) ''bla'' \<and>
     db_abs (q_db (rqs s2)) = (db_abs (q_db (rqs ?s)))(''bla'' \<mapsto> value_of (q_db (rqs ?s)) ''bla'')"
    by (rule long_get [OF connected_ok spare _ _ _ _ _ _ _ _ _ _ _ _ inv _ _ posted_client_linked(1) _ fr st nb])
      (simp_all add: connected_reqs posted_client_linked rq q(4))
  then show ?thesis unfolding val by blast
qed

end
