(* ===== verification/Waiting.thy ===== *)
theory Waiting
  imports Rendezvous
begin

text \<open>
  A request that waits for a lock: the message is put into the queue, the FIN of the transfer that
  holds the lock frees the entry, and the next round of the main loop takes the request up again;
  and what one such look at the queue does when there are many requests in it.
\<close>

section \<open>The request is put off\<close>

lemma kept_set:
  assumes "CLIENT_HEADER_LEN + a + b + 2 \<le> CLIENT_REQUEST_PAYLOAD_LEN"
  shows "kept (client_headers SET_REQUEST_OPCODE t (of_nat a) (of_nat b)) = CLIENT_HEADER_LEN + a + b + 2"
proof -
  have "(ucast (of_nat a :: 32 word) :: 64 word) = of_nat a"
    by (subst of_nat_unat [symmetric]) (subst unat_of_nat32, use assms in simp_all)
  then have size: "of_nat CLIENT_HEADER_LEN + ucast (of_nat a :: 32 word) + of_nat b + 2 = (of_nat (CLIENT_HEADER_LEN + a + b + 2) :: 64 word)"
    by (simp only: of_nat_add of_nat_numeral)
  have nat64: "unat (of_nat m :: 64 word) = m" if "m < 10000" for m
    using that by (simp add: unsigned_of_nat take_bit_nat_eq_self)
  have "unat (of_nat (CLIENT_HEADER_LEN + a + b + 2) :: 64 word) = CLIENT_HEADER_LEN + a + b + 2"
    "unat (of_nat CLIENT_REQUEST_PAYLOAD_LEN :: 64 word) = CLIENT_REQUEST_PAYLOAD_LEN"
    using assms by (intro nat64; simp)+
  then show ?thesis using assms
    unfolding kept_def client_headers_simps size Let_def word_le_nat_alt by simp
qed

text \<open>What is known of a SET that waits.\<close>

definition set_queued :: "requests \<Rightarrow> ptr \<Rightarrow> 16 word \<Rightarrow> byte list \<Rightarrow> byte list \<Rightarrow> ibv_qp \<Rightarrow> bool" where
  "set_queued q x t k v qp \<longleftrightarrow>
     (\<exists>r rest. req_heap (q_mem q) x = Some r \<and> r_tid r = uint t \<and> r_qp r = Some qp \<and>
        r_headers r = client_headers SET_REQUEST_OPCODE t (of_nat (length k)) (of_nat (length v)) \<and>
        r_buffer r = Some (k @ NUL # v @ NUL # rest))"

text \<open>A SET with its value is put into the queue.\<close>

lemma push_set_ok:
  assumes inv: "req_inv W x q xs" and W: "plentiful W" and new: "\<forall>p \<in> set (internal_q q). req_key q p \<noteq> Some (uint t)"
    and fit: "CLIENT_HEADER_LEN + length k + length v + 2 \<le> CLIENT_REQUEST_PAYLOAD_LEN" and room: "CLIENT_HEADER_LEN \<le> length rest"
  obtains q' p where "push_pending_request W q t info (client_headers SET_REQUEST_OPCODE t (of_nat (length k)) (of_nat (length v)))
      (k @ NUL # v @ NUL # rest) qp = Inr q'" "req_inv W x q' (xs @ [p])" "set_queued q' p t k v qp"
    "\<forall>a \<in> set (internal_q q) \<union> set (waiting_fin_q q). req_heap (q_mem q') a = req_heap (q_mem q) a"
    "waiting_fin_q q' = waiting_fin_q q" "q_db q' = q_db q" "internal_q q' = internal_q q @ [p]"
proof -
  let ?h = "client_headers SET_REQUEST_OPCODE t (of_nat (length k)) (of_nat (length v))"
  let ?buf = "k @ NUL # v @ NUL # rest"
  note kept = kept_set [OF fit, of t]
  have fit1: "kept ?h \<le> length ?buf" unfolding kept using room by simp
  have "0 < q_page_size q" using req_shapeD(1) inv by (simp add: req_inv_def req_shape_def)
  then have fit2: "kept ?h \<le> key_room (q_page_size q)" unfolding kept using fit key_room_ge by (meson le_trans)
  obtain q' p r where q: "push_pending_request W q t info ?h ?buf qp = Inr q'"
    "req_inv W x q' (xs @ [p])" "req_heap (q_mem q') p = Some r" "r_tid r = uint t" "r_headers r = ?h"
    "r_qp r = Some qp" "r_buffer r = Some (take (kept ?h) ?buf @ zeros (key_room (q_page_size q) - kept ?h))"
    "\<forall>a \<in> set (internal_q q) \<union> set (waiting_fin_q q). req_heap (q_mem q') a = req_heap (q_mem q) a"
    "waiting_fin_q q' = waiting_fin_q q" "q_db q' = q_db q" "internal_q q' = internal_q q @ [p]"
    by (rule push_new_ok [OF inv W new fit1 fit2, where info = info and qp = qp]) blast
  have "length (k @ NUL # v @ [NUL]) \<le> kept ?h" unfolding kept by simp
  then obtain tl where "take (kept ?h) ?buf = k @ NUL # v @ NUL # tl"
    using take_append [of "kept ?h" "k @ NUL # v @ [NUL]" rest] by simp
  then have "set_queued q' p t k v qp" using q(3-7) by (simp add: set_queued_def)
  then show ?thesis using that [OF q(1,2) _ q(8-11)] by blast
qed

lemma server_defers:
  assumes inv: "server_inv N s xs" and W: "plentiful (host N)" and l: "linked s n j qp" "101 < c_curr (conns s ! j)"
    and i: "i < SERVER_NUM_RECV_BUFFS" and k: "NUL \<notin> set k"
    and fit: "CLIENT_HEADER_LEN + length k + length v + 2 \<le> CLIENT_REQUEST_PAYLOAD_LEN"
    and b: "busy (rqs s) k" and new: "\<forall>p \<in> set (internal_q (rqs s)). req_key (rqs s) p \<noteq> Some (uint t)"
  obtains s' x where "server_wait_completions (Suc f) N (delivered i n (set_message t k v) s) = Inr s'"
    "server_inv N s' (xs @ [x])" "set_queued (rqs s') x t k v qp"
    "waiting_fin_q (rqs s') = waiting_fin_q (rqs s)" "q_db (rqs s') = q_db (rqs s)"
    "\<forall>w \<in> set (waiting_fin_q (rqs s)). req_heap (q_mem (rqs s')) w = req_heap (q_mem (rqs s)) w"
    "sent s' = sent s" "verbs s' = verbs s" "\<And>n a qp. linked s n a qp \<Longrightarrow> linked s' n a qp"
    "\<And>a. c_curr (conns s ! a) - 1 \<le> c_curr (conns s' ! a)"
proof -
  let ?h = "client_headers SET_REQUEST_OPCODE t (of_nat (length k)) (of_nat (length v))"
  let ?data = "k @ [NUL] @ v @ [NUL]" and ?gb = "get_free_send_buffer (Suc f) (server_wait_completions f N)"
  let ?s1 = "arrived i j (enc_client_headers ?h @ ?data) s" and ?in = "in_buf (sctx s)"
  have len: "CLIENT_HEADER_LEN + length ?data \<le> BUFFER_SIZE" using fit by simp
  have inv1: "server_inv N ?s1 xs" by (rule arrived_inv [OF inv i]) (use len in simp)
  then have rinv: "req_inv (host N) (\<lambda>_. 0) (rqs ?s1) xs" and wf1: "ctx_wf (sctx ?s1)" by (simp_all add: server_inv_def)
  have l': "get_connection s n = Some j" "c_qp (conns s ! j) = Some qp" using l(1) by (simp_all add: linked_def)
  let ?rest = "drop (get_recv_buffer i + CLIENT_HEADER_LEN + length ?data) ?in"
  let ?buf = "k @ NUL # v @ NUL # ?rest" and ?info = "wc_id (server_recv_done i n)"
  have "BUFFER_SIZE - (CLIENT_HEADER_LEN + length ?data) \<le> length ?rest"
    using wf1 i len inv by (simp add: server_inv_def ctx_wf_def get_recv_buffer_def)
  then have room: "CLIENT_HEADER_LEN \<le> length ?rest" using fit by simp
  have new1: "\<forall>p \<in> set (internal_q (rqs ?s1)). req_key (rqs ?s1) p \<noteq> Some (uint t)" and b1: "busy (rqs ?s1) k"
    using new b by simp_all
  obtain q x where q: "push_pending_request (host N) (rqs ?s1) t ?info ?h ?buf qp = Inr q"
    "req_inv (host N) (\<lambda>_. 0) q (xs @ [x])" and queued: "set_queued q x t k v qp"
    and same: "\<forall>a \<in> set (internal_q (rqs ?s1)) \<union> set (waiting_fin_q (rqs ?s1)). req_heap (q_mem q) a = req_heap (q_mem (rqs ?s1)) a"
    "waiting_fin_q q = waiting_fin_q (rqs ?s1)" "q_db q = q_db (rqs ?s1)"
    by (rule push_set_ok [OF rinv W new1 fit room, where info = ?info and qp = qp])
  let ?s2 = "?s1\<lparr>rqs := q\<rparr>"
  have handle: "handle_set_request N ?gb ?s1 qp ?h (?data @ ?rest) ?info = Inr (1, ?s2)"
    using set_waits [OF rinv b1 k, of ?gb qp ?h "v @ NUL # ?rest" ?info] q(1) by simp
  let ?s' = "?s2\<lparr>sctx := (sctx ?s2)\<lparr>in_use_recv := (in_use_recv (sctx ?s2))[i := False]\<rparr>\<rparr>"
  have run: "server_wait_completions (Suc f) N (delivered i n (enc_client_headers ?h @ ?data) s) = Inr ?s'"
    by (rule server_receives [OF inv l' l(2) i len, of ?h SET_REQUEST_OPCODE, where rc = 0])
      (use handle wf1 in \<open>simp_all add: client_headers_def\<close>)
  have "server_inv N ?s' (xs @ [x])"
    using inv1 q(2) conns_ok_cong [of ?s' ?s1] by (simp add: server_inv_def ctx_wf_def)
  moreover have "linked ?s' n a qp" if "linked s n a qp" for n a qp
    using linked_cong [of ?s' ?s1] linked_arrived [OF that] by simp
  moreover have "c_curr (conns s ! a) - 1 \<le> c_curr (conns ?s' ! a)" for a
    by (cases "a = j \<and> j < length (conns s)") (auto simp: arrived_def list_update_beyond not_less)
  ultimately show ?thesis
    using that [of ?s' x] run queued same by (simp add: set_message_def)
qed

section \<open>The request is taken up\<close>

lemma pending_set_stored:
  assumes inv: "server_inv N s [x]" and W: "plentiful (host N)" and x: "set_queued (rqs s) x t k v qp"
    and kv: "storable (db_page_size (q_db (rqs s))) k v" and fit: "length k + length v + 2 \<le> CLIENT_REQUEST_PAYLOAD_LEN"
    and free: "\<not> busy (rqs s) k" and check: "\<not> recheck N (verbs s)"
  obtains s' where "handle_pending_request N gb s = Inr s'" "server_inv N s' []"
    "db_abs (q_db (rqs s')) = (db_abs (q_db (rqs s)))(k \<mapsto> v)" "\<not> busy (rqs s') k" "sent s' = sent s"
    "pending_req_count (rqs s') = Inr 0"
proof -
  have rinv: "req_inv (host N) (\<lambda>_. 0) (rqs s) [x]" and wf: "ctx_wf (sctx s)" and co: "conns_ok s"
    using inv by (simp_all add: server_inv_def)
  obtain r rest where r: "req_heap (q_mem (rqs s)) x = Some r" "r_qp r = Some qp"
    "r_headers r = client_headers SET_REQUEST_OPCODE t (of_nat (length k)) (of_nat (length v))"
    "r_buffer r = Some (k @ NUL # v @ NUL # rest)" using x by (auto simp: set_queued_def)
  obtain l where l: "pop_pending_request (rqs s) = Inr (Some x, (rqs s)\<lparr>sorted_q := l\<rparr>)"
    "req_inv (host N) (\<lambda>_. 0) ((rqs s)\<lparr>sorted_q := l\<rparr>) []" using pop_ok [OF rinv] by auto
  let ?s1 = "(tick s)\<lparr>rqs := (rqs s)\<lparr>sorted_q := l\<rparr>\<rparr>"
  have rinv1: "req_inv (host N) (\<lambda>_. 0) (rqs ?s1) []" using l(2) by simp
  have kv1: "storable (db_page_size (q_db (rqs ?s1))) k v" and free1: "\<not> busy (rqs ?s1) k"
    using kv free by (simp_all add: busy_def fins_def r_target_def)
  let ?h = "r_headers r"
  have h: "keylen ?h = of_nat (length k)" "buflen ?h = of_nat (length v)" "opcode ?h = opcode_val SET_REQUEST_OPCODE"
    by (simp_all add: r(3) client_headers_def)
  obtain q' where q': "handle_set_request N gb ?s1 qp ?h (k @ NUL # v @ NUL # rest) (r_info r) = Inr (0, ?s1\<lparr>rqs := q'\<rparr>)"
    "req_inv (host N) (\<lambda>_. 0) q' (without (rqs ?s1) (tid ?h) [])"
    "db_abs (q_db q') = (db_abs (q_db (rqs ?s1)))(k \<mapsto> v)" "\<not> busy q' k"
    by (rule set_stores [OF rinv1 W kv1 fit free1 h(1,2), where gb = gb and qp = qp and info = "r_info r"])
  have oc: "opcode_of (opcode ?h) = Some SET_REQUEST_OPCODE" unfolding h(3) by (rule opcode_of_val)
  have load: "rload (rqs ?s1) (Some x) = Inr r" using r(1) by (simp add: rload_def)
  have retry: "retry_request N gb ?s1 (Some x) = Inr (?s1\<lparr>rqs := q'\<rparr>)"
    unfolding retry_request_def load bnd_simps oc r(2,4) not_null_def option.case opcode_t.case q'(1) by simp
  have rec: "recheck N (verbs s) = False" using check by simp
  have cnt: "pending_req_count (rqs s) = Inr 1" using count_ok [OF rinv] by simp
  have pop: "pop_pending_request (rqs (tick s)) = Inr (Some x, (rqs s)\<lparr>sorted_q := l\<rparr>)" using l(1) by (simp add: tick_def)
  have run: "handle_pending_request N gb s = Inr (?s1\<lparr>rqs := q'\<rparr>)"
    unfolding handle_pending_request_def cnt bnd_simps Let_def rec if_False prod.case One_nat_def retry_loop.simps pop
    using retry by simp
  let ?s' = "?s1\<lparr>rqs := q'\<rparr>"
  have "server_inv N ?s' []"
    using q'(2) wf conns_ok_cong [of ?s' s] co by (simp add: server_inv_def without_def tick_def)
  moreover have "pending_req_count q' = Inr 0" using count_ok [of _ _ q' "[]"] q'(2) by (simp add: without_def)
  ultimately show ?thesis using that [of ?s'] run q'(3,4) by (simp add: tick_def)
qed

section \<open>A look at the queue\<close>

text \<open>
  The queue \<open>xs\<close> holds SETs whose values came with them; \<open>F\<close> gives the id, key, value and queue
  pair of each. No transfer is awaited under one of these ids.
\<close>

type_synonym waiting_sets = "ptr \<Rightarrow> 16 word \<times> byte list \<times> byte list \<times> ibv_qp"

definition set_tid :: "waiting_sets \<Rightarrow> ptr \<Rightarrow> 16 word" where
  "set_tid F x = fst (F x)"

definition set_key :: "waiting_sets \<Rightarrow> ptr \<Rightarrow> byte list" where
  "set_key F x = fst (snd (F x))"

definition set_val :: "waiting_sets \<Rightarrow> ptr \<Rightarrow> byte list" where
  "set_val F x = fst (snd (snd (F x)))"

definition sets_waiting :: "requests \<Rightarrow> waiting_sets \<Rightarrow> ptr list \<Rightarrow> bool" where
  "sets_waiting q F xs \<longleftrightarrow>
     (\<forall>x \<in> set xs. set_queued q x (set_tid F x) (set_key F x) (set_val F x) (snd (snd (snd (F x)))) \<and>
        storable (db_page_size (q_db q)) (set_key F x) (set_val F x) \<and>
        length (set_key F x) + length (set_val F x) + 2 \<le> CLIENT_REQUEST_PAYLOAD_LEN \<and>
        (\<forall>w \<in> set (waiting_fin_q q). req_key q w \<noteq> Some (uint (set_tid F x))))"

lemma sets_waiting_cong:
  assumes "sets_waiting q F xs" and "set ys \<subseteq> set xs" and "\<forall>x \<in> set ys. req_heap (q_mem q') x = req_heap (q_mem q) x"
    and "db_page_size (q_db q') = db_page_size (q_db q)" and "set (waiting_fin_q q') = set (waiting_fin_q q)"
    and "\<forall>w \<in> set (waiting_fin_q q). req_heap (q_mem q') w = req_heap (q_mem q) w"
  shows "sets_waiting q' F ys"
  unfolding sets_waiting_def
proof
  fix x
  assume x: "x \<in> set ys"
  then have "req_heap (q_mem q') x = req_heap (q_mem q) x" using assms(3) by blast
  moreover have "\<forall>w \<in> set (waiting_fin_q q). req_key q' w = req_key q w" using assms(6) by (simp add: req_key_def)
  moreover have "x \<in> set xs" using x assms(2) by blast
  ultimately show "set_queued q' x (set_tid F x) (set_key F x) (set_val F x) (snd (snd (snd (F x)))) \<and>
      storable (db_page_size (q_db q')) (set_key F x) (set_val F x) \<and>
      length (set_key F x) + length (set_val F x) + 2 \<le> CLIENT_REQUEST_PAYLOAD_LEN \<and>
      (\<forall>w \<in> set (waiting_fin_q q'). req_key q' w \<noteq> Some (uint (set_tid F x)))"
    using assms(1,4,5) unfolding sets_waiting_def set_queued_def by metis
qed

lemma transfer_key_queue [simp]: "transfer_key (q\<lparr>sorted_q := l\<rparr>) w = transfer_key q w"
  by (simp add: transfer_key_def r_target_def split: option.split)

text \<open>One round of the loop: the first request is carried out, or goes to the end of the queue.\<close>

lemma retry_first:
  assumes inv: "req_inv (host N) (\<lambda>_. 0) q (x # xs)" and W: "plentiful (host N)" and sw: "sets_waiting q F (x # xs)"
  obtains q1 q' where "pop_pending_request q = Inr (Some x, q1)"
    "retry_request N gb (s\<lparr>rqs := q1\<rparr>) (Some x) = Inr (s\<lparr>rqs := q'\<rparr>)"
    "req_inv (host N) (\<lambda>_. 0) q' (if busy q (set_key F x) then xs @ [x] else xs)"
    "sets_waiting q' F (if busy q (set_key F x) then xs @ [x] else xs)"
    "db_abs (q_db q') = (if busy q (set_key F x) then db_abs (q_db q) else (db_abs (q_db q))(set_key F x \<mapsto> set_val F x))"
    "\<And>k. busy q' k = busy q k"
proof -
  let ?t = "set_tid F x" and ?k = "set_key F x" and ?v = "set_val F x" and ?qp = "snd (snd (snd (F x)))"
  have x: "set_queued q x ?t ?k ?v ?qp" "storable (db_page_size (q_db q)) ?k ?v"
    "length ?k + length ?v + 2 \<le> CLIENT_REQUEST_PAYLOAD_LEN" "\<forall>w \<in> set (waiting_fin_q q). req_key q w \<noteq> Some (uint ?t)"
    using sw by (simp_all add: sets_waiting_def)
  have k: "NUL \<notin> set ?k" using x(2) by (simp add: storable_def)
  obtain r rest where r: "req_heap (q_mem q) x = Some r" "r_tid r = uint ?t" "r_qp r = Some ?qp"
    "r_headers r = client_headers SET_REQUEST_OPCODE ?t (of_nat (length ?k)) (of_nat (length ?v))"
    "r_buffer r = Some (?k @ NUL # ?v @ NUL # rest)" using x(1) by (auto simp: set_queued_def)
  obtain l where l: "pop_pending_request q = Inr (Some x, q\<lparr>sorted_q := l\<rparr>)"
    "req_inv (host N) (\<lambda>_. 0) (q\<lparr>sorted_q := l\<rparr>) xs" "x \<in> set (internal_q q)" "x \<notin> set xs" using pop_ok [OF inv] by auto
  let ?q1 = "q\<lparr>sorted_q := l\<rparr>" and ?h = "r_headers r"
  let ?s1 = "s\<lparr>rqs := ?q1\<rparr>"
  have rinv1: "req_inv (host N) (\<lambda>_. 0) (rqs ?s1) xs" using l(2) by simp
  have busy1: "busy ?q1 k' = busy q k'" for k' by (simp add: busy_def fins_def r_target_def)
  have h: "keylen ?h = of_nat (length ?k)" "buflen ?h = of_nat (length ?v)" "opcode ?h = opcode_val SET_REQUEST_OPCODE" "tid ?h = ?t"
    by (simp_all add: r(4) client_headers_def)
  have load: "rload (rqs ?s1) (Some x) = Inr r" using r(1) by (simp add: rload_def)
  have oc: "opcode_of (opcode ?h) = Some SET_REQUEST_OPCODE" unfolding h(3) by (rule opcode_of_val)
  note retry = retry_request_def load bnd_simps oc r(3,5) not_null_def option.case opcode_t.case
  have sw1: "sets_waiting q F xs" using sw by (simp add: sets_waiting_def)
  show ?thesis
  proof (cases "busy q ?k")
    case True
    have key: "req_key ?q1 x = Some (uint (tid ?h))" using r(1,2) h(4) by (simp add: req_key_def)
    have x1: "x \<in> set (internal_q ?q1)" using l(3) by simp
    obtain l' where l': "push_pending_request (host N) ?q1 (tid ?h) (r_info r) ?h (?k @ NUL # ?v @ NUL # rest) ?qp =
        Inr (?q1\<lparr>sorted_q := l'\<rparr>)" "req_inv (host N) (\<lambda>_. 0) (?q1\<lparr>sorted_q := l'\<rparr>) (xs @ [x])"
      by (rule push_again_ok [OF l(2) x1 key l(4)])
    let ?q' = "q\<lparr>sorted_q := l'\<rparr>"
    have b1: "busy (rqs ?s1) ?k" using True busy1 by simp
    have "handle_set_request N gb ?s1 ?qp ?h (?k @ NUL # ?v @ NUL # rest) (r_info r) = Inr (1, s\<lparr>rqs := ?q'\<rparr>)"
      using set_waits [OF rinv1 b1 k, of gb ?qp ?h "?v @ NUL # rest" "r_info r"] l'(1) by simp
    then have run: "retry_request N gb ?s1 (Some x) = Inr (s\<lparr>rqs := ?q'\<rparr>)" unfolding retry by simp
    have "sets_waiting ?q' F (xs @ [x])" by (rule sets_waiting_cong [OF sw]) auto
    moreover have "busy ?q' k' = busy q k'" for k' by (simp add: busy_def fins_def r_target_def)
    ultimately show ?thesis using that [OF l(1) run] l'(2) True by simp
  next
    case False
    have kv1: "storable (db_page_size (q_db (rqs ?s1))) ?k ?v" and free1: "\<not> busy (rqs ?s1) ?k"
      using x(2) False busy1 by simp_all
    obtain q' where q': "handle_set_request N gb ?s1 ?qp ?h (?k @ NUL # ?v @ NUL # rest) (r_info r) = Inr (0, ?s1\<lparr>rqs := q'\<rparr>)"
      "req_inv (host N) (\<lambda>_. 0) q' (without (rqs ?s1) (tid ?h) xs)"
      "db_abs (q_db q') = (db_abs (q_db (rqs ?s1)))(?k \<mapsto> ?v)" "db_page_size (q_db q') = db_page_size (q_db (rqs ?s1))"
      "\<exists>d. removed ((rqs ?s1)\<lparr>q_db := d\<rparr>) (tid ?h) q'" "keeps_keys (q_db (rqs ?s1)) (q_db q')"
      by (rule set_stores [OF rinv1 W kv1 x(3) free1 h(1,2), where gb = gb and qp = ?qp and info = "r_info r"])
    obtain d where rem: "removed (?q1\<lparr>q_db := d\<rparr>) ?t q'" using q'(5) h(4) by auto
    have key: "req_key q x = Some (uint ?t)" using r(1,2) by (simp add: req_key_def)
    have tab: "table_ok (req_key q) (internal_q q)" and sub: "set xs \<subseteq> set (internal_q q)"
      using inv req_shapeD(3,6) by (force simp: req_inv_def)+
    have other: "req_key q y \<noteq> Some (uint ?t)" if "y \<in> set xs" for y
    proof
      assume "req_key q y = Some (uint ?t)"
      then have "y = x" using ht.ok_inj [OF tab _ l(3)] key sub that by auto
      then show False using l(4) that by simp
    qed
    have rk: "req_key ?q1 y = req_key q y" "req_key (?q1\<lparr>q_db := d\<rparr>) y = req_key q y" for y by (simp_all add: req_key_def)
    have wo: "without (rqs ?s1) (tid ?h) xs = xs"
      unfolding without_def by (rule filter_True) (use other in \<open>simp add: h(4) rk\<close>)
    have wt: "set (waiting_fin_q q') = set (waiting_fin_q q)"
      using rem x(4) by (auto simp: removed_def rk)
    have heap: "\<forall>p \<in> set (internal_q q') \<union> set (waiting_fin_q q'). req_heap (q_mem q') p = req_heap (q_mem q) p"
      using rem by (simp add: removed_def)
    have "set xs \<subseteq> set (internal_q q')" using rem sub other by (auto simp: removed_def rk)
    then have sw': "sets_waiting q' F xs"
      by (intro sets_waiting_cong [OF sw1]) (use heap wt q'(4) in auto)
    have "busy q' k' = busy q k'" for k'
    proof -
      have rem1: "removed ((rqs ?s1)\<lparr>q_db := d\<rparr>) ?t q'" using rem by simp
      have "busy q' k' \<longleftrightarrow> (\<exists>w \<in> set (waiting_fin_q q). transfer_key q w = Some k')"
        using busy_removed [OF rinv1 q'(2) rem1 q'(6), of k'] x(4) by (auto simp: rk)
      then show ?thesis using busy_iff [OF inv] by simp
    qed
    moreover have run: "retry_request N gb ?s1 (Some x) = Inr (s\<lparr>rqs := q'\<rparr>)" unfolding retry q'(1) by simp
    ultimately show ?thesis using that [OF l(1) run] q'(2,3) sw' False unfolding wo by simp
  qed
qed

text \<open>What a look at the first \<open>m\<close> requests stores, and the queue it leaves.\<close>

definition stored_by :: "waiting_sets \<Rightarrow> ptr list \<Rightarrow> (byte list \<rightharpoonup> byte list) \<Rightarrow> byte list \<rightharpoonup> byte list" where
  "stored_by F xs = fold (\<lambda>x d. d(set_key F x \<mapsto> set_val F x)) xs"

lemma retry_sets:
  assumes "req_inv (host N) (\<lambda>_. 0) q (ps @ xs)" and W: "plentiful (host N)" and "sets_waiting q F (ps @ xs)"
    and "length ps = min n (Suc SERVER_WC_BATCH - i)"
  shows "\<exists>q'. retry_loop n i N gb (s\<lparr>rqs := q\<rparr>) = Inr (s\<lparr>rqs := q'\<rparr>) \<and>
    req_inv (host N) (\<lambda>_. 0) q' (xs @ filter (\<lambda>x. busy q (set_key F x)) ps) \<and>
    sets_waiting q' F (xs @ filter (\<lambda>x. busy q (set_key F x)) ps) \<and>
    db_abs (q_db q') = stored_by F (filter (\<lambda>x. \<not> busy q (set_key F x)) ps) (db_abs (q_db q)) \<and>
    (\<forall>k. busy q' k = busy q k)"
  using assms(1,3,4)
proof (induction ps arbitrary: q xs n i)
  case Nil
  then have "n = 0 \<or> SERVER_WC_BATCH < i" by (simp add: min_def split: if_splits)
  then have "retry_loop n i N gb (s\<lparr>rqs := q\<rparr>) = Inr (s\<lparr>rqs := q\<rparr>)" by (cases n) auto
  then show ?case using Nil by (intro exI [of _ q]) (simp add: stored_by_def)
next
  case (Cons x ps)
  have i: "i \<le> SERVER_WC_BATCH" "n \<noteq> 0" using Cons.prems(3) by (auto simp: min_def split: if_splits)
  obtain m where n: "n = Suc m" using i(2) by (cases n) auto
  have "length ps = min m (Suc SERVER_WC_BATCH - Suc i)"
    using Cons.prems(3) unfolding n Suc_diff_le [OF i(1)] by (simp del: SERVER_WC_BATCH_def)
  then have m: "n = Suc m" "\<not> SERVER_WC_BATCH < i" "length ps = min m (Suc SERVER_WC_BATCH - Suc i)"
    using n i(1) by simp_all
  let ?b = "busy q (set_key F x)"
  let ?rest = "ps @ (xs @ (if ?b then [x] else []))"
  have inv: "req_inv (host N) (\<lambda>_. 0) q (x # ps @ xs)" and sw: "sets_waiting q F (x # ps @ xs)"
    using Cons.prems(1,2) by simp_all
  obtain q1 q2 where q2: "pop_pending_request q = Inr (Some x, q1)"
    "retry_request N gb (s\<lparr>rqs := q1\<rparr>) (Some x) = Inr (s\<lparr>rqs := q2\<rparr>)"
    "req_inv (host N) (\<lambda>_. 0) q2 (if ?b then (ps @ xs) @ [x] else ps @ xs)"
    "sets_waiting q2 F (if ?b then (ps @ xs) @ [x] else ps @ xs)"
    "db_abs (q_db q2) = (if ?b then db_abs (q_db q) else (db_abs (q_db q))(set_key F x \<mapsto> set_val F x))"
    "\<And>k. busy q2 k = busy q k"
    by (rule retry_first [OF inv W sw, where gb = gb and s = s]) blast
  have rest: "(if ?b then (ps @ xs) @ [x] else ps @ xs) = ?rest" by simp
  obtain q' where q': "retry_loop m (Suc i) N gb (s\<lparr>rqs := q2\<rparr>) = Inr (s\<lparr>rqs := q'\<rparr>)"
    "req_inv (host N) (\<lambda>_. 0) q' ((xs @ (if ?b then [x] else [])) @ filter (\<lambda>x. busy q (set_key F x)) ps)"
    "sets_waiting q' F ((xs @ (if ?b then [x] else [])) @ filter (\<lambda>x. busy q (set_key F x)) ps)"
    "db_abs (q_db q') = stored_by F (filter (\<lambda>x. \<not> busy q (set_key F x)) ps) (db_abs (q_db q2))"
    "\<forall>k. busy q' k = busy q k"
    using Cons.IH [OF q2(3,4) [unfolded rest] m(3)] unfolding q2(6) by blast
  have "retry_loop n i N gb (s\<lparr>rqs := q\<rparr>) = Inr (s\<lparr>rqs := q'\<rparr>)"
    using m(1,2) q2(1,2) q'(1) by simp
  moreover have "(xs @ (if ?b then [x] else [])) @ filter (\<lambda>x. busy q (set_key F x)) ps =
      xs @ filter (\<lambda>x. busy q (set_key F x)) (x # ps)" by simp
  moreover have "db_abs (q_db q') = stored_by F (filter (\<lambda>x. \<not> busy q (set_key F x)) (x # ps)) (db_abs (q_db q))"
    using q'(4) q2(5) by (simp add: stored_by_def)
  ultimately show ?case using q'(2,3,5) by (intro exI [of _ q']) simp
qed

text \<open>
  C27: a look at a queue of SETs whose values came with them takes the requests in the order in
  which they wait, at most \<open>SERVER_WC_BATCH + 1\<close> of them. Those whose key is free are stored, in this
  order; those that still meet a lock go to the end of the queue, behind the requests that were not
  looked at, and keep their order among each other, so that later requests overtake them. Nothing
  is sent, and the locks stay as they are.
\<close>

theorem pending_requests_order:
  assumes "server_inv N s xs" and "plentiful (host N)" and "\<not> recheck N (verbs s)" and "sets_waiting (rqs s) F xs"
  shows "\<exists>q' ps ys. xs = ps @ ys \<and> length ps = min (length xs) (Suc SERVER_WC_BATCH) \<and>
    handle_pending_request N gb s = Inr ((tick s)\<lparr>rqs := q'\<rparr>) \<and>
    server_inv N ((tick s)\<lparr>rqs := q'\<rparr>) (ys @ filter (\<lambda>x. busy (rqs s) (set_key F x)) ps) \<and>
    pending_req_count q' = Inr (length ys + length (filter (\<lambda>x. busy (rqs s) (set_key F x)) ps)) \<and>
    sets_waiting q' F (ys @ filter (\<lambda>x. busy (rqs s) (set_key F x)) ps) \<and>
    db_abs (q_db q') = stored_by F (filter (\<lambda>x. \<not> busy (rqs s) (set_key F x)) ps) (db_abs (q_db (rqs s))) \<and>
    (\<forall>k. busy q' k = busy (rqs s) k)"
proof -
  let ?m = "min (length xs) (Suc SERVER_WC_BATCH)"
  let ?ps = "take ?m xs" and ?ys = "drop ?m xs"
  have rinv: "req_inv (host N) (\<lambda>_. 0) (rqs s) xs" and wf: "ctx_wf (sctx s)" "conns_ok s"
    using assms(1) by (simp_all add: server_inv_def)
  have split: "?ps @ ?ys = xs" "length ?ps = min (length xs) (Suc SERVER_WC_BATCH - 0)" by simp_all
  have pre: "req_inv (host N) (\<lambda>_. 0) (rqs s) (?ps @ ?ys)" "sets_waiting (rqs s) F (?ps @ ?ys)"
    unfolding split(1) using rinv assms(4) by simp_all
  obtain q' where q': "retry_loop (length xs) 0 N gb ((tick s)\<lparr>rqs := rqs s\<rparr>) = Inr ((tick s)\<lparr>rqs := q'\<rparr>)"
    "req_inv (host N) (\<lambda>_. 0) q' (?ys @ filter (\<lambda>x. busy (rqs s) (set_key F x)) ?ps)"
    "sets_waiting q' F (?ys @ filter (\<lambda>x. busy (rqs s) (set_key F x)) ?ps)"
    "db_abs (q_db q') = stored_by F (filter (\<lambda>x. \<not> busy (rqs s) (set_key F x)) ?ps) (db_abs (q_db (rqs s)))"
    "\<forall>k. busy q' k = busy (rqs s) k"
    using retry_sets [OF pre(1) assms(2) pre(2) split(2), of gb "tick s"] by blast
  have same: "(tick s)\<lparr>rqs := rqs s\<rparr> = tick s" by (simp add: tick_def)
  have "handle_pending_request N gb s = Inr ((tick s)\<lparr>rqs := q'\<rparr>)"
    using count_ok [OF rinv] assms(3) q'(1) [unfolded same] by (simp add: handle_pending_request_def Let_def)
  moreover have "server_inv N ((tick s)\<lparr>rqs := q'\<rparr>) (?ys @ filter (\<lambda>x. busy (rqs s) (set_key F x)) ?ps)"
    using q'(2) wf conns_ok_cong [of "(tick s)\<lparr>rqs := q'\<rparr>" s] by (simp add: server_inv_def)
  moreover have "pending_req_count q' = Inr (length ?ys + length (filter (\<lambda>x. busy (rqs s) (set_key F x)) ?ps))"
    using count_ok [OF q'(2)] by simp
  ultimately show ?thesis
    using q'(3-5) split by (intro exI [of _ q'] exI [of _ ?ps] exI [of _ ?ys]) simp
qed

section \<open>An example\<close>

lemma busyI: "p \<in> set (internal_db (q_db q)) \<Longrightarrow> db_key (q_db q) p = Some k \<Longrightarrow> 0 < fins q p \<Longrightarrow> busy q k"
  by (auto simp: busy_def)

lemma posted_transfer:
  assumes q: "req_inv linux_world (\<lambda>_. 0) q []" and p: "p \<in> set (internal_db (q_db q))"
    and w: "map_option e_lock (db_heap (dmem (q_db q)) p) = Some Writer"
  shows "fins q p = 1"
proof -
  obtain e where e: "db_heap (dmem (q_db q)) p = Some e" "e_lock e = Writer" using w by auto
  have locks: "req_locks linux_world (\<lambda>_. 0) q" using q by (simp add: req_inv_def)
  have "entry_ok e" using entry_ok_live [OF req_inv_db [OF q] p] e(1) by simp
  then have "lock_ok (e_lock e) (e_readers e) (e_writers e)" by (auto simp: entry_ok_def split: option.splits)
  then have "Db.holds e = 1" using e(2) by (simp add: Db.holds_def)
  then show ?thesis using locks p e(1) by (simp add: req_locks_def Db.holds_def)
qed

lemma only_waiting:
  assumes inv: "req_inv W (\<lambda>_. 0) q xs" and w: "w \<in> set (waiting_fin_q q)" and one: "fins q p = 1"
    and only: "\<forall>a \<in> set (internal_db (q_db q)). a = p"
  shows "waiting_fin_q q = [w]"
proof -
  have "\<forall>y \<in> set (map (r_target q) (waiting_fin_q q)). y = Some p"
    using inv only by (fastforce simp: req_inv_def req_locks_def)
  then have "map (r_target q) (waiting_fin_q q) = replicate (length (waiting_fin_q q)) (Some p)"
    by (simp add: map_replicate_const [symmetric])
  moreover have "count_list (replicate n a) a = n" for n and a :: "ptr option" by (induction n) auto
  ultimately have "length (waiting_fin_q q) = 1" using one by (simp add: fins_def)
  then show ?thesis using w by (auto simp: length_Suc_conv)
qed

lemma only_entry:
  assumes inv: "db_inv W d" and abs: "db_abs d = [k \<mapsto> v]" and p: "p \<in> set (internal_db d)" "db_key d p = Some k"
  shows "\<forall>a \<in> set (internal_db d). a = p"
proof
  fix a
  assume a: "a \<in> set (internal_db d)"
  obtain e where e: "db_heap (dmem d) a = Some e" "entry_ok e" using entry_ok_live [OF inv a] by blast
  obtain k' where k: "entry_key e = Some k'" using entry_ok_key [OF e(2)] by blast
  then have "db_abs d k' = Some (entry_val e)" by (rule db_abs_Some [OF inv a e(1)])
  then have "k' = k" using abs by (auto split: if_splits)
  then show "a = p" using k e(1) ht.ok_inj [of "db_key d" "internal_db d" a p] inv a p
    by (simp add: db_inv_def db_key_def)
qed

text \<open>Two waiting SETs, one on a key with a transfer and one on a new key.\<close>

lemma two_waiting:
  obtains q x y where "server_inv linux_nic (one_client q) [x, y]" "x \<noteq> y"
    "set_queued q x 17 ''bla'' ''1'' qp9" "set_queued q y 25 ''key'' ''2'' qp9" "busy q ''bla''" "\<not> busy q ''key''"
    "\<forall>w \<in> set (waiting_fin_q q). req_key q w = Some 9" "db_abs (q_db q) = [''bla'' \<mapsto> []]" "db_page_size (q_db q) = 4096"
proof (rule linux_transfer)
  fix q w p
  assume q: "req_inv linux_world (\<lambda>_. 0) q []" "w \<in> set (waiting_fin_q q)" "req_key q w = Some 9" "r_target q w = Some p"
    "p \<in> set (internal_db (q_db q))" "db_key (q_db q) p = Some ''bla''"
    "\<And>t. \<forall>p \<in> set (internal_q q). req_key q p \<noteq> Some (uint (t :: 16 word))"
    "map_option e_lock (db_heap (dmem (q_db q)) p) = Some Writer"
    "db_abs (q_db q) = [''bla'' \<mapsto> []]" "db_page_size (q_db q) = 4096"
  have only: "\<forall>a \<in> set (internal_db (q_db q)). a = p" by (rule only_entry [OF req_inv_db [OF q(1)] q(9,5,6)])
  have ws: "waiting_fin_q q = [w]" by (rule only_waiting [OF q(1,2) posted_transfer [OF q(1,5,8)] only])
  have fits: "CLIENT_HEADER_LEN + length ''bla'' + length ''1'' + 2 \<le> CLIENT_REQUEST_PAYLOAD_LEN"
    "CLIENT_HEADER_LEN + length ''key'' + length ''2'' + 2 \<le> CLIENT_REQUEST_PAYLOAD_LEN" by simp_all
  have room: "CLIENT_HEADER_LEN \<le> length (zeros 24)" by simp
  obtain q1 x where x: "req_inv linux_world (\<lambda>_. 0) q1 ([] @ [x])" "set_queued q1 x 17 ''bla'' ''1'' qp9"
    "\<forall>a \<in> set (internal_q q) \<union> set (waiting_fin_q q). req_heap (q_mem q1) a = req_heap (q_mem q) a"
    "waiting_fin_q q1 = waiting_fin_q q" "q_db q1 = q_db q" "internal_q q1 = internal_q q @ [x]"
    by (rule push_set_ok [OF q(1) plentiful_linux q(7) fits(1) room])
  have xk: "req_key q1 x = Some 17" using x(2) by (auto simp: set_queued_def req_key_def)
  have new: "\<forall>p \<in> set (internal_q q1). req_key q1 p \<noteq> Some (uint (25 :: 16 word))"
    using q(7) [of 25] x(3,6) xk by (auto simp: req_key_def)
  obtain q2 y where y: "req_inv linux_world (\<lambda>_. 0) q2 (([] @ [x]) @ [y])" "set_queued q2 y 25 ''key'' ''2'' qp9"
    "\<forall>a \<in> set (internal_q q1) \<union> set (waiting_fin_q q1). req_heap (q_mem q2) a = req_heap (q_mem q1) a"
    "waiting_fin_q q2 = waiting_fin_q q1" "q_db q2 = q_db q1" "internal_q q2 = internal_q q1 @ [y]"
    by (rule push_set_ok [OF x(1) plentiful_linux new fits(2) room])
  have x2: "set_queued q2 x 17 ''bla'' ''1'' qp9" using x(2,6) y(3) by (simp add: set_queued_def)
  have ne: "y \<noteq> x" using x2 y(2) by (auto simp: set_queued_def)
  have same: "q_db q2 = q_db q" "waiting_fin_q q2 = [w]" "req_heap (q_mem q2) w = req_heap (q_mem q) w"
    using x(3-5) y(3-5) ws by simp_all
  have "fins q2 p = fins q p" using same ws by (simp add: fins_def r_target_def)
  then have "0 < fins q2 p" using posted_transfer [OF q(1,5,8)] by simp
  then have b: "busy q2 ''bla''" using q(5,6) same(1) by (intro busyI) simp_all
  have nb: "\<not> busy q2 ''key''" using only q(6) same(1) by (auto simp: busy_def)
  have "server_inv linux_nic (one_client q2) [x, y]" using server_inv_one [OF y(1)] by simp
  moreover have "\<forall>w \<in> set (waiting_fin_q q2). req_key q2 w = Some 9" using q(3) same(2,3) by (simp add: req_key_def)
  ultimately show ?thesis using that [of q2 x y] ne x2 y(2) b nb q(9,10) same(1) by auto
qed

theorem pending_requests_order_witness:
  "\<exists>q q' x y. server_inv linux_nic (one_client q) [x, y] \<and>
     set_queued q x 17 ''bla'' ''1'' qp9 \<and> set_queued q y 25 ''key'' ''2'' qp9 \<and>
     handle_pending_request linux_nic (\<lambda>s. Inl (Exit 7)) (one_client q) = Inr ((tick (one_client q))\<lparr>rqs := q'\<rparr>) \<and>
     server_inv linux_nic ((tick (one_client q))\<lparr>rqs := q'\<rparr>) [x] \<and> db_abs (q_db q') = [''bla'' \<mapsto> [], ''key'' \<mapsto> ''2'']"
proof (rule two_waiting)
  fix q x y
  assume q: "server_inv linux_nic (one_client q) [x, y]" "x \<noteq> y" "set_queued q x 17 ''bla'' ''1'' qp9"
    "set_queued q y 25 ''key'' ''2'' qp9" "busy q ''bla''" "\<not> busy q ''key''"
    "\<forall>w \<in> set (waiting_fin_q q). req_key q w = Some 9" "db_abs (q_db q) = [''bla'' \<mapsto> []]" "db_page_size (q_db q) = 4096"
  let ?F = "\<lambda>z. if z = x then (17, ''bla'', ''1'', qp9) else (25, ''key'', ''2'', qp9)"
  have F: "set_tid ?F x = 17" "set_key ?F x = ''bla''" "set_val ?F x = ''1''" "set_tid ?F y = 25" "set_key ?F y = ''key''"
    "set_val ?F y = ''2''" "snd (snd (snd (?F x))) = qp9" "snd (snd (snd (?F y))) = qp9"
    using q(2) by (simp_all add: set_tid_def set_key_def set_val_def)
  let ?s = "one_client q"
  have sw: "sets_waiting (rqs ?s) ?F [x, y]"
    unfolding sets_waiting_def
  proof (intro ballI)
    fix z
    assume "z \<in> set [x, y]"
    then consider "z = x" | "z = y" by auto
    then show "set_queued (rqs ?s) z (set_tid ?F z) (set_key ?F z) (set_val ?F z) (snd (snd (snd (?F z)))) \<and>
        storable (db_page_size (q_db (rqs ?s))) (set_key ?F z) (set_val ?F z) \<and>
        length (set_key ?F z) + length (set_val ?F z) + 2 \<le> CLIENT_REQUEST_PAYLOAD_LEN \<and>
        (\<forall>w \<in> set (waiting_fin_q (rqs ?s)). req_key (rqs ?s) w \<noteq> Some (uint (set_tid ?F z)))"
      by cases (simp_all only: F, use q(3,4,7,9) in \<open>simp_all add: storable_def\<close>)
  qed
  have nr: "\<not> recheck linux_nic (verbs ?s)" and pl: "plentiful (host linux_nic)" by simp_all
  have rq: "rqs ?s = q" by simp
  have fb: "filter (\<lambda>z. busy q (set_key ?F z)) [x, y] = [x]" "filter (\<lambda>z. \<not> busy q (set_key ?F z)) [x, y] = [y]"
    using q(5,6) by (simp_all only: filter.simps F if_True if_False simp_thms)
  obtain q' ps ys where r: "[x, y] = ps @ ys" "length ps = min (length [x, y]) (Suc SERVER_WC_BATCH)"
    "handle_pending_request linux_nic (\<lambda>s. Inl (Exit 7)) ?s = Inr ((tick ?s)\<lparr>rqs := q'\<rparr>)"
    "server_inv linux_nic ((tick ?s)\<lparr>rqs := q'\<rparr>) (ys @ filter (\<lambda>z. busy q (set_key ?F z)) ps)"
    "db_abs (q_db q') = stored_by ?F (filter (\<lambda>z. \<not> busy q (set_key ?F z)) ps) (db_abs (q_db q))"
    using pending_requests_order [OF q(1) pl nr sw, of "\<lambda>s. Inl (Exit 7)"] unfolding rq by blast
  have "length ps = 2" using r(2) by simp
  then have psys: "ps = [x, y]" "ys = []" using r(1) by (auto simp: length_Suc_conv eval_nat_numeral)
  have "server_inv linux_nic ((tick ?s)\<lparr>rqs := q'\<rparr>) [x]" using r(4) unfolding psys fb by simp
  moreover have "db_abs (q_db q') = [''bla'' \<mapsto> [], ''key'' \<mapsto> ''2'']"
    using r(5) unfolding psys fb q(8) stored_by_def by (simp only: fold.simps F o_apply id_apply)
  ultimately show ?thesis using q(1,3,4) r(3) by blast
qed

section \<open>From the message to the value\<close>

text \<open>
  C4: a SET whose key and value, with their NULs and the header of 24 bytes, fit in the 4072 bytes
  that a waiting request keeps, and that meets the lock of a transfer, is carried out later. Its
  message is put into the queue, with the table as it was; the FIN of the transfer frees the entry;
  and the next look at the queue stores the value, leaves the queue empty and the entry free, and
  sends nothing meanwhile. The two messages may come from the same client or from two. A longer
  SET whose value still comes with its message loses the value (\<open>waiting_set_loses_value\<close>).
\<close>

theorem waiting_set_served:
  assumes "server_inv N s []" and "plentiful (host N)" and "\<forall>m. \<not> recheck N m"
    and "linked s n j qp" and "102 < c_curr (conns s ! j)" and "linked s n' j' qp'" and "102 < c_curr (conns s ! j')"
    and "i < SERVER_NUM_RECV_BUFFS" and "i' < SERVER_NUM_RECV_BUFFS"
    and "p \<in> set (internal_db (q_db (rqs s)))" and "db_key (q_db (rqs s)) p = Some k" and "fins (rqs s) p = 1"
    and "w \<in> set (waiting_fin_q (rqs s))" and "req_key (rqs s) w = Some (uint t)" and "r_target (rqs s) w = Some p"
    and "storable (db_page_size (q_db (rqs s))) k v"
    and "CLIENT_HEADER_LEN + length k + length v + 2 \<le> CLIENT_REQUEST_PAYLOAD_LEN"
    and "t' \<noteq> t" and "\<forall>p \<in> set (internal_q (rqs s)). req_key (rqs s) p \<noteq> Some (uint t')"
  shows "\<exists>s1 s2 s3. server_wait_completions (Suc f) N (delivered i' n' (set_message t' k v) s) = Inr s1 \<and>
     db_abs (q_db (rqs s1)) = db_abs (q_db (rqs s)) \<and> pending_req_count (rqs s1) = Inr 1 \<and>
     server_wait_completions (Suc f) N (delivered i n (fin_message t k) s1) = Inr s2 \<and>
     handle_pending_request N gb s2 = Inr s3 \<and> server_inv N s3 [] \<and> sent s3 = sent s \<and>
     db_abs (q_db (rqs s3)) = (db_abs (q_db (rqs s)))(k \<mapsto> v) \<and> \<not> busy (rqs s3) k \<and> pending_req_count (rqs s3) = Inr 0"
proof -
  have k: "NUL \<notin> set k" using assms(16) by (simp add: storable_def)
  have fit: "length k + length v + 2 \<le> CLIENT_REQUEST_PAYLOAD_LEN" "length k + 1 \<le> CLIENT_REQUEST_PAYLOAD_LEN"
    using assms(17) by simp_all
  have c': "101 < c_curr (conns s ! j')" using assms(7) by simp
  have b: "busy (rqs s) k" by (rule busyI [OF assms(10,11)]) (simp add: assms(12))
  obtain s1 x where s1: "server_wait_completions (Suc f) N (delivered i' n' (set_message t' k v) s) = Inr s1"
    "server_inv N s1 ([] @ [x])" "set_queued (rqs s1) x t' k v qp'"
    "waiting_fin_q (rqs s1) = waiting_fin_q (rqs s)" "q_db (rqs s1) = q_db (rqs s)"
    "\<forall>w \<in> set (waiting_fin_q (rqs s)). req_heap (q_mem (rqs s1)) w = req_heap (q_mem (rqs s)) w"
    "sent s1 = sent s" "verbs s1 = verbs s" "\<And>n a qp. linked s n a qp \<Longrightarrow> linked s1 n a qp"
    "\<And>a. c_curr (conns s ! a) - 1 \<le> c_curr (conns s1 ! a)"
    by (rule server_defers [OF assms(1,2,6) c' assms(9) k assms(17) b assms(19), where f = f]) blast
  have inv1: "server_inv N s1 [x]" using s1(2) by simp
  have c: "101 < c_curr (conns s1 ! j)" using s1(10) [of j] assms(5) by simp
  have fins: "fins (rqs s1) p = 1" using assms(12) s1(4,6) by (simp add: fins_def r_target_def cong: map_cong)
  have p1: "p \<in> set (internal_db (q_db (rqs s1)))" "db_key (q_db (rqs s1)) p = Some k" using assms(10,11) s1(5) by simp_all
  have w1: "w \<in> set (waiting_fin_q (rqs s1))" "req_key (rqs s1) w = Some (uint t)" "r_target (rqs s1) w = Some p"
    using assms(13-15) s1(4,6) by (simp_all add: req_key_def r_target_def)
  obtain s2 where s2: "server_wait_completions (Suc f) N (delivered i n (fin_message t k) s1) = Inr s2"
    "server_inv N s2 (without (rqs s1) t [x])" "db_abs (q_db (rqs s2)) = db_abs (q_db (rqs s1))" "\<not> busy (rqs s2) k"
    "sent s2 = sent s1" "\<forall>a \<in> set (without (rqs s1) t [x]). req_heap (q_mem (rqs s2)) a = req_heap (q_mem (rqs s1)) a"
    "db_page_size (q_db (rqs s2)) = db_page_size (q_db (rqs s1))" "verbs s2 = verbs s1"
    by (rule server_finishes [OF inv1 s1(9) [OF assms(4)] c assms(8) k fit(2) p1 fins w1])
  have wo: "without (rqs s1) t [x] = [x]"
    using s1(3) assms(18) by (auto simp: without_def set_queued_def req_key_def word_uint_eq_iff)
  have inv2: "server_inv N s2 [x]" and x2: "set_queued (rqs s2) x t' k v qp'"
    using s2(2,6) s1(3) unfolding wo by (simp_all add: set_queued_def)
  have kv2: "storable (db_page_size (q_db (rqs s2))) k v" and nr: "\<not> recheck N (verbs s2)"
    using assms(3,16) s2(7) s1(5) by simp_all
  obtain s3 where s3: "handle_pending_request N gb s2 = Inr s3" "server_inv N s3 []"
    "db_abs (q_db (rqs s3)) = (db_abs (q_db (rqs s2)))(k \<mapsto> v)" "\<not> busy (rqs s3) k" "sent s3 = sent s2"
    "pending_req_count (rqs s3) = Inr 0"
    by (rule pending_set_stored [OF inv2 assms(2) x2 kv2 fit(1) s2(4) nr])
  have "pending_req_count (rqs s1) = Inr 1" using count_ok [of "host N" "\<lambda>_. 0" "rqs s1" "[x]"] inv1 by (simp add: server_inv_def)
  then show ?thesis using s1(1,5,7) s2(1,3,5) s3 by (intro exI [of _ s1] exI [of _ s2] exI [of _ s3]) simp
qed

theorem waiting_set_served_witness:
  "\<exists>q s1 s2 s3. pending_req_count (rqs s1) = Inr 1 \<and> db_abs (q_db (rqs s1)) ''bla'' = Some [] \<and>
     server_wait_completions (Suc 0) linux_nic (delivered 1 9 (set_message 17 ''bla'' ''value'') (posted_client q)) = Inr s1 \<and>
     server_wait_completions (Suc 0) linux_nic (delivered 0 9 (fin_message 9 ''bla'') s1) = Inr s2 \<and>
     handle_pending_request linux_nic (\<lambda>s. Inl (Exit 7)) s2 = Inr s3 \<and> sent s3 = [] \<and>
     db_abs (q_db (rqs s3)) ''bla'' = Some ''value'' \<and> \<not> busy (rqs s3) ''bla'' \<and> pending_req_count (rqs s3) = Inr 0"
proof (rule linux_transfer)
  fix q w p
  assume q: "req_inv linux_world (\<lambda>_. 0) q []" "w \<in> set (waiting_fin_q q)" "req_key q w = Some 9" "r_target q w = Some p"
    "p \<in> set (internal_db (q_db q))" "db_key (q_db q) p = Some ''bla''"
    "\<And>t. \<forall>p \<in> set (internal_q q). req_key q p \<noteq> Some (uint (t :: 16 word))"
    "map_option e_lock (db_heap (dmem (q_db q)) p) = Some Writer"
    "db_abs (q_db q) = [''bla'' \<mapsto> []]" "db_page_size (q_db q) = 4096"
  let ?s = "posted_client q"
  have rq: "rqs ?s = q" "sent ?s = []" by (simp_all add: posted_client_def)
  have inv: "server_inv linux_nic ?s []" by (rule posted_client_inv [OF q(1)])
  have nr: "\<forall>m. \<not> recheck linux_nic m" and pl: "plentiful (host linux_nic)" by simp_all
  have tr: "p \<in> set (internal_db (q_db (rqs ?s)))" "db_key (q_db (rqs ?s)) p = Some ''bla''" "fins (rqs ?s) p = 1"
    "w \<in> set (waiting_fin_q (rqs ?s))" "req_key (rqs ?s) w = Some (uint (9 :: 16 word))" "r_target (rqs ?s) w = Some p"
    using posted_transfer [OF q(1,5,8)] q(2-6) by (simp_all add: rq)
  have c: "102 < c_curr (conns ?s ! 0)" by (simp add: posted_client_linked)
  have i: "0 < SERVER_NUM_RECV_BUFFS" "1 < SERVER_NUM_RECV_BUFFS" by simp_all
  have st: "storable (db_page_size (q_db (rqs ?s))) ''bla'' ''value''" by (simp add: storable_def rq q(10))
  have fit: "CLIENT_HEADER_LEN + length ''bla'' + length ''value'' + 2 \<le> CLIENT_REQUEST_PAYLOAD_LEN" by simp
  have new: "(17 :: 16 word) \<noteq> 9" "\<forall>p \<in> set (internal_q (rqs ?s)). req_key (rqs ?s) p \<noteq> Some (uint (17 :: 16 word))"
    using q(7) [of 17] by (simp_all add: rq)
  from waiting_set_served [OF inv pl nr posted_client_linked(1) c posted_client_linked(1) c i tr st fit new, of 0 "\<lambda>s. Inl (Exit 7)"]
  obtain s1 s2 s3 where r: "server_wait_completions (Suc 0) linux_nic (delivered 1 9 (set_message 17 ''bla'' ''value'') ?s) = Inr s1"
    "db_abs (q_db (rqs s1)) = db_abs (q_db (rqs ?s))" "pending_req_count (rqs s1) = Inr 1"
    "server_wait_completions (Suc 0) linux_nic (delivered 0 9 (fin_message 9 ''bla'') s1) = Inr s2"
    "handle_pending_request linux_nic (\<lambda>s. Inl (Exit 7)) s2 = Inr s3" "sent s3 = sent ?s"
    "db_abs (q_db (rqs s3)) = (db_abs (q_db (rqs ?s)))(''bla'' \<mapsto> ''value'')" "\<not> busy (rqs s3) ''bla''"
    "pending_req_count (rqs s3) = Inr 0" by blast
  have "db_abs (q_db (rqs s1)) ''bla'' = Some []" using r(2) q(9) rq(1) by simp
  moreover have "db_abs (q_db (rqs s3)) ''bla'' = Some ''value''" using r(7) by simp
  ultimately show ?thesis using r rq(2) by (intro exI [of _ q] exI [of _ s1] exI [of _ s2] exI [of _ s3]) simp
qed

end
