(* ===== verification/Uthash_Buckets.thy ===== *)
theory Uthash_Buckets
  imports Uthash Utlist
begin

text \<open>
  The hash tables of \<open>external_libs/uthash.h\<close> as they are built: the hash function \<open>HASH_JEN\<close>,
  the array of buckets with its doubling, and the two lists that run through the nodes, one in
  application order and one in each bucket, on the level of their pointers. Where they form the
  table of a list of nodes (\<open>ut_repr\<close> in \<open>Uthash_Table\<close>), the macros do what \<open>Uthash\<close> says they do. The
  length of a key goes with its bytes; an allocation that fails ends the process with status -1,
  as \<open>uthash_fatal\<close> does. The memory of old buckets and of an empty table, which is freed, the Bloom
  filter, the signature and the offset of the handle in its structure have no part in the model.
\<close>

unbundle bit_operations_syntax

section \<open>The hash function\<close>

definition HASH_JEN_MIX :: "32 word \<Rightarrow> 32 word \<Rightarrow> 32 word \<Rightarrow> 32 word \<times> 32 word \<times> 32 word" where
  "HASH_JEN_MIX a b c =
     (let a = (a - b - c) XOR drop_bit 13 c;
          b = (b - c - a) XOR push_bit 8 a;
          c = (c - a - b) XOR drop_bit 13 b;
          a = (a - b - c) XOR drop_bit 12 c;
          b = (b - c - a) XOR push_bit 16 a;
          c = (c - a - b) XOR drop_bit 5 b;
          a = (a - b - c) XOR drop_bit 3 c;
          b = (b - c - a) XOR push_bit 10 a;
          c = (c - a - b) XOR drop_bit 15 b
      in (a, b, c))"

text \<open>Byte \<open>n\<close> of the key, shifted into its place of a 32-bit number.\<close>

definition key_byte :: "byte list \<Rightarrow> nat \<Rightarrow> nat \<Rightarrow> 32 word" where
  "key_byte key n s = push_bit s (of_char (key ! n))"

definition key_word :: "byte list \<Rightarrow> nat \<Rightarrow> 32 word" where
  "key_word key n = key_byte key n 0 + key_byte key (n + 1) 8 + key_byte key (n + 2) 16 + key_byte key (n + 3) 24"

fun jen_loop ::
  "byte list \<Rightarrow> 32 word \<Rightarrow> 32 word \<Rightarrow> 32 word \<Rightarrow> byte list \<times> 32 word \<times> 32 word \<times> 32 word" where
  "jen_loop key i j hashv =
     (if 12 \<le> length key then
        let (i', j', hashv') = HASH_JEN_MIX (i + key_word key 0) (j + key_word key 4) (hashv + key_word key 8)
        in jen_loop (drop 12 key) i' j' hashv'
      else (key, i, j, hashv))"

declare jen_loop.simps [simp del]

text \<open>The \<open>switch\<close> on the bytes that are left, from case \<open>n\<close> downwards.\<close>

definition from_case :: "byte list \<Rightarrow> nat \<Rightarrow> nat \<Rightarrow> 32 word \<Rightarrow> 32 word" where
  "from_case key n s w = (if n \<le> length key then w + key_byte key (n - 1) s else w)"

definition HASH_JEN :: "byte list \<Rightarrow> 32 word" where
  "HASH_JEN key =
     (let (rest, i, j, hashv) = jen_loop key 0x9e3779b9 0x9e3779b9 0xfeedbeef;
          hashv = hashv + of_nat (length key);
          hashv = from_case rest 9 8 (from_case rest 10 16 (from_case rest 11 24 hashv));
          j = from_case rest 5 0 (from_case rest 6 8 (from_case rest 7 16 (from_case rest 8 24 j)));
          i = from_case rest 1 0 (from_case rest 2 8 (from_case rest 3 16 (from_case rest 4 24 i)));
          (_, _, hashv) = HASH_JEN_MIX i j hashv
      in hashv)"

definition HASH_TO_BKT :: "32 word \<Rightarrow> 32 word \<Rightarrow> 32 word" where
  "HASH_TO_BKT hashv num_bkts = hashv AND (num_bkts - 1)"

section \<open>The data\<close>

text \<open>
  \<open>hash_handles\<close> are the fields of the \<open>UT_hash_handle\<close> of each node; a node is live when its key
  can be read, as in \<open>Uthash\<close>. \<open>uthash\<close> is a table from its head on; \<open>allocs\<close> counts the calls
  of \<open>malloc\<close>, whose success is the argument \<open>mal\<close>.
\<close>

record hash_handles =
  app_prev :: "ptr \<Rightarrow> ptr option"
  app_next :: "ptr \<Rightarrow> ptr option"
  hh_prev :: "ptr \<Rightarrow> ptr option"
  hh_next :: "ptr \<Rightarrow> ptr option"
  hh_keylen :: "ptr \<Rightarrow> 32 word"
  hh_hashv :: "ptr \<Rightarrow> 32 word"

record hash_bucket =
  hh_head :: "ptr option"
  bkt_count :: "32 word"
  expand_mult :: "32 word"

record hash_table =
  bkts :: "hash_bucket list"
  num_buckets :: "32 word"
  log2_num_buckets :: "32 word"
  num_items :: "32 word"
  tail_hh :: ptr
  ideal_chain_maxlen :: "32 word"
  nonideal_items :: "32 word"
  ineff_expands :: "32 word"
  noexpand :: "32 word"

record uthash =
  handles :: hash_handles
  ut_head :: "ptr option"
  ut_tbl :: "hash_table option"
  allocs :: nat

definition empty_bucket :: hash_bucket where
  "empty_bucket = \<lparr>hh_head = None, bkt_count = 0, expand_mult = 0\<rparr>"

definition HASH_INITIAL_NUM_BUCKETS_LOG2 :: nat where
  [simp]: "HASH_INITIAL_NUM_BUCKETS_LOG2 = 5"

definition HASH_BKT_CAPACITY_THRESH :: "32 word" where
  "HASH_BKT_CAPACITY_THRESH = 10"

definition bucket_at :: "hash_bucket list \<Rightarrow> 32 word \<Rightarrow> stop + hash_bucket" where
  "bucket_at bs b = (if unat b < length bs then Inr (bs ! unat b) else Inl (UB Out_of_bounds))"

section \<open>Lookup\<close>

text \<open>The chain of a bucket, with its number of nodes and one more as fuel.\<close>

fun HASH_FIND_IN_BKT ::
  "nat \<Rightarrow> (ptr \<Rightarrow> byte list option) \<Rightarrow> hash_handles \<Rightarrow> ptr option \<Rightarrow> byte list \<Rightarrow> 32 word \<Rightarrow> stop + ptr option" where
  "HASH_FIND_IN_BKT n kf m None key hashval = Inr None"
| "HASH_FIND_IN_BKT 0 kf m (Some p) key hashval = Inl (UB Endless)"
| "HASH_FIND_IN_BKT (Suc n) kf m (Some p) key hashval =
     (case kf p of
        None \<Rightarrow> Inl (UB Dangling)
      | Some k \<Rightarrow>
          if hh_hashv m p = hashval \<and> hh_keylen m p = of_nat (length key) \<and> take (length key) k = key
          then Inr (Some p)
          else HASH_FIND_IN_BKT n kf m (hh_next m p) key hashval)"

definition HASH_FIND_BYHASHVALUE ::
  "(ptr \<Rightarrow> byte list option) \<Rightarrow> uthash \<Rightarrow> byte list \<Rightarrow> 32 word \<Rightarrow> stop + ptr option" where
  "HASH_FIND_BYHASHVALUE kf s key hashval =
     (if ut_head s = None then Inr None
      else
        bnd (not_null (ut_tbl s)) (\<lambda>t.
        bnd (bucket_at (bkts t) (HASH_TO_BKT hashval (num_buckets t))) (\<lambda>b.
        HASH_FIND_IN_BKT (Suc (unat (bkt_count b))) kf (handles s) (hh_head b) key hashval)))"

definition ut_find :: "(ptr \<Rightarrow> byte list option) \<Rightarrow> uthash \<Rightarrow> byte list \<Rightarrow> stop + ptr option" where
  "ut_find kf s key =
     (if ut_head s = None then Inr None else HASH_FIND_BYHASHVALUE kf s key (HASH_JEN key))"

section \<open>Growing\<close>

text \<open>A node becomes the first of a chain.\<close>

definition link_front :: "(ptr \<Rightarrow> bool) \<Rightarrow> hash_handles \<Rightarrow> ptr \<Rightarrow> ptr option \<Rightarrow> stop + hash_handles" where
  "link_front live m p h =
     bnd (deref live (Some p)) (\<lambda>_.
     let m1 = m\<lparr>hh_next := (hh_next m)(p := h), hh_prev := (hh_prev m)(p := None)\<rparr>
     in case h of
          None \<Rightarrow> Inr m1
        | Some _ \<Rightarrow> bnd (deref live h) (\<lambda>q. Inr (m1\<lparr>hh_prev := (hh_prev m1)(q := Some p)\<rparr>)))"

type_synonym rehash = "hash_handles \<times> hash_bucket list \<times> 32 word"

text \<open>One node goes to its new bucket; \<open>n\<close> is the new number of buckets.\<close>

definition rehash_node :: "(ptr \<Rightarrow> bool) \<Rightarrow> 32 word \<Rightarrow> 32 word \<Rightarrow> ptr \<Rightarrow> rehash \<Rightarrow> stop + rehash" where
  "rehash_node live n ideal p x =
     (case x of (m, new, nonideal) \<Rightarrow>
        let i = HASH_TO_BKT (hh_hashv m p) n
        in bnd (bucket_at new i) (\<lambda>b.
           let count = bkt_count b + 1; over = ideal < count;
               mult = (if over \<and> expand_mult b * ideal < count then expand_mult b + 1 else expand_mult b)
           in bnd (link_front live m p (hh_head b)) (\<lambda>m1.
              Inr (m1, new[unat i := \<lparr>hh_head = Some p, bkt_count = count, expand_mult = mult\<rparr>],
                   if over then nonideal + 1 else nonideal))))"

fun rehash_chain :: "nat \<Rightarrow> (ptr \<Rightarrow> bool) \<Rightarrow> 32 word \<Rightarrow> 32 word \<Rightarrow> ptr option \<Rightarrow> rehash \<Rightarrow> stop + rehash" where
  "rehash_chain k live n ideal None x = Inr x"
| "rehash_chain 0 live n ideal (Some p) x = Inl (UB Endless)"
| "rehash_chain (Suc k) live n ideal (Some p) x =
     bnd (deref live (Some p)) (\<lambda>_.
     let nxt = hh_next (fst x) p
     in bnd (rehash_node live n ideal p x) (rehash_chain k live n ideal nxt))"

fun rehash_all :: "(ptr \<Rightarrow> bool) \<Rightarrow> 32 word \<Rightarrow> 32 word \<Rightarrow> hash_bucket list \<Rightarrow> rehash \<Rightarrow> stop + rehash" where
  "rehash_all live n ideal [] x = Inr x"
| "rehash_all live n ideal (b # bs) x =
     bnd (rehash_chain (Suc (unat (bkt_count b))) live n ideal (hh_head b) x) (rehash_all live n ideal bs)"

definition HASH_EXPAND_BUCKETS ::
  "(nat \<Rightarrow> bool) \<Rightarrow> (ptr \<Rightarrow> bool) \<Rightarrow> hash_handles \<Rightarrow> hash_table \<Rightarrow> nat \<Rightarrow> stop + hash_handles \<times> hash_table \<times> nat" where
  "HASH_EXPAND_BUCKETS mal live m t a =
     (if \<not> mal a then Inl (Exit (- 1))
      else if length (bkts t) < unat (num_buckets t) then Inl (UB Out_of_bounds)
      else
        let n = num_buckets t * 2;
            ideal = drop_bit (unat (log2_num_buckets t + 1)) (num_items t) + (if num_items t AND (n - 1) \<noteq> 0 then 1 else 0)
        in bnd (rehash_all live n ideal (take (unat (num_buckets t)) (bkts t))
                  (m, replicate (unat (num_buckets t) * 2) empty_bucket, 0)) (\<lambda>(m1, new, nonideal).
           let ineff = (if drop_bit 1 (num_items t) < nonideal then ineff_expands t + 1 else 0)
           in Inr (m1, t\<lparr>bkts := new, num_buckets := n, log2_num_buckets := log2_num_buckets t + 1,
                         ideal_chain_maxlen := ideal, nonideal_items := nonideal, ineff_expands := ineff,
                         noexpand := (if 1 < ineff then 1 else noexpand t)\<rparr>, Suc a)))"

section \<open>Adding\<close>

definition HASH_ADD_TO_BKT ::
  "(nat \<Rightarrow> bool) \<Rightarrow> (ptr \<Rightarrow> bool) \<Rightarrow> hash_handles \<Rightarrow> hash_table \<Rightarrow> nat \<Rightarrow> 32 word \<Rightarrow> ptr \<Rightarrow>
     stop + hash_handles \<times> hash_table \<times> nat" where
  "HASH_ADD_TO_BKT mal live m t a i add =
     bnd (bucket_at (bkts t) i) (\<lambda>b.
     let b1 = b\<lparr>bkt_count := bkt_count b + 1\<rparr>
     in bnd (link_front live m add (hh_head b1)) (\<lambda>m1.
        let t1 = t\<lparr>bkts := (bkts t)[unat i := b1\<lparr>hh_head := Some add\<rparr>]\<rparr>
        in if (expand_mult b1 + 1) * HASH_BKT_CAPACITY_THRESH \<le> bkt_count b1 \<and> noexpand t1 = 0
           then HASH_EXPAND_BUCKETS mal live m1 t1 a else Inr (m1, t1, a)))"

definition HASH_ADD_TO_TABLE ::
  "(nat \<Rightarrow> bool) \<Rightarrow> (ptr \<Rightarrow> bool) \<Rightarrow> 32 word \<Rightarrow> ptr \<Rightarrow> uthash \<Rightarrow> stop + uthash" where
  "HASH_ADD_TO_TABLE mal live hashval add s =
     bnd (not_null (ut_tbl s)) (\<lambda>t.
     let t1 = t\<lparr>num_items := num_items t + 1\<rparr>
     in bnd (HASH_ADD_TO_BKT mal live (handles s) t1 (allocs s) (HASH_TO_BKT hashval (num_buckets t1)) add) (\<lambda>(m, t2, a).
        Inr (s\<lparr>handles := m, ut_tbl := Some t2, allocs := a\<rparr>)))"

definition HASH_MAKE_TABLE :: "(nat \<Rightarrow> bool) \<Rightarrow> ptr \<Rightarrow> uthash \<Rightarrow> stop + uthash" where
  "HASH_MAKE_TABLE mal add s =
     (if \<not> mal (allocs s) \<or> \<not> mal (Suc (allocs s)) then Inl (Exit (- 1))
      else Inr (s\<lparr>ut_tbl := Some \<lparr>bkts = replicate (2 ^ HASH_INITIAL_NUM_BUCKETS_LOG2) empty_bucket,
              num_buckets = 2 ^ HASH_INITIAL_NUM_BUCKETS_LOG2, log2_num_buckets = of_nat HASH_INITIAL_NUM_BUCKETS_LOG2,
              num_items = 0, tail_hh = add, ideal_chain_maxlen = 0, nonideal_items = 0, ineff_expands = 0, noexpand = 0\<rparr>,
            allocs := allocs s + 2\<rparr>))"

definition HASH_APPEND_LIST :: "(ptr \<Rightarrow> bool) \<Rightarrow> ptr \<Rightarrow> uthash \<Rightarrow> stop + uthash" where
  "HASH_APPEND_LIST live add s =
     bnd (not_null (ut_tbl s)) (\<lambda>t.
     bnd (deref live (Some (tail_hh t))) (\<lambda>e.
     let m = handles s;
         m1 = m\<lparr>app_next := (app_next m)(add := None), app_prev := (app_prev m)(add := Some e)\<rparr>
     in Inr (s\<lparr>handles := m1\<lparr>app_next := (app_next m1)(e := Some add)\<rparr>, ut_tbl := Some (t\<lparr>tail_hh := add\<rparr>)\<rparr>)))"

definition HASH_ADD_KEYPTR_BYHASHVALUE ::
  "(nat \<Rightarrow> bool) \<Rightarrow> (ptr \<Rightarrow> bool) \<Rightarrow> nat \<Rightarrow> 32 word \<Rightarrow> ptr \<Rightarrow> uthash \<Rightarrow> stop + uthash" where
  "HASH_ADD_KEYPTR_BYHASHVALUE mal live keylen hashval add s =
     bnd (deref live (Some add)) (\<lambda>_.
     let m = handles s;
         m1 = m\<lparr>hh_hashv := (hh_hashv m)(add := hashval), hh_keylen := (hh_keylen m)(add := of_nat keylen)\<rparr>;
         s1 = s\<lparr>handles := m1\<rparr>
     in bnd (if ut_head s1 = None then
               bnd (HASH_MAKE_TABLE mal add
                 (s1\<lparr>handles := m1\<lparr>app_next := (app_next m1)(add := None), app_prev := (app_prev m1)(add := None)\<rparr>\<rparr>)) (\<lambda>s2.
               Inr (s2\<lparr>ut_head := Some add\<rparr>))
             else HASH_APPEND_LIST live add s1)
          (HASH_ADD_TO_TABLE mal live hashval add))"

definition ut_add :: "(nat \<Rightarrow> bool) \<Rightarrow> (ptr \<Rightarrow> byte list option) \<Rightarrow> uthash \<Rightarrow> ptr \<Rightarrow> stop + uthash" where
  "ut_add mal kf s add =
     (case kf add of
        None \<Rightarrow> Inl (UB Dangling)
      | Some key \<Rightarrow> HASH_ADD_KEYPTR_BYHASHVALUE mal (\<lambda>p. kf p \<noteq> None) (length key) (HASH_JEN key) add s)"

section \<open>Deleting\<close>

definition HASH_DEL_IN_BKT ::
  "(ptr \<Rightarrow> bool) \<Rightarrow> hash_handles \<Rightarrow> hash_bucket \<Rightarrow> ptr \<Rightarrow> stop + hash_handles \<times> hash_bucket" where
  "HASH_DEL_IN_BKT live m b del =
     (let b1 = b\<lparr>bkt_count := bkt_count b - 1\<rparr>;
          b2 = (if hh_head b1 = Some del then b1\<lparr>hh_head := hh_next m del\<rparr> else b1)
      in bnd (case hh_prev m del of
                None \<Rightarrow> Inr m
              | Some _ \<Rightarrow> bnd (deref live (hh_prev m del)) (\<lambda>q. Inr (m\<lparr>hh_next := (hh_next m)(q := hh_next m del)\<rparr>))) (\<lambda>m1.
         bnd (case hh_next m1 del of
                None \<Rightarrow> Inr m1
              | Some _ \<Rightarrow> bnd (deref live (hh_next m1 del)) (\<lambda>q. Inr (m1\<lparr>hh_prev := (hh_prev m1)(q := hh_prev m1 del)\<rparr>))) (\<lambda>m2.
         Inr (m2, b2))))"

definition HASH_DELETE_HH :: "(ptr \<Rightarrow> bool) \<Rightarrow> ptr \<Rightarrow> uthash \<Rightarrow> stop + uthash" where
  "HASH_DELETE_HH live del s =
     bnd (deref live (Some del)) (\<lambda>_.
     let m = handles s
     in if app_prev m del = None \<and> app_next m del = None then Inr (s\<lparr>ut_head := None, ut_tbl := None\<rparr>)
        else
          bnd (not_null (ut_tbl s)) (\<lambda>t.
          bnd (if del = tail_hh t then bnd (not_null (app_prev m del)) (\<lambda>q. Inr (t\<lparr>tail_hh := q\<rparr>)) else Inr t) (\<lambda>t1.
          bnd (case app_prev m del of
                 None \<Rightarrow> Inr (m, app_next m del)
               | Some _ \<Rightarrow> bnd (deref live (app_prev m del)) (\<lambda>q.
                   Inr (m\<lparr>app_next := (app_next m)(q := app_next m del)\<rparr>, ut_head s))) (\<lambda>(m1, h).
          bnd (case app_next m1 del of
                 None \<Rightarrow> Inr m1
               | Some _ \<Rightarrow> bnd (deref live (app_next m1 del)) (\<lambda>q.
                   Inr (m1\<lparr>app_prev := (app_prev m1)(q := app_prev m1 del)\<rparr>))) (\<lambda>m2.
          let i = HASH_TO_BKT (hh_hashv m2 del) (num_buckets t1)
          in bnd (bucket_at (bkts t1) i) (\<lambda>b.
             bnd (HASH_DEL_IN_BKT live m2 b del) (\<lambda>(m3, b1).
             Inr (s\<lparr>handles := m3, ut_head := h,
                    ut_tbl := Some (t1\<lparr>bkts := (bkts t1)[unat i := b1], num_items := num_items t1 - 1\<rparr>)\<rparr>))))))))"

definition ut_del :: "(ptr \<Rightarrow> byte list option) \<Rightarrow> uthash \<Rightarrow> ptr \<Rightarrow> stop + uthash" where
  "ut_del kf s del = HASH_DELETE_HH (\<lambda>p. kf p \<noteq> None) del s"

definition HASH_CNT :: "uthash \<Rightarrow> stop + 32 word" where
  "HASH_CNT s = (if ut_head s = None then Inr 0 else bnd (not_null (ut_tbl s)) (\<lambda>t. Inr (num_items t)))"

end
