(* ===== verification/Uthash_Refines.thy ===== *)
theory Uthash_Refines
  imports Uthash_Buckets
begin

text \<open>
  That the buckets of \<open>Uthash_Buckets\<close> implement the tables of \<open>Uthash\<close>: the representation of a
  list of nodes by pointers and buckets, and its preservation by adding, growing and deleting.
\<close>

section \<open>Doubly linked chains\<close>

text \<open>
  \<open>dseg nx pv a h ps b e\<close>: from \<open>h\<close> the links run through \<open>ps\<close> to \<open>e\<close>; \<open>a\<close> comes before the first
  node, and \<open>b\<close> is the last node, or \<open>a\<close> when there is none.
\<close>

fun dseg :: "(ptr \<Rightarrow> ptr option) \<Rightarrow> (ptr \<Rightarrow> ptr option) \<Rightarrow> ptr option \<Rightarrow> ptr option \<Rightarrow> ptr list \<Rightarrow> ptr option \<Rightarrow> ptr option \<Rightarrow> bool" where
  "dseg nx pv a h [] b e \<longleftrightarrow> a = b \<and> h = e"
| "dseg nx pv a h (p # ps) b e \<longleftrightarrow> h = Some p \<and> pv p = a \<and> dseg nx pv (Some p) (nx p) ps b e"

lemma dseg_append:
  "dseg nx pv a h (ps @ qs) b e \<longleftrightarrow> (\<exists>c f. dseg nx pv a h ps c f \<and> dseg nx pv c f qs b e)"
  by (induction ps arbitrary: a h) auto

lemma dseg_cong:
  "\<forall>p \<in> set ps. nx' p = nx p \<and> pv' p = pv p \<Longrightarrow> dseg nx' pv' a h ps b e = dseg nx pv a h ps b e"
  by (induction ps arbitrary: a h) auto

lemma dseg_head: "dseg nx pv a h ps b e \<Longrightarrow> h = (case ps of [] \<Rightarrow> e | p # _ \<Rightarrow> Some p)"
  by (cases ps) auto

lemma dseg_last: "dseg nx pv a h ps b e \<Longrightarrow> ps \<noteq> [] \<Longrightarrow> b = Some (last ps)"
proof (induction ps arbitrary: a h)
  case (Cons p ps)
  then show ?case by (cases ps) auto
qed simp

lemma dseg_snoc:
  "dseg nx pv a h (ps @ [p]) b e \<longleftrightarrow> (\<exists>c. dseg nx pv a h ps c (Some p) \<and> pv p = c \<and> nx p = e \<and> b = Some p)"
  by (auto simp: dseg_append)

text \<open>The links at both ends can be redirected.\<close>

lemma dseg_new_start:
  assumes "dseg nx pv a h (p # ps) b e" and "distinct (p # ps)"
  shows "dseg nx (pv(p := a')) a' h (p # ps) b e"
proof -
  have "dseg nx (pv(p := a')) (Some p) (nx p) ps b e = dseg nx pv (Some p) (nx p) ps b e"
    by (rule dseg_cong) (use assms(2) in auto)
  then show ?thesis using assms(1) by simp
qed

lemma dseg_new_end:
  assumes "dseg nx pv a h (ps @ [p]) b e" and "distinct (ps @ [p])"
  shows "dseg (nx(p := e')) pv a h (ps @ [p]) b e'"
proof -
  have "dseg (nx(p := e')) pv a h ps c f = dseg nx pv a h ps c f" for c f
    by (rule dseg_cong) (use assms(2) in auto)
  then show ?thesis using assms(1) by (simp add: dseg_snoc)
qed

lemma dseg_push:
  assumes "dseg nx pv None h ps b None" and "p \<notin> set ps" and "distinct ps"
  shows "\<exists>b. dseg (nx(p := h)) (case h of None \<Rightarrow> pv(p := None) | Some q \<Rightarrow> pv(p := None, q := Some p)) None (Some p) (p # ps) b None"
proof (cases ps)
  case Nil
  then show ?thesis using assms(1) by simp
next
  case (Cons q qs)
  then have h: "h = Some q" using assms(1) by simp
  have "dseg nx (pv(q := Some p)) (Some p) h ps b None"
    using dseg_new_start [of nx pv None h q qs b None "Some p"] assms Cons by simp
  moreover have "dseg (nx(p := h)) (pv(p := None, q := Some p)) (Some p) h ps b None = dseg nx (pv(q := Some p)) (Some p) h ps b None"
    by (rule dseg_cong) (use assms(2) in auto)
  ultimately show ?thesis using h assms(2) Cons by auto
qed

lemma dseg_extend:
  assumes "dseg nx pv a h (ps @ [q]) b None" and "p \<notin> set (ps @ [q])" and "distinct (ps @ [q])"
  shows "dseg (nx(p := None, q := Some p)) (pv(p := Some q)) a h ((ps @ [q]) @ [p]) (Some p) None"
proof -
  have "dseg (nx(q := Some p)) pv a h (ps @ [q]) b (Some p)" by (rule dseg_new_end [OF assms(1,3)])
  moreover have b: "b = Some q" using dseg_last [OF assms(1)] by simp
  moreover have "dseg (nx(p := None, q := Some p)) (pv(p := Some q)) a h (ps @ [q]) c f = dseg (nx(q := Some p)) pv a h (ps @ [q]) c f" for c f
    by (rule dseg_cong) (use assms(2) in auto)
  ultimately show ?thesis using assms(2) by (subst dseg_append) auto
qed

text \<open>A node is taken out: its neighbours are linked to each other.\<close>

lemma dseg_remove:
  assumes "dseg nx pv None h (ps @ p # qs) b None" and "distinct (ps @ p # qs)"
  shows "dseg (case pv p of None \<Rightarrow> nx | Some q \<Rightarrow> nx(q := nx p)) (case nx p of None \<Rightarrow> pv | Some q \<Rightarrow> pv(q := pv p))
      None (if pv p = None then nx p else h) (ps @ qs) (if qs = [] then pv p else b) None"
proof -
  obtain c where c: "dseg nx pv None h ps c (Some p)" "pv p = c" "dseg nx pv (Some p) (nx p) qs b None"
    using assms(1) by (auto simp: dseg_append)
  let ?nx = "case pv p of None \<Rightarrow> nx | Some q \<Rightarrow> nx(q := nx p)" and ?pv = "case nx p of None \<Rightarrow> pv | Some q \<Rightarrow> pv(q := pv p)"
  have left: "dseg ?nx ?pv None (if pv p = None then nx p else h) ps c (nx p)"
  proof (cases ps rule: rev_cases)
    case Nil
    then show ?thesis using c by auto
  next
    case (snoc as q)
    have q: "c = Some q" using dseg_last [OF c(1)] snoc by simp
    have "dseg (nx(q := nx p)) pv None h ps c (nx p)"
      unfolding snoc by (rule dseg_new_end) (use c(1) assms(2) snoc in auto)
    moreover have "dseg ?nx ?pv None h ps c (nx p) = dseg (nx(q := nx p)) pv None h ps c (nx p)"
      by (rule dseg_cong) (use c(2,3) q assms(2) dseg_head [OF c(3)] in \<open>auto split: option.splits list.splits\<close>)
    ultimately show ?thesis using c(2) q by simp
  qed
  have right: "dseg ?nx ?pv c (nx p) qs (if qs = [] then c else b) None"
  proof (cases qs)
    case Nil
    then show ?thesis using c(3) by simp
  next
    case (Cons q as)
    have q: "nx p = Some q" using c(3) Cons by simp
    have "dseg nx (pv(q := c)) c (nx p) qs b None"
      unfolding Cons by (rule dseg_new_start) (use c(3) assms(2) Cons in auto)
    moreover have "dseg ?nx ?pv c (nx p) qs b None = dseg nx (pv(q := c)) c (nx p) qs b None"
    proof (rule dseg_cong, intro ballI)
      fix x assume x: "x \<in> set qs"
      have "pv p = Some y \<Longrightarrow> y \<noteq> x" for y
        using c(1,2) dseg_last [OF c(1)] last_in_set [of ps] x assms(2) by (cases "ps = []") auto
      then show "?nx x = nx x \<and> ?pv x = (pv(q := c)) x" using q c(2) by (auto split: option.splits)
    qed
    ultimately show ?thesis using Cons by (simp only: list.simps if_False)
  qed
  show ?thesis unfolding dseg_append using left right unfolding c(2) by blast
qed

section \<open>Buckets\<close>

lemma unat_bkt:
  assumes "n = 2 ^ l" and "l \<le> 31"
  shows "unat (n :: 32 word) = 2 ^ l" "unat (HASH_TO_BKT w n) = unat w mod 2 ^ l"
proof -
  have "(2 :: nat) ^ l < 2 ^ 32" using assms(2) by (intro power_strict_increasing) simp_all
  then show "unat n = 2 ^ l" using unat_of_nat32 [of "2 ^ l"] by (simp add: assms(1))
  have "n - 1 = mask l" unfolding assms(1) by (simp add: mask_eq_decr_exp)
  then have "HASH_TO_BKT w n = take_bit l w" by (simp add: HASH_TO_BKT_def take_bit_eq_mask)
  then show "unat (HASH_TO_BKT w n) = unat w mod 2 ^ l" by (simp only: unsigned_take_bit_eq take_bit_eq_mod [where 'a = nat])
qed

definition bucket_ok :: "hash_handles \<Rightarrow> hash_bucket \<Rightarrow> ptr list \<Rightarrow> bool" where
  "bucket_ok m b ps \<longleftrightarrow>
     (\<exists>z. dseg (hh_next m) (hh_prev m) None (hh_head b) ps z None) \<and> unat (bkt_count b) = length ps \<and> distinct ps"

definition buckets_ok :: "hash_handles \<Rightarrow> hash_bucket list \<Rightarrow> 32 word \<Rightarrow> ptr list list \<Rightarrow> bool" where
  "buckets_ok m bs n cs \<longleftrightarrow>
     length cs = length bs \<and>
     (\<forall>i < length bs. bucket_ok m (bs ! i) (cs ! i) \<and> (\<forall>p \<in> set (cs ! i). unat (HASH_TO_BKT (hh_hashv m p) n) = i))"

abbreviation members :: "ptr list list \<Rightarrow> ptr set" where
  "members cs \<equiv> set (concat cs)"

lemma members_nth: "i < length cs \<Longrightarrow> p \<in> set (cs ! i) \<Longrightarrow> p \<in> members cs"
  by auto

lemma length_bucket_le: "i < length cs \<Longrightarrow> length (cs ! i) \<le> length (concat cs)"
  by (induction cs arbitrary: i) (auto simp: nth_Cons less_Suc_eq_0_disj split: nat.splits intro: le_add1 order_trans [OF _ le_add2])

lemma members_update:
  "i < length cs \<Longrightarrow> members (cs[i := p # cs ! i]) = insert p (members cs)"
  "i < length cs \<Longrightarrow> length (concat (cs[i := p # cs ! i])) = Suc (length (concat cs))"
  by (induction cs arbitrary: i) (auto simp: less_Suc_eq_0_disj split: nat.splits)

text \<open>Links that no node of a chain has changed keep it.\<close>

lemma bucket_ok_cong:
  assumes "\<forall>p \<in> set ps. hh_next m' p = hh_next m p \<and> hh_prev m' p = hh_prev m p"
  shows "bucket_ok m' b ps = bucket_ok m b ps"
  using dseg_cong [OF assms] by (simp add: bucket_ok_def)

definition same_but_links :: "hash_handles \<Rightarrow> hash_handles \<Rightarrow> bool" where
  "same_but_links m m' \<longleftrightarrow>
     app_next m' = app_next m \<and> app_prev m' = app_prev m \<and> hh_hashv m' = hh_hashv m \<and> hh_keylen m' = hh_keylen m"

lemma same_but_links_refl [simp]: "same_but_links m m"
  by (simp add: same_but_links_def)

lemma same_but_links_trans: "same_but_links a b \<Longrightarrow> same_but_links b c \<Longrightarrow> same_but_links a c"
  by (simp add: same_but_links_def)

lemma link_front_ok:
  assumes b: "bucket_ok m b ps" and p: "p \<notin> set ps" "live p" and l: "\<forall>q \<in> set ps. live q" and n: "Suc (length ps) < 2 ^ 32"
  obtains m' where "link_front live m p (hh_head b) = Inr m'" "same_but_links m m'"
    "\<And>mult. bucket_ok m' \<lparr>hh_head = Some p, bkt_count = bkt_count b + 1, expand_mult = mult\<rparr> (p # ps)"
    "\<And>q. q \<notin> insert p (set ps) \<Longrightarrow> hh_next m' q = hh_next m q \<and> hh_prev m' q = hh_prev m q"
proof -
  obtain z where z: "dseg (hh_next m) (hh_prev m) None (hh_head b) ps z None" using b by (auto simp: bucket_ok_def)
  have d: "distinct ps" and c: "unat (bkt_count b) = length ps" using b by (simp_all add: bucket_ok_def)
  let ?m = "m\<lparr>hh_next := (hh_next m)(p := hh_head b),
      hh_prev := (case hh_head b of None \<Rightarrow> (hh_prev m)(p := None) | Some q \<Rightarrow> (hh_prev m)(p := None, q := Some p))\<rparr>"
  have hd: "hh_head b = (case ps of [] \<Rightarrow> None | q # _ \<Rightarrow> Some q)" by (rule dseg_head [OF z])
  have "link_front live m p (hh_head b) = Inr ?m"
    using p(2) l hd by (cases ps) (simp_all add: link_front_def deref_def Let_def)
  moreover have "unat (bkt_count b + 1) = Suc (length ps)" using c n by (simp add: unat_word_ariths)
  then have "bucket_ok ?m \<lparr>hh_head = Some p, bkt_count = bkt_count b + 1, expand_mult = mult\<rparr> (p # ps)" for mult
    using dseg_push [OF z p(1) d] d p(1) by (cases "hh_head b") (simp_all add: bucket_ok_def)
  moreover have "hh_next ?m q = hh_next m q \<and> hh_prev ?m q = hh_prev m q" if "q \<notin> insert p (set ps)" for q
    using that hd by (cases ps) auto
  ultimately show ?thesis using that [of ?m] by (simp add: same_but_links_def)
qed

lemma buckets_push:
  assumes B: "buckets_ok m bs n cs" and i: "i < length bs" "unat (HASH_TO_BKT (hh_hashv m p) n) = i"
    and p: "p \<notin> members cs" "live p" and l: "\<forall>q \<in> members cs. live q" and N: "Suc (length (concat cs)) < 2 ^ 32"
  obtains m' where "link_front live m p (hh_head (bs ! i)) = Inr m'" "same_but_links m m'"
    "\<And>mult. buckets_ok m' (bs[i := \<lparr>hh_head = Some p, bkt_count = bkt_count (bs ! i) + 1, expand_mult = mult\<rparr>]) n (cs[i := p # cs ! i])"
    "\<And>q. q \<notin> insert p (members cs) \<Longrightarrow> hh_next m' q = hh_next m q \<and> hh_prev m' q = hh_prev m q"
proof -
  have len: "length cs = length bs" using B by (simp add: buckets_ok_def)
  have bi: "bucket_ok m (bs ! i) (cs ! i)" using B i(1) by (simp add: buckets_ok_def)
  have pi: "p \<notin> set (cs ! i)" "\<forall>q \<in> set (cs ! i). live q" using p(1) l i(1) len by auto
  have n: "Suc (length (cs ! i)) < 2 ^ 32" using length_bucket_le [of i cs] N i(1) len by simp
  obtain m' where m': "link_front live m p (hh_head (bs ! i)) = Inr m'" "same_but_links m m'"
    "\<And>mult. bucket_ok m' \<lparr>hh_head = Some p, bkt_count = bkt_count (bs ! i) + 1, expand_mult = mult\<rparr> (p # cs ! i)"
    "\<And>q. q \<notin> insert p (set (cs ! i)) \<Longrightarrow> hh_next m' q = hh_next m q \<and> hh_prev m' q = hh_prev m q"
    by (rule link_front_ok [OF bi pi(1) p(2) pi(2) n]) blast
  have hv: "hh_hashv m' = hh_hashv m" using m'(2) by (simp add: same_but_links_def)
  have other: "bucket_ok m' (bs ! j) (cs ! j)" if j: "j < length bs" "j \<noteq> i" for j
  proof -
    have "set (cs ! j) \<inter> insert p (set (cs ! i)) = {}"
    proof -
      have "set (cs ! j) \<inter> set (cs ! i) = {}"
        using B i(1) j unfolding buckets_ok_def by (metis disjoint_iff)
      then show ?thesis using p(1) j len by auto
    qed
    then have "\<forall>q \<in> set (cs ! j). hh_next m' q = hh_next m q \<and> hh_prev m' q = hh_prev m q" using m'(4) by blast
    then have "bucket_ok m' (bs ! j) (cs ! j) = bucket_ok m (bs ! j) (cs ! j)" by (rule bucket_ok_cong)
    then show ?thesis using B j(1) by (simp add: buckets_ok_def)
  qed
  have "buckets_ok m' (bs[i := \<lparr>hh_head = Some p, bkt_count = bkt_count (bs ! i) + 1, expand_mult = mult\<rparr>]) n (cs[i := p # cs ! i])" for mult
    unfolding buckets_ok_def
  proof (intro conjI allI impI)
    fix j assume j: "j < length (bs[i := \<lparr>hh_head = Some p, bkt_count = bkt_count (bs ! i) + 1, expand_mult = mult\<rparr>])"
    show "bucket_ok m' (bs[i := \<lparr>hh_head = Some p, bkt_count = bkt_count (bs ! i) + 1, expand_mult = mult\<rparr>] ! j) (cs[i := p # cs ! i] ! j)"
      using m'(3) other j i(1) len by (cases "j = i") simp_all
    show "\<forall>q \<in> set (cs[i := p # cs ! i] ! j). unat (HASH_TO_BKT (hh_hashv m' q) n) = j"
      using B i j len hv by (cases "j = i") (auto simp: buckets_ok_def)
  qed (simp add: len)
  moreover have "hh_next m' q = hh_next m q \<and> hh_prev m' q = hh_prev m q" if "q \<notin> insert p (members cs)" for q
    using that m'(4) members_nth [of i cs q] i(1) len by auto
  ultimately show ?thesis using that m'(1,2) by blast
qed

section \<open>Growing\<close>

text \<open>What a part of the rehashing leaves behind when it has moved the nodes \<open>ps\<close>.\<close>

definition moved :: "hash_handles \<Rightarrow> hash_bucket list \<Rightarrow> ptr list list \<Rightarrow> ptr list \<Rightarrow> 32 word \<Rightarrow> hash_handles \<Rightarrow> hash_bucket list \<Rightarrow> bool" where
  "moved m bs cs ps n m' bs' \<longleftrightarrow>
     (\<exists>cs'. buckets_ok m' bs' n cs' \<and> members cs' = set ps \<union> members cs \<and>
        length (concat cs') = length ps + length (concat cs)) \<and>
     length bs' = length bs \<and> same_but_links m m' \<and>
     (\<forall>q. q \<notin> set ps \<union> members cs \<longrightarrow> hh_next m' q = hh_next m q \<and> hh_prev m' q = hh_prev m q)"

lemma moved_none: "buckets_ok m bs n cs \<Longrightarrow> moved m bs cs [] n m bs"
  by (auto simp: moved_def)

lemma moved_trans:
  assumes "moved m bs cs ps n m1 bs1" and "buckets_ok m1 bs1 n cs1" and "members cs1 = set ps \<union> members cs"
    and "length (concat cs1) = length ps + length (concat cs)" and "moved m1 bs1 cs1 qs n m' bs'"
  shows "moved m bs cs (ps @ qs) n m' bs'"
proof -
  obtain cs' where cs': "buckets_ok m' bs' n cs'" "members cs' = set qs \<union> members cs1"
    "length (concat cs') = length qs + length (concat cs1)" using assms(5) by (auto simp: moved_def)
  have "\<exists>cs'. buckets_ok m' bs' n cs' \<and> members cs' = set (ps @ qs) \<union> members cs \<and>
      length (concat cs') = length (ps @ qs) + length (concat cs)"
    using cs' assms(3,4) by (intro exI [of _ cs']) (simp add: Un_ac)
  moreover have "same_but_links m m'" using assms(1,5) same_but_links_trans by (auto simp: moved_def)
  ultimately show ?thesis using assms(1,3,5) unfolding moved_def by (metis UnCI UnE set_append)
qed

lemma rehash_node_ok:
  assumes B: "buckets_ok m bs n cs" and i: "unat (HASH_TO_BKT (hh_hashv m p) n) < length bs"
    and p: "p \<notin> members cs" "live p" and l: "\<forall>q \<in> members cs. live q" and N: "Suc (length (concat cs)) < 2 ^ 32"
  obtains m' bs' w' cs' where "rehash_node live n ideal p (m, bs, w) = Inr (m', bs', w')" "moved m bs cs [p] n m' bs'"
    "buckets_ok m' bs' n cs'" "members cs' = insert p (members cs)" "length (concat cs') = Suc (length (concat cs))"
proof -
  let ?i = "unat (HASH_TO_BKT (hh_hashv m p) n)"
  let ?b = "bs ! ?i"
  obtain m' where m': "link_front live m p (hh_head ?b) = Inr m'" "same_but_links m m'"
    "\<And>mult. buckets_ok m' (bs[?i := \<lparr>hh_head = Some p, bkt_count = bkt_count ?b + 1, expand_mult = mult\<rparr>]) n (cs[?i := p # cs ! ?i])"
    "\<And>q. q \<notin> insert p (members cs) \<Longrightarrow> hh_next m' q = hh_next m q \<and> hh_prev m' q = hh_prev m q"
    by (rule buckets_push [OF B i refl p l N]) blast
  let ?mult = "if ideal < bkt_count ?b + 1 \<and> expand_mult ?b * ideal < bkt_count ?b + 1 then expand_mult ?b + 1 else expand_mult ?b"
  let ?bs = "bs[?i := \<lparr>hh_head = Some p, bkt_count = bkt_count ?b + 1, expand_mult = ?mult\<rparr>]" and ?cs = "cs[?i := p # cs ! ?i]"
  have len: "?i < length cs" using B i by (simp add: buckets_ok_def)
  have run: "rehash_node live n ideal p (m, bs, w) = Inr (m', ?bs, if ideal < bkt_count ?b + 1 then w + 1 else w)"
    using i m'(1) by (simp add: rehash_node_def bucket_at_def Let_def)
  have "moved m bs cs [p] n m' ?bs"
    unfolding moved_def using m'(2,4) m'(3) [of ?mult] members_update [OF len, of p] by (auto intro!: exI [of _ ?cs])
  then show ?thesis using that [OF run] m'(3) [of ?mult] members_update [OF len, of p] by blast
qed

lemma rehash_chain_ok:
  assumes "dseg (hh_next m) pv a h ps z None" and "length ps < k" and "buckets_ok m bs n cs"
    and "set ps \<inter> members cs = {}" and "distinct ps" and "\<forall>q \<in> set ps \<union> members cs. live q"
    and "length ps + length (concat cs) < 2 ^ 32" and "\<forall>w. unat (HASH_TO_BKT w n) < length bs"
  shows "\<exists>m' bs' w'. rehash_chain k live n ideal h (m, bs, w) = Inr (m', bs', w') \<and> moved m bs cs ps n m' bs'"
  using assms
proof (induction ps arbitrary: a h k m bs cs w)
  case Nil
  then show ?case using moved_none by (cases k) auto
next
  case (Cons p ps)
  obtain k' where k: "k = Suc k'" "length ps < k'" using Cons.prems(2) by (cases k) auto
  have h: "h = Some p" "dseg (hh_next m) pv (Some p) (hh_next m p) ps z None" using Cons.prems(1) by simp_all
  have p: "p \<notin> members cs" "live p" "\<forall>q \<in> members cs. live q" "Suc (length (concat cs)) < 2 ^ 32"
    "unat (HASH_TO_BKT (hh_hashv m p) n) < length bs" using Cons.prems(4,6-8) by auto
  obtain m1 bs1 w1 cs1 where s: "rehash_node live n ideal p (m, bs, w) = Inr (m1, bs1, w1)" "moved m bs cs [p] n m1 bs1"
    "buckets_ok m1 bs1 n cs1" "members cs1 = insert p (members cs)" "length (concat cs1) = Suc (length (concat cs))"
    by (rule rehash_node_ok [OF Cons.prems(3) p(5,1-4)])
  have keep: "hh_next m1 q = hh_next m q" if "q \<in> set ps" for q
  proof -
    have "q \<notin> set [p] \<union> members cs" using that Cons.prems(4,5) by auto
    then show ?thesis using s(2) unfolding moved_def by blast
  qed
  have "dseg (hh_next m1) pv (Some p) (hh_next m p) ps z None = dseg (hh_next m) pv (Some p) (hh_next m p) ps z None"
    by (rule dseg_cong) (use keep in simp)
  then have d: "dseg (hh_next m1) pv (Some p) (hh_next m p) ps z None" using h(2) by simp
  have r: "set ps \<inter> members cs1 = {}" "distinct ps" "\<forall>q \<in> set ps \<union> members cs1. live q"
    "length ps + length (concat cs1) < 2 ^ 32" "\<forall>w. unat (HASH_TO_BKT w n) < length bs1"
    using Cons.prems(4-8) s(2,4,5) by (auto simp: moved_def)
  obtain m' bs' w' where u: "rehash_chain k' live n ideal (hh_next m p) (m1, bs1, w1) = Inr (m', bs', w')" "moved m1 bs1 cs1 ps n m' bs'"
    using Cons.IH [OF d k(2) s(3) r] by blast
  have "moved m bs cs ([p] @ ps) n m' bs'"
    by (rule moved_trans [OF s(2,3) _ _ u(2)]) (use s(4,5) in simp_all)
  then show ?case using h(1) s(1) u(1) p(2) k(1) by (simp add: deref_def Let_def)
qed

lemma rehash_all_ok:
  assumes "list_all2 (bucket_ok m) olds os" and "buckets_ok m bs n cs" and "members os \<inter> members cs = {}"
    and "distinct (concat os)" and "\<forall>q \<in> members os \<union> members cs. live q"
    and "length (concat os) + length (concat cs) < 2 ^ 32" and "\<forall>w. unat (HASH_TO_BKT w n) < length bs"
  shows "\<exists>m' bs' w'. rehash_all live n ideal olds (m, bs, w) = Inr (m', bs', w') \<and> moved m bs cs (concat os) n m' bs'"
  using assms
proof (induction olds arbitrary: os m bs cs w)
  case Nil
  then show ?case using moved_none by auto
next
  case (Cons b olds)
  obtain ps qs where os: "os = ps # qs" "bucket_ok m b ps" "list_all2 (bucket_ok m) olds qs"
    using Cons.prems(1) by (auto simp: list_all2_Cons1)
  obtain z where z: "dseg (hh_next m) (hh_prev m) None (hh_head b) ps z None" "length ps < Suc (unat (bkt_count b))"
    using os(2) by (auto simp: bucket_ok_def)
  have a: "set ps \<inter> members cs = {}" "distinct ps" "\<forall>q \<in> set ps \<union> members cs. live q" "length ps + length (concat cs) < 2 ^ 32"
    using Cons.prems(3-6) os(1) by auto
  obtain m1 bs1 w1 where s: "rehash_chain (Suc (unat (bkt_count b))) live n ideal (hh_head b) (m, bs, w) = Inr (m1, bs1, w1)"
    "moved m bs cs ps n m1 bs1"
    using rehash_chain_ok [OF z Cons.prems(2) a Cons.prems(7)] by blast
  obtain cs1 where cs1: "buckets_ok m1 bs1 n cs1" "members cs1 = set ps \<union> members cs" "length (concat cs1) = length ps + length (concat cs)"
    using s(2) by (auto simp: moved_def)
  have "bucket_ok m1 x y = bucket_ok m x y" if "y \<in> set qs" for x y
  proof (rule bucket_ok_cong)
    show "\<forall>p \<in> set y. hh_next m1 p = hh_next m p \<and> hh_prev m1 p = hh_prev m p"
      using s(2) that Cons.prems(3,4) os(1) unfolding moved_def by fastforce
  qed
  then have rest: "list_all2 (bucket_ok m1) olds qs" using os(3) by (auto simp: list_all2_conv_all_nth)
  have r: "members qs \<inter> members cs1 = {}" "distinct (concat qs)" "\<forall>q \<in> members qs \<union> members cs1. live q"
    "length (concat qs) + length (concat cs1) < 2 ^ 32" "\<forall>w. unat (HASH_TO_BKT w n) < length bs1"
    using Cons.prems(3-7) os(1) cs1(2,3) s(2) by (auto simp: moved_def)
  obtain m' bs' w' where u: "rehash_all live n ideal olds (m1, bs1, w1) = Inr (m', bs', w')" "moved m1 bs1 cs1 (concat qs) n m' bs'"
    using Cons.IH [OF rest cs1(1) r] by blast
  have "moved m bs cs (ps @ concat qs) n m' bs'" by (rule moved_trans [OF s(2) cs1 u(2)])
  then show ?case using s(1) u(1) os(1) by simp
qed

section \<open>The buckets of a table\<close>

definition tbl_ok :: "hash_handles \<Rightarrow> hash_table \<Rightarrow> ptr list \<Rightarrow> bool" where
  "tbl_ok m t ps \<longleftrightarrow>
     (\<exists>l cs. l \<le> 31 \<and> num_buckets t = 2 ^ l \<and> log2_num_buckets t = of_nat l \<and> length (bkts t) = 2 ^ l \<and>
        buckets_ok m (bkts t) (num_buckets t) cs \<and> members cs = set ps \<and> length (concat cs) = length ps)"

text \<open>A table has less than \<open>2 ^ 31\<close> buckets, so that their number can be doubled.\<close>

definition can_grow :: "hash_table \<Rightarrow> bool" where
  "can_grow t \<longleftrightarrow> unat (log2_num_buckets t) < 31"

lemma buckets_ok_empty: "buckets_ok m (replicate k empty_bucket) n (replicate k [])"
  by (auto simp: buckets_ok_def bucket_ok_def empty_bucket_def)

lemma buckets_ok_list_all2: "buckets_ok m bs n cs \<Longrightarrow> list_all2 (bucket_ok m) bs cs"
  by (simp add: buckets_ok_def list_all2_conv_all_nth)

lemma tbl_ok_distinct:
  assumes "members cs = set ps" and "length (concat cs) = length ps" and "distinct ps"
  shows "distinct (concat cs)"
  using assms by (metis card_distinct distinct_card)

lemma expand_ok:
  assumes T: "tbl_ok m t ps" and ps: "distinct ps" "length ps < 2 ^ 32" "\<forall>q \<in> set ps. live q" and g: "can_grow t" "mal a"
  obtains m' t' where "HASH_EXPAND_BUCKETS mal live m t a = Inr (m', t', Suc a)" "tbl_ok m' t' ps" "same_but_links m m'"
    "num_items t' = num_items t" "tail_hh t' = tail_hh t"
proof -
  obtain l cs where l: "l \<le> 31" "num_buckets t = 2 ^ l" "log2_num_buckets t = of_nat l" "length (bkts t) = 2 ^ l"
    "buckets_ok m (bkts t) (num_buckets t) cs" "members cs = set ps" "length (concat cs) = length ps"
    using T by (auto simp: tbl_ok_def)
  have "unat (of_nat l :: 32 word) = l" by (rule unat_of_nat32) (use l(1) in simp)
  then have l1: "Suc l \<le> 31" using g(1) l(3) by (simp add: can_grow_def)
  let ?n = "num_buckets t * 2" and ?k = "unat (num_buckets t) * 2"
  have n: "?n = 2 ^ Suc l" using l(2) by simp
  have un: "unat (num_buckets t) = 2 ^ l" by (rule unat_bkt(1) [OF l(2,1)])
  have k: "?k = 2 ^ Suc l" using un by simp
  have B: "buckets_ok m (replicate ?k empty_bucket) ?n (replicate ?k [])" by (rule buckets_ok_empty)
  have none: "concat (replicate ?k []) = ([] :: ptr list)" by simp
  have "unat (HASH_TO_BKT w ?n) < 2 ^ Suc l" for w unfolding unat_bkt(2) [OF n l1] by (rule mod_less_divisor) simp
  then have bnd': "\<forall>w. unat (HASH_TO_BKT w ?n) < length (replicate ?k empty_bucket)" by (simp only: length_replicate k) simp
  let ?ideal = "drop_bit (unat (log2_num_buckets t + 1)) (num_items t) + (if num_items t AND (?n - 1) \<noteq> 0 then 1 else 0)"
  have "\<exists>m' bs' w'. rehash_all live ?n ?ideal (bkts t) (m, replicate ?k empty_bucket, 0) = Inr (m', bs', w') \<and>
      moved m (replicate ?k empty_bucket) (replicate ?k []) (concat cs) ?n m' bs'"
    by (rule rehash_all_ok [OF buckets_ok_list_all2 [OF l(5)] B _ tbl_ok_distinct [OF l(6,7) ps(1)] _ _ bnd'])
      (use ps l(6,7) none in simp_all)
  then obtain m' bs' w' where r: "rehash_all live ?n ?ideal (bkts t) (m, replicate ?k empty_bucket, 0) = Inr (m', bs', w')"
    "moved m (replicate ?k empty_bucket) (replicate ?k []) (concat cs) ?n m' bs'" by blast
  obtain cs' where cs': "buckets_ok m' bs' ?n cs'" "members cs' = set ps" "length (concat cs') = length ps" "length bs' = 2 ^ Suc l"
    "same_but_links m m'" using r(2) l(6,7) none k unfolding moved_def by auto
  have full: "take (unat (num_buckets t)) (bkts t) = bkts t" "\<not> length (bkts t) < unat (num_buckets t)" using l(4) un by simp_all
  let ?ineff = "if drop_bit 1 (num_items t) < w' then ineff_expands t + 1 else 0"
  let ?t = "t\<lparr>bkts := bs', num_buckets := ?n, log2_num_buckets := log2_num_buckets t + 1, ideal_chain_maxlen := ?ideal,
      nonideal_items := w', ineff_expands := ?ineff, noexpand := (if 1 < ?ineff then 1 else noexpand t)\<rparr>"
  have "HASH_EXPAND_BUCKETS mal live m t a = Inr (m', ?t, Suc a)"
    unfolding HASH_EXPAND_BUCKETS_def Let_def full(1) r(1) using g(2) full(2) by simp
  moreover have "tbl_ok m' ?t ps"
    unfolding tbl_ok_def using l1 n l(3) cs' by (intro exI [of _ "Suc l"] exI [of _ cs']) simp
  ultimately show ?thesis using that cs'(5) by simp
qed

lemma add_to_bkt_ok:
  assumes T: "tbl_ok m t ps" and ps: "distinct ps" "Suc (length ps) < 2 ^ 32" "\<forall>q \<in> set ps. live q" and p: "p \<notin> set ps" "live p"
    and g: "can_grow t" "\<forall>a. mal a"
  obtains m' t' a' where "HASH_ADD_TO_BKT mal live m t a (HASH_TO_BKT (hh_hashv m p) (num_buckets t)) p = Inr (m', t', a')"
    "tbl_ok m' t' (ps @ [p])" "same_but_links m m'" "num_items t' = num_items t" "tail_hh t' = tail_hh t"
proof -
  obtain l cs where l: "l \<le> 31" "num_buckets t = 2 ^ l" "log2_num_buckets t = of_nat l" "length (bkts t) = 2 ^ l"
    "buckets_ok m (bkts t) (num_buckets t) cs" "members cs = set ps" "length (concat cs) = length ps"
    using T by (auto simp: tbl_ok_def)
  let ?i = "unat (HASH_TO_BKT (hh_hashv m p) (num_buckets t))"
  let ?b = "bkts t ! ?i"
  have i: "?i < length (bkts t)" using unat_bkt(2) [OF l(2,1)] l(4) by simp
  then have ic: "?i < length cs" using l(5) by (simp add: buckets_ok_def)
  have pm: "p \<notin> members cs" "\<forall>q \<in> members cs. live q" "Suc (length (concat cs)) < 2 ^ 32" using p ps l(6,7) by simp_all
  obtain m1 where m1: "link_front live m p (hh_head ?b) = Inr m1" "same_but_links m m1"
    "\<And>mult. buckets_ok m1 ((bkts t)[?i := \<lparr>hh_head = Some p, bkt_count = bkt_count ?b + 1, expand_mult = mult\<rparr>]) (num_buckets t) (cs[?i := p # cs ! ?i])"
    by (rule buckets_push [OF l(5) i refl pm(1) p(2) pm(2,3)]) blast
  let ?b1 = "?b\<lparr>bkt_count := bkt_count ?b + 1, hh_head := Some p\<rparr>"
  let ?t1 = "t\<lparr>bkts := (bkts t)[?i := ?b1]\<rparr>"
  have b1: "?b1 = \<lparr>hh_head = Some p, bkt_count = bkt_count ?b + 1, expand_mult = expand_mult ?b\<rparr>" by simp
  have T1: "tbl_ok m1 ?t1 (ps @ [p])"
    unfolding tbl_ok_def b1 using l(1-4,6,7) m1(3) [of "expand_mult ?b"] members_update [OF ic, of p]
    by (intro exI [of _ l] exI [of _ "cs[?i := p # cs ! ?i]"]) simp
  let ?grow = "(expand_mult ?b + 1) * HASH_BKT_CAPACITY_THRESH \<le> bkt_count ?b + 1 \<and> noexpand t = 0"
  have run: "HASH_ADD_TO_BKT mal live m t a (HASH_TO_BKT (hh_hashv m p) (num_buckets t)) p =
      (if ?grow then HASH_EXPAND_BUCKETS mal live m1 ?t1 a else Inr (m1, ?t1, a))"
    using i m1(1) by (simp add: HASH_ADD_TO_BKT_def bucket_at_def Let_def)
  have qs: "distinct (ps @ [p])" "length (ps @ [p]) < 2 ^ 32" "\<forall>q \<in> set (ps @ [p]). live q" "can_grow ?t1" "mal a"
    using ps p g by (simp_all add: can_grow_def)
  show ?thesis
  proof (cases ?grow)
    case True
    obtain m' t' where "HASH_EXPAND_BUCKETS mal live m1 ?t1 a = Inr (m', t', Suc a)" "tbl_ok m' t' (ps @ [p])" "same_but_links m1 m'"
      "num_items t' = num_items ?t1" "tail_hh t' = tail_hh ?t1"
      by (rule expand_ok [where mal = mal and live = live and a = a, OF T1 qs])
    note x = this
    have "num_items t' = num_items t" "tail_hh t' = tail_hh t" using x(4,5) by simp_all
    then show ?thesis by (rule that [OF trans [OF run [unfolded if_P [OF True]] x(1)] x(2) same_but_links_trans [OF m1(2) x(3)]])
  next
    case False
    have "num_items ?t1 = num_items t" "tail_hh ?t1 = tail_hh t" by simp_all
    then show ?thesis by (rule that [OF run [unfolded if_not_P [OF False]] T1 m1(2)])
  qed
qed

lemma del_in_bkt_ok:
  assumes T: "tbl_ok m t ps" and ps: "distinct ps" "length ps < 2 ^ 32" "\<forall>q \<in> set ps. live q" and p: "p \<in> set ps"
  obtains m' b where
    "unat (HASH_TO_BKT (hh_hashv m p) (num_buckets t)) < length (bkts t)"
    "HASH_DEL_IN_BKT live m (bkts t ! unat (HASH_TO_BKT (hh_hashv m p) (num_buckets t))) p = Inr (m', b)"
    "tbl_ok m' (t\<lparr>bkts := (bkts t)[unat (HASH_TO_BKT (hh_hashv m p) (num_buckets t)) := b]\<rparr>) (remove1 p ps)" "same_but_links m m'"
proof -
  obtain l cs where l: "l \<le> 31" "num_buckets t = 2 ^ l" "log2_num_buckets t = of_nat l" "length (bkts t) = 2 ^ l"
    "buckets_ok m (bkts t) (num_buckets t) cs" "members cs = set ps" "length (concat cs) = length ps"
    using T by (auto simp: tbl_ok_def)
  let ?i = "unat (HASH_TO_BKT (hh_hashv m p) (num_buckets t))"
  let ?b = "bkts t ! ?i" and ?c = "cs ! ?i"
  have len: "length cs = length (bkts t)" using l(5) by (simp add: buckets_ok_def)
  have i: "?i < length (bkts t)" using unat_bkt(2) [OF l(2,1)] l(4) by simp
  obtain j where j: "j < length cs" "p \<in> set (cs ! j)" using p l(6) by (force simp: in_set_conv_nth [of _ cs] simp flip: l(6))
  then have "j = ?i" using l(5) len by (simp add: buckets_ok_def)
  then obtain as qs where c: "?c = as @ p # qs" using j(2) by (auto simp: in_set_conv_decomp)
  have bo: "bucket_ok m ?b ?c" using l(5) i by (simp add: buckets_ok_def)
  then obtain z where z: "dseg (hh_next m) (hh_prev m) None (hh_head ?b) (as @ p # qs) z None" and d: "distinct (as @ p # qs)"
    and n: "unat (bkt_count ?b) = length (as @ p # qs)" using c by (auto simp: bucket_ok_def)
  let ?nx = "case hh_prev m p of None \<Rightarrow> hh_next m | Some q \<Rightarrow> (hh_next m)(q := hh_next m p)"
  let ?pv = "case hh_next m p of None \<Rightarrow> hh_prev m | Some q \<Rightarrow> (hh_prev m)(q := hh_prev m p)"
  let ?m = "m\<lparr>hh_next := ?nx, hh_prev := ?pv\<rparr>"
  let ?b' = "?b\<lparr>bkt_count := bkt_count ?b - 1, hh_head := (if hh_prev m p = None then hh_next m p else hh_head ?b)\<rparr>"
  obtain e where e: "dseg (hh_next m) (hh_prev m) None (hh_head ?b) as e (Some p)" "hh_prev m p = e"
    "dseg (hh_next m) (hh_prev m) (Some p) (hh_next m p) qs z None" using z by (auto simp: dseg_append)
  have prev: "q \<in> set as" if "hh_prev m p = Some q" for q
    using that e(1,2) dseg_last [OF e(1)] last_in_set [of as] by (cases "as = []") auto
  have nxt: "q \<in> set qs" if "hh_next m p = Some q" for q using that dseg_head [OF e(3)] by (cases qs) auto
  have "?c \<in> set cs" using i len by simp
  then have sub: "set as \<union> set qs \<subseteq> set ps" unfolding l(6) [symmetric] using c by auto
  have hd: "(hh_head ?b = Some p) = (hh_prev m p = None)"
    using e(1,2) dseg_head [OF e(1)] dseg_last [OF e(1)] d by (cases as) auto
  have nself: "hh_prev m p \<noteq> Some p" "hh_next m p \<noteq> Some p" using prev nxt d by auto
  have lp: "live q" if "hh_prev m p = Some q" for q using prev [OF that] sub ps(3) by blast
  have ln: "live q" if "hh_next m p = Some q" for q using nxt [OF that] sub ps(3) by blast
  have run: "HASH_DEL_IN_BKT live m ?b p = Inr (?m, ?b')"
    unfolding HASH_DEL_IN_BKT_def Let_def
    using hd lp ln nself by (cases "hh_prev m p"; cases "hh_next m p") (auto simp: deref_def)
  have cnt: "unat (bkt_count ?b - 1) = length (as @ qs)"
    using n by (simp add: unat_sub word_le_nat_alt)
  have b': "bucket_ok ?m ?b' (as @ qs)"
    using dseg_remove [OF z d] d cnt by (auto simp: bucket_ok_def)
  have other: "bucket_ok ?m (bkts t ! k) (cs ! k)" if k: "k < length (bkts t)" "k \<noteq> ?i" for k
  proof -
    have "set (cs ! k) \<inter> set ?c = {}" using l(5) i k unfolding buckets_ok_def by (metis disjoint_iff)
    then have "\<forall>q \<in> set (cs ! k). hh_next ?m q = hh_next m q \<and> hh_prev ?m q = hh_prev m q"
      using prev nxt c by (auto split: option.splits)
    then have "bucket_ok ?m (bkts t ! k) (cs ! k) = bucket_ok m (bkts t ! k) (cs ! k)" by (rule bucket_ok_cong)
    then show ?thesis using l(5) k(1) by (simp add: buckets_ok_def)
  qed
  let ?cs = "cs[?i := as @ qs]"
  have B: "buckets_ok ?m ((bkts t)[?i := ?b']) (num_buckets t) ?cs"
    unfolding buckets_ok_def
  proof (intro conjI allI impI)
    fix k assume k: "k < length ((bkts t)[?i := ?b'])"
    show "bucket_ok ?m ((bkts t)[?i := ?b'] ! k) (?cs ! k)" using b' other k i len by (cases "k = ?i") simp_all
    have "set (?cs ! k) \<subseteq> set (cs ! k)" using k i len c by (cases "k = ?i") auto
    then show "\<forall>q \<in> set (?cs ! k). unat (HASH_TO_BKT (hh_hashv ?m q) (num_buckets t)) = k"
      using l(5) k by (auto simp: buckets_ok_def)
  qed (simp add: len)
  have cc: "concat cs = concat (take ?i cs) @ (as @ p # qs) @ concat (drop (Suc ?i) cs)"
    using id_take_nth_drop [of ?i cs] i len c by (metis concat.simps(2) concat_append)
  have cc': "concat ?cs = concat (take ?i cs) @ (as @ qs) @ concat (drop (Suc ?i) cs)"
    using i len by (simp add: upd_conv_take_nth_drop)
  have dc: "distinct (concat cs)" by (rule tbl_ok_distinct [OF l(6,7) ps(1)])
  have "members ?cs = members cs - {p}" unfolding cc cc' using dc unfolding cc by auto
  moreover have "length (concat ?cs) = length (concat cs) - 1" unfolding cc cc' by simp
  ultimately have "tbl_ok ?m (t\<lparr>bkts := (bkts t)[?i := ?b']\<rparr>) (remove1 p ps)"
    unfolding tbl_ok_def using l B p ps(1)
    by (intro exI [of _ l] exI [of _ ?cs]) (simp add: set_remove1_eq length_remove1)
  then show ?thesis using that [OF i run] by (simp add: same_but_links_def)
qed

end
