(* ===== verification/Uthash_Table.thy ===== *)
theory Uthash_Table
  imports Uthash_Refines
begin

text \<open>
  A \<open>uthash\<close> table as a whole: the abstraction to the list of its nodes, and the macros
  \<open>HASH_FIND\<close>, \<open>HASH_ADD_KEYPTR\<close>, \<open>HASH_DELETE\<close> and \<open>HASH_COUNT\<close>, each of which does to the
  pointers and buckets what its definition in \<open>Uthash\<close> does to the list.
\<close>

section \<open>Representation\<close>

definition node_ok :: "hash_handles \<Rightarrow> ptr \<Rightarrow> byte list \<Rightarrow> bool" where
  "node_ok m p k \<longleftrightarrow> hh_hashv m p = HASH_JEN k \<and> hh_keylen m p = of_nat (length k) \<and> length k < 2 ^ 32"

definition nodes_ok :: "(ptr \<Rightarrow> byte list option) \<Rightarrow> hash_handles \<Rightarrow> ptr list \<Rightarrow> bool" where
  "nodes_ok kf m ps \<longleftrightarrow> (\<forall>p \<in> set ps. \<exists>k. kf p = Some k \<and> node_ok m p k)"

definition whole :: "hash_handles \<Rightarrow> hash_table \<Rightarrow> ptr option \<Rightarrow> ptr list \<Rightarrow> bool" where
  "whole m T h t \<longleftrightarrow> t \<noteq> [] \<and> dseg (app_next m) (app_prev m) None h t (Some (tail_hh T)) None \<and>
     unat (num_items T) = length t \<and> tbl_ok m T t"

definition ut_repr :: "(ptr \<Rightarrow> byte list option) \<Rightarrow> uthash \<Rightarrow> ptr list \<Rightarrow> bool" where
  "ut_repr kf s t \<longleftrightarrow> table_ok kf t \<and> length t < 2 ^ 32 \<and> nodes_ok kf (handles s) t \<and>
     (case ut_head s of None \<Rightarrow> t = [] | Some p \<Rightarrow> \<exists>T. ut_tbl s = Some T \<and> whole (handles s) T (Some p) t)"

definition ut_can_grow :: "uthash \<Rightarrow> bool" where
  "ut_can_grow s \<longleftrightarrow> (case ut_head s of None \<Rightarrow> True | Some _ \<Rightarrow> (case ut_tbl s of None \<Rightarrow> True | Some T \<Rightarrow> can_grow T))"

lemma ut_reprI:
  assumes "table_ok kf t" "length t < 2 ^ 32" "nodes_ok kf (handles s) t" "ut_tbl s = Some T" "whole (handles s) T (ut_head s) t"
  shows "ut_repr kf s t"
proof -
  obtain p ps where "t = p # ps" using assms(5) by (cases t) (simp_all add: whole_def)
  moreover from this have "ut_head s = Some p" using assms(5) by (simp add: whole_def)
  ultimately show ?thesis using assms by (simp add: ut_repr_def)
qed

lemma ut_repr_head:
  "ut_repr kf s t \<Longrightarrow> ut_head s = (case t of [] \<Rightarrow> None | p # _ \<Rightarrow> Some p)"
  by (auto simp: ut_repr_def whole_def split: option.splits list.splits dest: dseg_head)

lemma nodes_ok_cong:
  "nodes_ok kf m ps \<Longrightarrow> \<forall>p \<in> set ps. hh_hashv m' p = hh_hashv m p \<and> hh_keylen m' p = hh_keylen m p \<Longrightarrow> nodes_ok kf m' ps"
  by (fastforce simp: nodes_ok_def node_ok_def)

lemma tbl_ok_cong:
  assumes "tbl_ok m T ps"
    and "\<forall>p \<in> set ps. hh_next m' p = hh_next m p \<and> hh_prev m' p = hh_prev m p \<and> hh_hashv m' p = hh_hashv m p"
    and "bkts T' = bkts T" "num_buckets T' = num_buckets T" "log2_num_buckets T' = log2_num_buckets T"
  shows "tbl_ok m' T' ps"
proof -
  obtain l cs where l: "l \<le> 31" "num_buckets T = 2 ^ l" "log2_num_buckets T = of_nat l" "length (bkts T) = 2 ^ l"
    "buckets_ok m (bkts T) (num_buckets T) cs" "members cs = set ps" "length (concat cs) = length ps"
    using assms(1) by (auto simp: tbl_ok_def)
  have "buckets_ok m' (bkts T) (num_buckets T) cs"
    unfolding buckets_ok_def
  proof (intro conjI allI impI)
    fix i assume i: "i < length (bkts T)"
    then have ic: "i < length cs" using l(5) by (simp add: buckets_ok_def)
    have same: "hh_next m' p = hh_next m p \<and> hh_prev m' p = hh_prev m p \<and> hh_hashv m' p = hh_hashv m p" if "p \<in> set (cs ! i)" for p
      using assms(2) members_nth [OF ic that] unfolding l(6) by blast
    have "bucket_ok m' (bkts T ! i) (cs ! i) = bucket_ok m (bkts T ! i) (cs ! i)"
      by (rule bucket_ok_cong) (use same in blast)
    then show "bucket_ok m' (bkts T ! i) (cs ! i)" using l(5) i by (simp add: buckets_ok_def)
    show "\<forall>p \<in> set (cs ! i). unat (HASH_TO_BKT (hh_hashv m' p) (num_buckets T)) = i"
      using l(5) i same by (simp add: buckets_ok_def)
  qed (use l(5) in \<open>simp add: buckets_ok_def\<close>)
  then show ?thesis unfolding tbl_ok_def using l assms(3-5) by (intro exI [of _ l] exI [of _ cs]) simp
qed

section \<open>Lookup\<close>

lemma find_in_chain:
  assumes "dseg (hh_next m) pv a h ps z None" and "length ps < n" and "nodes_ok kf m ps" and "length key < 2 ^ 32"
  shows "HASH_FIND_IN_BKT n kf m h key (HASH_JEN key) = find_in kf ps key"
  using assms
proof (induction ps arbitrary: a h n)
  case Nil
  then show ?case by (cases n) auto
next
  case (Cons p ps)
  obtain n' where n: "n = Suc n'" using Cons.prems(2) by (cases n) auto
  obtain k where k: "kf p = Some k" "node_ok m p k" using Cons.prems(3) by (auto simp: nodes_ok_def)
  have "(of_nat (length k) :: 32 word) = of_nat (length key) \<longleftrightarrow> length k = length key"
    using k(2) Cons.prems(4) unat_of_nat32 [of "length k"] unat_of_nat32 [of "length key"] by (metis node_ok_def)
  then have hit: "hh_hashv m p = HASH_JEN key \<and> hh_keylen m p = of_nat (length key) \<and> take (length key) k = key \<longleftrightarrow> k = key"
    using k(2) by (auto simp: node_ok_def)
  have "HASH_FIND_IN_BKT n' kf m (hh_next m p) key (HASH_JEN key) = find_in kf ps key"
    using Cons n by (intro Cons.IH) (auto simp: nodes_ok_def)
  then show ?case using Cons.prems(1) k(1) n hit by simp
qed

lemma ut_find_ok:
  assumes R: "ut_repr kf s t" and key: "length key < 2 ^ 32"
  shows "ut_find kf s key = HASH_FIND kf t key"
proof (cases "ut_head s")
  case None
  then show ?thesis using R by (simp add: ut_find_def ut_repr_def HASH_FIND_def)
next
  case (Some h)
  obtain T where T: "ut_tbl s = Some T" "whole (handles s) T (Some h) t" using R Some by (auto simp: ut_repr_def)
  let ?m = "handles s" and ?i = "unat (HASH_TO_BKT (HASH_JEN key) (num_buckets T))"
  obtain l cs where l: "l \<le> 31" "num_buckets T = 2 ^ l" "length (bkts T) = 2 ^ l"
    "buckets_ok ?m (bkts T) (num_buckets T) cs" "members cs = set t" "length (concat cs) = length t"
    using T(2) by (auto simp: tbl_ok_def whole_def)
  have i: "?i < length (bkts T)" using unat_bkt(2) [OF l(2,1)] l(3) by simp
  have len: "length cs = length (bkts T)" using l(4) by (simp add: buckets_ok_def)
  have bo: "bucket_ok ?m (bkts T ! ?i) (cs ! ?i)" using l(4) i by (simp add: buckets_ok_def)
  then obtain z where z: "dseg (hh_next ?m) (hh_prev ?m) None (hh_head (bkts T ! ?i)) (cs ! ?i) z None"
    "unat (bkt_count (bkts T ! ?i)) = length (cs ! ?i)" by (auto simp: bucket_ok_def)
  have sub: "set (cs ! ?i) \<subseteq> set t" using members_nth [of ?i cs] i len unfolding l(5) by auto
  have nk: "nodes_ok kf ?m (cs ! ?i)" using R sub by (auto simp: ut_repr_def nodes_ok_def)
  have run: "ut_find kf s key = find_in kf (cs ! ?i) key"
    using Some T(1) i find_in_chain [OF z(1) _ nk key] z(2)
    by (simp add: ut_find_def HASH_FIND_BYHASHVALUE_def bucket_at_def not_null_def)
  have tk: "table_ok kf t" using R by (simp add: ut_repr_def)
  show ?thesis
  proof (cases "\<exists>p \<in> set t. kf p = Some key")
    case True
    then obtain p where p: "p \<in> set t" "kf p = Some key" by blast
    then have hv: "hh_hashv ?m p = HASH_JEN key" using R by (fastforce simp: ut_repr_def nodes_ok_def node_ok_def)
    obtain j where j: "j < length cs" "p \<in> set (cs ! j)" using p(1) by (force simp: in_set_conv_nth [of _ cs] simp flip: l(5))
    then have "unat (HASH_TO_BKT (hh_hashv ?m p) (num_buckets T)) = j" using l(4) len by (simp add: buckets_ok_def)
    then have "j = ?i" unfolding hv by (rule sym)
    then have "find_in kf (cs ! ?i) key = Inr (Some p)"
      using find_in_hit [of "cs ! ?i" kf p key] j(2) p(2) sub tk by (auto simp: table_ok_def intro: inj_on_subset)
    then show ?thesis using run ht.find_hit [OF tk p] by simp
  next
    case False
    then have "find_in kf (cs ! ?i) key = Inr None" using find_in_miss [of "cs ! ?i" kf key] sub tk by (auto simp: table_ok_def)
    then show ?thesis using run ht.find_miss [OF tk, of key] False by auto
  qed
qed

section \<open>Adding\<close>

lemma whole_snoc:
  assumes m: "whole m T h t" and p: "p \<notin> set t" "distinct t"
  defines "m' \<equiv> m\<lparr>app_next := (app_next m)(p := None, tail_hh T := Some p), app_prev := (app_prev m)(p := Some (tail_hh T))\<rparr>"
  shows "dseg (app_next m') (app_prev m') None h (t @ [p]) (Some p) None"
proof -
  obtain as q where t: "t = as @ [q]" using m by (cases t rule: rev_cases) (auto simp: whole_def)
  have d: "dseg (app_next m) (app_prev m) None h (as @ [q]) (Some (tail_hh T)) None" using m t by (simp add: whole_def)
  have q: "tail_hh T = q" using dseg_last [OF d] by simp
  show ?thesis using dseg_extend [OF d, of p] p t by (simp add: m'_def q)
qed

text \<open>The table after the node has been linked into the list in application order.\<close>

lemma add_to_table_ok:
  assumes T: "ut_tbl s = Some T" "tbl_ok (handles s) T t" "unat (num_items T) = length t" "can_grow T" "tail_hh T = p"
    and t: "distinct t" "p \<notin> set t" "\<forall>q \<in> set (t @ [p]). live q" "Suc (length t) < 2 ^ 32" "\<forall>a. mal a"
    and A: "dseg (app_next (handles s)) (app_prev (handles s)) None h (t @ [p]) (Some p) None"
  obtains s' T' where "HASH_ADD_TO_TABLE mal live (hh_hashv (handles s) p) p s = Inr s'" "ut_head s' = ut_head s" "ut_tbl s' = Some T'"
    "whole (handles s') T' h (t @ [p])" "same_but_links (handles s) (handles s')"
proof -
  let ?T = "T\<lparr>num_items := num_items T + 1\<rparr>"
  have T1: "tbl_ok (handles s) ?T t" by (rule tbl_ok_cong [OF T(2)]) simp_all
  have l: "\<forall>q \<in> set t. live q" "live p" "can_grow ?T" using t(3) T(4) by (simp_all add: can_grow_def)
  obtain m' T' a' where r: "HASH_ADD_TO_BKT mal live (handles s) ?T (allocs s) (HASH_TO_BKT (hh_hashv (handles s) p) (num_buckets ?T)) p =
      Inr (m', T', a')" "tbl_ok m' T' (t @ [p])" "same_but_links (handles s) m'" "num_items T' = num_items ?T" "tail_hh T' = tail_hh ?T"
    by (rule add_to_bkt_ok [where mal = mal and live = live and a = "allocs s", OF T1 t(1,4) l(1) t(2) l(2,3) t(5)])
  let ?s = "s\<lparr>handles := m', ut_tbl := Some T', allocs := a'\<rparr>"
  have "HASH_ADD_TO_TABLE mal live (hh_hashv (handles s) p) p s = Inr ?s"
    using r(1) T(1) by (simp add: HASH_ADD_TO_TABLE_def not_null_def Let_def)
  moreover have "unat (num_items T + 1) = Suc (length t)" using T(3) t(4) by (simp add: unat_word_ariths)
  then have "whole m' T' h (t @ [p])" using r(2-5) A T(5) by (simp add: whole_def same_but_links_def)
  ultimately show ?thesis using that [of ?s T'] r(3) by simp
qed

text \<open>The node goes into a new table or to the end of the list.\<close>

abbreviation into_list :: "(nat \<Rightarrow> bool) \<Rightarrow> (ptr \<Rightarrow> bool) \<Rightarrow> ptr \<Rightarrow> uthash \<Rightarrow> stop + uthash" where
  "into_list mal live p s \<equiv>
     (if ut_head s = None then
        bnd (HASH_MAKE_TABLE mal p
          (s\<lparr>handles := (handles s)\<lparr>app_next := (app_next (handles s))(p := None), app_prev := (app_prev (handles s))(p := None)\<rparr>\<rparr>))
          (\<lambda>s1. Inr (s1\<lparr>ut_head := Some p\<rparr>))
      else HASH_APPEND_LIST live p s)"

definition listed :: "uthash \<Rightarrow> uthash \<Rightarrow> ptr list \<Rightarrow> ptr \<Rightarrow> hash_table \<Rightarrow> bool" where
  "listed s s1 t p T \<longleftrightarrow>
     ut_tbl s1 = Some T \<and> tbl_ok (handles s1) T t \<and> unat (num_items T) = length t \<and> can_grow T \<and> tail_hh T = p \<and>
     ut_head s1 = Some (hd (t @ [p])) \<and>
     hh_hashv (handles s1) = hh_hashv (handles s) \<and> hh_keylen (handles s1) = hh_keylen (handles s) \<and>
     dseg (app_next (handles s1)) (app_prev (handles s1)) None (Some (hd (t @ [p]))) (t @ [p]) (Some p) None"

lemma into_new_table:
  assumes "ut_head s = None" and "\<forall>a. mal a"
  shows "\<exists>s1 T. into_list mal live p s = Inr s1 \<and> listed s s1 [] p T"
proof -
  have "tbl_ok m \<lparr>bkts = replicate (2 ^ 5) empty_bucket, num_buckets = 2 ^ 5, log2_num_buckets = of_nat 5,
      num_items = 0, tail_hh = p, ideal_chain_maxlen = 0, nonideal_items = 0, ineff_expands = 0, noexpand = 0\<rparr> []" for m
    using buckets_ok_empty [of m "2 ^ 5" "2 ^ 5"] by (auto simp: tbl_ok_def intro!: exI [of _ 5] exI [of _ "replicate 32 []"])
  then show ?thesis using assms by (simp add: HASH_MAKE_TABLE_def can_grow_def listed_def)
qed

lemma into_old_table:
  assumes s: "ut_head s = Some h" "ut_tbl s = Some T" "whole (handles s) T (Some h) t"
    and t: "distinct t" "p \<notin> set t" "\<forall>q \<in> set t. live q" and g: "can_grow T"
  shows "\<exists>s1 T. into_list mal live p s = Inr s1 \<and> listed s s1 t p T"
proof -
  let ?m = "handles s"
  have tail: "tail_hh T \<in> set t" using s(3) dseg_last [of _ _ _ _ t] by (fastforce simp: whole_def)
  have hd: "h = hd (t @ [p])" using s(3) dseg_head by (fastforce simp: whole_def split: list.splits)
  let ?m2 = "?m\<lparr>app_prev := (app_prev ?m)(p := Some (tail_hh T)), app_next := (app_next ?m)(p := None, tail_hh T := Some p)\<rparr>"
  have "tbl_ok ?m2 (T\<lparr>tail_hh := p\<rparr>) t"
    by (rule tbl_ok_cong) (use s(3) in \<open>auto simp: whole_def\<close>)
  moreover have "can_grow (T\<lparr>tail_hh := p\<rparr>)" using g by (simp add: can_grow_def)
  moreover have "dseg (app_next ?m2) (app_prev ?m2) None (Some h) (t @ [p]) (Some p) None"
    using whole_snoc [OF s(3) t(2,1)] by simp
  moreover have "deref live (Some (tail_hh T)) = Inr (tail_hh T)" using tail t(3) by (simp add: deref_def)
  ultimately show ?thesis using s hd by (simp add: HASH_APPEND_LIST_def not_null_def Let_def whole_def listed_def)
qed

lemma ut_add_ok:
  assumes R: "ut_repr kf s t" and p: "p \<notin> set t" "kf p = Some k" "\<forall>q \<in> set t. kf q \<noteq> Some k"
    and len: "length k < 2 ^ 32" "Suc (length t) < 2 ^ 32" and g: "ut_can_grow s" "\<forall>a. mal a"
  obtains s' where "ut_add mal kf s p = Inr s'" "ut_repr kf s' (HASH_ADD t p)"
proof -
  let ?live = "\<lambda>q. kf q \<noteq> None" and ?m = "handles s"
  let ?mk = "?m\<lparr>hh_hashv := (hh_hashv ?m)(p := HASH_JEN k), hh_keylen := (hh_keylen ?m)(p := of_nat (length k))\<rparr>"
  let ?sk = "s\<lparr>handles := ?mk\<rparr>"
  have tk: "table_ok kf t" "nodes_ok kf ?m t" using R by (simp_all add: ut_repr_def)
  have t: "distinct t" "\<forall>q \<in> set (t @ [p]). ?live q" using tk(1) p(2) by (auto simp: table_ok_def)
  have tk': "table_ok kf (HASH_ADD t p)" using ht.add_ok [OF tk(1) p] .
  have "\<exists>s1 T. into_list mal ?live p ?sk = Inr s1 \<and> listed ?sk s1 t p T"
  proof (cases "ut_head s")
    case None
    then show ?thesis using R into_new_table [of ?sk mal] g(2) by (simp add: ut_repr_def)
  next
    case (Some h)
    obtain T where T: "ut_tbl s = Some T" "whole ?m T (Some h) t" using R Some by (auto simp: ut_repr_def)
    have "tbl_ok ?mk T t" by (rule tbl_ok_cong) (use T(2) p(1) in \<open>auto simp: whole_def\<close>)
    then have "whole (handles ?sk) T (Some h) t" using T(2) by (simp add: whole_def)
    moreover have "can_grow T" using g(1) Some T(1) by (simp add: ut_can_grow_def)
    ultimately show ?thesis using into_old_table [of ?sk h T t p ?live mal] Some T(1) t p(1) by simp
  qed
  then obtain s1 T where s1: "into_list mal ?live p ?sk = Inr s1" "listed ?sk s1 t p T" by blast
  note L = s1(2) [unfolded listed_def]
  obtain s' T' where s': "HASH_ADD_TO_TABLE mal ?live (hh_hashv (handles s1) p) p s1 = Inr s'" "ut_head s' = ut_head s1" "ut_tbl s' = Some T'"
    "whole (handles s') T' (Some (hd (t @ [p]))) (t @ [p])" "same_but_links (handles s1) (handles s')"
    by (rule add_to_table_ok [of s1 T t p ?live mal "Some (hd (t @ [p]))"]) (use L t p(1) len(2) g(2) in blast)+
  have hv: "hh_hashv (handles s1) p = HASH_JEN k" using L by simp
  have "ut_add mal kf s p = bnd (into_list mal ?live p ?sk) (HASH_ADD_TO_TABLE mal ?live (HASH_JEN k) p)"
    using p(2) by (simp add: ut_add_def HASH_ADD_KEYPTR_BYHASHVALUE_def deref_def Let_def)
  then have "ut_add mal kf s p = Inr s'" unfolding s1(1) using s'(1) hv by simp
  moreover have "nodes_ok kf (handles s') t"
    by (rule nodes_ok_cong [OF tk(2)]) (use s'(5) L p(1) in \<open>auto simp: same_but_links_def\<close>)
  then have "nodes_ok kf (handles s') (t @ [p])"
    using p(2) s'(5) L len(1) by (auto simp: nodes_ok_def node_ok_def same_but_links_def)
  ultimately show ?thesis
    using that [of s'] s'(2-4) L tk' len(2) by (simp add: ut_reprI HASH_ADD_def)
qed

section \<open>Deleting\<close>

text \<open>The handles after the node has been taken out of the list in application order.\<close>

definition unlisted :: "hash_handles \<Rightarrow> ptr \<Rightarrow> hash_handles" where
  "unlisted m p = m\<lparr>app_next := (case app_prev m p of None \<Rightarrow> app_next m | Some q \<Rightarrow> (app_next m)(q := app_next m p)),
      app_prev := (case app_next m p of None \<Rightarrow> app_prev m | Some q \<Rightarrow> (app_prev m)(q := app_prev m p))\<rparr>"

lemma unlisted_links:
  "app_next (unlisted m p) = (case app_prev m p of None \<Rightarrow> app_next m | Some q \<Rightarrow> (app_next m)(q := app_next m p))"
  "app_prev (unlisted m p) = (case app_next m p of None \<Rightarrow> app_prev m | Some q \<Rightarrow> (app_prev m)(q := app_prev m p))"
  by (simp_all add: unlisted_def)

lemma dseg_ends:
  assumes "dseg nx pv None h (as @ p # qs) b None" and "distinct (as @ p # qs)"
  shows "pv p = (if as = [] then None else Some (last as))" "nx p = (case qs of [] \<Rightarrow> None | q # _ \<Rightarrow> Some q)"
    "b = Some (last (p # qs))"
proof -
  obtain c where c: "dseg nx pv None h as c (Some p)" "pv p = c" "dseg nx pv (Some p) (nx p) qs b None"
    using assms(1) by (auto simp: dseg_append)
  show "pv p = (if as = [] then None else Some (last as))" using c dseg_last [OF c(1)] by auto
  show "nx p = (case qs of [] \<Rightarrow> None | q # _ \<Rightarrow> Some q)" by (rule dseg_head [OF c(3)])
  show "b = Some (last (p # qs))" using dseg_last [OF assms(1)] by simp
qed

definition retailed :: "hash_table \<Rightarrow> ptr \<Rightarrow> ptr list \<Rightarrow> hash_table" where
  "retailed T p as = T\<lparr>tail_hh := (if p = tail_hh T then last as else tail_hh T)\<rparr>"

lemma retailed_simps [simp]:
  "bkts (retailed T p as) = bkts T" "num_buckets (retailed T p as) = num_buckets T"
  "log2_num_buckets (retailed T p as) = log2_num_buckets T" "num_items (retailed T p as) = num_items T"
  "tail_hh (retailed T p as) = (if p = tail_hh T then last as else tail_hh T)"
  "p = tail_hh T \<Longrightarrow> T\<lparr>tail_hh := last as\<rparr> = retailed T p as" "p \<noteq> tail_hh T \<Longrightarrow> retailed T p as = T"
  by (simp_all add: retailed_def)

lemma delete_hh_run:
  assumes d: "dseg (app_next m) (app_prev m) None h (as @ p # qs) (Some (tail_hh T)) None" "distinct (as @ p # qs)"
    and l: "\<forall>q \<in> set (as @ p # qs). live q" and s: "handles s = m" "ut_tbl s = Some T" and ne: "as \<noteq> [] \<or> qs \<noteq> []"
    and b: "unat (HASH_TO_BKT (hh_hashv m p) (num_buckets T)) < length (bkts T)"
      "HASH_DEL_IN_BKT live (unlisted m p) (bkts T ! unat (HASH_TO_BKT (hh_hashv m p) (num_buckets T))) p = Inr (m', b)"
  shows "HASH_DELETE_HH live p s = Inr (s\<lparr>handles := m', ut_head := (if app_prev m p = None then app_next m p else ut_head s),
      ut_tbl := Some ((retailed T p as)\<lparr>bkts := (bkts T)[unat (HASH_TO_BKT (hh_hashv m p) (num_buckets T)) := b],
        num_items := num_items T - 1\<rparr>)\<rparr>)"
proof -
  note e = dseg_ends [OF d]
  have ld: "deref live (Some p) = Inr p" using l by (simp add: deref_def)
  have lp: "deref live (app_prev m p) = Inr (last as)" if "as \<noteq> []"
    using that l e(1) last_in_set [OF that] by (simp add: deref_def)
  have ln: "deref live (app_next m p) = Inr (hd qs)" if "qs \<noteq> []"
    using that l e(2) by (cases qs) (simp_all add: deref_def)
  have self: "last as \<noteq> p" if "as \<noteq> []" using that d(2) last_in_set [OF that] by auto
  have tail: "p = tail_hh T \<longleftrightarrow> qs = []" using e(3) d(2) last_in_set [of qs] by auto
  have "\<not> (app_prev m p = None \<and> app_next m p = None)" using ne e by (auto split: list.splits)
  then show ?thesis
    using ne ld lp ln self tail e b s
    by (cases "as = []"; cases qs) (simp_all add: HASH_DELETE_HH_def not_null_def bucket_at_def unlisted_def Let_def)
qed

lemma ut_del_ok:
  assumes R: "ut_repr kf s t" and p: "p \<in> set t"
  obtains s' where "ut_del kf s p = Inr s'" "ut_repr kf s' (HASH_DEL t p)"
proof -
  let ?live = "\<lambda>q. kf q \<noteq> None" and ?m = "handles s"
  have tk: "table_ok kf t" "nodes_ok kf ?m t" "length t < 2 ^ 32" using R by (simp_all add: ut_repr_def)
  have t: "distinct t" "\<forall>q \<in> set t. ?live q" using tk(1) by (auto simp: table_ok_def)
  have tk': "table_ok kf (HASH_DEL t p)" by (rule ht.del_ok [OF tk(1)])
  obtain as qs where c: "t = as @ p # qs" using p by (auto simp: in_set_conv_decomp)
  have del: "HASH_DEL t p = as @ qs" using t(1) by (simp add: HASH_DEL_def c remove1_append)
  obtain h T where T: "ut_head s = Some h" "ut_tbl s = Some T" "whole ?m T (Some h) t"
    using R c by (auto simp: ut_repr_def split: option.splits)
  have d: "dseg (app_next ?m) (app_prev ?m) None (Some h) (as @ p # qs) (Some (tail_hh T)) None"
    using T(3) by (simp add: whole_def c)
  note e = dseg_ends [OF d t(1) [unfolded c]]
  show ?thesis
  proof (cases "as = [] \<and> qs = []")
    case True
    then have "ut_del kf s p = Inr (s\<lparr>ut_head := None, ut_tbl := None\<rparr>)"
      using e t(2) p by (simp add: ut_del_def HASH_DELETE_HH_def deref_def)
    moreover have "ut_repr kf (s\<lparr>ut_head := None, ut_tbl := None\<rparr>) (HASH_DEL t p)"
      using True del by (simp add: ut_repr_def nodes_ok_def)
    ultimately show ?thesis by (rule that)
  next
    case False
    let ?T = "retailed T p as" and ?m2 = "unlisted ?m p" and ?i = "unat (HASH_TO_BKT (hh_hashv ?m p) (num_buckets T))"
    have same: "hh_hashv ?m2 = hh_hashv ?m" "hh_keylen ?m2 = hh_keylen ?m" by (simp_all add: unlisted_def)
    have "tbl_ok ?m T t" using T(3) by (simp add: whole_def)
    then have T2: "tbl_ok ?m2 T t" by (rule tbl_ok_cong) (simp_all add: unlisted_def)
    obtain m' b where b: "?i < length (bkts T)" "HASH_DEL_IN_BKT ?live ?m2 (bkts T ! ?i) p = Inr (m', b)"
      "tbl_ok m' (T\<lparr>bkts := (bkts T)[?i := b]\<rparr>) (remove1 p t)" "same_but_links ?m2 m'"
      by (rule del_in_bkt_ok [OF T2 t(1) tk(3) t(2) p, unfolded same])
    let ?T' = "?T\<lparr>bkts := (bkts T)[?i := b], num_items := num_items T - 1\<rparr>" and ?h = "if app_prev ?m p = None then app_next ?m p else ut_head s"
    let ?s = "s\<lparr>handles := m', ut_head := ?h, ut_tbl := Some ?T'\<rparr>"
    have run: "ut_del kf s p = Inr ?s"
      unfolding ut_del_def using delete_hh_run [OF d t(1) [unfolded c] t(2) [unfolded c] refl T(2) _ b(1,2)] False by blast
    have "tbl_ok m' ?T' (as @ qs)"
      by (rule tbl_ok_cong [OF b(3) [folded HASH_DEL_def, unfolded del]]) simp_all
    moreover have "unat (num_items T - 1) = length (as @ qs)"
      using T(3) by (simp add: whole_def c unat_sub word_le_nat_alt)
    moreover have "dseg (app_next m') (app_prev m') None ?h (as @ qs) (Some (tail_hh ?T)) None"
    proof -
      have "p = tail_hh T \<longleftrightarrow> qs = []" using e(3) t(1) last_in_set [of qs] by (auto simp: c)
      then have tail: "(if qs = [] then app_prev ?m p else Some (tail_hh T)) = Some (tail_hh ?T)" using e(1) False by auto
      have L: "app_next m' = app_next ?m2" "app_prev m' = app_prev ?m2" using b(4) by (simp_all add: same_but_links_def)
      have "dseg (app_next ?m2) (app_prev ?m2) None ?h (as @ qs) (if qs = [] then app_prev ?m p else Some (tail_hh T)) None"
        unfolding T(1) unlisted_links by (rule dseg_remove [OF d t(1) [unfolded c]])
      then show ?thesis unfolding L tail .
    qed
    moreover have "nodes_ok kf m' (as @ qs)"
    proof (rule nodes_ok_cong)
      show "nodes_ok kf ?m (as @ qs)" using tk(2) by (simp add: nodes_ok_def c)
    qed (use b(4) in \<open>simp add: same_but_links_def unlisted_def\<close>)
    ultimately have "whole m' ?T' ?h (as @ qs)" "nodes_ok kf m' (as @ qs)" using False by (simp_all add: whole_def)
    then have "ut_repr kf ?s (HASH_DEL t p)"
      using tk' tk(3) unfolding del by (intro ut_reprI [of _ _ _ ?T']) (simp_all add: c)
    with run show ?thesis by (rule that)
  qed
qed

section \<open>Counting and iterating\<close>

lemma ut_count_ok:
  assumes "ut_repr kf s t"
  shows "HASH_CNT s = Inr (of_nat (HASH_COUNT t))"
proof (cases "ut_head s")
  case (Some h)
  then obtain T where "ut_tbl s = Some T" "unat (num_items T) = length t" using assms by (auto simp: ut_repr_def whole_def)
  then have "num_items T = of_nat (length t)" by (metis of_nat_unat ucast_id)
  then show ?thesis using Some \<open>ut_tbl s = Some T\<close> by (simp add: HASH_CNT_def HASH_COUNT_def not_null_def)
qed (use assms in \<open>simp add: ut_repr_def HASH_CNT_def HASH_COUNT_def\<close>)

lemma ut_next_ok:
  assumes "ut_repr kf s t" and "p \<in> set t"
  shows "app_next (handles s) p = succ_in t p"
proof -
  obtain as qs where c: "t = as @ p # qs" using assms(2) by (auto simp: in_set_conv_decomp)
  have t: "distinct (as @ p # qs)" using assms(1) c by (simp add: ut_repr_def table_ok_def)
  obtain h T where "whole (handles s) T (Some h) t"
    using assms(1) c by (auto simp: ut_repr_def split: option.splits)
  then have "dseg (app_next (handles s)) (app_prev (handles s)) None (Some h) (as @ p # qs) (Some (tail_hh T)) None"
    by (simp add: whole_def c)
  then show ?thesis using dseg_ends(2) [OF _ t] succ_in_split [of p as qs] t c by auto
qed

section \<open>Keys that are numbers\<close>

text \<open>
  The key of \<open>HASH_FIND_INT\<close> and \<open>HASH_ADD_INT\<close>: the four bytes of an \<open>int\<close>, the lowest first.
  A table whose keys are numbers is looked up as if the numbers themselves were compared.
\<close>

definition int_bytes :: "int \<Rightarrow> byte list" where
  "int_bytes x = map (\<lambda>n. char_of (drop_bit n x)) [0, 8, 16, 24]"

lemma mod_bytes:
  fixes x :: int
  shows "x mod 2 ^ 32 =
    x mod 256 + 256 * (x div 256 mod 256) + 65536 * (x div 65536 mod 256) + 16777216 * (x div 16777216 mod 256)"
proof -
  have "x mod (256 * (256 * (256 * 256))) =
      256 * (256 * (256 * (x div 256 div 256 div 256 mod 256) + x div 256 div 256 mod 256) + x div 256 mod 256) + x mod 256"
    by (simp only: zmod_zmult2_eq zero_le_numeral mult_nonneg_nonneg)
  moreover have "x div 256 div 256 = x div 65536" "x div 65536 div 256 = x div 16777216" by (simp_all flip: zdiv_zmult2_eq)
  ultimately show ?thesis by (simp add: algebra_simps)
qed

lemma int_bytes_inj: "inj_on int_bytes {- (2 ^ 31)..<2 ^ 31}"
proof (rule inj_onI)
  fix x y :: int
  assume xy: "x \<in> {- (2 ^ 31)..<2 ^ 31}" "y \<in> {- (2 ^ 31)..<2 ^ 31}" "int_bytes x = int_bytes y"
  have "drop_bit n x mod 256 = drop_bit n y mod 256" if "n \<in> {0, 8, 16, 24}" for n
    using that xy(3) by (auto simp: int_bytes_def dest!: arg_cong [where f = "of_char :: char \<Rightarrow> int"])
  from this [of 0] this [of 8] this [of 16] this [of 24]
  have "x mod 256 = y mod 256" "x div 256 mod 256 = y div 256 mod 256" "x div 65536 mod 256 = y div 65536 mod 256"
    "x div 16777216 mod 256 = y div 16777216 mod 256" by (simp_all add: drop_bit_eq_div)
  then have "x mod 2 ^ 32 = y mod 2 ^ 32" by (simp only: mod_bytes)
  then have "2 ^ 32 dvd x - y" by (simp only: mod_eq_dvd_iff)
  moreover have "\<bar>x - y\<bar> < 2 ^ 32" using xy(1,2) by auto
  ultimately show "x = y" using zdvd_not_zless [of "\<bar>x - y\<bar>" "2 ^ 32"] by (cases "x = y") (simp_all add: dvd_abs_iff)
qed

lemma find_in_encoded:
  assumes "inj_on f K" and "k \<in> K" and "\<forall>p \<in> set t. \<forall>j. kf p = Some j \<longrightarrow> j \<in> K"
  shows "find_in (\<lambda>p. map_option f (kf p)) t (f k) = find_in kf t k"
  using assms(3)
proof (induction t)
  case (Cons p t)
  then have "kf p = Some j \<Longrightarrow> f j = f k \<longleftrightarrow> j = k" for j using inj_on_eq_iff [OF assms(1) _ assms(2)] by simp
  then show ?case using Cons by (auto split: option.splits)
qed simp

lemma ut_find_int:
  assumes "ut_repr (\<lambda>p. map_option int_bytes (kf p)) s t" and "k \<in> {- (2 ^ 31)..<2 ^ 31}"
    and "\<forall>p \<in> set t. \<forall>j. kf p = Some j \<longrightarrow> j \<in> {- (2 ^ 31)..<2 ^ 31}"
  shows "ut_find (\<lambda>p. map_option int_bytes (kf p)) s (int_bytes k) = HASH_FIND kf t k"
proof -
  have "length (int_bytes k) < 2 ^ 32" by (simp add: int_bytes_def)
  then have "ut_find (\<lambda>p. map_option int_bytes (kf p)) s (int_bytes k) = HASH_FIND (\<lambda>p. map_option int_bytes (kf p)) t (int_bytes k)"
    by (rule ut_find_ok [OF assms(1)])
  also have "\<dots> = HASH_FIND kf t k"
    unfolding HASH_FIND_def by (rule find_in_encoded [OF int_bytes_inj assms(2)]) (use assms(3) in simp)
  finally show ?thesis .
qed

section \<open>The refinement\<close>

text \<open>
  C17: The buckets of \<open>uthash\<close> implement the list of nodes. Where pointers and buckets represent a
  list of nodes with different keys, a lookup through the hash function and the chain of one bucket
  finds what a search of the whole list finds, the count is the length of the list, the links in
  application order give the successor in the list, and removing a node, in the middle or at
  either end, leaves a table of the remaining nodes. Adding a node with a new key leaves a table of
  the nodes and the new one at the end, whether or not the buckets are doubled for it, when every
  allocation succeeds and there are less than \<open>2 ^ 31\<close> buckets. The empty table represents the
  empty list.
\<close>

theorem uthash_refines:
  assumes "ut_repr kf s t"
  shows "(\<forall>key. length key < 2 ^ 32 \<longrightarrow> ut_find kf s key = HASH_FIND kf t key) \<and>
    HASH_CNT s = Inr (of_nat (HASH_COUNT t)) \<and>
    (\<forall>p \<in> set t. app_next (handles s) p = succ_in t p) \<and>
    (\<forall>p \<in> set t. \<exists>s'. ut_del kf s p = Inr s' \<and> ut_repr kf s' (HASH_DEL t p)) \<and>
    (\<forall>mal p k. p \<notin> set t \<and> kf p = Some k \<and> HASH_FIND kf t k = Inr None \<and> length k < 2 ^ 32 \<and> Suc (length t) < 2 ^ 32 \<and>
       ut_can_grow s \<and> (\<forall>a. mal a) \<longrightarrow> (\<exists>s'. ut_add mal kf s p = Inr s' \<and> ut_repr kf s' (HASH_ADD t p)))"
proof (intro conjI)
  have T: "table_ok kf t" using assms by (simp add: ut_repr_def)
  show "\<forall>key. length key < 2 ^ 32 \<longrightarrow> ut_find kf s key = HASH_FIND kf t key" using ut_find_ok [OF assms] by blast
  show "HASH_CNT s = Inr (of_nat (HASH_COUNT t))" by (rule ut_count_ok [OF assms])
  show "\<forall>p \<in> set t. app_next (handles s) p = succ_in t p" using ut_next_ok [OF assms] by blast
  show "\<forall>p \<in> set t. \<exists>s'. ut_del kf s p = Inr s' \<and> ut_repr kf s' (HASH_DEL t p)" using ut_del_ok [OF assms] by metis
  show "\<forall>mal p k. p \<notin> set t \<and> kf p = Some k \<and> HASH_FIND kf t k = Inr None \<and> length k < 2 ^ 32 \<and> Suc (length t) < 2 ^ 32 \<and>
      ut_can_grow s \<and> (\<forall>a. mal a) \<longrightarrow> (\<exists>s'. ut_add mal kf s p = Inr s' \<and> ut_repr kf s' (HASH_ADD t p))"
    using ut_add_ok [OF assms] ht.find_None_iff [OF T] by metis
qed

text \<open>
  From the empty table on: the node 7 with the key \<open>"bla"\<close> is added, found, counted and deleted.
\<close>

definition no_handles :: hash_handles where
  "no_handles = \<lparr>app_prev = (\<lambda>p. None), app_next = (\<lambda>p. None), hh_prev = (\<lambda>p. None), hh_next = (\<lambda>p. None),
     hh_keylen = (\<lambda>p. 0), hh_hashv = (\<lambda>p. 0)\<rparr>"

definition no_table :: uthash where
  "no_table = \<lparr>handles = no_handles, ut_head = None, ut_tbl = None, allocs = 0\<rparr>"

lemma ut_repr_empty: "ut_repr kf no_table []"
  by (simp add: ut_repr_def no_table_def nodes_ok_def)

theorem uthash_refines_witness:
  "\<exists>s1 s2. ut_add (\<lambda>a. True) [7 \<mapsto> ''bla''] no_table 7 = Inr s1 \<and> ut_find [7 \<mapsto> ''bla''] s1 ''bla'' = Inr (Some 7) \<and>
     ut_find [7 \<mapsto> ''bla''] s1 ''bl'' = Inr None \<and> HASH_CNT s1 = Inr 1 \<and>
     ut_del [7 \<mapsto> ''bla''] s1 7 = Inr s2 \<and> ut_find [7 \<mapsto> ''bla''] s2 ''bla'' = Inr None \<and> HASH_CNT s2 = Inr 0"
proof -
  let ?kf = "[7 \<mapsto> ''bla''] :: ptr \<Rightarrow> byte list option"
  have "ut_can_grow no_table" by (simp add: ut_can_grow_def no_table_def)
  then obtain s1 where s1: "ut_add (\<lambda>a. True) ?kf no_table 7 = Inr s1" "ut_repr ?kf s1 [7]"
    using uthash_refines [OF ut_repr_empty, of ?kf, THEN conjunct2, THEN conjunct2, THEN conjunct2, THEN conjunct2,
        THEN spec [of _ "\<lambda>a. True"], THEN spec [of _ 7], THEN spec [of _ "''bla''"]]
    by (auto simp: HASH_FIND_def HASH_ADD_def)
  note r1 = uthash_refines [OF s1(2)]
  obtain s2 where s2: "ut_del ?kf s1 7 = Inr s2" "ut_repr ?kf s2 []"
    using r1 by (auto simp: HASH_DEL_def)
  note r2 = uthash_refines [OF s2(2)]
  have "ut_find ?kf s1 ''bla'' = Inr (Some 7)" "ut_find ?kf s1 ''bl'' = Inr None" "HASH_CNT s1 = Inr 1"
    using r1 by (simp_all add: HASH_FIND_def HASH_COUNT_def)
  moreover have "ut_find ?kf s2 ''bla'' = Inr None" "HASH_CNT s2 = Inr 0"
    using r2 by (simp_all add: HASH_FIND_def HASH_COUNT_def)
  ultimately show ?thesis using s1(1) s2(1) by blast
qed

end
