(* ===== verification/Tables.thy ===== *)
theory Tables
  imports Uthash_Table Db Server_Requests Client_Requests
begin

text \<open>
  The three tables of the program on the level of their buckets: where \<open>uthash\<close> pointers and
  buckets represent the table of the entries or of the requests, the lookups of the program are
  the lookups through the hash function and one chain.
\<close>

abbreviation int_keys :: "(ptr \<Rightarrow> int option) \<Rightarrow> ptr \<Rightarrow> byte list option" where
  "int_keys kf \<equiv> \<lambda>p. map_option int_bytes (kf p)"

definition ints :: "(ptr \<Rightarrow> int option) \<Rightarrow> ptr list \<Rightarrow> bool" where
  "ints kf t \<longleftrightarrow> (\<forall>p \<in> set t. \<forall>j. kf p = Some j \<longrightarrow> j \<in> {- (2 ^ 31)..<2 ^ 31})"

lemma uint16_int: "uint (t :: 16 word) \<in> {- (2 ^ 31)..<2 ^ 31}"
  using uint_bounded [of t] order_trans [OF _ uint_ge_0 [of t]] by simp

lemma db_get_in_buckets:
  "NUL \<notin> set k \<Longrightarrow> length k < 2 ^ 32 \<Longrightarrow> ut_repr (db_key d) s (internal_db d) \<Longrightarrow> db_get d (k @ NUL # r) = ut_find (db_key d) s k"
  by (simp add: db_get_find ut_find_ok)

lemma find_tid_in_buckets:
  "ut_repr (int_keys kf) s t \<Longrightarrow> ints kf t \<Longrightarrow> ut_find (int_keys kf) s (int_bytes (uint (i :: 16 word))) = HASH_FIND kf t (uint i)"
  using ut_find_int [OF _ uint16_int [of i]] by (simp add: ints_def)

lemma get_server_pending_request_in_buckets:
  "ut_repr (int_keys (req_key q)) s (internal_q q) \<Longrightarrow> ints (req_key q) (internal_q q) \<Longrightarrow>
   get_server_pending_request q i = ut_find (int_keys (req_key q)) s (int_bytes (uint i))"
  by (simp add: get_server_pending_request_def find_tid_in_buckets)

lemma get_client_pending_request_in_buckets:
  "ut_repr (int_keys (creq_key q)) s (creq_q q) \<Longrightarrow> ints (creq_key q) (creq_q q) \<Longrightarrow>
   get_client_pending_request q i = ut_find (int_keys (creq_key q)) s (int_bytes (uint i))"
  by (simp add: get_client_pending_request_def find_tid_in_buckets)

lemma pending_req_count_in_buckets:
  "ut_repr (int_keys (req_key q)) s (internal_q q) \<Longrightarrow>
   HASH_CNT s = Inr (of_nat (HASH_COUNT (internal_q q)))"
  by (rule ut_count_ok)

end
