(* ===== verification/Client_Safe.thy ===== *)
theory Client_Safe
  imports Client_Start
begin

text \<open>
  The client against any server: whatever messages and completions come, an operation that returns
  leaves buffers, queue pair and table of requests well formed. The proofs walk through the code
  with one rule for each operation, collected in \<open>keeps\<close>.
\<close>

named_theorems keeps

section \<open>Results that are returned\<close>

text \<open>\<open>yields r Q\<close>: if \<open>r\<close> is returned, it satisfies \<open>Q\<close>.\<close>

definition yields :: "stop + 'a \<Rightarrow> ('a \<Rightarrow> bool) \<Rightarrow> bool" where
  "yields r Q \<longleftrightarrow> (\<forall>x. r = Inr x \<longrightarrow> Q x)"

lemma yields_simps [simp]: "yields (Inl e) Q" "yields (Inr x) Q = Q x"
  by (simp_all add: yields_def)

lemma yields_bnd [simp]: "yields (bnd r f) Q = yields r (\<lambda>x. yields (f x) Q)"
  by (cases r) simp_all

lemma yieldsI: "(\<And>x. r = Inr x \<Longrightarrow> Q x) \<Longrightarrow> yields r Q"
  by (simp add: yields_def)

lemma yieldsD: "yields r Q \<Longrightarrow> r = Inr x \<Longrightarrow> Q x"
  by (simp add: yields_def)

lemma yields_mono: "yields r P \<Longrightarrow> (\<And>x. P x \<Longrightarrow> Q x) \<Longrightarrow> yields r Q"
  by (simp add: yields_def)

lemma yields_pure [keeps]:
  "(\<And>x. r = Inr x \<Longrightarrow> Q x) \<Longrightarrow> yields (r :: stop + byte list) Q"
  "(\<And>x. n = Inr x \<Longrightarrow> R x) \<Longrightarrow> yields (n :: stop + nat) R"
  "(\<And>x. p = Inr x \<Longrightarrow> S x) \<Longrightarrow> yields (p :: stop + ptr option) S"
  "(\<And>x. c = Inr x \<Longrightarrow> T x) \<Longrightarrow> yields (c :: stop + client_pending_request) T"
  by (rule yieldsI, assumption)+

lemma yields_not_null [keeps]: "(\<And>x. p = Some x \<Longrightarrow> Q x) \<Longrightarrow> yields (not_null p) Q"
  by (cases p) (simp_all add: not_null_def)

lemma yields_True [simp]: "yields r (\<lambda>_. True)"
  by (simp add: yields_def)

lemma yields_mem_write: "(\<And>m'. length m' = length m \<Longrightarrow> Q m') \<Longrightarrow> yields (mem_write m off bs) Q"
  by (simp add: mem_write_def)

lemma yields_close_exit [keeps, simp]: "yields (close_exit close rc s) Q"
  by (simp add: close_exit_def yields_def)

section \<open>The invariant\<close>

text \<open>
  The state is well formed, and the messages still to come go to buffers of the ring.
\<close>

definition polls_fit :: "client_poll option list \<Rightarrow> bool" where
  "polls_fit = list_all (\<lambda>r. case r of None \<Rightarrow> True | Some p \<Rightarrow> list_all (\<lambda>(i, bs). i < SERVER_NUM_RECV_BUFFS) (messages p))"

definition good :: "client \<Rightarrow> bool" where
  "good s \<longleftrightarrow> client_ok s \<and> polls_fit (cpolls s)"

lemma good_fields [simp]:
  "good (ctick s) = good s" "good (s\<lparr>blocks := b\<rparr>) = good s" "good (s\<lparr>next_block := n\<rparr>) = good s"
  "good (s\<lparr>other_blocks := B\<rparr>) = good s"
  "good (s\<lparr>cregs := n\<rparr>) = good s" "good (s\<lparr>posted := ws\<rparr>) = good s"
  "good (s\<lparr>immediate_shutdown := x\<rparr>) = good s" "good (s\<lparr>last_used_tid := t\<rparr>) = good s"
  "good (s\<lparr>cfds := fds\<rparr>) = good s" "good (s\<lparr>cctx := (cctx s)\<lparr>curr_recv_buff := k\<rparr>\<rparr>) = good s"
  by (simp_all add: good_def client_ok_def ctick_def ctx_wf_def)

lemma good_wf: "good s \<Longrightarrow> ctx_wf (cctx s)" "good s \<Longrightarrow> creq_inv (reqs s)"
  by (simp_all add: good_def client_ok_def)

text \<open>What may change in the context.\<close>

lemma good_ctx:
  "good s \<Longrightarrow> ctx_wf c \<Longrightarrow> ctx_qp c = ctx_qp (cctx s) \<Longrightarrow> good (s\<lparr>cctx := c\<rparr>)"
  by (simp add: good_def client_ok_def)

lemma good_reqs: "good s \<Longrightarrow> creq_inv q \<Longrightarrow> good (s\<lparr>reqs := q\<rparr>)"
  by (simp add: good_def client_ok_def)

section \<open>Buffers\<close>

lemma yields_get_free [keeps]:
  "good s \<Longrightarrow> (\<And>i c. good (s\<lparr>cctx := c\<rparr>) \<Longrightarrow> Q (i, c)) \<Longrightarrow> yields (get_free_send_idx (cctx s)) Q"
  "good s \<Longrightarrow> (\<And>i c. good (s\<lparr>cctx := c\<rparr>) \<Longrightarrow> Q (i, c)) \<Longrightarrow> yields (get_free_recv_idx (cctx s)) Q"
proof -
  assume s: "good s" and Q: "\<And>i c. good (s\<lparr>cctx := c\<rparr>) \<Longrightarrow> Q (i, c)"
  note wf = good_wf(1) [OF s]
  have "good (s\<lparr>cctx := (cctx s)\<lparr>last_used_send_buff := i\<rparr>\<rparr>)" if "i < SERVER_NUM_SEND_BUFFS" for i
    using that wf by (intro good_ctx s) (simp_all add: ctx_wf_def)
  moreover have "good (s\<lparr>cctx := cctx s\<rparr>)" using s by simp
  ultimately show "yields (get_free_send_idx (cctx s)) Q"
    using wf first_free_Some [of "in_use_send (cctx s)" "last_used_send_buff (cctx s)"] Q
    by (auto simp: get_free_send_idx_eq ctx_wf_def split: option.splits)
next
  assume s: "good s" and Q: "\<And>i c. good (s\<lparr>cctx := c\<rparr>) \<Longrightarrow> Q (i, c)"
  note wf = good_wf(1) [OF s]
  have "good (s\<lparr>cctx := (cctx s)\<lparr>last_used_recv_buff := i\<rparr>\<rparr>)" if "i < SERVER_NUM_RECV_BUFFS" for i
    using that wf by (intro good_ctx s) (simp_all add: ctx_wf_def)
  moreover have "good (s\<lparr>cctx := cctx s\<rparr>)" using s by simp
  ultimately show "yields (get_free_recv_idx (cctx s)) Q"
    using wf first_free_Some [of "in_use_recv (cctx s)" "last_used_recv_buff (cctx s)"] Q
    by (auto simp: get_free_recv_idx_eq ctx_wf_def split: option.splits)
qed

lemma yields_flags [keeps]:
  "good s \<Longrightarrow> cctx s = c \<Longrightarrow> (\<And>s'. good s' \<Longrightarrow> Q s') \<Longrightarrow> yields (clift_ctx (acquire_send_buffer c i) s) Q"
  "good s \<Longrightarrow> cctx s = c \<Longrightarrow> (\<And>s'. good s' \<Longrightarrow> Q s') \<Longrightarrow> yields (clift_ctx (acquire_receive_buffer c i) s) Q"
  "good s \<Longrightarrow> cctx s = c \<Longrightarrow> (\<And>s'. good s' \<Longrightarrow> Q s') \<Longrightarrow> yields (clift_ctx (release_receive_buffer c i) s) Q"
  by (auto simp: clift_ctx_def flag_ops good_def client_ok_def ctx_wf_def)

lemma yields_free_send [keeps]:
  assumes "good s" and "cctx s = c" and "\<And>s'. good s' \<Longrightarrow> Q s'"
  shows "yields (clift_ctx (free_send_buffer c i) s) Q"
proof (cases "0 \<le> i \<and> i < int SERVER_NUM_SEND_BUFFS")
  case True
  have wf: "ctx_wf c" using good_wf(1) [OF assms(1)] assms(2) by simp
  then obtain c' where "free_send_buffer c i = Inr c'" "ctx_wf c'" "ctx_qp c' = ctx_qp c"
    using free_send_buffer_ok [OF wf, of "nat i"] True by (auto simp: ctx_wf_def get_send_buffer_def)
  then show ?thesis using assms good_ctx [of s c'] by (simp add: clift_ctx_def)
next
  case False
  have "length (in_use_send c) = SERVER_NUM_SEND_BUFFS" using good_wf(1) [OF assms(1)] assms(2) by (simp add: ctx_wf_def)
  then show ?thesis using False by (auto simp: clift_ctx_def free_send_buffer_def flag_ops)
qed

lemma yields_put_send [keeps]:
  assumes "good s" and "\<And>s'. good s' \<Longrightarrow> reqs s' = reqs s \<Longrightarrow> Q s'"
  shows "yields (put_send s i off bs) Q"
  using assms by (auto simp: put_send_def mem_write_def good_def client_ok_def ctx_wf_def)

lemma yields_post_recv [keeps]:
  assumes "good s" and "\<And>ok s'. good s' \<Longrightarrow> Q (ok, s')"
  shows "yields (client_post_recv E s i) Q"
proof -
  have "good (s\<lparr>cctx := (cctx s)\<lparr>in_buf := m\<rparr>\<rparr>)" if "length m = length (in_buf (cctx s))" for m
    using good_wf(1) [OF assms(1)] that by (intro good_ctx assms(1)) (simp_all add: ctx_wf_def)
  then show ?thesis using assms(2) by (simp add: client_post_recv_def yields_mem_write yields_not_null)
qed

lemma yields_post_work [keeps]:
  "good s \<Longrightarrow> (\<And>ok s'. good s' \<Longrightarrow> Q (ok, s')) \<Longrightarrow> yields (post_work E s w) Q"
  by (auto simp: post_work_def intro!: yields_not_null)

lemma yields_post_send [keeps]:
  "good s \<Longrightarrow> (\<And>ok s'. good s' \<Longrightarrow> Q (ok, s')) \<Longrightarrow> yields (client_post_send E close s n i) Q"
  by (simp add: client_post_send_def Let_def keeps)

lemma yields_post_recv_loop [keeps]:
  "good s \<Longrightarrow> (\<And>k' s'. good s' \<Longrightarrow> Q (k', s')) \<Longrightarrow> yields (client_post_recv_loop n E s k) Q"
proof (induction n arbitrary: s k)
  case (Suc n)
  then show ?case by (simp add: Let_def keeps)
qed simp

section \<open>The table of requests\<close>

lemma cstore_inv:
  assumes "creq_inv q" and "creq_heap q p = Some r0" and "p_tid r = p_tid r0"
  shows "creq_inv (cstore q p r)"
proof -
  note D = creq_invD [OF assms(1)]
  have heap: "creq_heap (cstore q p r) a = (if a = p then Some r else creq_heap q a)" for a by (simp add: cstore_def)
  have tab: "creq_q (cstore q p r) = creq_q q" "creq_next (cstore q p r) = creq_next q" by (simp_all add: cstore_def)
  have key: "creq_key (cstore q p r) = creq_key q"
    using assms(2,3) by (simp add: creq_key_def heap fun_eq_iff)
  show ?thesis
  proof (rule creq_invI)
    show "table_ok (creq_key (cstore q p r)) (creq_q (cstore q p r))" unfolding key tab by (rule D(1))
    show "\<exists>a. a \<in> set (creq_q (cstore q p r)) \<and> creq_key (cstore q p r) a = Some (- 1)"
      unfolding key tab by (rule D(8))
    show "(creq_heap (cstore q p r) a \<noteq> None) = (a \<in> set (creq_q (cstore q p r)))" for a
      unfolding heap tab using D(6) [of a] assms(2) by (cases "a = p") simp_all
    show "a < creq_next (cstore q p r)" if "a \<in> set (creq_q (cstore q p r))" for a
      using that D(7) [of a] unfolding tab by blast
    show "- 1 \<le> p_tid x \<and> p_tid x < 2 ^ 16" if "creq_heap (cstore q p r) a = Some x" for a x
    proof (cases "a = p")
      case True
      then have "x = r" using that by (simp add: heap)
      then show ?thesis using D(5) [OF assms(2)] assms(3) by simp
    next
      case False
      then show ?thesis using that D(5) [of a x] unfolding heap by simp
    qed
  qed
qed

lemma cload_inv:
  "cload q p = Inr r \<Longrightarrow> creq_inv q \<Longrightarrow> p_tid r' = p_tid r \<Longrightarrow> creq_inv (cstore q (the p) r')"
  using cstore_inv [of q "the p" r r'] by (cases p) (simp_all add: cload_def split: option.splits)

lemma good_cupdate:
  "cload (reqs s) p = Inr r \<Longrightarrow> good s \<Longrightarrow> p_tid r' = p_tid r \<Longrightarrow> good (cupdate s (the p) r')"
  using cload_inv [of "reqs s" p r r'] by (simp add: cupdate_def good_reqs good_wf)

lemma yields_table [keeps]:
  "good s \<Longrightarrow> creq_inv q \<Longrightarrow> (\<And>s'. good s' \<Longrightarrow> Q s') \<Longrightarrow> yields (clift_reqs (add_client_pending_request ok q t) s) Q"
  "good s \<Longrightarrow> creq_inv q \<Longrightarrow> (\<And>s'. good s' \<Longrightarrow> Q s') \<Longrightarrow> yields (clift_reqs (remove_client_pending_request q t) s) Q"
proof -
  assume s: "good s" "creq_inv q" and Q: "\<And>s'. good s' \<Longrightarrow> Q s'"
  show "yields (clift_reqs (add_client_pending_request ok q t) s) Q"
    using add_client_inv [OF s(2)] good_reqs [OF s(1)] Q by (intro yieldsI) (auto simp: clift_reqs_def)
  show "yields (clift_reqs (remove_client_pending_request q t) s) Q"
    by (rule remove_client_ok [OF s(2), of t]) (use good_reqs [OF s(1)] Q in \<open>simp add: clift_reqs_def\<close>)
qed

section \<open>Answers and completions\<close>

lemma blocks_regs [simp]:
  "good (snd (calloc_block E n s)) = good s" "reqs (snd (calloc_block E n s)) = reqs s"
  "good (snd (reg_block E b l s)) = good s" "reqs (snd (reg_block E b l s)) = reqs s"
  by (simp_all add: calloc_block_def reg_block_def Let_def)

lemma yields_fin [keeps]:
  "good s \<Longrightarrow> (\<And>s'. good s' \<Longrightarrow> Q s') \<Longrightarrow> yields (client_send_rdma_fin E close s t) Q"
  by (simp add: client_send_rdma_fin_def Let_def keeps)

lemma yields_rkey_get [keeps]:
  assumes "good s" and "\<And>s'. good s' \<Longrightarrow> Q s'"
  shows "yields (client_handle_recv_rdma_rkey_get E s h) Q"
  unfolding client_handle_recv_rdma_rkey_get_def
  using assms by (simp add: Let_def split_beta keeps good_cupdate client_post_rdma_read_def)

lemma yields_rkey_set [keeps]:
  assumes "good s" and "\<And>s'. good s' \<Longrightarrow> Q s'"
  shows "yields (client_handle_recv_rdma_rkey_set E s h) Q"
  unfolding client_handle_recv_rdma_rkey_set_def
  using assms by (simp add: Let_def keeps client_post_rdma_write_def)

lemma yields_if: "(b \<Longrightarrow> yields r Q) \<Longrightarrow> (\<not> b \<Longrightarrow> yields r' Q) \<Longrightarrow> yields (if b then r else r') Q"
  by simp

lemma yields_get_response [keeps]:
  assumes "good s" and "\<And>s'. good s' \<Longrightarrow> Q s'"
  shows "yields (client_handle_get_response E s h off) Q"
  unfolding client_handle_get_response_def
  using assms by (simp add: Let_def split_beta keeps good_cupdate)

lemma yields_handle_recv [keeps]:
  assumes "good s" and "\<And>s'. good s' \<Longrightarrow> Q s'"
  shows "yields (client_handle_recv E close s i) Q"
  unfolding client_handle_recv_def
  using assms by (simp add: Let_def keeps split: option.split response_t.split)

lemma yields_refill [keeps]:
  assumes "good s" and "\<And>ok s'. good s' \<Longrightarrow> Q (ok, s')"
  shows "yields (client_refill E s) Q"
  unfolding client_refill_def client_post_recv_buffers_def
  using assms by (simp add: Let_def keeps)

lemma yields_completion [keeps]:
  assumes "good s" and "\<And>ok s'. good s' \<Longrightarrow> Q (ok, s')"
  shows "yields (client_completion E close wc s) Q"
  unfolding client_completion_def
  using assms by (simp add: Let_def keeps good_cupdate cload_inv good_wf split: option.split wrid_kind.split)

lemma yields_completions [keeps]:
  "good s \<Longrightarrow> (\<And>x s'. good s' \<Longrightarrow> Q (x, s')) \<Longrightarrow> yields (client_completions E close wcs cnt s) Q"
proof (induction wcs arbitrary: s cnt)
  case (Cons wc wcs)
  then show ?case by (simp add: keeps)
qed simp

lemma arrive_length:
  "list_all (\<lambda>(i, bs). i < SERVER_NUM_RECV_BUFFS) ms \<Longrightarrow> SERVER_NUM_RECV_BUFFS * BUFFER_SIZE \<le> length m \<Longrightarrow>
   length (arrive ms m) = length m"
proof (induction ms arbitrary: m)
  case (Cons a ms)
  obtain i bs where a: "a = (i, bs)" by (cases a)
  have "length (splice m (get_recv_buffer i) (take BUFFER_SIZE bs)) = length m"
    using Cons.prems a min.cobounded2 [of "length bs" BUFFER_SIZE]
    by (intro length_splice) (simp add: get_recv_buffer_def del: min.cobounded2)
  then show ?case using Cons a by simp
qed simp

lemma good_check_shutdown: "good s \<Longrightarrow> good (snd (check_shutdown E s))"
  by (simp add: check_shutdown_def client_signal_handler_def Let_def)

lemma good_poll: "good s \<Longrightarrow> good (snd (client_poll_cq s))"
proof -
  assume s: "good s"
  note wf = good_wf(1) [OF s]
  have len: "SERVER_NUM_RECV_BUFFS * BUFFER_SIZE \<le> length (in_buf (cctx s))" using wf by (simp add: ctx_wf_def)
  show ?thesis
    using s arrive_length [OF _ len]
    by (auto simp: client_poll_cq_def good_def client_ok_def ctx_wf_def polls_fit_def split: list.split option.split)
qed

lemma yields_wait_completions [keeps]:
  "good s \<Longrightarrow> (\<And>k s'. good s' \<Longrightarrow> Q (k, s')) \<Longrightarrow> yields (client_wait_completions n E iters cnt s) Q"
proof (induction n arbitrary: s cnt)
  case (Suc n)
  show ?case
    using Suc.prems(2) good_check_shutdown [OF Suc.prems(1), of E] good_poll [of "snd (check_shutdown E s)"] Suc.prems(1)
    by (simp add: client_wait_completions.simps Let_def split_beta keeps Suc.IH split: option.split)
qed (simp add: client_wait_completions.simps)

section \<open>The interface\<close>

lemma yields_wait_for [keeps]:
  "good s \<Longrightarrow> (\<And>s'. good s' \<Longrightarrow> Q s') \<Longrightarrow> yields (wait_for n E iters s) Q"
  by (simp add: wait_for_def split_beta keeps)

lemma yields_wait_send [keeps]:
  "good s \<Longrightarrow> (\<And>i s'. good s' \<Longrightarrow> Q (i, s')) \<Longrightarrow> yields (wait_send_idx n E s) Q"
proof (induction n arbitrary: s)
  case (Suc n)
  then show ?case by (simp add: wait_send_idx.simps Let_def keeps)
qed (simp add: wait_send_idx.simps)

lemma yields_wait_pending [keeps]:
  "good s \<Longrightarrow> (\<And>s'. good s' \<Longrightarrow> Q s') \<Longrightarrow> yields (wait_pending n E p s) Q"
proof (induction n arbitrary: s)
  case (Suc n)
  then show ?case by (simp add: wait_pending.simps keeps)
qed (simp add: wait_pending.simps)

lemma yields_wait_fewer [keeps]:
  "good s \<Longrightarrow> (\<And>s'. good s' \<Longrightarrow> Q s') \<Longrightarrow> yields (wait_fewer n E s) Q"
proof (induction n arbitrary: s)
  case (Suc n)
  then show ?case by (simp add: wait_fewer.simps keeps)
qed (simp add: wait_fewer.simps)

lemma good_new_tid: "good (snd (get_new_tid s)) = good s" "reqs (snd (get_new_tid s)) = reqs s"
  by (simp_all add: get_new_tid_def Let_def)

lemma yields_get [keeps]:
  assumes "good s" and "\<And>r s'. good s' \<Longrightarrow> Q (r, s')"
  shows "yields (kv_get n E key s) Q"
proof -
  have "yields (kv_get_request n E key s) (\<lambda>(r, s1). good s1)"
    unfolding kv_get_request_def
    using assms(1) by (simp add: Let_def split_beta keeps good_new_tid good_wf good_cupdate)
  moreover have "yields (case r of None \<Rightarrow> Inr ((- 1, None), s1)
       | Some (t, p) \<Rightarrow>
         bnd (wait_pending n E p s1) (\<lambda>s2.
         bnd (cload (reqs s2) p) (\<lambda>r.
         let s3 = cupdate s2 (the p) (r\<lparr>p_in_buf := None\<rparr>)
         in bnd (clift_reqs (remove_client_pending_request (reqs s3) t) s3) (\<lambda>s4.
            Inr ((0, p_in_buf r), s4))))) Q" if "good s1" for r s1
    using that assms(2) by (simp add: Let_def keeps good_cupdate good_wf split: option.split)
  ultimately show ?thesis
    unfolding kv_get_def yields_bnd by (elim yields_mono) auto
qed

lemma yields_set_rdma [keeps]:
  assumes "good s" and "\<And>s'. good s' \<Longrightarrow> Q s'"
  shows "yields (kv_set_rdma E key v request s) Q"
  unfolding kv_set_rdma_def
  using assms by (simp add: Let_def split_beta keeps good_cupdate good_wf)

lemma yields_set [keeps]:
  assumes "good s" and "\<And>r s'. good s' \<Longrightarrow> Q (r, s')"
  shows "yields (kv_set n E key v s) Q"
  unfolding kv_set_def
  using assms by (simp add: Let_def split_beta keeps good_new_tid)

text \<open>
  What happens to a connected client: the calls of the interface that return, whatever they return;
  values that the caller allocates; and completions and messages that the network delivers.
\<close>

inductive client_op :: "client_env \<Rightarrow> client \<Rightarrow> client \<Rightarrow> bool" for E where
  get: "kv_get n E key s = Inr (r, s') \<Longrightarrow> client_op E s s'"
| set: "kv_set n E key v s = Inr (r, s') \<Longrightarrow> client_op E s s'"
| release: "kv_release v s = Inr s' \<Longrightarrow> client_op E s s'"
| wait: "client_wait_completions n E iters 0 s = Inr (r, s') \<Longrightarrow> client_op E s s'"
| alloc: "client_op E s (snd (calloc_block E n s))"
| network: "polls_fit ps \<Longrightarrow> client_op E s (s\<lparr>cpolls := cpolls s @ ps\<rparr>)"

lemma good_op:
  assumes "client_op E s s'" and "good s"
  shows "good s'"
  using assms
proof (induction rule: client_op.induct)
  case (get n key s r s')
  have "yields (kv_get n E key s) (\<lambda>(r, s'). good s')" using get(2) by (simp add: keeps)
  then show ?case using yieldsD [OF _ get(1)] by auto
next
  case (set n key v s r s')
  have "yields (kv_set n E key v s) (\<lambda>(r, s'). good s')" using set(2) by (simp add: keeps)
  then show ?case using yieldsD [OF _ set(1)] by auto
next
  case (release v s s')
  then show ?case by (auto simp: kv_release_def split: option.splits if_splits)
next
  case (wait n iters s r s')
  have "yields (client_wait_completions n E iters 0 s) (\<lambda>(r, s'). good s')" using wait(2) by (simp add: keeps)
  then show ?case using yieldsD [OF _ wait(1)] by auto
next
  case (network ps s)
  then show ?case by (simp add: good_def client_ok_def polls_fit_def)
qed simp

text \<open>
  C20: whatever the server sends and whatever the calls return, a connected client stays well
  formed: areas and flags keep their sizes and cursors, the queue pair is there, and the table of
  requests has one node for each id and the node that the initialisation puts there. Only the
  memory protection of the adapter is relied on: messages come into the posted buffers.
\<close>

theorem client_stays_ok:
  assumes "(client_op E)\<^sup>*\<^sup>* s s'" and "client_ok s" and "polls_fit (cpolls s)"
  shows "client_ok s' \<and> 1 \<le> num_pending_requests (reqs s')"
proof -
  have "good s'"
    using assms(1) by (induction rule: rtranclp_induct) (use assms(2,3) good_op in \<open>auto simp: good_def\<close>)
  then have ok: "client_ok s'" by (simp add: good_def)
  then obtain p where "p \<in> set (creq_q (reqs s'))" using creq_invD(8) [of "reqs s'"] by (auto simp: client_ok_def)
  then have "1 \<le> num_pending_requests (reqs s')"
    by (cases "creq_q (reqs s')") (simp_all add: num_pending_requests_def HASH_COUNT_def)
  then show ?thesis using ok by simp
qed

theorem client_stays_ok_witness:
  "\<exists>s1. kv_set 1 good_env (''k'' @ [NUL]) (Some 0) (connected ''v'') = Inr (0, s1) \<and>
     client_ok (s1\<lparr>cpolls := cpolls s1 @ [Some \<lparr>completions = [], messages = [(7, ''garbage'')], stored = []\<rparr>]\<rparr>)"
proof -
  have spare: "0 < count_list (in_use_send (cctx (connected ''v''))) False" using connected_spare [of "''v''"] by simp
  obtain s1 where s1: "kv_set 1 good_env (''k'' @ [NUL]) (Some 0) (connected ''v'') = Inr (0, s1)"
    by (rule kv_set_eager_run [OF connected_ok spare _ _ _ _ connected_simps(1), of 1 "''k'' @ [NUL]" "''k''" "[]" good_env])
      (auto simp: connected_reqs)
  let ?ps = "[Some \<lparr>completions = [], messages = [(7, ''garbage'')], stored = []\<rparr>]"
  have "client_op good_env (connected ''v'') s1" by (rule client_op.set [OF s1])
  moreover have "client_op good_env s1 (s1\<lparr>cpolls := cpolls s1 @ ?ps\<rparr>)" by (rule client_op.network) (simp add: polls_fit_def)
  ultimately have "(client_op good_env)\<^sup>*\<^sup>* (connected ''v'') (s1\<lparr>cpolls := cpolls s1 @ ?ps\<rparr>)" by auto
  from client_stays_ok [OF this connected_ok] s1 show ?thesis by (simp add: polls_fit_def)
qed

end
