(* ===== verification/Client_Close.thy ===== *)
theory Client_Close
  imports Client_Safe
begin

text \<open>
  Closing a client: \<open>kv_close\<close> tells the server, waits for the completion, and returns; once the
  shutdown flag is set it returns without waiting for anything.
\<close>

section \<open>The shutdown message\<close>

definition shutdown_message :: "byte list" where
  "shutdown_message = enc_client_headers (client_headers CLIENT_SHUTDOWN_OPCODE 0 0 0)"

text \<open>The state after the message has been offered to the adapter in send buffer \<open>i\<close>.\<close>

definition told :: "client_env \<Rightarrow> client \<Rightarrow> nat \<Rightarrow> client" where
  "told E s i =
     offered E (Send shutdown_message) (written (s\<lparr>cctx := (cctx s)\<lparr>last_used_send_buff := i,
       in_use_send := (in_use_send (cctx s))[i := True]\<rparr>\<rparr>) i shutdown_message)"

lemma told_simps [simp]:
  "other_blocks (told E s i) = other_blocks s"
  "reqs (told E s i) = reqs s" "cpolls (told E s i) = cpolls s" "immediate_shutdown (told E s i) = immediate_shutdown s"
  "sockfd_client (told E s i) = sockfd_client s" "cfds (told E s i) = cfds s" "blocks (told E s i) = blocks s"
  "posted (told E s i) = posted s @ (if e_send E (calls s) then [Send shutdown_message] else [])"
  "ctx_qp (cctx (told E s i)) = ctx_qp (cctx s)"
  by (simp_all add: told_def offered_def written_def ctick_def)

lemma length_shutdown_message [simp]: "length shutdown_message = CLIENT_HEADER_LEN"
  by (simp add: shutdown_message_def)

lemma told_wf: "ctx_wf (cctx s) \<Longrightarrow> i < SERVER_NUM_SEND_BUFFS \<Longrightarrow> ctx_wf (cctx (told E s i))"
  by (simp add: told_def offered_def written_def ctick_def ctx_wf_def get_send_buffer_def)

lemma shutdown_message_sent:
  assumes wf: "ctx_wf (cctx s)" and qp: "ctx_qp (cctx s) \<noteq> None"
  obtains (full) "send_ring.spare (cctx s) = 0" "send_client_shutdown_message E close wait s = Inr (- 1, s)"
  | (slot) i where "0 < send_ring.spare (cctx s)" "i < SERVER_NUM_SEND_BUFFS"
      "send_client_shutdown_message E close wait s =
       (if \<not> e_send E (calls s) then Inr (- 1, told E s i)
        else let (b, s5) = check_shutdown E (told E s i)
             in bnd (if b then Inr s5 else wait s5) (\<lambda>s6. Inr (0, s6)))"
  using wf
proof (cases rule: send_ring.pick_cases)
  case full
  then have "send_client_shutdown_message E close wait s = Inr (- 1, s)"
    by (simp add: send_client_shutdown_message_def)
  then show ?thesis using that(1) full by simp
next
  case (slot i c')
  have spare: "0 < send_ring.spare (cctx s)" using slot(3,4) by (auto simp: count_False_pos)
  obtain i where i: "get_free_send_idx (cctx s) = Inr (int i, (cctx s)\<lparr>last_used_send_buff := i\<rparr>)"
    "i < SERVER_NUM_SEND_BUFFS" "\<not> in_use_send (cctx s) ! i" "ctx_wf ((cctx s)\<lparr>last_used_send_buff := i\<rparr>)"
    by (rule free_send_idx_ok [OF wf spare])
  let ?h = "client_headers CLIENT_SHUTDOWN_OPCODE 0 0 0"
  let ?c = "(cctx s)\<lparr>last_used_send_buff := i\<rparr>"
  let ?s2 = "s\<lparr>cctx := ?c\<lparr>in_use_send := (in_use_send (cctx s))[i := True]\<rparr>\<rparr>"
  let ?s3 = "written ?s2 i shutdown_message"
  have acq: "clift_ctx (acquire_send_buffer ?c (int i)) (s\<lparr>cctx := ?c\<rparr>) = Inr ?s2"
    using acquire_send_ok(1) [OF i(4,2)] by (simp add: clift_ctx_def)
  have wf2: "ctx_wf (cctx ?s2)" using acquire_send_ok(2) [OF i(4,2)] by simp
  have put: "put_send ?s2 (int i) 0 shutdown_message = Inr ?s3"
    by (rule put_send_first [OF wf2 i(2)]) simp
  have holds: "holds ?s3 i (enc_client_headers ?h @ [])"
    using holds_written [OF wf2 i(2), of shutdown_message] by (simp add: shutdown_message_def)
  have send: "client_post_send E close ?s3 (of_nat CLIENT_HEADER_LEN) (int i) = Inr (e_send E (calls s), told E s i)"
    using client_post_send_ok [OF holds _ _, of "of_nat CLIENT_HEADER_LEN" E close] qp
    by (simp add: told_def shutdown_message_def client_headers_def)
  have "send_client_shutdown_message E close wait s =
       (if \<not> e_send E (calls s) then Inr (- 1, told E s i)
        else let (b, s5) = check_shutdown E (told E s i)
             in bnd (if b then Inr s5 else wait s5) (\<lambda>s6. Inr (0, s6)))"
    unfolding send_client_shutdown_message_def i(1) bnd_simps prod.case Let_def acq
    using put send by (simp add: shutdown_message_def)
  then show ?thesis using that(2) spare i(2) by blast
qed

section \<open>Closing at once\<close>

lemma check_shutdown_set:
  assumes "immediate_shutdown s"
  obtains s1 where "check_shutdown E s = (True, s1)" "immediate_shutdown s1" "cctx s1 = cctx s" "reqs s1 = reqs s"
    "cpolls s1 = cpolls s" "sockfd_client s1 = sockfd_client s" "set (cfds s1) \<subseteq> set (cfds s)"
  using assms that
  by (auto simp: check_shutdown_def client_signal_handler_def ctick_def Let_def)

lemma close_loop_set:
  assumes "immediate_shutdown s"
  obtains s1 where "close_loop (Suc n) E wait s = Inr s1" "immediate_shutdown s1" "cctx s1 = cctx s" "reqs s1 = reqs s"
    "cpolls s1 = cpolls s" "sockfd_client s1 = sockfd_client s" "set (cfds s1) \<subseteq> set (cfds s)"
proof (cases "num_pending_requests (reqs s) \<le> 1")
  case True
  then show ?thesis using that [of s] assms by simp
next
  case False
  then show ?thesis using that by (auto intro: check_shutdown_set [OF assms, of E])
qed

lemma close_ctx_set:
  assumes wf: "ctx_wf (cctx s)" and qp: "ctx_qp (cctx s) \<noteq> None" and set: "immediate_shutdown s"
  obtains s' where "client_close_ctx E close wait s = Inr s'" "ctx_qp (cctx s') = None" "reqs s' = reqs s"
    "cpolls s' = cpolls s" "sockfd_client s' = sockfd_client s" "set (cfds s') \<subseteq> set (cfds s)"
proof -
  let ?s = "ctick s"
  obtain qpn where qpn: "ctx_qp (cctx s) = Some qpn" using qp by blast
  have tick: "ctx_wf (cctx ?s)" "ctx_qp (cctx ?s) \<noteq> None" "reqs ?s = reqs s" "cpolls ?s = cpolls s"
    "sockfd_client ?s = sockfd_client s" "cfds ?s = cfds s" "immediate_shutdown ?s"
    using assms by (simp_all add: ctick_def)
  have "\<exists>r s1. send_client_shutdown_message E close wait ?s = Inr (r, s1) \<and> reqs s1 = reqs s \<and> cpolls s1 = cpolls s \<and>
      sockfd_client s1 = sockfd_client s \<and> set (cfds s1) \<subseteq> set (cfds s)"
  proof (cases rule: shutdown_message_sent [OF tick(1,2), of E close wait])
    case 1
    then show ?thesis using tick by simp
  next
    case (2 i)
    obtain s5 where "check_shutdown E (told E ?s i) = (True, s5)" "reqs s5 = reqs s" "cpolls s5 = cpolls s"
      "sockfd_client s5 = sockfd_client s" "set (cfds s5) \<subseteq> set (cfds s)"
      by (rule check_shutdown_set [of "told E ?s i" E]) (use tick in simp_all)
    then show ?thesis using 2(3) tick by simp
  qed
  then obtain r s1 where s1: "send_client_shutdown_message E close wait ?s = Inr (r, s1)" "reqs s1 = reqs s"
    "cpolls s1 = cpolls s" "sockfd_client s1 = sockfd_client s" "set (cfds s1) \<subseteq> set (cfds s)" by blast
  let ?s' = "if e_ready E (calls s) = Some True then s1 else ?s"
  show ?thesis
    by (rule that [of "?s'\<lparr>cctx := (cctx ?s')\<lparr>ctx_qp := None\<rparr>\<rparr>"])
      (use s1 tick qpn in \<open>simp_all add: client_close_ctx_def\<close>)
qed

text \<open>
  C22: once the shutdown flag is set, \<open>kv_close\<close> ends in every state of the connection: it waits
  neither for pending requests nor for its own message, whatever the adapter, the signals and the
  allocator do. The requests are freed up to the first node, the socket is closed and the queue
  pair is destroyed.
\<close>

theorem kv_close_ends_at_once:
  assumes "client_ok s" and "immediate_shutdown s" and "creq_abs (reqs s) (- 1) = None"
  shows "\<exists>s'. kv_close (Suc (Suc n)) E s = Inr s' \<and> cpolls s' = cpolls s \<and> ctx_qp (cctx s') = None \<and>
    creq_abs (reqs s') = Map.empty \<and> num_pending_requests (reqs s') = 1 \<and>
    (0 \<le> sockfd_client s \<longrightarrow> sockfd_client s \<notin> set (cfds s'))"
proof -
  have ok: "ctx_wf (cctx s)" "ctx_qp (cctx s) \<noteq> None" "creq_inv (reqs s)" using assms(1) by (simp_all add: client_ok_def)
  obtain s1 where s1: "close_loop (Suc n) E (\<lambda>t. bnd (client_wait_completions (Suc n) E 1 0 t) (\<lambda>(_, u). Inr u)) s = Inr s1"
    "immediate_shutdown s1" "cctx s1 = cctx s" "reqs s1 = reqs s" "cpolls s1 = cpolls s" "sockfd_client s1 = sockfd_client s"
    by (rule close_loop_set [OF assms(2)])
  obtain q p where q: "destroy_pending_request_queue (reqs s) = Inr q" "creq_inv q" "creq_q q = [p]"
    "creq_key q p = Some (- 1)" "\<forall>a. creq_heap q a \<noteq> None \<longleftrightarrow> a = p"
    by (rule destroy_client_queue_ok [OF ok(3) assms(3)])
  have "creq_abs q t = None" for t
    unfolding creq_abs_None [OF q(2)] using q(4,5) by (auto simp: creq_key_def) (metis option.distinct(1) option.sel uint_ge_0 le_minus_one_simps(3) option.inject)
  then have abs: "creq_abs q = Map.empty" "num_pending_requests q = 1"
    using q(3) by (auto simp: num_pending_requests_def HASH_COUNT_def)
  let ?s2 = "(close_socket s1)\<lparr>reqs := q\<rparr>"
  have s2: "ctx_wf (cctx ?s2)" "ctx_qp (cctx ?s2) \<noteq> None" "immediate_shutdown ?s2" "cpolls ?s2 = cpolls s"
    "0 \<le> sockfd_client s \<Longrightarrow> sockfd_client s \<notin> set (cfds ?s2)"
    using s1 ok(1,2) by (auto simp: close_socket_def)
  obtain s' where s': "client_close_ctx E (kv_close (Suc n) E) (\<lambda>t. bnd (client_wait_completions (Suc n) E 1 0 t) (\<lambda>(_, u). Inr u)) ?s2 = Inr s'"
    "ctx_qp (cctx s') = None" "reqs s' = reqs ?s2" "cpolls s' = cpolls ?s2" "set (cfds s') \<subseteq> set (cfds ?s2)"
    by (rule close_ctx_set [OF s2(1-3)])
  have "clift_reqs (destroy_pending_request_queue (reqs (close_socket s1))) (close_socket s1) = Inr ?s2"
    using s1(4) q(1) by (simp add: clift_reqs_def close_socket_def)
  then have "kv_close (Suc (Suc n)) E s = Inr s'"
    unfolding kv_close.simps(2) [of "Suc n"] kv_close_body_def s1(1) bnd_simps Let_def using s'(1) by (simp only: bnd_simps)
  then show ?thesis using s' s2(4,5) abs by auto
qed

section \<open>An orderly end\<close>

definition send_poll :: "nat \<Rightarrow> client_poll" where
  "send_poll b =
     \<lparr>completions = [\<lparr>wc_id = wr_value \<lparr>wr_id = of_nat b, wr_type = wrid_val SEND_WRID\<rparr>, wc_success = True, wc_qp_num = 0\<rparr>],
      messages = [], stored = []\<rparr>"

text \<open>The completion of a message frees its buffer.\<close>

definition buffer_freed :: "client \<Rightarrow> nat \<Rightarrow> client" where
  "buffer_freed s b = s\<lparr>cctx := (cctx s)\<lparr>out_buf := splice (out_buf (cctx s)) (get_send_buffer b) (zeros BUFFER_SIZE),
     in_use_send := (in_use_send (cctx s))[b := False]\<rparr>\<rparr>"

lemma send_done_ok:
  assumes "ctx_wf (cctx s)" and b: "b < SERVER_NUM_SEND_BUFFS"
  shows "client_completions E close (completions (send_poll b)) cnt s = Inr ((True, Suc cnt), buffer_freed s b)"
proof -
  let ?wc = "\<lparr>wc_id = wr_value \<lparr>wr_id = of_nat b, wr_type = wrid_val SEND_WRID\<rparr>, wc_success = True, wc_qp_num = 0\<rparr>"
  have sb: "sint (of_nat b :: 32 word) = int b" by (rule sint_small) (use b in simp)
  have info: "wr_info (wc_id ?wc) = \<lparr>wr_id = of_nat b, wr_type = wrid_val SEND_WRID\<rparr>" "wc_success ?wc"
    by (simp_all add: wr_info_value)
  have "client_completion E close ?wc s = Inr (True, buffer_freed s b)"
    unfolding client_completion_def Let_def info(1) wr_data.simps wrid_of_val option.case wrid_kind.case sb
      free_send_buffer_ok [OF assms]
    using info(2) by (simp add: clift_ctx_def buffer_freed_def)
  then show ?thesis by (simp add: send_poll_def)
qed

text \<open>One round of the completion loop that handles what one poll finds.\<close>

lemma wait_round:
  assumes "\<forall>n. \<not> e_signal E n" "\<not> immediate_shutdown s" and "cpolls s = Some r # rs" and "cnt < iters"
    and "length (completions r) \<le> WC_BATCH" "messages r = []" "stored r = []"
    and "client_completions E (kv_close n E) (completions r) cnt (s\<lparr>calls := Suc (calls s), cpolls := rs\<rparr>) = Inr ((True, cnt1), s2)"
  shows "client_wait_completions (Suc n) E iters cnt s = client_wait_completions n E iters cnt1 s2"
  using assms by (simp add: client_wait_completions.simps(2) check_quiet client_poll_cq_def ctick_def)

lemma wait_sent:
  assumes quiet: "\<forall>n. \<not> e_signal E n" "\<not> immediate_shutdown s" and wf: "ctx_wf (cctx s)"
    and polls: "cpolls s = replicate m (Some empty_poll) @ Some (send_poll b) # rs"
    and b: "b < SERVER_NUM_SEND_BUFFS"
  shows "client_wait_completions (m + Suc (Suc n)) E 1 0 s =
    Inr (0, s\<lparr>calls := Suc (calls s + m), cpolls := rs, cctx := (cctx s)\<lparr>
      out_buf := splice (out_buf (cctx s)) (get_send_buffer b) (zeros BUFFER_SIZE),
      in_use_send := (in_use_send (cctx s))[b := False]\<rparr>\<rparr>)"
proof -
  let ?s1 = "s\<lparr>calls := calls s + m, cpolls := Some (send_poll b) # rs\<rparr>"
  have "client_wait_completions (m + Suc (Suc n)) E 1 0 s = client_wait_completions (Suc (Suc n)) E 1 0 ?s1"
    by (rule wait_empty [OF quiet _ polls]) simp
  also have "\<dots> = client_wait_completions (Suc n) E 1 1 (buffer_freed (?s1\<lparr>calls := Suc (calls ?s1), cpolls := rs\<rparr>) b)"
    by (rule wait_round [OF quiet(1), of _ "send_poll b" rs])
      (use quiet(2) send_done_ok [OF _ b, of "?s1\<lparr>calls := Suc (calls ?s1), cpolls := rs\<rparr>" E "kv_close (Suc n) E" 0] wf
       in \<open>simp_all add: send_poll_def\<close>)
  finally show ?thesis by (simp add: client_wait_completions.simps(2) buffer_freed_def)
qed

lemma kv_close_run:
  assumes "client_ok s" and "\<not> immediate_shutdown s" and "\<forall>m. \<not> e_signal E m" and "creq_abs (reqs s) = Map.empty"
    and "num_pending_requests (reqs s) = 1" and "0 < count_list (in_use_send (cctx s)) False"
    and "e_ready E (calls s) = Some True" and "\<forall>m. e_send E m"
    and "cpolls s = replicate m (Some empty_poll) @ Some (send_poll b) # rs" and "b < SERVER_NUM_SEND_BUFFS"
    and "m + 3 \<le> n"
  obtains s' where "kv_close n E s = Inr s'" "posted s' = posted s @ [Send shutdown_message]" "cpolls s' = rs"
    "ctx_qp (cctx s') = None" "num_pending_requests (reqs s') = 1" "cfds s' = cfds (close_socket s)" "blocks s' = blocks s"
    "other_blocks s' = other_blocks s" "card (dom (creq_heap (reqs s'))) = 1"
proof -
  have ok: "ctx_wf (cctx s)" "ctx_qp (cctx s) \<noteq> None" "creq_inv (reqs s)" using assms(1) by (simp_all add: client_ok_def)
  obtain k where n: "n = Suc (m + Suc (Suc k))"
    using assms(11) by (metis add.commute add_Suc_right le_Suc_ex numeral_3_eq_3 plus_nat.add_0)
  let ?j = "m + Suc (Suc k)"
  let ?close = "kv_close ?j E" and ?wait = "\<lambda>t. bnd (client_wait_completions ?j E 1 0 t) (\<lambda>(_, u). Inr u)"
  obtain q p where q: "destroy_pending_request_queue (reqs s) = Inr q" "creq_q q = [p]" "\<forall>a. creq_heap q a \<noteq> None \<longleftrightarrow> a = p"
    by (rule destroy_client_queue_ok [OF ok(3)]) (use assms(4) in simp)
  have "dom (creq_heap q) = {p}" using q(3) by auto
  then have one: "card (dom (creq_heap q)) = 1" by simp
  have loop: "close_loop ?j E ?wait s = Inr s" using assms(5) by (simp del: One_nat_def)
  let ?s2 = "(close_socket s)\<lparr>reqs := q\<rparr>"
  have s2: "clift_reqs (destroy_pending_request_queue (reqs (close_socket s))) (close_socket s) = Inr ?s2"
    using q(1) by (simp add: clift_reqs_def close_socket_def)
  have c2: "cctx ?s2 = cctx s" "immediate_shutdown ?s2 = immediate_shutdown s" "posted ?s2 = posted s" "calls ?s2 = calls s"
    "cpolls ?s2 = cpolls s" "blocks ?s2 = blocks s" "other_blocks ?s2 = other_blocks s" by (simp_all add: close_socket_def)
  let ?t = "ctick ?s2"
  have wft: "ctx_wf (cctx ?t)" "ctx_qp (cctx ?t) \<noteq> None" "\<not> immediate_shutdown ?t"
    using ok c2 assms(2) by (simp_all add: ctick_def)
  have "\<exists>s3. send_client_shutdown_message E ?close ?wait ?t = Inr (0, s3) \<and> posted s3 = posted s @ [Send shutdown_message] \<and>
    cpolls s3 = rs \<and> reqs s3 = q \<and> cfds s3 = cfds (close_socket s) \<and> blocks s3 = blocks s \<and> other_blocks s3 = other_blocks s"
  proof (cases rule: shutdown_message_sent [OF wft(1,2), of E ?close ?wait])
    case 1
    then show ?thesis using assms(6) c2(1) by (simp add: ctick_def)
  next
    case (2 i)
    let ?u = "ctick (told E ?t i)"
    have wfu: "ctx_wf (cctx ?u)" "\<not> immediate_shutdown ?u" "cpolls ?u = replicate m (Some empty_poll) @ Some (send_poll b) # rs"
      using told_wf [OF wft(1) 2(2), of E] wft(3) assms(9) c2(5) by (simp_all add: ctick_def)
    have "check_shutdown E (told E ?t i) = (False, ?u)"
      using check_quiet [OF assms(3), of "told E ?t i"] wft(3) by simp
    then show ?thesis
      using 2(3) assms(8) wait_sent [OF assms(3) wfu(2,1,3) assms(10), of k] c2(3,6,7) by (simp add: ctick_def)
  qed
  then obtain s3 where s3: "send_client_shutdown_message E ?close ?wait ?t = Inr (0, s3)"
    "posted s3 = posted s @ [Send shutdown_message]" "cpolls s3 = rs" "reqs s3 = q" "cfds s3 = cfds (close_socket s)" "blocks s3 = blocks s"
    "other_blocks s3 = other_blocks s" by blast
  obtain qpn where "ctx_qp (cctx s) = Some qpn" using ok(2) by blast
  then have cl: "client_close_ctx E ?close ?wait ?s2 = Inr (s3\<lparr>cctx := (cctx s3)\<lparr>ctx_qp := None\<rparr>\<rparr>)"
    using s3(1) assms(7) c2 by (simp add: client_close_ctx_def)
  have "kv_close n E s = Inr (s3\<lparr>cctx := (cctx s3)\<lparr>ctx_qp := None\<rparr>\<rparr>)"
    unfolding n kv_close.simps(2) [of ?j] kv_close_body_def loop bnd_simps Let_def s2 cl ..
  then show ?thesis
    using that s3 q(2) one by (simp add: num_pending_requests_def HASH_COUNT_def)
qed

text \<open>
  C21: with no request pending, \<open>kv_close\<close> tells the server once, waits for the completion of
  the message, however many polls find nothing, and ends; nothing else is sent, the socket is
  closed and the queue pair is destroyed.
\<close>

theorem kv_close_returns:
  assumes "client_ok s" and "\<not> immediate_shutdown s" and "\<forall>m. \<not> e_signal E m" and "creq_abs (reqs s) = Map.empty"
    and "num_pending_requests (reqs s) = 1" and "0 < count_list (in_use_send (cctx s)) False"
    and "e_ready E (calls s) = Some True" and "\<forall>m. e_send E m"
    and "cpolls s = replicate m (Some empty_poll) @ Some (send_poll b) # rs" and "b < SERVER_NUM_SEND_BUFFS"
    and "m + 3 \<le> n"
  shows "\<exists>s'. kv_close n E s = Inr s' \<and> posted s' = posted s @ [Send shutdown_message] \<and> cpolls s' = rs \<and>
    ctx_qp (cctx s') = None \<and> num_pending_requests (reqs s') = 1 \<and> (0 \<le> sockfd_client s \<longrightarrow> sockfd_client s \<notin> set (cfds s'))"
  by (rule kv_close_run [OF assms]) (auto simp: close_socket_def)

section \<open>Examples\<close>

theorem kv_close_ends_at_once_witness:
  "\<exists>q s'. num_pending_requests q = 2 \<and>
     kv_close 2 good_env ((connected ''v'')\<lparr>immediate_shutdown := True, reqs := q\<rparr>) = Inr s' \<and> num_pending_requests (reqs s') = 1"
proof (rule one_request)
  fix q r
  assume q: "creq_inv q" "creq_abs q = [5 \<mapsto> r]" "num_pending_requests q = 2"
  let ?s = "(connected ''v'')\<lparr>immediate_shutdown := True, reqs := q\<rparr>"
  have "client_ok ?s" using connected_ok [of "''v''"] q(1) by (simp add: client_ok_def)
  moreover have "creq_abs (reqs ?s) (- 1) = None" using q(2) by simp
  ultimately show ?thesis using kv_close_ends_at_once [of ?s 0 good_env] q(3) by (auto simp: numeral_2_eq_2)
qed

theorem kv_close_returns_witness:
  "\<exists>s'. kv_close 4 good_env ((connected ''v'')\<lparr>cpolls := [Some empty_poll, Some (send_poll 1)]\<rparr>) = Inr s' \<and>
     posted s' = [Send shutdown_message] \<and> ctx_qp (cctx s') = None"
proof -
  let ?s = "(connected ''v'')\<lparr>cpolls := [Some empty_poll, Some (send_poll 1)]\<rparr>"
  have "client_ok ?s" using connected_ok [of "''v''"] by (simp add: client_ok_def)
  moreover have "0 < count_list (in_use_send (cctx ?s)) False" using connected_spare [of "''v''"] by simp
  moreover have "cpolls ?s = replicate 1 (Some empty_poll) @ Some (send_poll 1) # []" by simp
  ultimately show ?thesis using kv_close_returns [of ?s good_env 1 1 "[]" 4] by (auto simp: connected_reqs)
qed

end
