(* ===== verification/Client_Overlap.thy ===== *)
theory Client_Overlap
  imports Client_Close
begin

text \<open>
  \<open>kv_set\<close> at a full request table: it chooses its send buffer, waits, and takes the buffer only after
  the wait. What the wait itself sends, the FIN of a transfer, goes out from the very same buffer.
\<close>

section \<open>A search that starts at a free buffer\<close>

lemma first_free_here: "start < length u \<Longrightarrow> \<not> u ! start \<Longrightarrow> first_free u start = Some start"
  by (cases "length u") (simp_all add: first_free_def upt_conv_Cons del: upt_Suc)

lemma same_buffer_again:
  assumes "ctx_wf c" and "last_used_send_buff c = i" and "i < SERVER_NUM_SEND_BUFFS" and "\<not> in_use_send c ! i"
  shows "get_free_send_idx c = Inr (int i, c\<lparr>last_used_send_buff := i\<rparr>)"
  using assms first_free_here [of i "in_use_send c"] by (simp add: get_free_send_idx_eq ctx_wf_def)

section \<open>Many completions\<close>

text \<open>What the completions of messages leave as it was.\<close>

definition same_but_buffers :: "client \<Rightarrow> client \<Rightarrow> bool" where
  "same_but_buffers s s' \<longleftrightarrow> reqs s' = reqs s \<and> posted s' = posted s \<and> blocks s' = blocks s \<and>
     last_used_tid s' = last_used_tid s \<and> last_used_send_buff (cctx s') = last_used_send_buff (cctx s) \<and>
     ctx_qp (cctx s') = ctx_qp (cctx s)"

lemma wait_sends:
  assumes "\<forall>n. \<not> e_signal E n" "\<not> immediate_shutdown s" and "ctx_wf (cctx s)"
    and "cpolls s = map (\<lambda>j. Some (send_poll j)) js @ rs" and "\<forall>j \<in> set js. j < SERVER_NUM_SEND_BUFFS"
    and "cnt + length js = iters"
  shows "\<exists>s'. client_wait_completions (length js + Suc n) E iters cnt s = Inr (0, s') \<and> same_but_buffers s s' \<and>
    ctx_wf (cctx s') \<and>
    (\<forall>j < SERVER_NUM_SEND_BUFFS. in_use_send (cctx s') ! j \<longleftrightarrow> in_use_send (cctx s) ! j \<and> j \<notin> set js)"
  using assms
proof (induction js arbitrary: s cnt)
  case Nil
  then show ?case by (simp add: client_wait_completions.simps(2) same_but_buffers_def)
next
  case (Cons b js)
  let ?s1 = "s\<lparr>calls := Suc (calls s), cpolls := map (\<lambda>j. Some (send_poll j)) js @ rs\<rparr>"
  let ?s2 = "buffer_freed ?s1 b"
  have b: "b < SERVER_NUM_SEND_BUFFS" using Cons.prems(5) by simp
  have wf1: "ctx_wf (cctx ?s1)" using Cons.prems(3) by simp
  have wf2: "ctx_wf (cctx ?s2)"
    using Cons.prems(3) b by (simp add: buffer_freed_def ctx_wf_def get_send_buffer_def)
  have "client_wait_completions (Suc (length js + Suc n)) E iters cnt s =
      client_wait_completions (length js + Suc n) E iters (Suc cnt) ?s2"
    by (rule wait_round [OF Cons.prems(1,2), of "send_poll b" "map (\<lambda>j. Some (send_poll j)) js @ rs"])
      (use Cons.prems(4,6) send_done_ok [OF wf1 b] in \<open>simp_all add: send_poll_def\<close>)
  moreover obtain s' where s': "client_wait_completions (length js + Suc n) E iters (Suc cnt) ?s2 = Inr (0, s')"
    "same_but_buffers ?s2 s'" "ctx_wf (cctx s')"
    "\<forall>j < SERVER_NUM_SEND_BUFFS. in_use_send (cctx s') ! j \<longleftrightarrow> in_use_send (cctx ?s2) ! j \<and> j \<notin> set js"
    using Cons.IH [OF Cons.prems(1) _ wf2, of "Suc cnt"] Cons.prems(2,5,6) by (auto simp: buffer_freed_def)
  moreover have "length (in_use_send (cctx s)) = SERVER_NUM_SEND_BUFFS" using Cons.prems(3) by (simp add: ctx_wf_def)
  then have "in_use_send (cctx ?s2) ! j \<longleftrightarrow> in_use_send (cctx s) ! j \<and> j \<noteq> b" for j
    using b by (cases "j = b") (simp_all add: buffer_freed_def)
  ultimately show ?case by (intro exI [of _ s']) (auto simp: same_but_buffers_def buffer_freed_def)
qed

section \<open>The wait of \<open>kv_set\<close>\<close>

text \<open>A poll that finds the end of the write of transfer \<open>t\<close>.\<close>

definition write_poll :: "16 word \<Rightarrow> client_poll" where
  "write_poll t = \<lparr>completions = [done_wc RDMA_WRITE_WRID t], messages = [], stored = []\<rparr>"

text \<open>The wait of a \<open>kv_set\<close> that has chosen buffer \<open>i\<close>: the FIN of the transfer uses that buffer.\<close>

lemma wait_with_fin:
  assumes ok: "client_ok s" and quiet: "\<forall>m. \<not> e_signal E m" "\<not> immediate_shutdown s"
    and i: "last_used_send_buff (cctx s) = i" "i < SERVER_NUM_SEND_BUFFS" "\<not> in_use_send (cctx s) ! i"
    and full: "num_pending_requests (reqs s) = 250" and r: "creq_abs (reqs s) t = Some r"
    and key: "p_key r = Some (k @ NUL # kz)" "NUL \<notin> set k" "length k < BUFFER_SIZE - CLIENT_HEADER_LEN"
    and polls: "cpolls s = Some (write_poll t) # map (\<lambda>j. Some (send_poll j)) js @ rs" "length js = 199"
      "\<forall>j \<in> set js. j < SERVER_NUM_SEND_BUFFS"
    and accepted: "\<forall>m. e_send E m" and n: "202 \<le> n"
  obtains s' where "wait_fewer n E s = Inr s'" "ctx_wf (cctx s')" "last_used_send_buff (cctx s') = i"
    "ctx_qp (cctx s') \<noteq> None" "blocks s' = blocks s" "last_used_tid s' = last_used_tid s"
    "posted s' = posted s @ [Send (fin_message t k)]"
    "\<forall>j < SERVER_NUM_SEND_BUFFS. in_use_send (cctx s') ! j \<longleftrightarrow> (j = i \<or> in_use_send (cctx s) ! j) \<and> j \<notin> set js"
proof -
  let ?polls = "map (\<lambda>j. Some (send_poll j)) js @ rs"
  let ?s1 = "s\<lparr>calls := Suc (calls s), cpolls := ?polls\<rparr>"
  obtain m where m: "n = 202 + m" using n by (auto simp: le_iff_add)
  have fuel: "n = Suc (201 + m)" "201 + m = Suc (length js + Suc m)" using m polls(2) by simp_all
  have ok1: "client_ok ?s1" and wf: "ctx_wf (cctx s)" using ok by (simp_all add: client_ok_def)
  have spare: "0 < send_ring.spare (cctx ?s1)" using i(2,3) wf by (auto simp: count_False_pos ctx_wf_def)
  obtain j q where j: "client_completion E (kv_close (length js + Suc m) E) (done_wc RDMA_WRITE_WRID t) ?s1 =
      Inr (True, (offered E (Send (fin_message t k)) (written (buffer_taken ?s1 j) j (fin_message t k)))\<lparr>reqs := q\<rparr>)"
    "ctx_wf (cctx (written (buffer_taken ?s1 j) j (fin_message t k)))"
    "get_free_send_idx (cctx ?s1) = Inr (int j, (cctx ?s1)\<lparr>last_used_send_buff := j\<rparr>)"
    "num_pending_requests q = num_pending_requests (reqs ?s1) - 1"
    by (rule write_done_ok [OF ok1 spare _ key]) (use r in simp_all)
  have [simp]: "j = i" using j(3) same_buffer_again [OF wf i] by simp
  let ?s2 = "(offered E (Send (fin_message t k)) (written (buffer_taken ?s1 i) i (fin_message t k)))\<lparr>reqs := q\<rparr>"
  have one: "client_completions E (kv_close (length js + Suc m) E) (completions (write_poll t)) 0 ?s1 = Inr ((True, 1), ?s2)"
    using j(1) by (simp add: write_poll_def)
  have first: "client_wait_completions (201 + m) E 200 0 s = client_wait_completions (length js + Suc m) E 200 1 ?s2"
    unfolding fuel(2)
    by (rule wait_round [OF quiet polls(1) _ _ _ _ one]) (simp_all add: write_poll_def)
  have s2: "\<not> immediate_shutdown ?s2" "ctx_wf (cctx ?s2)" "cpolls ?s2 = ?polls" "1 + length js = 200"
    "last_used_send_buff (cctx ?s2) = i" "in_use_send (cctx ?s2) = (in_use_send (cctx s))[i := True]"
    using quiet(2) j(2) polls(2) by (simp_all add: written_def requested_def)
  obtain s' where s': "client_wait_completions (length js + Suc m) E 200 1 ?s2 = Inr (0, s')" "same_but_buffers ?s2 s'"
    "ctx_wf (cctx s')"
    "\<forall>l < SERVER_NUM_SEND_BUFFS. in_use_send (cctx s') ! l \<longleftrightarrow> in_use_send (cctx ?s2) ! l \<and> l \<notin> set js"
    using wait_sends [OF quiet(1) s2(1-3) polls(3) s2(4)] by blast
  have "wait_fewer (201 + m) E s' = Inr s'"
    unfolding fuel(2) using s'(2) j(4) full by (simp add: wait_fewer.simps same_but_buffers_def)
  then have run: "wait_fewer n E s = Inr s'"
    unfolding fuel(1) wait_fewer.simps(2) wait_for_def first s'(1) using full by simp
  have "length (in_use_send (cctx s)) = SERVER_NUM_SEND_BUFFS" using wf by (simp add: ctx_wf_def)
  then have use: "in_use_send (cctx ?s2) ! l \<longleftrightarrow> l = i \<or> in_use_send (cctx s) ! l" for l
    using i(2) unfolding s2(6) by (cases "l = i") simp_all
  show ?thesis
    by (rule that [OF run s'(3)]) (use s'(2,4) use s2(5) accepted ok in \<open>simp_all add: same_but_buffers_def client_ok_def\<close>)
qed

text \<open>
  C39: \<open>kv_set\<close> chooses its send buffer before it waits for fewer pending requests and takes it only
  afterwards. With 250 requests pending and a transfer whose write ends during the wait, the FIN of
  the transfer goes out from the chosen buffer, and \<open>kv_set\<close> then writes its own message over it and
  sends it from there as well: two messages are with the adapter, no completion of the FIN has been
  seen, and only one more buffer is in use.
\<close>

theorem chosen_buffer_taken_by_fin:
  assumes "client_ok s" and "0 < count_list (in_use_send (cctx s)) False" and "\<forall>m. \<not> e_signal E m" "\<not> immediate_shutdown s"
    and "num_pending_requests (reqs s) = 250" and "creq_abs (reqs s) t = Some r"
    and "p_key r = Some (k' @ NUL # kz)" "NUL \<notin> set k'" "length k' < BUFFER_SIZE - CLIENT_HEADER_LEN"
    and "cpolls s = Some (write_poll t) # map (\<lambda>j. Some (send_poll j)) js @ rs" "length js = 199"
    and "\<forall>j \<in> set js. j < SERVER_NUM_SEND_BUFFS \<and> in_use_send (cctx s) ! j"
    and "\<forall>m. e_send E m" and "202 \<le> n" and "key = k @ NUL # kr" "NUL \<notin> set k"
    and "blocks s v = Some (val @ NUL # vr)" "NUL \<notin> set val" and "length k + length val + 2 \<le> CLIENT_REQUEST_PAYLOAD_LEN"
  shows "\<exists>s' i. kv_set n E key (Some v) s = Inr (0, s') \<and>
    posted s' = posted s @ [Send (fin_message t k'), Send (set_message (fst (get_new_tid s)) k val)] \<and>
    i < SERVER_NUM_SEND_BUFFS \<and> \<not> in_use_send (cctx s) ! i \<and>
    (\<forall>j < SERVER_NUM_SEND_BUFFS. in_use_send (cctx s') ! j \<longleftrightarrow> j = i \<or> in_use_send (cctx s) ! j \<and> j \<notin> set js) \<and>
    holds s' i (set_message (fst (get_new_tid s)) k val)"
proof -
  have wf: "ctx_wf (cctx s)" using assms(1) by (simp add: client_ok_def)
  have pos: "0 < n" using assms(14) by simp
  obtain i c where i: "wait_send_idx n E s = Inr (int i, s\<lparr>cctx := c\<rparr>)" "i < SERVER_NUM_SEND_BUFFS"
    "\<not> in_use_send (cctx s) ! i" "c = (cctx s)\<lparr>last_used_send_buff := i\<rparr>" "ctx_wf c"
    by (rule wait_send_idx_ok [OF wf assms(2) pos])
  let ?s1 = "s\<lparr>cctx := c\<rparr>" and ?t = "fst (get_new_tid s)"
  have ok1: "client_ok ?s1" using assms(1) i(4,5) by (simp add: client_ok_def)
  obtain s2 where s2: "wait_fewer n E ?s1 = Inr s2" "ctx_wf (cctx s2)" "last_used_send_buff (cctx s2) = i"
    "ctx_qp (cctx s2) \<noteq> None" "blocks s2 = blocks ?s1" "last_used_tid s2 = last_used_tid ?s1"
    "posted s2 = posted ?s1 @ [Send (fin_message t k')]"
    "\<forall>j < SERVER_NUM_SEND_BUFFS. in_use_send (cctx s2) ! j \<longleftrightarrow> (j = i \<or> in_use_send (cctx ?s1) ! j) \<and> j \<notin> set js"
    by (rule wait_with_fin [OF ok1 assms(3) _ _ i(2) _ _ _ assms(7-9) _ assms(11)]) (use assms i in simp_all)
  have tid: "fst (get_new_tid s2) = ?t" using s2(6) by (simp add: get_new_tid_def Let_def)
  let ?m = "set_message ?t k val"
  let ?s' = "offered E (Send ?m) (written (requested s2 i ?t) i ?m)"
  have v2: "blocks s2 v = Some (val @ NUL # vr)" using s2(5) assms(17) by simp
  have run: "kv_set n E key (Some v) s = Inr (0, ?s')"
    using kv_set_eager_after [OF i(1,2) s2(1-4) assms(15-17) v2 assms(18,19)] assms(13) unfolding tid by simp
  have "length ?m \<le> BUFFER_SIZE" using assms(19) by simp
  then have "holds (written (requested s2 i ?t) i ?m) i ?m" by (intro holds_written requested_wf s2(2) i(2))
  then have holds: "holds ?s' i ?m" by (simp add: holds_def)
  have posted: "posted ?s' = posted s @ [Send (fin_message t k'), Send ?m]" using s2(7) assms(13) by simp
  have "length (in_use_send (cctx s2)) = SERVER_NUM_SEND_BUFFS" using s2(2) by (simp add: ctx_wf_def)
  then have "in_use_send (cctx ?s') ! j \<longleftrightarrow> j = i \<or> in_use_send (cctx s) ! j \<and> j \<notin> set js" if "j < SERVER_NUM_SEND_BUFFS" for j
    using s2(8) that i(2-4) by (cases "j = i") auto
  then show ?thesis using run posted i(2,3) holds by blast
qed

section \<open>An example\<close>

text \<open>A table of any number of requests, with transaction ids from 100 on.\<close>

lemma many_requests:
  "m \<le> 60000 \<Longrightarrow> \<exists>q. creq_inv q \<and> num_pending_requests q = Suc m \<and> (\<forall>t. creq_abs q t \<noteq> None \<longrightarrow> 100 \<le> unat t \<and> unat t < 100 + m)"
proof (induction m)
  case 0
  then show ?case by (intro exI [of _ "reqs (connected [])"]) (simp add: connected_reqs)
next
  case (Suc m)
  then obtain q where q: "creq_inv q" "num_pending_requests q = Suc m" "\<forall>t. creq_abs q t \<noteq> None \<longrightarrow> 100 \<le> unat t \<and> unat t < 100 + m"
    by auto
  let ?t = "of_nat (100 + m) :: 16 word"
  have t: "unat ?t = 100 + m" using Suc.prems by (simp add: unat_of_nat take_bit_nat_eq_self del: of_nat_add)
  have new: "creq_abs q ?t = None" using q(3) t by (metis less_irrefl)
  have alloc: "\<forall>n. e_alloc good_env n" by simp
  obtain q' where "creq_inv q'" "num_pending_requests q' = Suc (num_pending_requests q)"
    "creq_abs q' = (creq_abs q)(?t \<mapsto> zero_request\<lparr>p_tid := uint ?t, p_key := Some (zeros CLIENT_REQUEST_PAYLOAD_LEN)\<rparr>)"
    by (rule add_client_ok [OF q(1) new alloc]) blast
  moreover from this(3) have "\<forall>u. creq_abs q' u \<noteq> None \<longrightarrow> 100 \<le> unat u \<and> unat u < 100 + Suc m"
    using q(3) t by (auto simp: less_Suc_eq)
  ultimately show ?case using q(2) by (intro exI [of _ q']) simp
qed

lemma full_client:
  obtains s r where "client_ok s" "\<not> immediate_shutdown s" "num_pending_requests (reqs s) = 250" "creq_abs (reqs s) 5 = Some r"
    "p_key r = Some (''k'' @ NUL # zeros 4070)" "in_use_send (cctx s) = replicate 199 True @ replicate 801 False"
    "cpolls s = Some (write_poll 5) # map (\<lambda>j. Some (send_poll j)) [0..<199] @ []" "posted s = []"
    "blocks s 0 = Some (''v'' @ NUL # [])" "fst (get_new_tid s) = 9"
proof -
  obtain q0 where q0: "creq_inv q0" "num_pending_requests q0 = 249" "\<forall>t. creq_abs q0 t \<noteq> None \<longrightarrow> 100 \<le> unat t \<and> unat t < 348"
    using many_requests [of 248] by auto
  have five: "unat (5 :: 16 word) = 5" by simp
  have new: "creq_abs q0 5 = None" using spec [OF q0(3), of 5] unfolding five by simp
  let ?c = "connected ''v''"
  let ?s = "?c\<lparr>cctx := (cctx ?c)\<lparr>in_use_send := replicate 199 True @ replicate 801 False\<rparr>,
    cpolls := Some (write_poll 5) # map (\<lambda>j. Some (send_poll j)) [0..<199]\<rparr>"
  obtain q where q: "creq_inv q" "creq_abs q = (creq_abs q0)(5 \<mapsto> set_pending good_env (?c\<lparr>reqs := q0\<rparr>) 5 ''k'' 0 1)"
    "num_pending_requests q = 250"
    by (rule kv_set_rdma_ok [of "?c\<lparr>reqs := q0\<rparr>" 5 good_env "''k'' @ NUL # []" "''k''" "[]" _ 1 0]) (use q0 new in simp_all)
  have z: "zeros 4071 = NUL # zeros 4070" by (simp add: zeros_def replicate_Suc [symmetric] del: replicate_Suc)
  have tid: "fst (get_new_tid (?s\<lparr>reqs := q\<rparr>)) = 9"
    using connected_tid [of "''v''"] by (simp add: get_new_tid_def Let_def)
  show ?thesis
    by (rule that [of "?s\<lparr>reqs := q\<rparr>" "set_pending good_env (?c\<lparr>reqs := q0\<rparr>) 5 ''k'' 0 1"])
      (use q connected_ok [of "''v''"] z in \<open>simp_all add: client_ok_def ctx_wf_def set_pending_def tid [simplified]\<close>)
qed

theorem chosen_buffer_taken_by_fin_witness:
  "\<exists>s s' i. num_pending_requests (reqs s) = 250 \<and> posted s = [] \<and>
     kv_set 202 good_env (''a'' @ NUL # []) (Some 0) s = Inr (0, s') \<and>
     posted s' = [Send (fin_message 5 ''k''), Send (set_message 9 ''a'' ''v'')] \<and>
     in_use_send (cctx s') ! i \<and> holds s' i (set_message 9 ''a'' ''v'')"
proof (rule full_client)
  fix s r
  assume s: "client_ok s" "\<not> immediate_shutdown s" "num_pending_requests (reqs s) = 250" "creq_abs (reqs s) 5 = Some r"
    "p_key r = Some (''k'' @ NUL # zeros 4070)" "in_use_send (cctx s) = replicate 199 True @ replicate 801 False"
    "cpolls s = Some (write_poll 5) # map (\<lambda>j. Some (send_poll j)) [0..<199] @ []" "posted s = []"
    "blocks s 0 = Some (''v'' @ NUL # [])" "fst (get_new_tid s) = 9"
  have "0 < count_list (in_use_send (cctx s)) False" unfolding s(6) count_False_pos by (intro exI [of _ 199]) (simp add: nth_append)
  then have "\<exists>s' i. kv_set 202 good_env (''a'' @ NUL # []) (Some 0) s = Inr (0, s') \<and>
    posted s' = posted s @ [Send (fin_message 5 ''k''), Send (set_message (fst (get_new_tid s)) ''a'' ''v'')] \<and>
    i < SERVER_NUM_SEND_BUFFS \<and> \<not> in_use_send (cctx s) ! i \<and>
    (\<forall>j < SERVER_NUM_SEND_BUFFS. in_use_send (cctx s') ! j \<longleftrightarrow> j = i \<or> in_use_send (cctx s) ! j \<and> j \<notin> set [0..<199]) \<and>
    holds s' i (set_message (fst (get_new_tid s)) ''a'' ''v'')"
    by (rule chosen_buffer_taken_by_fin [OF s(1) _ _ s(2-5) _ _ s(7) _ _ _ _ refl _ s(9)]) (simp_all add: s(6) nth_append)
  then obtain s' i where r: "kv_set 202 good_env (''a'' @ NUL # []) (Some 0) s = Inr (0, s')"
    "posted s' = posted s @ [Send (fin_message 5 ''k''), Send (set_message (fst (get_new_tid s)) ''a'' ''v'')]"
    "i < SERVER_NUM_SEND_BUFFS"
    "\<forall>j < SERVER_NUM_SEND_BUFFS. in_use_send (cctx s') ! j \<longleftrightarrow> j = i \<or> in_use_send (cctx s) ! j \<and> j \<notin> set [0..<199]"
    "holds s' i (set_message (fst (get_new_tid s)) ''a'' ''v'')" by blast
  have "in_use_send (cctx s') ! i" using r(3,4) by blast
  then show ?thesis using r(1,2,5) s(3,8,10) by (intro exI [of _ s] exI [of _ s'] exI [of _ i]) simp
qed

end
